(* ===== verification/Prelude.thy ===== *)
theory Prelude
  imports Main "HOL-Library.Word" "HOL-Library.Char_ord"
begin

unbundle bit_operations_syntax

text \<open>
  Shared vocabulary of the development: the machine integer types of
  kernel/types.h, the outcome type of kernel code (a result, a panic, or a
  sleep on a wait channel), the little-endian byte encoding of words, and the
  generic facts on lists, words and outcomes that the component theories use.
\<close>

section \<open>Integer types (kernel/types.h)\<close>

type_synonym u8 = "8 word"
type_synonym u16 = "16 word"
type_synonym u32 = "32 word"
type_synonym u64 = "64 word"

named_theorems res_simps \<open>unfolding of the outcome combinators\<close>
named_theorems layout \<open>values of the memory layout constants\<close>

section \<open>Outcomes of kernel code\<close>

text \<open>
  The kernel sleeps on the address of the object it waits for. Each constructor
  is the address of one such object, so distinct objects are distinct channels.
\<close>

datatype chan =
    Chan_proc nat           \<comment> \<open>a struct proc, in wait()\<close>
  | Chan_ticks              \<comment> \<open>\<open>&ticks\<close>\<close>
  | Chan_log                \<comment> \<open>\<open>&log\<close>\<close>
  | Chan_buflock nat        \<comment> \<open>the sleep-lock of buffer i\<close>
  | Chan_buf nat            \<comment> \<open>buffer i, in the disk driver\<close>
  | Chan_ilock nat          \<comment> \<open>the sleep-lock of in-memory inode i\<close>
  | Chan_nread u64          \<comment> \<open>\<open>&pi->nread\<close> of the pipe at an address\<close>
  | Chan_nwrite u64         \<comment> \<open>\<open>&pi->nwrite\<close> of the pipe at an address\<close>
  | Chan_cons               \<comment> \<open>\<open>&cons.r\<close>\<close>
  | Chan_uart               \<comment> \<open>\<open>&uart_tx_r\<close>\<close>
  | Chan_diskfree           \<comment> \<open>\<open>&disk.free[0]\<close>\<close>

text \<open>
  A kernel function run by one thread either returns, or calls \<open>panic\<close> with a
  message, or gives up the CPU in \<open>sleep\<close> on a channel, or spins on a spin-lock
  that another CPU holds. \<open>Nofuel\<close> is the outcome of a recursion that has gone on
  for longer than the bound the model gives it.
\<close>

datatype 'a res = Ok 'a | Panic string | Sleep chan | Spin | Nofuel

primrec bindr :: "'a res \<Rightarrow> ('a \<Rightarrow> 'b res) \<Rightarrow> 'b res" where
  "bindr (Ok x) f = f x"
| "bindr (Panic m) f = Panic m"
| "bindr (Sleep c) f = Sleep c"
| "bindr Spin f = Spin"
| "bindr Nofuel f = Nofuel"

text \<open>Sequencing for functions that return a value and a new state.\<close>

definition bindp :: "('a \<times> 's) res \<Rightarrow> ('a \<Rightarrow> 's \<Rightarrow> 'b res) \<Rightarrow> 'b res" where
  "bindp r f = bindr r (\<lambda>(x, s). f x s)"

lemma bindp_simps [simp, res_simps]:
  "bindp (Ok (x, s)) f = f x s"
  "bindp (Panic m) f = Panic m"
  "bindp (Sleep c) f = Sleep c"
  "bindp Spin f = Spin"
  "bindp Nofuel f = Nofuel"
  by (simp_all add: bindp_def)

lemma bindr_eq_Ok: "bindr r f = Ok y \<longleftrightarrow> (\<exists>x. r = Ok x \<and> f x = Ok y)"
  by (cases r) auto

lemma bindp_eq_Ok: "bindp r f = Ok y \<longleftrightarrow> (\<exists>x s. r = Ok (x, s) \<and> f x s = Ok y)"
  by (cases r) auto

lemma bindr_OkE:
  assumes "bindr r f = Ok y"
  obtains x where "r = Ok x" "f x = Ok y"
  using assms by (auto simp: bindr_eq_Ok)

lemma bindp_OkE:
  assumes "bindp r f = Ok y"
  obtains x s where "r = Ok (x, s)" "f x s = Ok y"
  using assms by (auto simp: bindp_eq_Ok)

lemma bindr_assoc: "bindr (bindr r f) g = bindr r (\<lambda>x. bindr (f x) g)"
  by (cases r) auto

lemma bindr_cong [fundef_cong]:
  "r = r' \<Longrightarrow> (\<And>x. r' = Ok x \<Longrightarrow> f x = f' x) \<Longrightarrow> bindr r f = bindr r' f'"
  by (cases r') auto

lemma bindp_cong [fundef_cong]:
  "r = r' \<Longrightarrow> (\<And>x s. r' = Ok (x, s) \<Longrightarrow> f x s = f' x s) \<Longrightarrow> bindp r f = bindp r' f'"
  by (cases r') auto

section \<open>Searches\<close>

lemma find_SomeD: "find P xs = Some x \<Longrightarrow> x \<in> set xs \<and> P x"
  by (auto simp: find_Some_iff)

section \<open>Words\<close>

lemma unat_less_u8: "unat (w :: u8) < 256"
  using unsigned_less [of w, where ?'a = nat] by simp

lemma unat_less_u16: "unat (w :: u16) < 65536"
  using unsigned_less [of w, where ?'a = nat] by simp

lemma unat_less_u32: "unat (w :: u32) < 4294967296"
  using unsigned_less [of w, where ?'a = nat] by simp

lemma unat_less_u64: "unat (w :: u64) < 18446744073709551616"
  using unsigned_less [of w, where ?'a = nat] by simp

lemma unat_of_nat_u64 [simp]: "n < 18446744073709551616 \<Longrightarrow> unat (of_nat n :: u64) = n"
  by (simp add: unat_of_nat)

lemma unat_of_nat_u32 [simp]: "n < 4294967296 \<Longrightarrow> unat (of_nat n :: u32) = n"
  by (simp add: unat_of_nat)

text \<open>C's \<open>int\<close>: the value a signed 32-bit addition leaves.\<close>

definition s32 :: "int \<Rightarrow> int" where
  "s32 n = (n + 2147483648) mod 4294967296 - 2147483648"

lemma s32_id: "- 2147483648 \<le> n \<Longrightarrow> n < 2147483648 \<Longrightarrow> s32 n = n"
  by (simp add: s32_def)

lemma sint_of_nat_u32: "m < 2 ^ 31 \<Longrightarrow> sint (of_nat m :: u32) = int m"
  using int_word_sint [where 'a = 32, of "int m"] by simp

section \<open>Words as little-endian byte sequences\<close>

fun word_bytes :: "nat \<Rightarrow> 'a::len word \<Rightarrow> u8 list" where
  "word_bytes 0 w = []"
| "word_bytes (Suc n) w = ucast w # word_bytes n (drop_bit 8 w)"

fun bytes_word :: "u8 list \<Rightarrow> 'a::len word" where
  "bytes_word [] = 0"
| "bytes_word (b # bs) = ucast b OR push_bit 8 (bytes_word bs)"

lemma length_word_bytes [simp]: "length (word_bytes n w) = n"
  by (induction n arbitrary: w) auto

lemma bytes_word_word_bytes_take: "bytes_word (word_bytes n w) = take_bit (8 * n) w"
proof (induction n arbitrary: w)
  case 0
  then show ?case by simp
next
  case (Suc n)
  show ?case
    by (rule bit_word_eqI)
      (auto simp: Suc bit_simps not_less intro: bit_imp_le_length)
qed

lemma bytes_word_word_bytes:
  fixes w :: "'a::len word"
  assumes "LENGTH('a) \<le> 8 * n"
  shows "bytes_word (word_bytes n w) = w"
  by (simp add: bytes_word_word_bytes_take take_bit_word_eq_self assms)

section \<open>Words inside blocks of bytes\<close>

text \<open>A C structure overlaid on a block: the field of \<open>k\<close> bytes at offset \<open>off\<close>.\<close>

definition get_field :: "nat \<Rightarrow> u8 list \<Rightarrow> nat \<Rightarrow> 'a::len word" where
  "get_field k xs off = bytes_word (take k (drop off xs))"

definition put_field :: "nat \<Rightarrow> u8 list \<Rightarrow> nat \<Rightarrow> 'a::len word \<Rightarrow> u8 list" where
  "put_field k xs off v = take off xs @ word_bytes k v @ drop (off + k) xs"

abbreviation get16 :: "u8 list \<Rightarrow> nat \<Rightarrow> u16" where "get16 \<equiv> get_field 2"
abbreviation put16 :: "u8 list \<Rightarrow> nat \<Rightarrow> u16 \<Rightarrow> u8 list" where "put16 \<equiv> put_field 2"
abbreviation get32 :: "u8 list \<Rightarrow> nat \<Rightarrow> u32" where "get32 \<equiv> get_field 4"
abbreviation put32 :: "u8 list \<Rightarrow> nat \<Rightarrow> u32 \<Rightarrow> u8 list" where "put32 \<equiv> put_field 4"

lemma length_put_field [simp]: "off + k \<le> length xs \<Longrightarrow> length (put_field k xs off v) = length xs"
  by (simp add: put_field_def)

lemma get_put_same:
  fixes v :: "'a::len word"
  assumes "off + k \<le> length xs" and "LENGTH('a) \<le> 8 * k"
  shows "get_field k (put_field k xs off v) off = v"
  using assms by (simp add: get_field_def put_field_def bytes_word_word_bytes)

lemma get_put_other:
  assumes "off + k \<le> length xs" and "off' + k' \<le> off \<or> off + k \<le> off'"
  shows "get_field k' (put_field k xs off v) off' = get_field k' xs off'"
proof -
  have "take k' (drop off' (take off xs @ word_bytes k v @ drop (off + k) xs)) = take k' (drop off' xs)"
    using assms(2)
  proof
    assume "off' + k' \<le> off"
    moreover have "length (take off xs) = off" using assms(1) by simp
    ultimately show ?thesis using assms(1) by (auto simp: drop_take min_def)
  next
    assume a: "off + k \<le> off'"
    have l: "length (take off xs @ word_bytes k v) = off + k" using assms(1) by simp
    have "drop off' ((take off xs @ word_bytes k v) @ drop (off + k) xs) = drop off' xs"
      unfolding drop_append l using a assms(1) by simp
    then show ?thesis by simp
  qed
  then show ?thesis by (simp add: get_field_def put_field_def)
qed

end
