(* ===== verification/Memory.thy ===== *)
theory Memory
  imports Prelude
begin

text \<open>
  Physical memory as a map from 64-bit addresses to bytes, with the routines of
  kernel/string.c as loops over it. The lemmas give each routine its closed
  form: \<open>memset\<close> fills exactly its range, \<open>memmove\<close> copies correctly whatever
  the overlap, \<open>strncpy\<close> and \<open>safestrcpy\<close> write the bytes their comments promise.
\<close>

type_synonym mem = "u64 \<Rightarrow> u8"

section \<open>Ranges of bytes\<close>

primrec read_bytes :: "mem \<Rightarrow> u64 \<Rightarrow> nat \<Rightarrow> u8 list" where
  "read_bytes m a 0 = []"
| "read_bytes m a (Suc n) = m a # read_bytes m (a + 1) n"

primrec write_bytes :: "mem \<Rightarrow> u64 \<Rightarrow> u8 list \<Rightarrow> mem" where
  "write_bytes m a [] = m"
| "write_bytes m a (b # bs) = write_bytes (m(a := b)) (a + 1) bs"

text \<open>A 64-bit load or store, as the compiled code does it on a little-endian machine.\<close>

definition load64 :: "mem \<Rightarrow> u64 \<Rightarrow> u64" where
  "load64 m a = bytes_word (read_bytes m a 8)"

definition store64 :: "mem \<Rightarrow> u64 \<Rightarrow> u64 \<Rightarrow> mem" where
  "store64 m a v = write_bytes m a (word_bytes 8 v)"

section \<open>The routines of kernel/string.c\<close>

function memset_loop :: "mem \<Rightarrow> u64 \<Rightarrow> u8 \<Rightarrow> nat \<Rightarrow> nat \<Rightarrow> mem" where
  "memset_loop m dst c i n =
     (if i < n then memset_loop (m(dst + of_nat i := c)) dst c (Suc i) n else m)"
  by pat_completeness auto
termination
  by (relation "measure (\<lambda>(m, dst, c, i, n). n - i)") auto

declare memset_loop.simps [simp del]

definition memset :: "mem \<Rightarrow> u64 \<Rightarrow> u32 \<Rightarrow> u32 \<Rightarrow> mem" where
  "memset m dst c n = memset_loop m dst (ucast c) 0 (unat n)"

fun memcmp_loop :: "mem \<Rightarrow> u64 \<Rightarrow> u64 \<Rightarrow> nat \<Rightarrow> int" where
  "memcmp_loop m s1 s2 0 = 0"
| "memcmp_loop m s1 s2 (Suc n) =
     (if m s1 \<noteq> m s2 then uint (m s1) - uint (m s2)
      else memcmp_loop m (s1 + 1) (s2 + 1) n)"

definition memcmp :: "mem \<Rightarrow> u64 \<Rightarrow> u64 \<Rightarrow> u32 \<Rightarrow> int" where
  "memcmp m v1 v2 n = memcmp_loop m v1 v2 (unat n)"

text \<open>\<open>while(n-- > 0) *d++ = *s++;\<close> and \<open>while(n-- > 0) *--d = *--s;\<close>\<close>

fun copy_up :: "mem \<Rightarrow> u64 \<Rightarrow> u64 \<Rightarrow> nat \<Rightarrow> mem" where
  "copy_up m d s 0 = m"
| "copy_up m d s (Suc n) = copy_up (m(d := m s)) (d + 1) (s + 1) n"

fun copy_down :: "mem \<Rightarrow> u64 \<Rightarrow> u64 \<Rightarrow> nat \<Rightarrow> mem" where
  "copy_down m d s 0 = m"
| "copy_down m d s (Suc n) = copy_down (m(d - 1 := m (s - 1))) (d - 1) (s - 1) n"

definition memmove :: "mem \<Rightarrow> u64 \<Rightarrow> u64 \<Rightarrow> u32 \<Rightarrow> mem" where
  "memmove m dst src n =
     (if src < dst \<and> src + ucast n > dst
      then copy_down m (dst + ucast n) (src + ucast n) (unat n)
      else copy_up m dst src (unat n))"

definition memcpy :: "mem \<Rightarrow> u64 \<Rightarrow> u64 \<Rightarrow> u32 \<Rightarrow> mem" where
  "memcpy m dst src n = memmove m dst src n"

fun strncmp_loop :: "mem \<Rightarrow> u64 \<Rightarrow> u64 \<Rightarrow> nat \<Rightarrow> int" where
  "strncmp_loop m p q 0 = 0"
| "strncmp_loop m p q (Suc n) =
     (if m p \<noteq> 0 \<and> m p = m q then strncmp_loop m (p + 1) (q + 1) n
      else uint (m p) - uint (m q))"

definition strncmp :: "mem \<Rightarrow> u64 \<Rightarrow> u64 \<Rightarrow> u32 \<Rightarrow> int" where
  "strncmp m p q n = strncmp_loop m p q (unat n)"

fun zero_fill :: "mem \<Rightarrow> u64 \<Rightarrow> nat \<Rightarrow> mem" where
  "zero_fill m s 0 = m"
| "zero_fill m s (Suc n) = zero_fill (m(s := 0)) (s + 1) n"

fun strncpy_loop :: "mem \<Rightarrow> u64 \<Rightarrow> u64 \<Rightarrow> nat \<Rightarrow> mem" where
  "strncpy_loop m s t 0 = m"
| "strncpy_loop m s t (Suc n) =
     (let c = m t; m' = m(s := c)
      in if c \<noteq> 0 then strncpy_loop m' (s + 1) (t + 1) n
         else zero_fill m' (s + 1) n)"

definition strncpy :: "mem \<Rightarrow> u64 \<Rightarrow> u64 \<Rightarrow> int \<Rightarrow> mem" where
  "strncpy m s t n = strncpy_loop m s t (nat n)"

text \<open>
  \<open>while(--n > 0 && (*s++ = *t++) != 0) ; *s = 0;\<close> entered with \<open>n > 0\<close>; the
  argument of the loop is \<open>n - 1\<close>, the value after the first decrement.
\<close>

fun safestrcpy_loop :: "mem \<Rightarrow> u64 \<Rightarrow> u64 \<Rightarrow> nat \<Rightarrow> mem" where
  "safestrcpy_loop m s t 0 = m(s := 0)"
| "safestrcpy_loop m s t (Suc n) =
     (let c = m t; m' = m(s := c)
      in if c \<noteq> 0 then safestrcpy_loop m' (s + 1) (t + 1) n
         else m'(s + 1 := 0))"

definition safestrcpy :: "mem \<Rightarrow> u64 \<Rightarrow> u64 \<Rightarrow> int \<Rightarrow> mem" where
  "safestrcpy m s t n = (if n \<le> 0 then m else safestrcpy_loop m s t (nat n - 1))"

text \<open>\<open>strlen\<close> runs until it meets a NUL byte; \<open>None\<close> if there is none.\<close>

partial_function (option) strlen_from :: "mem \<Rightarrow> u64 \<Rightarrow> nat \<Rightarrow> nat option" where
  "strlen_from m s n =
     (if m (s + of_nat n) = 0 then Some n else strlen_from m s (Suc n))"

definition strlen :: "mem \<Rightarrow> u64 \<Rightarrow> nat option" where
  "strlen m s = strlen_from m s 0"

section \<open>Address arithmetic\<close>

lemma unat_diff_succ:
  fixes a d :: u64
  assumes "a \<noteq> d"
  shows "Suc (unat (a - (d + 1))) = unat (a - d)"
proof -
  have "a - d \<noteq> 0" using assms by simp
  then have "unat (a - d - 1) = unat (a - d) - 1" and "0 < unat (a - d)"
    by (simp_all add: unat_minus_one unat_gt_0)
  then show ?thesis by (simp add: diff_diff_eq)
qed

lemma unat_diff_self_succ: "unat (a - (a + 1) :: u64) = 2 ^ 64 - 1"
  by (simp add: unsigned_minus_1_eq_mask mask_eq_exp_minus_1)

lemma in_range_succ:
  fixes a d :: u64
  assumes "n < 2 ^ 64"
  shows "unat (a - d) < Suc n \<longleftrightarrow> a = d \<or> unat (a - (d + 1)) < n"
  using unat_diff_succ [of a d] unat_diff_self_succ [of d] assms by (cases "a = d") auto


lemma in_range_snoc:
  fixes a d :: u64
  assumes "n < 2 ^ 64"
  shows "unat (a - d) < Suc n \<longleftrightarrow> a = d + of_nat n \<or> unat (a - d) < n"
proof -
  have "unat (a - d) = n \<longleftrightarrow> a = d + of_nat n"
    using assms by (auto simp: algebra_simps)
  then show ?thesis by (auto simp: less_Suc_eq)
qed

section \<open>Closed forms\<close>

lemma memset_loop_apply:
  "i \<le> n \<Longrightarrow> n \<le> 2 ^ 64 \<Longrightarrow>
   memset_loop m dst c i n a =
     (if i \<le> unat (a - dst) \<and> unat (a - dst) < n then c else m a)"
proof (induction m dst c i n rule: memset_loop.induct)
  case (1 m dst c i n)
  show ?case
  proof (cases "i < n")
    case True
    have eq: "unat (a - dst) = i \<longleftrightarrow> a = dst + of_nat i"
      using True 1(3) by (auto simp: algebra_simps)
    have ih: "memset_loop (m(dst + of_nat i := c)) dst c (Suc i) n a =
        (if Suc i \<le> unat (a - dst) \<and> unat (a - dst) < n then c else (m(dst + of_nat i := c)) a)"
      using True 1(3) by (intro 1(1)) auto
    show ?thesis
      using True eq by (auto simp: memset_loop.simps [of m dst c i n] ih)
  next
    case False
    then show ?thesis using 1(2) by (subst memset_loop.simps) auto
  qed
qed

lemma memset_apply:
  "memset m dst c n a = (if unat (a - dst) < unat n then ucast c else m a)"
  unfolding memset_def using unat_less_u32 [of n] by (subst memset_loop_apply) auto

lemma copy_up_apply:
  assumes "n < 2 ^ 64" and "\<And>i j. i < j \<Longrightarrow> j < n \<Longrightarrow> s + of_nat j \<noteq> d + of_nat i"
  shows "copy_up m d s n a = (if unat (a - d) < n then m (s + (a - d)) else m a)"
  using assms
proof (induction n arbitrary: m d s)
  case 0
  then show ?case by simp
next
  case (Suc n)
  have ih: "copy_up m' (d + 1) (s + 1) n a =
      (if unat (a - (d + 1)) < n then m' (s + 1 + (a - (d + 1))) else m' a)" for m'
  proof (rule Suc.IH)
    show "n < 2 ^ 64" using Suc.prems(1) by simp
    fix i j :: nat
    assume "i < j" "j < n"
    then have "s + of_nat (Suc j) \<noteq> d + of_nat (Suc i)"
      by (intro Suc.prems(2)) auto
    then show "s + 1 + of_nat j \<noteq> d + 1 + of_nat i" by (simp add: ac_simps)
  qed
  have away: "s + (a - d) \<noteq> d" if "unat (a - (d + 1)) < n" "a \<noteq> d"
  proof -
    have "0 < unat (a - d)" and "unat (a - d) < Suc n"
      using that unat_diff_succ [of a d] by (auto simp: unat_gt_0)
    from Suc.prems(2) [OF this] show ?thesis by simp
  qed
  have "n < 2 ^ 64" using Suc.prems(1) by simp
  show ?case
  proof (cases "a = d")
    case True
    then show ?thesis
      unfolding copy_up.simps ih
      using unat_diff_self_succ [of d] \<open>n < 2 ^ 64\<close> by simp
  next
    case False
    then show ?thesis
      using away by (simp add: ih in_range_succ [OF \<open>n < 2 ^ 64\<close>])
  qed
qed

lemma copy_down_apply:
  assumes "n < 2 ^ 64" and "\<And>i j. i < j \<Longrightarrow> j < n \<Longrightarrow> s - 1 - of_nat j \<noteq> d - 1 - of_nat i"
  shows "copy_down m d s n a =
    (if unat (a - (d - of_nat n)) < n then m (s - of_nat n + (a - (d - of_nat n))) else m a)"
  using assms
proof (induction n arbitrary: m d s)
  case 0
  then show ?case by simp
next
  case (Suc n)
  let ?b = "d - of_nat (Suc n)"
  have ih: "copy_down m' (d - 1) (s - 1) n a =
      (if unat (a - ?b) < n then m' (s - of_nat (Suc n) + (a - ?b)) else m' a)" for m'
  proof -
    have "copy_down m' (d - 1) (s - 1) n a =
      (if unat (a - (d - 1 - of_nat n)) < n
       then m' (s - 1 - of_nat n + (a - (d - 1 - of_nat n))) else m' a)"
    proof (rule Suc.IH)
      show "n < 2 ^ 64" using Suc.prems(1) by simp
      fix i j :: nat
      assume "i < j" "j < n"
      then have "s - 1 - of_nat (Suc j) \<noteq> d - 1 - of_nat (Suc i)"
        by (intro Suc.prems(2)) auto
      then show "s - 1 - 1 - of_nat j \<noteq> d - 1 - 1 - of_nat i" by (simp add: algebra_simps)
    qed
    then show ?thesis by (simp add: algebra_simps)
  qed
  have n: "n < 2 ^ 64" using Suc.prems(1) by simp
  have away: "s - of_nat (Suc n) + (a - ?b) \<noteq> d - 1" if "unat (a - ?b) < n"
  proof -
    let ?k = "unat (a - ?b)"
    have "s - 1 - of_nat (n - ?k) \<noteq> d - 1"
      using that Suc.prems(2) [of 0 "n - ?k"] by simp
    moreover have "of_nat (n - ?k) = (of_nat n - (a - ?b) :: u64)"
      using that by (simp add: of_nat_diff)
    moreover have "s - 1 - (of_nat n - K) = s - of_nat (Suc n) + K" for K :: u64
      by (simp add: algebra_simps)
    ultimately show ?thesis by (simp only: not_False_eq_True)
  qed
  have top: "a = ?b + of_nat n \<longleftrightarrow> a = d - 1" by (simp add: algebra_simps)
  show ?case
  proof (cases "a = d - 1")
    case True
    then have "unat (a - ?b) = n" using n by simp
    then show ?thesis unfolding copy_down.simps ih using True by simp
  next
    case False
    then show ?thesis unfolding copy_down.simps ih
      using away in_range_snoc [OF n, of a ?b] top by auto
  qed
qed

text \<open>
  The pointers of a C object do not wrap around the address space; then every
  overlap of source and destination is copied as if through a buffer.
\<close>

lemma memmove_apply:
  assumes "unat src + unat n < 2 ^ 64" and "unat dst + unat n < 2 ^ 64"
  shows "memmove m dst src n a =
    (if unat (a - dst) < unat n then m (src + (a - dst)) else m a)"
proof -
  have n: "unat n < 2 ^ 64" and ucn: "ucast n = (of_nat (unat n) :: u64)"
    using unat_less_u32 [of n] by simp_all
  have pt: "unat (x + of_nat i) = unat x + i" if "i \<le> unat n" "unat x + unat n < 2 ^ 64" for x :: u64 and i
    using that by (subst unat_word_ariths) simp
  show ?thesis
  proof (cases "src < dst \<and> src + ucast n > dst")
    case True
    have "copy_down m (dst + ucast n) (src + ucast n) (unat n) a =
      (if unat (a - (dst + ucast n - of_nat (unat n))) < unat n
       then m (src + ucast n - of_nat (unat n) + (a - (dst + ucast n - of_nat (unat n)))) else m a)"
    proof (rule copy_down_apply [OF n])
      fix i j assume ij: "i < j" "j < unat n"
      have eq: "x + ucast n - 1 - of_nat k = x + of_nat (unat n - 1 - k)"
        if "k < unat n" for x :: u64 and k
      proof -
        from that obtain r where r: "unat n = Suc (k + r)"
          by (metis less_imp_Suc_add)
        show ?thesis unfolding ucn r by (simp add: algebra_simps)
      qed
      have "unat (src + of_nat (unat n - 1 - j)) = unat src + (unat n - 1 - j)"
        "unat (dst + of_nat (unat n - 1 - i)) = unat dst + (unat n - 1 - i)"
        using ij assms by (intro pt; linarith)+
      then have "unat (src + of_nat (unat n - 1 - j)) < unat (dst + of_nat (unat n - 1 - i))"
        using True ij unfolding word_less_nat_alt by linarith
      then show "src + ucast n - 1 - of_nat j \<noteq> dst + ucast n - 1 - of_nat i"
        unfolding eq [OF ij(2)] eq [OF less_trans [OF ij]] by (metis less_irrefl_nat)
    qed
    then show ?thesis using True by (simp add: memmove_def)
  next
    case False
    have "copy_up m dst src (unat n) a =
      (if unat (a - dst) < unat n then m (src + (a - dst)) else m a)"
    proof (rule copy_up_apply [OF n])
      fix i j assume ij: "i < j" "j < unat n"
      have "unat (src + of_nat (unat n)) = unat src + unat n"
        using assms(1) by (simp only: pt)
      then have "unat dst \<le> unat src \<or> unat src + unat n \<le> unat dst"
        using False unfolding ucn word_less_nat_alt by linarith
      moreover have "unat (src + of_nat j) = unat src + j" "unat (dst + of_nat i) = unat dst + i"
        using ij assms by (auto intro!: pt)
      ultimately have "unat (src + of_nat j) \<noteq> unat (dst + of_nat i)"
        using ij by linarith
      then show "src + of_nat j \<noteq> dst + of_nat i" by metis
    qed
    then show ?thesis using False by (auto simp: memmove_def)
  qed
qed

lemma length_read_bytes [simp]: "length (read_bytes m a n) = n"
  by (induction n arbitrary: a) auto

lemma nth_read_bytes: "i < n \<Longrightarrow> read_bytes m a n ! i = m (a + of_nat i)"
proof (induction n arbitrary: a i)
  case 0
  then show ?case by simp
next
  case (Suc n)
  then show ?case by (cases i) (auto simp: ac_simps)
qed

lemma read_bytes_map: "read_bytes m a n = map (\<lambda>i. m (a + of_nat i)) [0..<n]"
  by (rule nth_equalityI) (auto simp: nth_read_bytes)

lemma read_bytes_cong:
  "(\<And>i. i < n \<Longrightarrow> m (a + of_nat i) = m' (a + of_nat i)) \<Longrightarrow> read_bytes m a n = read_bytes m' a n"
  by (auto simp: read_bytes_map)

lemma read_bytes_add: "read_bytes m a (i + j) = read_bytes m a i @ read_bytes m (a + of_nat i) j"
  by (induction i arbitrary: a) (auto simp: ac_simps)

lemma write_bytes_apply:
  assumes "length bs < 2 ^ 64"
  shows "write_bytes m a bs x = (if unat (x - a) < length bs then bs ! unat (x - a) else m x)"
  using assms
proof (induction bs arbitrary: m a)
  case Nil
  then show ?case by simp
next
  case (Cons b bs)
  have len: "length bs < 2 ^ 64" using Cons.prems by simp
  show ?case
  proof (cases "x = a")
    case True
    have "unat (a - (a + 1)) = 2 ^ 64 - 1" by (rule unat_diff_self_succ)
    then have "\<not> unat (a - (a + 1)) < length bs" using Cons.prems by simp
    then show ?thesis using Cons.IH [OF len] True by simp
  next
    case False
    then show ?thesis
      unfolding write_bytes.simps Cons.IH [OF len] by (simp flip: unat_diff_succ [OF False])
  qed
qed

lemma read_write_bytes_same:
  "length bs < 2 ^ 64 \<Longrightarrow> read_bytes (write_bytes m a bs) a (length bs) = bs"
  by (rule nth_equalityI) (auto simp: nth_read_bytes write_bytes_apply)

lemma load64_cong:
  "(\<And>i. i < 8 \<Longrightarrow> m (a + of_nat i) = m' (a + of_nat i)) \<Longrightarrow> load64 m a = load64 m' a"
  unfolding load64_def by (intro arg_cong [where f = bytes_word] read_bytes_cong) auto

lemma load64_store64_same [simp]: "load64 (store64 m a v) a = v"
  using read_write_bytes_same [of "word_bytes 8 v" m a]
  by (simp add: load64_def store64_def bytes_word_word_bytes del: read_bytes.simps word_bytes.simps)

lemma store64_apply_other: "\<not> unat (x - a) < 8 \<Longrightarrow> store64 m a v x = m x"
  by (simp add: store64_def write_bytes_apply del: word_bytes.simps)

section \<open>Strings\<close>

text \<open>The string routines on byte lists, as specifications of the loops over memory.\<close>

definition strncpy_bytes :: "u8 list \<Rightarrow> u8 list" where
  "strncpy_bytes bs = (let cs = takeWhile (\<lambda>c. c \<noteq> 0) bs in cs @ replicate (length bs - length cs) 0)"

fun strncmp_bytes :: "u8 list \<Rightarrow> u8 list \<Rightarrow> int" where
  "strncmp_bytes (p # ps) (q # qs) =
     (if p \<noteq> 0 \<and> p = q then strncmp_bytes ps qs else uint p - uint q)"
| "strncmp_bytes _ _ = 0"

definition disjoint_ranges :: "u64 \<Rightarrow> u64 \<Rightarrow> nat \<Rightarrow> bool" where
  "disjoint_ranges s t n \<longleftrightarrow> (\<forall>i < n. \<forall>j < n. s + of_nat i \<noteq> t + of_nat j)"

lemma disjoint_ranges_Suc:
  assumes "disjoint_ranges s t (Suc n)"
  shows "disjoint_ranges (s + 1) (t + 1) n"
  unfolding disjoint_ranges_def
proof (intro allI impI)
  fix i j assume "i < n" "j < n"
  then have "s + of_nat (Suc i) \<noteq> t + of_nat (Suc j)"
    using assms unfolding disjoint_ranges_def by (meson Suc_mono)
  then show "s + 1 + of_nat i \<noteq> t + 1 + of_nat j" by (simp add: ac_simps)
qed

lemma disjoint_ranges_fst:
  "disjoint_ranges s t (Suc n) \<Longrightarrow> j < n \<Longrightarrow> s \<noteq> t + of_nat (Suc j)"
  unfolding disjoint_ranges_def by (drule spec [of _ 0]) auto

lemma strncmp_loop_bytes:
  "strncmp_loop m p q n = strncmp_bytes (read_bytes m p n) (read_bytes m q n)"
  by (induction n arbitrary: p q) auto

lemma strncmp_bytes_eq_0:
  "length ps = length qs \<Longrightarrow> strncmp_bytes ps qs = 0 \<longleftrightarrow>
   takeWhile (\<lambda>c. c \<noteq> 0) ps = takeWhile (\<lambda>c. c \<noteq> 0) qs"
proof (induction ps qs rule: list_induct2)
  case Nil
  then show ?case by simp
next
  case (Cons p ps q qs)
  then show ?case by (auto simp: word_uint_eq_iff)
qed

lemma zero_fill_eq: "zero_fill m s n = write_bytes m s (replicate n 0)"
  by (induction n arbitrary: m s) auto

lemma strncpy_bytes_Cons:
  "strncpy_bytes (c # cs) = (if c \<noteq> 0 then c # strncpy_bytes cs else replicate (Suc (length cs)) 0)"
  by (simp add: strncpy_bytes_def Let_def)

lemma read_bytes_upd_disjoint:
  assumes "disjoint_ranges s t (Suc n)"
  shows "read_bytes (m(s := c)) (t + 1) n = read_bytes m (t + 1) n"
proof (rule read_bytes_cong)
  fix i assume "i < n"
  from disjoint_ranges_fst [OF assms this]
  show "(m(s := c)) (t + 1 + of_nat i) = m (t + 1 + of_nat i)" by (simp add: ac_simps)
qed

lemma strncpy_loop_eq:
  "disjoint_ranges s t n \<Longrightarrow> strncpy_loop m s t n = write_bytes m s (strncpy_bytes (read_bytes m t n))"
proof (induction n arbitrary: m s t)
  case 0
  then show ?case by (simp add: strncpy_bytes_def)
next
  case (Suc n)
  have ih: "strncpy_loop (m(s := m t)) (s + 1) (t + 1) n =
      write_bytes (m(s := m t)) (s + 1) (strncpy_bytes (read_bytes (m(s := m t)) (t + 1) n))"
    by (rule Suc.IH [OF disjoint_ranges_Suc [OF Suc.prems]])
  show ?case
    unfolding strncpy_loop.simps Let_def ih read_bytes_upd_disjoint [OF Suc.prems]
    by (simp add: strncpy_bytes_Cons zero_fill_eq)
qed

text \<open>
  \<open>safestrcpy\<close>: the bytes up to the first NUL, at most \<open>n - 1\<close> of them, then a NUL.
  When the source ends early the loop has already copied its NUL and writes a second one.
\<close>

definition safestrcpy_bytes :: "u8 list \<Rightarrow> u8 list" where
  "safestrcpy_bytes bs =
     (let cs = takeWhile (\<lambda>c. c \<noteq> 0) bs
      in if length cs < length bs then cs @ [0, 0] else cs @ [0])"

lemma safestrcpy_bytes_Cons:
  "safestrcpy_bytes (c # cs) = (if c \<noteq> 0 then c # safestrcpy_bytes cs else [0, 0])"
  by (simp add: safestrcpy_bytes_def Let_def)

lemma safestrcpy_loop_eq:
  "disjoint_ranges s t n \<Longrightarrow> safestrcpy_loop m s t n = write_bytes m s (safestrcpy_bytes (read_bytes m t n))"
proof (induction n arbitrary: m s t)
  case 0
  then show ?case by (simp add: safestrcpy_bytes_def)
next
  case (Suc n)
  have ih: "safestrcpy_loop (m(s := m t)) (s + 1) (t + 1) n =
      write_bytes (m(s := m t)) (s + 1) (safestrcpy_bytes (read_bytes (m(s := m t)) (t + 1) n))"
    by (rule Suc.IH [OF disjoint_ranges_Suc [OF Suc.prems]])
  show ?case
    unfolding safestrcpy_loop.simps Let_def ih read_bytes_upd_disjoint [OF Suc.prems]
    by (simp add: safestrcpy_bytes_Cons fun_upd_def)
qed

lemma length_safestrcpy_bytes: "length (safestrcpy_bytes bs) \<le> Suc (length bs)"
  using length_takeWhile_le [of "\<lambda>c. c \<noteq> 0" bs] by (simp add: safestrcpy_bytes_def Let_def)

text \<open>A NUL-terminated string in memory.\<close>

definition cstr :: "mem \<Rightarrow> u64 \<Rightarrow> u8 list \<Rightarrow> bool" where
  "cstr m a bs \<longleftrightarrow> 0 \<notin> set bs \<and> read_bytes m a (Suc (length bs)) = bs @ [0]"

lemma cstr_nth:
  assumes "cstr m a bs"
  shows "i < length bs \<Longrightarrow> m (a + of_nat i) = bs ! i" "m (a + of_nat (length bs)) = 0"
proof -
  have *: "read_bytes m a (Suc (length bs)) = bs @ [0]"
    using assms unfolding cstr_def by blast
  have **: "m (a + of_nat j) = (bs @ [0]) ! j" if "j < Suc (length bs)" for j
    using nth_read_bytes [OF that, of m a] unfolding * by simp
  show "m (a + of_nat (length bs)) = 0" using ** [of "length bs"] by simp
  show "m (a + of_nat i) = bs ! i" if "i < length bs" using ** [of i] that by (simp add: nth_append)
qed

lemma strlen_from_cstr:
  assumes "cstr m s bs" and "i \<le> length bs"
  shows "strlen_from m s i = Some (length bs)"
  using assms(2)
proof (induction "length bs - i" arbitrary: i)
  case 0
  then have "i = length bs" by simp
  then show ?case using cstr_nth(2) [OF assms(1)] by (subst strlen_from.simps) simp
next
  case (Suc k)
  then have "i < length bs" by simp
  then have "m (s + of_nat i) \<noteq> 0"
    using cstr_nth(1) [OF assms(1)] assms(1) by (metis cstr_def nth_mem)
  moreover have "strlen_from m s (Suc i) = Some (length bs)"
    using Suc by (intro Suc.hyps) auto
  ultimately show ?case by (subst strlen_from.simps) simp
qed

section \<open>Properties\<close>

text \<open>
  C11: \<open>memmove\<close> copies correctly whatever the overlap of the two ranges: afterwards
  the destination holds the bytes the source held before, and no byte outside the
  destination has changed. The ranges must not wrap around the address space.
\<close>

theorem memmove_overlap_safe:
  assumes "unat src + unat n < 2 ^ 64" and "unat dst + unat n < 2 ^ 64"
  shows "read_bytes (memmove m dst src n) dst (unat n) = read_bytes m src (unat n) \<and>
    (\<forall>a. \<not> unat (a - dst) < unat n \<longrightarrow> memmove m dst src n a = m a)"
proof (intro conjI allI impI nth_equalityI)
  fix i assume "i < length (read_bytes (memmove m dst src n) dst (unat n))"
  then have i: "i < unat n" by simp
  then have "i < 18446744073709551616" using unat_less_u32 [of n] by linarith
  then show "read_bytes (memmove m dst src n) dst (unat n) ! i = read_bytes m src (unat n) ! i"
    using i by (simp add: nth_read_bytes memmove_apply [OF assms])
qed (simp_all add: memmove_apply [OF assms])

theorem memmove_overlap_safe_witness:
  "read_bytes (memmove (\<lambda>a. ucast a) 2 0 4) 2 4 = read_bytes (\<lambda>a. ucast a) 0 4 \<and>
   memmove (\<lambda>a. ucast a) 2 0 4 6 = 6"
  using memmove_overlap_safe [of 0 4 2 "\<lambda>a. ucast a"] by simp

text \<open>
  \<open>strncmp\<close> returns 0 exactly when the two strings, cut at \<open>n\<close> bytes and at
  their first NUL, are equal.
\<close>

theorem strncmp_zero_iff:
  "strncmp m p q n = 0 \<longleftrightarrow>
     takeWhile (\<lambda>c. c \<noteq> 0) (read_bytes m p (unat n)) = takeWhile (\<lambda>c. c \<noteq> 0) (read_bytes m q (unat n))"
  by (simp add: strncmp_def strncmp_loop_bytes strncmp_bytes_eq_0)

text \<open>
  \<open>safestrcpy\<close> into a buffer of \<open>n\<close> bytes that does not overlap the source
  always leaves a NUL-terminated string there, which is the source string cut
  to \<open>n - 1\<close> bytes, and writes nothing outside the buffer.
\<close>

theorem safestrcpy_terminates_string:
  assumes "0 < n" and "n < 2 ^ 31" and "disjoint_ranges s t (nat n)"
  shows "(\<exists>k < nat n. safestrcpy m s t n (s + of_nat k) = 0 \<and>
      read_bytes (safestrcpy m s t n) s k = takeWhile (\<lambda>c. c \<noteq> 0) (read_bytes m t (nat n - 1))) \<and>
    (\<forall>a. \<not> unat (a - s) < nat n \<longrightarrow> safestrcpy m s t n a = m a)"
proof -
  let ?bs = "read_bytes m t (nat n - 1)"
  let ?cs = "takeWhile (\<lambda>c. c \<noteq> 0) ?bs" and ?out = "safestrcpy_bytes ?bs"
  have "disjoint_ranges s t (nat n - 1)"
    using assms(3) unfolding disjoint_ranges_def by (meson diff_le_self less_le_trans)
  then have eq: "safestrcpy m s t n = write_bytes m s ?out"
    using assms(1) by (simp add: safestrcpy_def safestrcpy_loop_eq)
  have len: "length ?out \<le> nat n" using length_safestrcpy_bytes [of ?bs] assms(1) by simp
  moreover have "nat n < 2 ^ 31" using assms(1,2) by simp
  ultimately have small: "length ?out < 2 ^ 64" by simp
  have cs: "length ?cs < length ?out" "?out ! length ?cs = 0" "\<And>i. i < length ?cs \<Longrightarrow> ?out ! i = ?cs ! i"
    by (simp_all add: safestrcpy_bytes_def Let_def nth_append)
  let ?k = "length ?cs"
  have at: "safestrcpy m s t n (s + of_nat i) = ?out ! i" if "i < length ?out" for i
    using that small by (simp add: eq write_bytes_apply)
  have "read_bytes (safestrcpy m s t n) s ?k = ?cs"
  proof (rule nth_equalityI)
    fix i assume "i < length (read_bytes (safestrcpy m s t n) s ?k)"
    then have i: "i < ?k" by simp
    then show "read_bytes (safestrcpy m s t n) s ?k ! i = ?cs ! i"
      using at [of i] cs(1) cs(3) [OF i] by (simp add: nth_read_bytes)
  qed simp
  moreover have "safestrcpy m s t n (s + of_nat ?k) = 0" using at [OF cs(1)] cs(2) by simp
  moreover have "?k < nat n" using cs(1) len by linarith
  moreover have "safestrcpy m s t n a = m a" if "\<not> unat (a - s) < nat n" for a
    unfolding eq write_bytes_apply [OF small] using that len by simp
  ultimately show ?thesis by blast
qed

theorem safestrcpy_terminates_string_witness:
  "\<exists>k < 3. safestrcpy (\<lambda>a. ucast a) 0 100 3 (0 + of_nat k) = 0"
proof -
  have "disjoint_ranges 0 100 (nat 3)"
    by (auto simp: disjoint_ranges_def numeral_3_eq_3 less_Suc_eq)
  then show ?thesis
    using safestrcpy_terminates_string [of 3 0 100 "\<lambda>a. ucast a"] by auto
qed

end
