(* ===== verification/Kalloc.thy ===== *)
theory Kalloc
  imports Memory
begin

text \<open>
  kernel/kalloc.c: the physical page allocator. The free list is a linked list
  threaded through the first eight bytes of the free pages themselves, so the
  model keeps it in memory: \<open>freelist\<close> is the head pointer and each \<open>next\<close> is a
  64-bit load. \<open>free_pages\<close> relates that memory to the list of free pages; the
  operations are shown to implement a stack of pages, and the locale
  \<open>page_allocator\<close> is what the virtual memory code relies on.
\<close>

section \<open>Pages and the memory layout (kernel/riscv.h, kernel/memlayout.h)\<close>

definition PGSIZE :: u64 where [simp]: "PGSIZE = 4096"
definition KERNBASE :: u64 where [simp]: "KERNBASE = 0x80000000"
definition PHYSTOP :: u64 where [simp]: "PHYSTOP = KERNBASE + 128 * 1024 * 1024"

definition PGROUNDUP :: "u64 \<Rightarrow> u64" where
  "PGROUNDUP sz = (sz + PGSIZE - 1) AND NOT (PGSIZE - 1)"

definition PGROUNDDOWN :: "u64 \<Rightarrow> u64" where
  "PGROUNDDOWN a = a AND NOT (PGSIZE - 1)"

section \<open>The allocator\<close>

text \<open>
  \<open>kend\<close> is the linker symbol \<open>end\<close> (kernel/kernel.ld), the first address after
  the kernel image. The lock \<open>kmem.lock\<close> brackets each access to the list; a
  run of the model is one such critical section.
\<close>

record kmem =
  pmem :: mem
  freelist :: u64
  kend :: u64

definition kfree :: "u64 \<Rightarrow> 'a kmem_scheme \<Rightarrow> 'a kmem_scheme res" where
  "kfree pa s =
     (if pa mod PGSIZE \<noteq> 0 \<or> pa < kend s \<or> pa \<ge> PHYSTOP then Panic ''kfree''
      else let m = memset (pmem s) pa 1 4096
           in Ok (s\<lparr>pmem := store64 m pa (freelist s), freelist := pa\<rparr>))"

definition kalloc :: "'a kmem_scheme \<Rightarrow> u64 \<times> 'a kmem_scheme" where
  "kalloc s =
     (let r = freelist s;
          s1 = (if r \<noteq> 0 then s\<lparr>freelist := load64 (pmem s) r\<rparr> else s);
          s2 = (if r \<noteq> 0 then s1\<lparr>pmem := memset (pmem s1) r 5 4096\<rparr> else s1)
      in (r, s2))"

function freerange_loop :: "u64 \<Rightarrow> u64 \<Rightarrow> 'a kmem_scheme \<Rightarrow> 'a kmem_scheme res" where
  "freerange_loop p pa_end s =
     (if p + PGSIZE \<le> pa_end
      then bindr (kfree p s) (\<lambda>s'. freerange_loop (p + PGSIZE) pa_end s')
      else Ok s)"
  by pat_completeness auto
termination
proof (relation "measure (\<lambda>(p, pa_end, s). unat PHYSTOP - unat p)", goal_cases)
  case 1
  show ?case by simp
next
  case (2 p pa_end s s')
  then have "unat p < unat PHYSTOP"
    by (auto simp: kfree_def word_less_nat_alt Let_def not_le split: if_splits)
  moreover from this have "unat (p + PGSIZE) = unat p + 4096"
    by (simp add: unat_word_ariths)
  ultimately show ?case by simp
qed

declare freerange_loop.simps [simp del]

definition freerange :: "u64 \<Rightarrow> u64 \<Rightarrow> 'a kmem_scheme \<Rightarrow> 'a kmem_scheme res" where
  "freerange pa_start pa_end s = freerange_loop (PGROUNDUP pa_start) pa_end s"

definition kinit :: "'a kmem_scheme \<Rightarrow> 'a kmem_scheme res" where
  "kinit s = freerange (kend s) PHYSTOP s"

section \<open>Page arithmetic\<close>

definition page_no :: "u64 \<Rightarrow> nat" where
  "page_no a = unat a div 4096"

definition aligned :: "u64 \<Rightarrow> bool" where
  "aligned p \<longleftrightarrow> p mod 4096 = 0"

lemma aligned_unat: "aligned p \<longleftrightarrow> unat p mod 4096 = 0"
proof -
  have "unat (p mod 4096) = unat p mod 4096" by (simp add: unat_mod)
  then show ?thesis unfolding aligned_def by (metis unat_eq_zero)
qed

lemma in_page_iff:
  assumes "aligned p"
  shows "unat (a - p) < 4096 \<longleftrightarrow> page_no a = page_no p"
proof -
  obtain k where k: "unat p = 4096 * k"
    using assms unfolding aligned_unat by fastforce
  then have room: "unat p + 4096 \<le> 2 ^ 64"
    using unat_less_u64 [of p] by simp
  show ?thesis
  proof
    assume lt: "unat (a - p) < 4096"
    have "unat p + unat (a - p) < 2 ^ LENGTH(64)" using lt room by simp
    then have "unat (p + (a - p)) = unat p + unat (a - p)" by (rule unat_add_lem [THEN iffD1])
    then show "page_no a = page_no p" using lt by (simp add: page_no_def k)
  next
    assume "page_no a = page_no p"
    then have *: "unat a div 4096 = k" by (simp add: page_no_def k)
    then have "unat p \<le> unat a" and lt: "unat a - unat p < 4096" unfolding k by linarith+
    then have "unat (a - p) = unat a - unat p"
      by (simp add: unat_sub word_le_nat_alt)
    with lt show "unat (a - p) < 4096" by simp
  qed
qed

lemma aligned_page_no: "aligned p \<Longrightarrow> unat p = 4096 * page_no p"
  using div_mult_mod_eq [of "unat p" 4096] unfolding aligned_unat page_no_def by linarith

lemma page_no_inj: "aligned p \<Longrightarrow> aligned q \<Longrightarrow> page_no p = page_no q \<longleftrightarrow> p = q"
  by (auto simp: word_unat_eq_iff aligned_page_no)

lemma page_no_offset:
  assumes "a mod 8 = 0" and "i < 8"
  shows "page_no (a + of_nat i) = page_no a"
proof -
  have "unat (a mod 8) = unat a mod 8" by (simp add: unat_mod)
  then have "unat a mod 8 = 0" using assms(1) by simp
  then obtain k where k: "unat a = 8 * k" by fastforce
  have "k < 2 ^ 61" using unat_less_u64 [of a] k by simp
  then have "unat (a + of_nat i) = 8 * k + i"
    using assms(2) k by (simp add: unat_word_ariths)
  then show ?thesis using assms(2) k by (simp add: page_no_def)
qed

lemma aligned_mod_8: "aligned p \<Longrightarrow> p mod 8 = 0"
proof -
  assume "aligned p"
  moreover have "unat p mod 4096 mod 8 = unat p mod 8" by (rule mod_mod_cancel) simp
  ultimately have "unat p mod 8 = 0" unfolding aligned_unat by simp
  then show ?thesis by (simp add: word_unat_eq_iff unat_mod)
qed

text \<open>Writes confined to one page leave aligned 64-bit words of every other page alone.\<close>

lemma load64_other_page:
  assumes "\<And>x. page_no x \<noteq> page_no p \<Longrightarrow> m' x = m x"
    and "a mod 8 = 0" and "page_no a \<noteq> page_no p"
  shows "load64 m' a = load64 m a"
proof (rule load64_cong)
  fix i :: nat assume "i < 8"
  from page_no_offset [OF assms(2) this] assms(3)
  have "page_no (a + of_nat i) \<noteq> page_no p" by simp
  then show "m' (a + of_nat i) = m (a + of_nat i)" by (rule assms(1))
qed

lemma store64_other_page:
  "a mod 8 = 0 \<Longrightarrow> page_no x \<noteq> page_no a \<Longrightarrow> store64 m a v x = m x"
proof (rule store64_apply_other)
  assume a: "a mod 8 = 0" "page_no x \<noteq> page_no a"
  show "\<not> unat (x - a) < 8"
  proof
    assume "unat (x - a) < 8"
    from page_no_offset [OF a(1) this] a(2) show False by simp
  qed
qed

lemma memset_other_page:
  "aligned p \<Longrightarrow> page_no x \<noteq> page_no p \<Longrightarrow> memset m p c 4096 x = m x"
  by (simp add: memset_apply in_page_iff)

lemma memset_same_page:
  "aligned p \<Longrightarrow> page_no x = page_no p \<Longrightarrow> memset m p c 4096 x = ucast c"
  by (simp add: memset_apply in_page_iff)

lemma unat_PGROUNDDOWN: "unat (PGROUNDDOWN a) = 4096 * page_no a"
proof -
  have mask: "PGSIZE - 1 = mask 12" by (simp add: mask_eq_exp_minus_1)
  have "PGROUNDDOWN a = push_bit 12 (drop_bit 12 a)"
    unfolding PGROUNDDOWN_def mask by (auto intro!: bit_word_eqI simp: bit_simps)
  moreover have "unat a div 4096 * 4096 < 2 ^ 64"
    using unat_less_u64 [of a] div_times_less_eq_dividend [of "unat a" 4096] by simp
  ultimately show ?thesis
    by (simp add: page_no_def push_bit_eq_mult drop_bit_eq_div unat_word_ariths unat_div)
qed

lemma aligned_PGROUNDDOWN [simp]: "aligned (PGROUNDDOWN a)"
  by (simp add: aligned_unat unat_PGROUNDDOWN)

lemma page_no_PGROUNDDOWN [simp]: "page_no (PGROUNDDOWN a) = page_no a"
  by (simp add: page_no_def unat_PGROUNDDOWN)

lemma PGROUNDUP_eq: "PGROUNDUP a = PGROUNDDOWN (a + 4095)"
  by (simp add: PGROUNDUP_def PGROUNDDOWN_def add.commute)

lemma unat_PGROUNDUP:
  assumes "unat a + 4095 < 2 ^ 64"
  shows "unat (PGROUNDUP a) = 4096 * ((unat a + 4095) div 4096)"
proof -
  have "unat (a + 4095) = unat a + 4095"
    using assms by (simp add: unat_word_ariths)
  then show ?thesis by (simp add: PGROUNDUP_eq unat_PGROUNDDOWN page_no_def)
qed

lemma aligned_PGROUNDUP [simp]: "aligned (PGROUNDUP a)"
  by (simp add: PGROUNDUP_eq)

section \<open>The free list as a list of pages\<close>

definition is_page :: "'a kmem_scheme \<Rightarrow> u64 \<Rightarrow> bool" where
  "is_page s p \<longleftrightarrow> aligned p \<and> kend s \<le> p \<and> p < PHYSTOP"

primrec free_chain :: "mem \<Rightarrow> u64 \<Rightarrow> u64 list \<Rightarrow> bool" where
  "free_chain m r [] \<longleftrightarrow> r = 0"
| "free_chain m r (p # ps) \<longleftrightarrow> r = p \<and> r \<noteq> 0 \<and> free_chain m (load64 m r) ps"

definition free_pages :: "'a kmem_scheme \<Rightarrow> u64 list \<Rightarrow> bool" where
  "free_pages s ps \<longleftrightarrow> 0 < kend s \<and> free_chain (pmem s) (freelist s) ps \<and>
     distinct ps \<and> (\<forall>p \<in> set ps. is_page s p)"

lemma free_chain_frame:
  assumes "free_chain m r ps" and "\<forall>q \<in> set ps. aligned q \<and> q \<noteq> p" and "aligned p"
    and "\<And>x. page_no x \<noteq> page_no p \<Longrightarrow> m' x = m x"
  shows "free_chain m' r ps"
  using assms(1,2)
proof (induction ps arbitrary: r)
  case Nil
  then show ?case by simp
next
  case (Cons q qs)
  have "load64 m' q = load64 m q"
    using Cons.prems assms(3) page_no_inj
    by (intro load64_other_page [OF assms(4)] aligned_mod_8) auto
  then show ?case using Cons by auto
qed

lemma is_page_nonzero: "0 < kend s \<Longrightarrow> is_page s p \<Longrightarrow> p \<noteq> 0"
  by (auto simp: is_page_def)

lemma kfree_frame:
  assumes "aligned p" and "page_no x \<noteq> page_no p"
  shows "store64 (memset m p c 4096) p v x = m x"
  using assms by (simp add: store64_other_page memset_other_page aligned_mod_8)

text \<open>
  Freeing a page that is not free pushes it on the list and writes to no other page.
\<close>

lemma kfree_push:
  assumes "free_pages s ps" and "is_page s p" and "p \<notin> set ps"
  shows "\<exists>m. kfree p s = Ok (s\<lparr>pmem := m, freelist := p\<rparr>) \<and>
    free_pages (s\<lparr>pmem := m, freelist := p\<rparr>) (p # ps) \<and>
    (\<forall>x. page_no x \<noteq> page_no p \<longrightarrow> m x = pmem s x)"
proof -
  let ?m = "store64 (memset (pmem s) p 1 4096) p (freelist s)"
  have al: "aligned p" using assms(2) by (simp add: is_page_def)
  have frame: "?m x = pmem s x" if "page_no x \<noteq> page_no p" for x
    using al that by (rule kfree_frame)
  have "kfree p s = Ok (s\<lparr>pmem := ?m, freelist := p\<rparr>)"
    using assms(2) by (auto simp: kfree_def is_page_def aligned_def Let_def)
  moreover have "free_pages (s\<lparr>pmem := ?m, freelist := p\<rparr>) (p # ps)"
  proof -
    have "free_chain ?m (freelist s) ps"
    proof (rule free_chain_frame [OF _ _ al frame])
      show "free_chain (pmem s) (freelist s) ps" using assms(1) by (simp add: free_pages_def)
      show "\<forall>q \<in> set ps. aligned q \<and> q \<noteq> p"
        using assms(1,3) by (auto simp: free_pages_def is_page_def)
    qed
    then show ?thesis
      using assms is_page_nonzero [of s p] by (auto simp: free_pages_def is_page_def)
  qed
  ultimately show ?thesis using frame by blast
qed

lemma kalloc_pop:
  assumes "free_pages s (p # ps)"
  shows "\<exists>m. kalloc s = (p, s\<lparr>pmem := m, freelist := load64 (pmem s) p\<rparr>) \<and>
    free_pages (s\<lparr>pmem := m, freelist := load64 (pmem s) p\<rparr>) ps \<and>
    (\<forall>x. page_no x \<noteq> page_no p \<longrightarrow> m x = pmem s x)"
proof -
  let ?m = "memset (pmem s) p 5 4096"
  have al: "aligned p" using assms by (simp add: free_pages_def is_page_def)
  have frame: "?m x = pmem s x" if "page_no x \<noteq> page_no p" for x
    using al that by (rule memset_other_page)
  have "kalloc s = (p, s\<lparr>pmem := ?m, freelist := load64 (pmem s) p\<rparr>)"
    using assms by (auto simp: kalloc_def free_pages_def Let_def)
  moreover have "free_pages (s\<lparr>pmem := ?m, freelist := load64 (pmem s) p\<rparr>) ps"
  proof -
    have "free_chain ?m (load64 (pmem s) p) ps"
    proof (rule free_chain_frame [OF _ _ al frame])
      show "free_chain (pmem s) (load64 (pmem s) p) ps" using assms by (auto simp: free_pages_def)
      show "\<forall>q \<in> set ps. aligned q \<and> q \<noteq> p"
        using assms by (auto simp: free_pages_def is_page_def)
    qed
    then show ?thesis
      using assms by (auto simp: free_pages_def is_page_def)
  qed
  ultimately show ?thesis using frame by blast
qed

lemma kalloc_empty: "free_pages s [] \<Longrightarrow> kalloc s = (0, s)"
  by (simp add: free_pages_def kalloc_def)

lemma kfree_bad: "\<not> is_page s p \<Longrightarrow> kfree p s = Panic ''kfree''"
  by (auto simp: kfree_def is_page_def aligned_def not_le not_less)

section \<open>What the allocator promises its clients\<close>

text \<open>
  \<open>pages s ps\<close>: the free pages of \<open>s\<close> are \<open>ps\<close>, next to be handed out first.
  \<open>valid s p\<close>: \<open>p\<close> is a page the allocator manages. Each operation touches only
  the page it hands over.
\<close>

locale page_allocator =
  fixes alloc :: "'s \<Rightarrow> u64 \<times> 's"
    and free :: "u64 \<Rightarrow> 's \<Rightarrow> 's res"
    and pages :: "'s \<Rightarrow> u64 list \<Rightarrow> bool"
    and valid :: "'s \<Rightarrow> u64 \<Rightarrow> bool"
    and memory :: "'s \<Rightarrow> mem"
  assumes alloc_empty: "pages s [] \<Longrightarrow> alloc s = (0, s)"
    and alloc_pop: "pages s (p # ps) \<Longrightarrow> \<exists>s'. alloc s = (p, s') \<and> pages s' ps \<and>
      (\<forall>q. valid s' q = valid s q) \<and> (\<forall>x. page_no x \<noteq> page_no p \<longrightarrow> memory s' x = memory s x)"
    and free_push: "pages s ps \<Longrightarrow> valid s p \<Longrightarrow> p \<notin> set ps \<Longrightarrow>
      \<exists>s'. free p s = Ok s' \<and> pages s' (p # ps) \<and>
      (\<forall>q. valid s' q = valid s q) \<and> (\<forall>x. page_no x \<noteq> page_no p \<longrightarrow> memory s' x = memory s x)"
    and free_bad: "\<not> valid s p \<Longrightarrow> \<exists>msg. free p s = Panic msg"
    and pages_distinct: "pages s ps \<Longrightarrow> distinct ps"
    and pages_valid: "pages s ps \<Longrightarrow> p \<in> set ps \<Longrightarrow> valid s p \<and> p \<noteq> 0"
begin

lemma alloc_fails_iff: "pages s ps \<Longrightarrow> fst (alloc s) = 0 \<longleftrightarrow> ps = []"
  using alloc_empty alloc_pop pages_valid by (cases ps) (force, metis fst_conv list.set_intros(1))

lemma alloc_fresh:
  assumes "pages s ps" and "alloc s = (p, s')" and "p \<noteq> 0"
  shows "valid s p \<and> (\<exists>qs. ps = p # qs \<and> pages s' qs \<and> p \<notin> set qs)"
proof (cases ps)
  case Nil
  then show ?thesis using assms alloc_empty by auto
next
  case (Cons q qs)
  then show ?thesis
    using assms alloc_pop [of s q qs] pages_distinct [of s ps] pages_valid [of s ps q] by auto
qed

lemma free_then_alloc:
  assumes "pages s ps" and "valid s p" and "p \<notin> set ps"
  shows "\<exists>s' s''. free p s = Ok s' \<and> alloc s' = (p, s'') \<and> pages s'' ps"
  using free_push [OF assms] alloc_pop by blast

lemma alloc_then_free:
  assumes "pages s (p # ps)"
  shows "\<exists>s' s''. alloc s = (p, s') \<and> free p s' = Ok s'' \<and> pages s'' (p # ps)"
proof -
  obtain s' where s': "alloc s = (p, s')" "pages s' ps" "\<And>q. valid s' q = valid s q"
    using alloc_pop [OF assms] by blast
  then have "valid s' p" "p \<notin> set ps"
    using pages_valid [OF assms] pages_distinct [OF assms] by auto
  with s' free_push show ?thesis by blast
qed

end

interpretation kp: page_allocator kalloc kfree free_pages is_page pmem
proof (unfold_locales, goal_cases)
  case (1 s)
  then show ?case by (rule kalloc_empty)
next
  case (2 s p ps)
  from kalloc_pop [OF this] show ?case by (auto simp: is_page_def)
next
  case (3 s ps p)
  from kfree_push [OF this] show ?case by (auto simp: is_page_def)
next
  case (4 s p)
  then show ?case using kfree_bad by blast
next
  case (5 s ps)
  then show ?case by (simp add: free_pages_def)
next
  case (6 s ps p)
  then show ?case using is_page_nonzero by (auto simp: free_pages_def)
qed

section \<open>Boot: every page of RAM after the kernel becomes free\<close>

lemma page_succ:
  assumes "aligned p" and "p < PHYSTOP"
  shows "unat (p + PGSIZE) = unat p + 4096" and "aligned (p + PGSIZE)" and "p + PGSIZE \<le> PHYSTOP"
proof -
  have lt: "unat p < 0x88000000" using assms(2) by (simp add: word_less_nat_alt)
  then show u: "unat (p + PGSIZE) = unat p + 4096" by (simp add: unat_word_ariths)
  then show "aligned (p + PGSIZE)" using assms(1) unfolding aligned_unat by simp
  have "unat p div 4096 < 0x88000" using lt by simp
  then have "unat p + 4096 \<le> 0x88000000"
    using aligned_page_no [OF assms(1)] unfolding page_no_def by linarith
  then show "p + PGSIZE \<le> PHYSTOP" unfolding word_le_nat_alt u by simp
qed

lemma aligned_next:
  assumes "aligned p" and "aligned q" and "p < PHYSTOP"
  shows "p \<le> q \<and> q \<noteq> p \<longleftrightarrow> p + PGSIZE \<le> q"
proof -
  have "p \<le> q \<and> q \<noteq> p \<longleftrightarrow> page_no p < page_no q"
    using aligned_page_no [OF assms(1)] aligned_page_no [OF assms(2)]
    by (auto simp: word_le_nat_alt word_unat_eq_iff)
  also have "\<dots> \<longleftrightarrow> unat p + 4096 \<le> unat q"
    using aligned_page_no [OF assms(1)] aligned_page_no [OF assms(2)] by auto
  also have "\<dots> \<longleftrightarrow> p + PGSIZE \<le> q"
    unfolding word_le_nat_alt page_succ(1) [OF assms(1,3)] ..
  finally show ?thesis .
qed

lemma freerange_loop_correct:
  assumes "free_pages s ps" and "aligned p" and "kend s \<le> p" and "p \<le> pa_end"
    and "\<forall>q \<in> set ps. q < p" and "pa_end = PHYSTOP"
  shows "\<exists>s' qs. freerange_loop p pa_end s = Ok s' \<and> free_pages s' (qs @ ps) \<and> kend s' = kend s \<and>
    set qs = {q. aligned q \<and> p \<le> q \<and> q < PHYSTOP}"
  using assms
proof (induction p pa_end s arbitrary: ps rule: freerange_loop.induct)
  case (1 p pa_end s)
  show ?case
  proof (cases "p = PHYSTOP")
    case True
    then have "freerange_loop p pa_end s = Ok s"
      using 1(7) by (subst freerange_loop.simps) simp
    then show ?thesis using True 1(2) by (intro exI [of _ s] exI [of _ "[]"]) auto
  next
    case False
    then have lt: "p < PHYSTOP" using 1(5,7) by simp
    note succ = page_succ [OF 1(3) lt]
    have "is_page s p" and "p \<notin> set ps" using 1(3,4,6) lt by (auto simp: is_page_def)
    from kfree_push [OF 1(2) this] obtain s1 where s1: "kfree p s = Ok s1" "free_pages s1 (p # ps)"
      and kend1: "kend s1 = kend s"
      by auto
    have "p < p + PGSIZE" unfolding word_less_nat_alt succ(1) by simp
    then have "kend s1 \<le> p + PGSIZE" "\<forall>q \<in> set (p # ps). q < p + PGSIZE"
      using 1(4,6) kend1 by (auto intro: order.strict_trans)
    with 1(1) [OF _ s1(1) s1(2) succ(2)] succ(3) 1(7) obtain s' qs
      where s': "freerange_loop (p + PGSIZE) pa_end s1 = Ok s'" "free_pages s' (qs @ p # ps)"
        "kend s' = kend s1" "set qs = {q. aligned q \<and> p + PGSIZE \<le> q \<and> q < PHYSTOP}"
      by blast
    have "set (qs @ [p]) = {q. aligned q \<and> p \<le> q \<and> q < PHYSTOP}"
      using s'(4) aligned_next [OF 1(3) _ lt] 1(3) lt by auto
    moreover have "freerange_loop p pa_end s = Ok s'"
      using succ(3) s1(1) s'(1) 1(7) by (subst freerange_loop.simps) simp
    ultimately show ?thesis using s'(2,3) kend1
      by (intro exI [of _ s'] exI [of _ "qs @ [p]"]) simp
  qed
qed

lemma round_up_le: "(k + 4095) div 4096 \<le> q \<longleftrightarrow> k \<le> 4096 * (q :: nat)"
proof
  assume "k \<le> 4096 * q"
  then have "k + 4095 < Suc q * 4096" by simp
  then have "(k + 4095) div 4096 < Suc q" by (rule less_mult_imp_div_less)
  then show "(k + 4095) div 4096 \<le> q" by simp
next
  assume "(k + 4095) div 4096 \<le> q"
  then show "k \<le> 4096 * q" by linarith
qed

lemma kend_le_PGROUNDUP:
  assumes "kend s \<le> PHYSTOP"
  shows "kend s \<le> PGROUNDUP (kend s)" and "PGROUNDUP (kend s) \<le> PHYSTOP"
    and "\<And>q. aligned q \<Longrightarrow> kend s \<le> q \<longleftrightarrow> PGROUNDUP (kend s) \<le> q"
proof -
  have le: "unat (kend s) \<le> 0x88000000" using assms by (simp add: word_le_nat_alt)
  then have up: "unat (PGROUNDUP (kend s)) = 4096 * ((unat (kend s) + 4095) div 4096)"
    by (intro unat_PGROUNDUP) simp
  then show "kend s \<le> PGROUNDUP (kend s)" unfolding word_le_nat_alt by linarith
  have "(unat (kend s) + 4095) div 4096 \<le> 0x88000" using le by linarith
  then show "PGROUNDUP (kend s) \<le> PHYSTOP" unfolding word_le_nat_alt up by simp
  fix q assume "aligned q"
  then show "kend s \<le> q \<longleftrightarrow> PGROUNDUP (kend s) \<le> q"
    unfolding word_le_nat_alt up aligned_page_no [OF \<open>aligned q\<close>] by (simp add: round_up_le)
qed

lemma kinit_frees_all:
  assumes "0 < kend s" and "kend s \<le> PHYSTOP" and "freelist s = 0"
  shows "\<exists>s' ps. kinit s = Ok s' \<and> free_pages s' ps \<and> set ps = {p. is_page s p}"
proof -
  have "free_pages s []" using assms by (simp add: free_pages_def)
  from freerange_loop_correct [OF this aligned_PGROUNDUP kend_le_PGROUNDUP(1,2) [OF assms(2)]]
  obtain s' qs where "freerange_loop (PGROUNDUP (kend s)) PHYSTOP s = Ok s'" "free_pages s' qs"
    "set qs = {q. aligned q \<and> PGROUNDUP (kend s) \<le> q \<and> q < PHYSTOP}"
    by auto
  then show ?thesis
    using kend_le_PGROUNDUP(3) [OF assms(2)] unfolding kinit_def freerange_def is_page_def
    by (intro exI [of _ s'] exI [of _ qs]) auto
qed

section \<open>Properties\<close>

text \<open>
  C12: After \<open>kinit\<close> the free list is a proper list of distinct pages that contains
  exactly the page-aligned addresses from \<open>end\<close> up to \<open>PHYSTOP\<close>.
\<close>

theorem kinit_frees_all_pages:
  assumes "0 < kend s" and "kend s \<le> PHYSTOP" and "freelist s = 0"
  shows "\<exists>s' ps. kinit s = Ok s' \<and> free_pages s' ps \<and> set ps = {p. is_page s p}"
  using assms by (rule kinit_frees_all)

theorem kinit_frees_all_pages_witness:
  "\<exists>s' ps. kinit \<lparr>pmem = (\<lambda>_. 0), freelist = 0, kend = 0x80020123\<rparr> = Ok s' \<and> free_pages s' ps \<and>
     set ps = {p. is_page \<lparr>pmem = (\<lambda>_. 0), freelist = 0, kend = 0x80020123\<rparr> p}"
  by (rule kinit_frees_all_pages) simp_all

text \<open>
  C13: The allocator hands out each page to one owner at a time. \<open>kalloc\<close> returns 0
  exactly when no page is free; otherwise it returns a page that was free and is
  not free any more, and leaves every other page's contents alone.
\<close>

theorem kalloc_exclusive:
  assumes "free_pages s ps" and "kalloc s = (p, s')"
  shows "(p = 0 \<longleftrightarrow> ps = []) \<and>
    (p \<noteq> 0 \<longrightarrow> is_page s p \<and> (\<exists>qs. ps = p # qs \<and> free_pages s' qs \<and> p \<notin> set qs) \<and>
      (\<forall>x. page_no x \<noteq> page_no p \<longrightarrow> pmem s' x = pmem s x))"
proof (cases ps)
  case Nil
  then show ?thesis using assms kp.alloc_fails_iff [OF assms(1)] by simp
next
  case (Cons q qs)
  then have "p = q" "\<forall>x. page_no x \<noteq> page_no p \<longrightarrow> pmem s' x = pmem s x"
    using kp.alloc_pop [of s q qs] assms by auto
  then show ?thesis
    using kp.alloc_fails_iff [OF assms(1)] kp.alloc_fresh [OF assms] assms(2) Cons by auto
qed

theorem kalloc_exclusive_witness:
  "fst (kalloc \<lparr>pmem = (\<lambda>_. 0), freelist = 0x80001000, kend = 0x80000000\<rparr>) \<noteq> 0"
proof -
  let ?s = "\<lparr>pmem = (\<lambda>_. 0), freelist = 0x80001000, kend = 0x80000000\<rparr>"
  have "load64 (\<lambda>_. 0) 0x80001000 = 0" by (simp add: load64_def numeral_eq_Suc)
  then have fp: "free_pages ?s [0x80001000]"
    by (simp add: free_pages_def is_page_def aligned_def)
  show ?thesis using kalloc_exclusive [OF fp, of "fst (kalloc ?s)" "snd (kalloc ?s)"] by simp
qed

end
