(* ===== verification/Vm.thy ===== *)
theory Vm
  imports Kalloc
begin

text \<open>
  kernel/vm.c: Sv39 page tables in physical memory. A page table is the address
  of a page of 512 64-bit entries; \<open>walk\<close> follows three levels of them,
  allocating missing tables. Every operation of the file is a function over
  the allocator's state (memory and free list), with the source's panics.
\<close>

section \<open>Page table entries and the address space layout (kernel/riscv.h, kernel/memlayout.h)\<close>

definition PTE_V :: u64 where [simp]: "PTE_V = 1"
definition PTE_R :: u64 where [simp]: "PTE_R = 2"
definition PTE_W :: u64 where [simp]: "PTE_W = 4"
definition PTE_X :: u64 where [simp]: "PTE_X = 8"
definition PTE_U :: u64 where [simp]: "PTE_U = 16"

definition PA2PTE :: "u64 \<Rightarrow> u64" where
  "PA2PTE pa = push_bit 10 (drop_bit 12 pa)"

definition PTE2PA :: "u64 \<Rightarrow> u64" where
  "PTE2PA pte = push_bit 12 (drop_bit 10 pte)"

definition PTE_FLAGS :: "u64 \<Rightarrow> u64" where
  "PTE_FLAGS pte = pte AND 0x3FF"

definition PX :: "nat \<Rightarrow> u64 \<Rightarrow> u64" where
  "PX level va = drop_bit (12 + 9 * level) va AND 0x1FF"

definition MAXVA :: u64 where [simp]: "MAXVA = push_bit 38 1"
definition TRAMPOLINE :: u64 where "TRAMPOLINE = MAXVA - PGSIZE"
definition TRAPFRAME :: u64 where "TRAPFRAME = TRAMPOLINE - PGSIZE"

definition KSTACK :: "nat \<Rightarrow> u64" where
  "KSTACK p = TRAMPOLINE - (of_nat p + 1) * 2 * PGSIZE"

section \<open>Walking and mapping\<close>

fun walk_from :: "nat \<Rightarrow> u64 \<Rightarrow> u64 \<Rightarrow> bool \<Rightarrow> 'a kmem_scheme \<Rightarrow> u64 \<times> 'a kmem_scheme" where
  "walk_from 0 pagetable va alloc s = (pagetable + 8 * PX 0 va, s)"
| "walk_from (Suc level) pagetable va alloc s =
     (let pte = pagetable + 8 * PX (Suc level) va;
          e = load64 (pmem s) pte
      in if e AND PTE_V \<noteq> 0 then walk_from level (PTE2PA e) va alloc s
         else if \<not> alloc then (0, s)
         else let (pt', s1) = kalloc s
              in if pt' = 0 then (0, s1)
                 else let m = memset (pmem s1) pt' 0 4096
                      in walk_from level pt' va alloc
                           (s1\<lparr>pmem := store64 m pte (PA2PTE pt' OR PTE_V)\<rparr>))"

definition walk :: "u64 \<Rightarrow> u64 \<Rightarrow> bool \<Rightarrow> 'a kmem_scheme \<Rightarrow> (u64 \<times> 'a kmem_scheme) res" where
  "walk pagetable va alloc s =
     (if va \<ge> MAXVA then Panic ''walk'' else Ok (walk_from 2 pagetable va alloc s))"

text \<open>\<open>walk(pagetable, va, 0)\<close> never allocates, so \<open>walkaddr\<close> only reads the state.\<close>

definition walkaddr :: "u64 \<Rightarrow> u64 \<Rightarrow> 'a kmem_scheme \<Rightarrow> u64" where
  "walkaddr pagetable va s =
     (if va \<ge> MAXVA then 0
      else let pte = fst (walk_from 2 pagetable va False s)
           in if pte = 0 then 0
              else let e = load64 (pmem s) pte
                   in if e AND PTE_V = 0 then 0
                      else if e AND PTE_U = 0 then 0
                      else PTE2PA e)"

function mappages_loop ::
  "u64 \<Rightarrow> u64 \<Rightarrow> u64 \<Rightarrow> u64 \<Rightarrow> u64 \<Rightarrow> 'a kmem_scheme \<Rightarrow> (int \<times> 'a kmem_scheme) res" where
  "mappages_loop pagetable a last_a pa perm s =
     bindp (walk pagetable a True s) (\<lambda>pte s1.
       if pte = 0 then Ok (-1, s1)
       else if load64 (pmem s1) pte AND PTE_V \<noteq> 0 then Panic ''remap''
       else let s2 = s1\<lparr>pmem := store64 (pmem s1) pte (PA2PTE pa OR perm OR PTE_V)\<rparr>
            in if a = last_a then Ok (0, s2)
               else mappages_loop pagetable (a + PGSIZE) last_a (pa + PGSIZE) perm s2)"
  by pat_completeness auto
termination
proof (relation "measure (\<lambda>(pt, a, last_a, pa, perm, s). unat MAXVA - unat a)", goal_cases)
  case 1
  show ?case by simp
next
  case (2 pt a last_a pa perm s)
  then have "unat a < unat MAXVA"
    by (auto simp: walk_def word_less_nat_alt not_le split: if_splits)
  moreover from this have "unat (a + PGSIZE) = unat a + 4096"
    by (simp add: unat_word_ariths)
  ultimately show ?case by simp
qed

declare mappages_loop.simps [simp del]

definition mappages ::
  "u64 \<Rightarrow> u64 \<Rightarrow> u64 \<Rightarrow> u64 \<Rightarrow> u64 \<Rightarrow> 'a kmem_scheme \<Rightarrow> (int \<times> 'a kmem_scheme) res" where
  "mappages pagetable va sz pa perm s =
     mappages_loop pagetable (PGROUNDDOWN va) (PGROUNDDOWN (va + sz - 1)) pa perm s"

function uvmunmap_loop ::
  "u64 \<Rightarrow> u64 \<Rightarrow> u64 \<Rightarrow> bool \<Rightarrow> 'a kmem_scheme \<Rightarrow> 'a kmem_scheme res" where
  "uvmunmap_loop pagetable a e do_free s =
     (if a < e then
        bindp (walk pagetable a False s) (\<lambda>pte s1.
          if pte = 0 then Panic ''uvmunmap: walk''
          else if load64 (pmem s1) pte AND PTE_V = 0 then Panic ''uvmunmap: not mapped''
          else if PTE_FLAGS (load64 (pmem s1) pte) = PTE_V then Panic ''uvmunmap: not a leaf''
          else bindr (if do_free then kfree (PTE2PA (load64 (pmem s1) pte)) s1 else Ok s1) (\<lambda>s2.
            uvmunmap_loop pagetable (a + PGSIZE) e do_free
              (s2\<lparr>pmem := store64 (pmem s2) pte 0\<rparr>)))
      else Ok s)"
  by pat_completeness auto
termination
proof (relation "measure (\<lambda>(pt, a, e, do_free, s). unat MAXVA - unat a)", goal_cases)
  case 1
  show ?case by simp
next
  case (2 pt a e do_free s)
  then have "unat a < unat MAXVA"
    by (auto simp: walk_def word_less_nat_alt not_le split: if_splits)
  moreover from this have "unat (a + PGSIZE) = unat a + 4096"
    by (simp add: unat_word_ariths)
  ultimately show ?case by simp
qed

declare uvmunmap_loop.simps [simp del]

definition uvmunmap ::
  "u64 \<Rightarrow> u64 \<Rightarrow> u64 \<Rightarrow> bool \<Rightarrow> 'a kmem_scheme \<Rightarrow> 'a kmem_scheme res" where
  "uvmunmap pagetable va npages do_free s =
     (if va mod PGSIZE \<noteq> 0 then Panic ''uvmunmap: not aligned''
      else uvmunmap_loop pagetable va (va + npages * PGSIZE) do_free s)"

definition uvmcreate :: "'a kmem_scheme \<Rightarrow> u64 \<times> 'a kmem_scheme" where
  "uvmcreate s =
     (let (pagetable, s1) = kalloc s
      in if pagetable = 0 then (0, s1)
         else (pagetable, s1\<lparr>pmem := memset (pmem s1) pagetable 0 4096\<rparr>))"

text \<open>
  \<open>uvminit\<close> does not test the results of \<open>kalloc\<close> and \<open>mappages\<close>; \<open>src\<close> is the
  kernel array that holds the program.
\<close>

definition uvminit :: "u64 \<Rightarrow> u8 list \<Rightarrow> 'a kmem_scheme \<Rightarrow> 'a kmem_scheme res" where
  "uvminit pagetable src s =
     (if length src \<ge> 4096 then Panic ''inituvm: more than a page''
      else let (mem, s1) = kalloc s;
               s2 = s1\<lparr>pmem := memset (pmem s1) mem 0 4096\<rparr>
           in bindp (mappages pagetable 0 PGSIZE mem (PTE_W OR PTE_R OR PTE_X OR PTE_U) s2) (\<lambda>_ s3.
                Ok (s3\<lparr>pmem := write_bytes (pmem s3) mem src\<rparr>)))"

section \<open>Growing, shrinking, freeing and copying user memory\<close>

text \<open>\<open>int npages = (PGROUNDUP(oldsz) - PGROUNDUP(newsz)) / PGSIZE;\<close> truncates to 32 bits
  and is widened again for \<open>uvmunmap\<close>.\<close>

definition uvmdealloc :: "u64 \<Rightarrow> u64 \<Rightarrow> u64 \<Rightarrow> 'a kmem_scheme \<Rightarrow> (u64 \<times> 'a kmem_scheme) res" where
  "uvmdealloc pagetable oldsz newsz s =
     (if newsz \<ge> oldsz then Ok (oldsz, s)
      else if PGROUNDUP newsz < PGROUNDUP oldsz then
        let npages = (ucast ((PGROUNDUP oldsz - PGROUNDUP newsz) div PGSIZE) :: u32)
        in bindr (uvmunmap pagetable (PGROUNDUP newsz) (scast npages) True s) (\<lambda>s1. Ok (newsz, s1))
      else Ok (newsz, s))"

lemma mappages_Ok_va:
  assumes "mappages pagetable va sz pa perm s = Ok r"
  shows "unat va < unat MAXVA"
proof -
  have "PGROUNDDOWN va < MAXVA"
    using assms unfolding mappages_def
    by (subst (asm) mappages_loop.simps) (auto simp: walk_def not_le split: if_splits)
  then have "page_no va < 2 ^ 26"
    by (simp add: word_less_nat_alt unat_PGROUNDDOWN)
  then show ?thesis by (simp add: page_no_def)
qed

function uvmalloc_loop ::
  "u64 \<Rightarrow> u64 \<Rightarrow> u64 \<Rightarrow> u64 \<Rightarrow> 'a kmem_scheme \<Rightarrow> (u64 \<times> 'a kmem_scheme) res" where
  "uvmalloc_loop pagetable oldsz newsz a s =
     (if a < newsz then
        let (mem, s1) = kalloc s
        in if mem = 0 then bindp (uvmdealloc pagetable a oldsz s1) (\<lambda>_ s2. Ok (0, s2))
           else bindp (mappages pagetable a PGSIZE mem (PTE_W OR PTE_X OR PTE_R OR PTE_U)
                         (s1\<lparr>pmem := memset (pmem s1) mem 0 4096\<rparr>)) (\<lambda>r s2.
             if r \<noteq> 0 then
               bindr (kfree mem s2) (\<lambda>s3.
                 bindp (uvmdealloc pagetable a oldsz s3) (\<lambda>_ s4. Ok (0, s4)))
             else uvmalloc_loop pagetable oldsz newsz (a + PGSIZE) s2)
      else Ok (newsz, s))"
  by pat_completeness auto
termination
proof (relation "measure (\<lambda>(pt, oldsz, newsz, a, s). unat MAXVA - unat a)", goal_cases)
  case 1
  show ?case by simp
next
  case (2 pt oldsz newsz a s)
  then have "unat a < unat MAXVA" using mappages_Ok_va by blast
  moreover from this have "unat (a + PGSIZE) = unat a + 4096"
    by (simp add: unat_word_ariths)
  ultimately show ?case by simp
qed

declare uvmalloc_loop.simps [simp del]

definition uvmalloc :: "u64 \<Rightarrow> u64 \<Rightarrow> u64 \<Rightarrow> 'a kmem_scheme \<Rightarrow> (u64 \<times> 'a kmem_scheme) res" where
  "uvmalloc pagetable oldsz newsz s =
     (if newsz < oldsz then Ok (oldsz, s)
      else uvmalloc_loop pagetable (PGROUNDUP oldsz) newsz (PGROUNDUP oldsz) s)"

text \<open>
  \<open>freewalk\<close> recurses into every entry that points to a lower table. The source
  has no level counter, so the depth of the recursion is bounded by the shape of
  the tables only: the model takes a bound on it and is \<open>Nofuel\<close> beyond.
\<close>

fun freewalk_entries ::
  "(u64 \<Rightarrow> 'a kmem_scheme \<Rightarrow> 'a kmem_scheme res) \<Rightarrow> u64 \<Rightarrow> nat list \<Rightarrow>
   'a kmem_scheme \<Rightarrow> 'a kmem_scheme res" where
  "freewalk_entries f pagetable [] s = Ok s"
| "freewalk_entries f pagetable (i # is) s =
     (let a = pagetable + 8 * of_nat i; pte = load64 (pmem s) a
      in if pte AND PTE_V \<noteq> 0 \<and> pte AND (PTE_R OR PTE_W OR PTE_X) = 0 then
           bindr (f (PTE2PA pte) s) (\<lambda>s1.
             freewalk_entries f pagetable is (s1\<lparr>pmem := store64 (pmem s1) a 0\<rparr>))
         else if pte AND PTE_V \<noteq> 0 then Panic ''freewalk: leaf''
         else freewalk_entries f pagetable is s)"

primrec freewalk :: "nat \<Rightarrow> u64 \<Rightarrow> 'a kmem_scheme \<Rightarrow> 'a kmem_scheme res" where
  "freewalk 0 pagetable s = Nofuel"
| "freewalk (Suc d) pagetable s =
     bindr (freewalk_entries (freewalk d) pagetable [0..<512] s) (\<lambda>s1. kfree pagetable s1)"

text \<open>Sv39 tables have three levels; \<open>uvmfree\<close> uses that depth.\<close>

definition uvmfree :: "u64 \<Rightarrow> u64 \<Rightarrow> 'a kmem_scheme \<Rightarrow> 'a kmem_scheme res" where
  "uvmfree pagetable sz s =
     bindr (if sz > 0 then uvmunmap pagetable 0 (PGROUNDUP sz div PGSIZE) True s else Ok s) (\<lambda>s1.
       freewalk 3 pagetable s1)"

function uvmcopy_loop ::
  "u64 \<Rightarrow> u64 \<Rightarrow> u64 \<Rightarrow> u64 \<Rightarrow> 'a kmem_scheme \<Rightarrow> (int \<times> 'a kmem_scheme) res" where
  "uvmcopy_loop old new sz i s =
     (if i < sz then
        bindp (walk old i False s) (\<lambda>pte s1.
          if pte = 0 then Panic ''uvmcopy: pte should exist''
          else let e = load64 (pmem s1) pte
          in if e AND PTE_V = 0 then Panic ''uvmcopy: page not present''
          else let pa = PTE2PA e; flags = PTE_FLAGS e; (mem, s2) = kalloc s1
          in if mem = 0 then bindr (uvmunmap new 0 (i div PGSIZE) True s2) (\<lambda>s3. Ok (-1, s3))
          else bindp (mappages new i PGSIZE mem flags
                        (s2\<lparr>pmem := memmove (pmem s2) mem pa 4096\<rparr>)) (\<lambda>r s3.
            if r \<noteq> 0 then
              bindr (kfree mem s3) (\<lambda>s4.
                bindr (uvmunmap new 0 (i div PGSIZE) True s4) (\<lambda>s5. Ok (-1, s5)))
            else uvmcopy_loop old new sz (i + PGSIZE) s3))
      else Ok (0, s))"
  by pat_completeness auto
termination
proof (relation "measure (\<lambda>(old, new, sz, i, s). unat MAXVA - unat i)", goal_cases)
  case 1
  show ?case by simp
next
  case (2 old new sz i s)
  then have "unat i < unat MAXVA" using mappages_Ok_va by blast
  moreover from this have "unat (i + PGSIZE) = unat i + 4096"
    by (simp add: unat_word_ariths)
  ultimately show ?case by simp
qed

declare uvmcopy_loop.simps [simp del]

definition uvmcopy :: "u64 \<Rightarrow> u64 \<Rightarrow> u64 \<Rightarrow> 'a kmem_scheme \<Rightarrow> (int \<times> 'a kmem_scheme) res" where
  "uvmcopy old new sz s = uvmcopy_loop old new sz 0 s"

definition uvmclear :: "u64 \<Rightarrow> u64 \<Rightarrow> 'a kmem_scheme \<Rightarrow> 'a kmem_scheme res" where
  "uvmclear pagetable va s =
     bindp (walk pagetable va False s) (\<lambda>pte s1.
       if pte = 0 then Panic ''uvmclear''
       else Ok (s1\<lparr>pmem := store64 (pmem s1) pte (load64 (pmem s1) pte AND NOT PTE_U)\<rparr>))"

section \<open>Copying between kernel buffers and user addresses\<close>

lemma unat_page_offset: "unat (a - PGROUNDDOWN a) = unat a mod 4096"
proof -
  have "PGROUNDDOWN a \<le> a" by (simp add: word_le_nat_alt unat_PGROUNDDOWN page_no_def)
  then show ?thesis
    by (simp add: unat_sub unat_PGROUNDDOWN page_no_def minus_mult_div_eq_mod mult.commute)
qed

lemma unat_page_room: "unat (PGSIZE - (a - PGROUNDDOWN a)) = 4096 - unat a mod 4096"
  by (subst unat_sub) (simp_all add: word_le_nat_alt unat_page_offset)

lemma page_room_pos: "unat (PGSIZE - (a - PGROUNDDOWN a)) > 0"
  by (simp add: unat_page_room del: PGSIZE_def)

text \<open>
  \<open>copyout\<close> writes a kernel buffer, given by its bytes, to user memory; \<open>copyin\<close>
  and \<open>copyinstr\<close> return the bytes they have stored in the kernel buffer with
  their result.
\<close>

function copyout :: "u64 \<Rightarrow> u64 \<Rightarrow> u8 list \<Rightarrow> 'a kmem_scheme \<Rightarrow> int \<times> 'a kmem_scheme" where
  "copyout pagetable dstva src s =
     (if src \<noteq> [] then
        let va0 = PGROUNDDOWN dstva; pa0 = walkaddr pagetable va0 s
        in if pa0 = 0 then (-1, s)
           else let n = min (unat (PGSIZE - (dstva - va0))) (length src)
                in copyout pagetable (va0 + PGSIZE) (drop n src)
                     (s\<lparr>pmem := write_bytes (pmem s) (pa0 + (dstva - va0)) (take n src)\<rparr>)
      else (0, s))"
  by pat_completeness auto
termination
  by (relation "measure (\<lambda>(pt, va, src, s). length src)")
    (simp_all add: page_room_pos del: PGSIZE_def)

declare copyout.simps [simp del]

function copyin :: "u64 \<Rightarrow> u64 \<Rightarrow> nat \<Rightarrow> 'a kmem_scheme \<Rightarrow> int \<times> u8 list" where
  "copyin pagetable srcva len s =
     (if len > 0 then
        let va0 = PGROUNDDOWN srcva; pa0 = walkaddr pagetable va0 s
        in if pa0 = 0 then (-1, [])
           else let n = min (unat (PGSIZE - (srcva - va0))) len;
                    bs = read_bytes (pmem s) (pa0 + (srcva - va0)) n;
                    (r, rest) = copyin pagetable (va0 + PGSIZE) (len - n) s
                in (r, bs @ rest)
      else (0, []))"
  by pat_completeness auto
termination
  by (relation "measure (\<lambda>(pt, va, len, s). len)")
    (simp_all add: page_room_pos del: PGSIZE_def)

declare copyin.simps [simp del]

text \<open>
  The inner loop of \<open>copyinstr\<close>: at most \<open>n\<close> bytes from \<open>p\<close>, up to and including
  a 0 byte. It gives \<open>got_null\<close> and the bytes stored at \<open>dst\<close>.
\<close>

fun copyinstr_page :: "mem \<Rightarrow> u64 \<Rightarrow> nat \<Rightarrow> bool \<times> u8 list" where
  "copyinstr_page m p 0 = (False, [])"
| "copyinstr_page m p (Suc n) =
     (if m p = 0 then (True, [0])
      else let (got_null, bs) = copyinstr_page m (p + 1) n in (got_null, m p # bs))"

function copyinstr :: "u64 \<Rightarrow> u64 \<Rightarrow> nat \<Rightarrow> 'a kmem_scheme \<Rightarrow> int \<times> u8 list" where
  "copyinstr pagetable srcva max_n s =
     (if max_n > 0 then
        let va0 = PGROUNDDOWN srcva; pa0 = walkaddr pagetable va0 s
        in if pa0 = 0 then (-1, [])
           else let n = min (unat (PGSIZE - (srcva - va0))) max_n;
                    (got_null, bs) = copyinstr_page (pmem s) (pa0 + (srcva - va0)) n
                in if got_null then (0, bs)
                   else let (r, rest) = copyinstr pagetable (va0 + PGSIZE) (max_n - n) s
                        in (r, bs @ rest)
      else (-1, []))"
  by pat_completeness auto
termination
  by (relation "measure (\<lambda>(pt, va, n, s). n)")
    (simp_all add: page_room_pos del: PGSIZE_def)

declare copyinstr.simps [simp del]

section \<open>The kernel's page table\<close>

text \<open>The linker's symbols \<open>etext\<close> and \<open>trampoline\<close> are parameters of the state.\<close>

record kvm = kmem +
  kernel_pagetable :: u64
  etext :: u64
  trampoline :: u64
  satp :: u64

definition UART0 :: u64 where "UART0 = 0x10000000"
definition VIRTIO0 :: u64 where "VIRTIO0 = 0x10001000"
definition CLINT :: u64 where "CLINT = 0x2000000"
definition PLIC :: u64 where "PLIC = 0x0c000000"

definition kvmmap :: "u64 \<Rightarrow> u64 \<Rightarrow> u64 \<Rightarrow> u64 \<Rightarrow> 'a kvm_scheme \<Rightarrow> 'a kvm_scheme res" where
  "kvmmap va pa sz perm s =
     bindp (mappages (kernel_pagetable s) va sz pa perm s) (\<lambda>r s1.
       if r \<noteq> 0 then Panic ''kvmmap'' else Ok s1)"

definition kvminit :: "'a kvm_scheme \<Rightarrow> 'a kvm_scheme res" where
  "kvminit s =
     (let (pt, s0) = kalloc s;
          s1 = s0\<lparr>kernel_pagetable := pt, pmem := memset (pmem s0) pt 0 4096\<rparr>
      in bindr (kvmmap UART0 UART0 PGSIZE (PTE_R OR PTE_W) s1) (\<lambda>s2.
         bindr (kvmmap VIRTIO0 VIRTIO0 PGSIZE (PTE_R OR PTE_W) s2) (\<lambda>s3.
         bindr (kvmmap CLINT CLINT 0x10000 (PTE_R OR PTE_W) s3) (\<lambda>s4.
         bindr (kvmmap PLIC PLIC 0x400000 (PTE_R OR PTE_W) s4) (\<lambda>s5.
         bindr (kvmmap KERNBASE KERNBASE (etext s - KERNBASE) (PTE_R OR PTE_X) s5) (\<lambda>s6.
         bindr (kvmmap (etext s) (etext s) (PHYSTOP - etext s) (PTE_R OR PTE_W) s6) (\<lambda>s7.
         kvmmap TRAMPOLINE (trampoline s) PGSIZE (PTE_R OR PTE_X) s7)))))))"

definition MAKE_SATP :: "u64 \<Rightarrow> u64" where
  "MAKE_SATP pagetable = push_bit 60 8 OR drop_bit 12 pagetable"

definition kvminithart :: "'a kvm_scheme \<Rightarrow> 'a kvm_scheme" where
  "kvminithart s = s\<lparr>satp := MAKE_SATP (kernel_pagetable s)\<rparr>"

definition kvmpa :: "u64 \<Rightarrow> 'a kvm_scheme \<Rightarrow> u64 res" where
  "kvmpa va s =
     bindp (walk (kernel_pagetable s) va False s) (\<lambda>pte s1.
       if pte = 0 then Panic ''kvmpa''
       else if load64 (pmem s1) pte AND PTE_V = 0 then Panic ''kvmpa''
       else Ok (PTE2PA (load64 (pmem s1) pte) + va mod PGSIZE))"

end
