(* ===== verification/Pagetable.thy ===== *)
theory Pagetable
  imports Vm "HOL-Library.Sublist"
begin

text \<open>
  What the page tables of kernel/vm.c mean. \<open>table m pt is\<close> is the table reached
  from the root \<open>pt\<close> by the indices \<open>is\<close>, \<open>lookup m pt va\<close> the valid leaf entry of
  a virtual address. \<open>pt_inv\<close> says that the tables form a tree of pages that the
  allocator has handed out. Walking with allocation keeps the invariant and every
  lookup; \<open>mappages\<close> is an update of the partial function \<open>lookup\<close>; \<open>uvmunmap\<close>
  deletes from it.
\<close>

section \<open>Slots of a table\<close>

lemma unat_slot:
  assumes "aligned q" and "i < 512"
  shows "unat (q + 8 * i) = unat q + 8 * unat i"
proof -
  have i: "unat i < 512" using assms(2) by (simp add: word_less_nat_alt)
  have "unat q = 4096 * page_no q" using assms(1) by (rule aligned_page_no)
  moreover have "page_no q < 2 ^ 52"
    using unat_less_u64 [of q] by (simp add: page_no_def less_mult_imp_div_less)
  ultimately show ?thesis using i by (simp add: unat_word_ariths)
qed

lemma page_no_slot [simp]: "aligned q \<Longrightarrow> i < 512 \<Longrightarrow> page_no (q + 8 * i) = page_no q"
proof -
  assume a: "aligned q" "i < 512"
  then have "8 * unat i < 4096" by (simp add: word_less_nat_alt)
  moreover obtain k where "unat q = 4096 * k" using aligned_page_no [OF a(1)] by blast
  ultimately show ?thesis by (simp add: page_no_def unat_slot [OF a])
qed

lemma slot_mod_8 [simp]:
  assumes "aligned q" and "i < 512"
  shows "(q + 8 * i) mod 8 = 0"
proof -
  have "unat q mod 8 = 0"
    using aligned_mod_8 [OF assms(1)] by (simp add: word_unat_eq_iff unat_mod)
  then show ?thesis by (simp add: word_unat_eq_iff unat_mod unat_slot [OF assms])
qed

lemma slot_eq_iff:
  assumes "aligned q" and "i < 512" and "aligned r" and "j < 512"
  shows "q + 8 * i = r + 8 * j \<longleftrightarrow> q = r \<and> i = j"
proof
  assume eq: "q + 8 * i = r + 8 * j"
  then have "page_no (q + 8 * i) = page_no (r + 8 * j)" by (rule arg_cong)
  then have "q = r" using assms page_no_inj by simp
  moreover have "unat (q + 8 * i) = unat (r + 8 * j)" using eq by (rule arg_cong)
  ultimately show "q = r \<and> i = j" using assms by (simp add: unat_slot word_unat_eq_iff)
qed simp

lemma load64_store64_other:
  assumes "a mod 8 = 0" and "b mod 8 = 0" and "a \<noteq> b"
  shows "load64 (store64 m a v) b = load64 m b"
proof (rule load64_cong, rule store64_apply_other, rule notI)
  fix k :: nat
  assume k: "k < 8" and r: "unat (b + of_nat k - a) < 8"
  have "unat (a mod 8) = 0" "unat (b mod 8) = 0" using assms by simp_all
  then have "unat a mod 8 = 0" "unat b mod 8 = 0" by (simp_all add: unat_mod)
  then obtain x y where x: "unat a = 8 * x" and y: "unat b = 8 * y" by fastforce
  have bnd: "x < 2 ^ 61" "y < 2 ^ 61"
    using unat_less_u64 [of a] unat_less_u64 [of b] x y by simp_all
  have "unat (a + (b + of_nat k - a)) = 8 * x + unat (b + of_nat k - a)"
    using x r bnd(1) by (subst unat_add_lem [THEN iffD1]) simp_all
  moreover have "unat (b + of_nat k) = 8 * y + k"
    using y k bnd(2) by (simp add: unat_word_ariths)
  ultimately have "8 * x + unat (b + of_nat k - a) = 8 * y + k" by simp
  with r k have "x = y" by linarith
  with x y assms(3) show False by (simp add: word_unat_eq_iff)
qed

lemma load64_store64_slot:
  assumes "aligned q" and "i < 512" and "aligned r" and "j < 512"
  shows "load64 (store64 m (q + 8 * i) v) (r + 8 * j) =
    (if q = r \<and> i = j then v else load64 m (r + 8 * j))"
  using slot_eq_iff [OF assms] assms by (auto simp: load64_store64_other)

lemma load64_zero:
  assumes "aligned q" and "i < 512" and "\<And>x. page_no x = page_no q \<Longrightarrow> m x = 0"
  shows "load64 m (q + 8 * i) = 0"
proof -
  have "load64 m (q + 8 * i) = load64 (\<lambda>_. 0) (q + 8 * i)"
  proof (rule load64_cong)
    fix k :: nat assume "k < 8"
    with assms(1,2) have "page_no (q + 8 * i + of_nat k) = page_no q"
      using page_no_offset [OF slot_mod_8] page_no_slot by metis
    then show "m (q + 8 * i + of_nat k) = 0" by (rule assms(3))
  qed
  also have "\<dots> = 0" by (simp add: load64_def numeral_eq_Suc)
  finally show ?thesis .
qed

section \<open>Encoding of entries\<close>

lemma aligned_bits: "aligned pa \<longleftrightarrow> (\<forall>n < 12. \<not> bit pa n)"
proof -
  have "aligned pa \<longleftrightarrow> take_bit 12 pa = 0"
    by (simp add: aligned_def take_bit_eq_mod)
  also have "\<dots> \<longleftrightarrow> (\<forall>n < 12. \<not> bit pa n)"
    by (auto simp: bit_eq_iff bit_simps)
  finally show ?thesis .
qed

lemma flags_bits: "fl < 1024 \<longleftrightarrow> (\<forall>n \<ge> 10. \<not> bit (fl :: u64) n)"
proof -
  have "fl < 1024 \<longleftrightarrow> take_bit 10 fl = fl"
    by (simp add: word_less_nat_alt word_unat_eq_iff unsigned_take_bit_eq take_bit_nat_eq_self_iff)
  also have "\<dots> \<longleftrightarrow> (\<forall>n \<ge> 10. \<not> bit fl n)"
    by (simp only: bit_eq_iff bit_take_bit_iff) (meson bit_imp_possible_bit not_less)
  finally show ?thesis .
qed

lemma PTE2PA_encode:
  assumes "aligned pa" and "fl < 1024"
  shows "PTE2PA (PA2PTE pa OR fl) = pa"
proof (rule bit_word_eqI)
  fix n :: nat
  assume "n < LENGTH(64)"
  then show "bit (PTE2PA (PA2PTE pa OR fl)) n = bit pa n"
    using assms unfolding aligned_bits flags_bits PTE2PA_def PA2PTE_def
    by (cases "n < 12") (auto simp: bit_simps)
qed

lemma PTE_FLAGS_encode:
  assumes "fl < 1024"
  shows "PTE_FLAGS (PA2PTE pa OR fl) = fl"
proof -
  have mask_10: "(0x3FF :: u64) = mask 10" by (simp add: mask_eq_exp_minus_1)
  then show ?thesis
    using assms unfolding flags_bits PTE_FLAGS_def PA2PTE_def
    by (intro bit_word_eqI) (auto simp: bit_simps not_le simp: mask_10 simp del: mask_numeral)
qed

lemma aligned_PTE2PA [simp]: "aligned (PTE2PA e)"
  by (simp add: aligned_bits PTE2PA_def bit_simps)

lemma and_one_nonzero: "(w :: u64) AND 1 \<noteq> 0 \<longleftrightarrow> bit w 0"
  by (simp add: and_one_eq bit_0 odd_iff_mod_2_eq_one)

lemma valid_encode [simp]: "(PA2PTE pa OR fl OR 1) AND 1 \<noteq> 0" "(PA2PTE pa OR 1) AND 1 \<noteq> 0"
  unfolding and_one_nonzero by (simp_all add: bit_simps)

section \<open>The tables and what they map\<close>

definition pt_next :: "mem \<Rightarrow> u64 \<Rightarrow> u64 \<Rightarrow> u64 option" where
  "pt_next m q i =
     (let e = load64 m (q + 8 * i) in if e AND PTE_V \<noteq> 0 then Some (PTE2PA e) else None)"

primrec table :: "mem \<Rightarrow> u64 \<Rightarrow> u64 list \<Rightarrow> u64 option" where
  "table m q [] = Some q"
| "table m q (i # is) = Option.bind (pt_next m q i) (\<lambda>r. table m r is)"

abbreviation index_ok :: "u64 list \<Rightarrow> bool" where
  "index_ok is \<equiv> length is \<le> 2 \<and> (\<forall>i \<in> set is. i < 512)"

definition tables :: "mem \<Rightarrow> u64 \<Rightarrow> u64 set" where
  "tables m pt = {q. \<exists>is. index_ok is \<and> table m pt is = Some q}"

text \<open>The two indices that lead to the last table for an address.\<close>

definition va_path :: "u64 \<Rightarrow> u64 list" where
  "va_path va = [PX 2 va, PX 1 va]"

definition lookup :: "mem \<Rightarrow> u64 \<Rightarrow> u64 \<Rightarrow> u64 option" where
  "lookup m pt va =
     (case table m pt (va_path va) of
        None \<Rightarrow> None
      | Some q \<Rightarrow> let e = load64 m (q + 8 * PX 0 va) in if e AND PTE_V \<noteq> 0 then Some e else None)"

text \<open>
  The tables form a tree of pages from the allocator: different index lists lead
  to different pages, and no table is on the free list \<open>ps\<close>.
\<close>

definition pt_inv :: "'a kmem_scheme \<Rightarrow> u64 \<Rightarrow> u64 list \<Rightarrow> bool" where
  "pt_inv s pt ps \<longleftrightarrow> free_pages s ps \<and>
     (\<forall>q \<in> tables (pmem s) pt. is_page s q \<and> q \<notin> set ps) \<and>
     (\<forall>is js q. index_ok is \<longrightarrow> index_ok js \<longrightarrow> table (pmem s) pt is = Some q \<longrightarrow>
        table (pmem s) pt js = Some q \<longrightarrow> is = js)"

lemma table_append: "table m q (is @ js) = Option.bind (table m q is) (\<lambda>r. table m r js)"
  by (induction "is" arbitrary: q) (auto split: bind_splits)

lemma table_snoc: "table m q (is @ [i]) = Option.bind (table m q is) (\<lambda>r. pt_next m r i)"
  by (simp add: table_append split: bind_splits)

lemma unat_PX: "unat (PX l va) = unat va div 2 ^ (12 + 9 * l) mod 512"
proof -
  have "(0x1FF :: u64) = mask 9" by (simp add: mask_eq_exp_minus_1)
  then have "PX l va = take_bit 9 (drop_bit (12 + 9 * l) va)"
    unfolding PX_def by (simp only: take_bit_eq_mask and.commute)
  moreover have "unat (drop_bit n va) = unat va div 2 ^ n" for n
    by (simp only: unat_drop_bit_eq) (simp add: drop_bit_eq_div)
  ultimately show ?thesis
    by (simp only: unsigned_take_bit_eq) (simp add: take_bit_eq_mod)
qed

lemma PX_less [simp]: "PX l va < 512"
  unfolding word_less_nat_alt unat_PX by simp

lemma index_ok_path [simp]: "index_ok (va_path va)" "index_ok (take n (va_path va))"
  using set_take_subset [of n "va_path va"] by (auto simp: va_path_def)

text \<open>Below \<open>MAXVA\<close> the three indices determine the page of an address and are determined by it.\<close>

lemma three_digits:
  assumes "(p :: nat) < 2 ^ 27"
  shows "p = 262144 * (p div 262144 mod 512) + 512 * (p div 512 mod 512) + p mod 512"
proof -
  define d e y z where defs: "d = p div 512" "e = d div 512" "y = d mod 512" "z = p mod 512"
  then have "p = 512 * d + z" "d = 512 * e + y" by simp_all
  then have "p = 262144 * e + 512 * y + z" by linarith
  moreover have "p div 262144 = e" by (simp add: defs div_mult2_eq [symmetric])
  moreover from this assms have "e mod 512 = e" by auto
  ultimately show ?thesis using defs by simp
qed

lemma PX_page:
  assumes "va < MAXVA"
  shows "page_no va = 262144 * unat (PX 2 va) + 512 * unat (PX 1 va) + unat (PX 0 va)"
proof -
  have lt: "unat va < 2 ^ 38" using assms by (simp add: word_less_nat_alt)
  then have "page_no va < 2 ^ 27" by (simp add: page_no_def)
  from three_digits [OF this] lt show ?thesis
    unfolding unat_PX page_no_def by (simp add: div_mult2_eq [symmetric])
qed

lemma PX_eq_iff:
  assumes "va < MAXVA" and "va' < MAXVA"
  shows "va_path va = va_path va' \<and> PX 0 va = PX 0 va' \<longleftrightarrow> page_no va = page_no va'"
proof
  assume "page_no va = page_no va'"
  then have "unat va div 2 ^ (12 + 9 * l) = unat va' div 2 ^ (12 + 9 * l)" for l
    unfolding page_no_def power_add div_mult2_eq by simp
  then have "unat (PX l va) = unat (PX l va')" for l by (simp only: unat_PX)
  then show "va_path va = va_path va' \<and> PX 0 va = PX 0 va'"
    by (simp add: va_path_def word_unat_eq_iff)
next
  assume "va_path va = va_path va' \<and> PX 0 va = PX 0 va'"
  then show "page_no va = page_no va'" using assms by (simp add: va_path_def PX_page)
qed

lemma tablesI: "index_ok is \<Longrightarrow> table m pt is = Some q \<Longrightarrow> q \<in> tables m pt"
  by (auto simp: tables_def)

lemma root_in_tables [simp]: "pt \<in> tables m pt"
  by (rule tablesI [of "[]"]) simp_all

lemma pt_inv_page:
  assumes "pt_inv s pt ps" and "q \<in> tables (pmem s) pt"
  shows "is_page s q" and "q \<notin> set ps" and "aligned q" and "q \<noteq> 0"
  using assms is_page_nonzero by (auto simp: pt_inv_def is_page_def free_pages_def)

lemma pt_inv_inj:
  "pt_inv s pt ps \<Longrightarrow> index_ok is \<Longrightarrow> index_ok js \<Longrightarrow> table (pmem s) pt is = Some q \<Longrightarrow>
   table (pmem s) pt js = Some q \<Longrightarrow> is = js"
  by (auto simp: pt_inv_def)

subsection \<open>Changes of memory and the tables\<close>

text \<open>Changing memory outside the tables changes no table and no lookup.\<close>

lemma load64_agree:
  assumes "\<And>x. page_no x = page_no q \<Longrightarrow> m' x = m x" and "aligned q" and "i < 512"
  shows "load64 m' (q + 8 * i) = load64 m (q + 8 * i)"
proof (rule load64_cong)
  fix k :: nat assume "k < 8"
  with assms(2,3) have "page_no (q + 8 * i + of_nat k) = page_no q"
    using page_no_offset [OF slot_mod_8] page_no_slot by metis
  then show "m' (q + 8 * i + of_nat k) = m (q + 8 * i + of_nat k)" by (rule assms(1))
qed

lemma table_frame:
  assumes al: "\<forall>q \<in> tables m pt. aligned q"
    and eq: "\<And>x q. q \<in> tables m pt \<Longrightarrow> page_no x = page_no q \<Longrightarrow> m' x = m x"
    and "length is \<le> 3" and "\<forall>i \<in> set is. i < 512"
  shows "table m' pt is = table m pt is"
  using assms(3,4)
proof (induction "is" rule: rev_induct)
  case (snoc i "is")
  have "pt_next m' q i = pt_next m q i" if "table m pt is = Some q" for q
  proof -
    have "q \<in> tables m pt" using that snoc.prems by (intro tablesI [of "is"]) auto
    then have "load64 m' (q + 8 * i) = load64 m (q + 8 * i)"
      using snoc.prems al by (intro load64_agree eq) auto
    then show ?thesis by (simp add: pt_next_def)
  qed
  then show ?case using snoc by (auto simp: table_snoc split: bind_splits)
qed simp

lemma tables_frame:
  assumes "\<forall>q \<in> tables m pt. aligned q"
    and "\<And>x q. q \<in> tables m pt \<Longrightarrow> page_no x = page_no q \<Longrightarrow> m' x = m x"
  shows "tables m' pt = tables m pt"
proof -
  have "table m' pt is = table m pt is" if "index_ok is" for "is"
    by (rule table_frame [OF assms]) (use that in auto)
  then show ?thesis unfolding tables_def by auto
qed

lemma lookup_frame:
  assumes al: "\<forall>q \<in> tables m pt. aligned q"
    and eq: "\<And>x q. q \<in> tables m pt \<Longrightarrow> page_no x = page_no q \<Longrightarrow> m' x = m x"
  shows "lookup m' pt va = lookup m pt va"
proof -
  have t: "table m' pt (va_path va) = table m pt (va_path va)"
    by (rule table_frame [OF assms]) (auto simp: va_path_def)
  show ?thesis
  proof (cases "table m pt (va_path va)")
    case (Some q)
    then have "q \<in> tables m pt" by (rule tablesI [OF index_ok_path(1)])
    then have "load64 m' (q + 8 * PX 0 va) = load64 m (q + 8 * PX 0 va)"
      using al by (intro load64_agree eq) auto
    then show ?thesis by (simp add: lookup_def t Some)
  qed (simp add: lookup_def t)
qed

text \<open>
  Storing an entry changes only what lies behind that entry.
\<close>

lemma table_store:
  assumes inv: "pt_inv s pt ps" and "is": "index_ok is" "table (pmem s) pt is = Some q" "i < 512"
    and js: "length js \<le> 3" "\<forall>j \<in> set js. j < 512" "\<not> prefix (is @ [i]) js"
  shows "table (store64 (pmem s) (q + 8 * i) e) pt js = table (pmem s) pt js"
  using js
proof (induction js rule: rev_induct)
  case (snoc j js)
  have q: "q \<in> tables (pmem s) pt" using "is" by (intro tablesI)
  have "pt_next (store64 (pmem s) (q + 8 * i) e) r j = pt_next (pmem s) r j"
    if r: "table (pmem s) pt js = Some r" for r
  proof -
    have ok: "index_ok js" using snoc.prems by simp
    then have "r \<in> tables (pmem s) pt" using r by (intro tablesI)
    moreover have "\<not> (q = r \<and> i = j)"
      using pt_inv_inj [OF inv "is"(1) ok "is"(2)] r snoc.prems(3) by auto
    ultimately show ?thesis
      using inv q snoc.prems "is"(3)
      by (auto simp: pt_next_def load64_store64_slot pt_inv_page(3))
  qed
  moreover have "\<not> prefix (is @ [i]) js" using snoc.prems(3) by auto
  ultimately show ?case using snoc by (auto simp: table_snoc split: bind_splits)
qed simp

lemma is_page_cong: "kend s' = kend s \<Longrightarrow> is_page s' q = is_page s q"
  by (simp add: is_page_def)

lemma pt_inv_frame:
  assumes inv: "pt_inv s pt ps" and free: "free_pages s' ps'" "kend s' = kend s"
    and dis: "tables (pmem s) pt \<inter> set ps' = {}"
    and same: "\<forall>q \<in> tables (pmem s) pt. \<forall>x. page_no x = page_no q \<longrightarrow> pmem s' x = pmem s x"
  shows "pt_inv s' pt ps'" and "tables (pmem s') pt = tables (pmem s) pt"
    and "lookup (pmem s') pt va = lookup (pmem s) pt va"
    and "index_ok is \<Longrightarrow> table (pmem s') pt is = table (pmem s) pt is"
proof -
  have al: "\<forall>q \<in> tables (pmem s) pt. aligned q" using pt_inv_page(3) [OF inv] by blast
  have eq: "\<And>x q. q \<in> tables (pmem s) pt \<Longrightarrow> page_no x = page_no q \<Longrightarrow> pmem s' x = pmem s x"
    using same by blast
  show t: "index_ok is \<Longrightarrow> table (pmem s') pt is = table (pmem s) pt is" for "is"
    by (rule table_frame [OF al eq]) auto
  show ts: "tables (pmem s') pt = tables (pmem s) pt" by (rule tables_frame [OF al eq])
  show "lookup (pmem s') pt va = lookup (pmem s) pt va" by (rule lookup_frame [OF al eq])
  show "pt_inv s' pt ps'"
    using inv dis free(1) unfolding pt_inv_def ts is_page_cong [OF free(2)] by (auto simp: t)
qed

lemma page_no_table:
  assumes "pt_inv s pt ps" and "q \<in> tables (pmem s) pt" and "aligned p" and "p \<noteq> q"
  shows "page_no q \<noteq> page_no p"
  using assms page_no_inj pt_inv_page(3) by metis

text \<open>
  Installing a fresh zeroed page \<open>p\<close> in an empty slot adds exactly that table.
\<close>

lemma install_table:
  assumes inv: "pt_inv s pt ps" and p: "is_page s p" "p \<notin> tables (pmem s) pt" "p \<notin> set ps"
    and "is": "length is \<le> 1" "\<forall>j \<in> set is. j < 512" "table (pmem s) pt is = Some q" "i < 512"
    and none: "pt_next (pmem s) q i = None"
    and zero: "\<forall>x. page_no x = page_no p \<longrightarrow> pmem s x = 0"
  defines "m \<equiv> store64 (pmem s) (q + 8 * i) (PA2PTE p OR 1)"
  shows "index_ok js \<Longrightarrow> table m pt js = (if js = is @ [i] then Some p else table (pmem s) pt js)"
    and "lookup m pt va = lookup (pmem s) pt va"
proof -
  have q: "q \<in> tables (pmem s) pt" using "is" by (intro tablesI) auto
  note qp = pt_inv_page [OF inv q]
  have ne: "q \<noteq> p" using q p(2) by auto
  have al: "aligned p" using p(1) by (simp add: is_page_def)
  have ok: "index_ok is" using "is" by simp
  have "table m pt is = table (pmem s) pt is"
    unfolding m_def using "is" by (intro table_store [OF inv ok]) (auto dest: prefix_length_le)
  moreover have "pt_next m q i = Some p"
    using qp(3) "is"(4) PTE2PA_encode [OF al, of 1]
    by (simp add: pt_next_def m_def load64_store64_slot)
  ultimately have new: "table m pt (is @ [i]) = Some p" using "is"(3) by (simp add: table_snoc)
  have emp: "pt_next m p j = None" if "j < 512" for j
    using load64_zero [OF al that, of "pmem s"] zero ne al qp(3) "is"(4) that
    by (simp add: pt_next_def m_def load64_store64_slot)
  have none': "table (pmem s) pt (is @ i # js) = None" for js
    using "is"(3) none by (simp add: table_append)
  show t: "table m pt js = (if js = is @ [i] then Some p else table (pmem s) pt js)"
    if js: "index_ok js" for js
  proof (cases "prefix (is @ [i]) js")
    case True
    then obtain ks where ks: "js = is @ [i] @ ks" by (auto simp: prefix_def)
    show ?thesis
    proof (cases ks)
      case (Cons k ks')
      then have "table m pt js = None"
        using js new emp [of k] unfolding ks append_assoc [symmetric]
        by (subst table_append) simp
      then show ?thesis using none' ks Cons by simp
    qed (simp add: ks new)
  next
    case False
    then show ?thesis
      unfolding m_def using "is" js by (subst table_store [OF inv ok]) auto
  qed
  show "lookup m pt va = lookup (pmem s) pt va"
  proof (cases "va_path va = is @ [i]")
    case True
    then show ?thesis
      using new emp [of "PX 0 va"] none' [of "[]"]
      by (simp add: lookup_def pt_next_def Let_def split: if_splits)
  next
    case False
    have "load64 m (r + 8 * PX 0 va) = load64 (pmem s) (r + 8 * PX 0 va)"
      if r: "table (pmem s) pt (va_path va) = Some r" for r
    proof -
      have "r \<in> tables (pmem s) pt" using r by (intro tablesI [OF index_ok_path(1)])
      moreover have "q \<noteq> r"
        using pt_inv_inj [OF inv ok index_ok_path(1), of q va] "is"(1,3) r by (auto simp: va_path_def)
      ultimately show ?thesis
        using inv qp(3) "is"(4) by (simp add: m_def load64_store64_slot pt_inv_page(3))
    qed
    then show ?thesis using False t [of "va_path va"] by (auto simp: lookup_def split: option.splits)
  qed
qed

subsection \<open>Walking\<close>

text \<open>
  \<open>pt_grow\<close>: from \<open>s\<close> to \<open>s'\<close> only tables of \<open>pt\<close> and free pages have been
  written, and pages have moved from the free list to the tables of \<open>pt\<close>.
\<close>

definition pt_grow ::
  "'a kmem_scheme \<Rightarrow> u64 \<Rightarrow> u64 list \<Rightarrow> 'a kmem_scheme \<Rightarrow> u64 list \<Rightarrow> bool" where
  "pt_grow s pt ps s' ps' \<longleftrightarrow> pt_inv s' pt ps' \<and>
     (\<exists>m f. s' = s\<lparr>pmem := m, freelist := f\<rparr>) \<and> suffix ps' ps \<and>
     tables (pmem s) pt \<subseteq> tables (pmem s') pt \<and>
     tables (pmem s') pt \<union> set ps' = tables (pmem s) pt \<union> set ps \<and>
     (\<forall>x. page_no x \<notin> page_no ` (tables (pmem s) pt \<union> set ps) \<longrightarrow> pmem s' x = pmem s x)"

lemma pt_grow_refl: "pt_inv s pt ps \<Longrightarrow> pt_grow s pt ps s ps"
  unfolding pt_grow_def by (auto intro!: exI [of _ "pmem s"] exI [of _ "freelist s"])

lemma pt_growD:
  assumes "pt_grow s pt ps s' ps'"
  shows "pt_inv s' pt ps'" and "\<exists>m f. s' = s\<lparr>pmem := m, freelist := f\<rparr>" and "suffix ps' ps"
    and "tables (pmem s) pt \<subseteq> tables (pmem s') pt"
    and "tables (pmem s') pt \<union> set ps' = tables (pmem s) pt \<union> set ps"
    and "\<And>x. page_no x \<notin> page_no ` (tables (pmem s) pt \<union> set ps) \<Longrightarrow> pmem s' x = pmem s x"
  using assms unfolding pt_grow_def by blast+

lemma pt_grow_trans:
  assumes a: "pt_grow s pt ps s1 ps1" and b: "pt_grow s1 pt ps1 s2 ps2"
  shows "pt_grow s pt ps s2 ps2"
  unfolding pt_grow_def
proof (intro conjI allI impI)
  obtain m f m' f' where "s1 = s\<lparr>pmem := m, freelist := f\<rparr>" "s2 = s1\<lparr>pmem := m', freelist := f'\<rparr>"
    using pt_growD(2) [OF a] pt_growD(2) [OF b] by blast
  then have "s2 = s\<lparr>pmem := m', freelist := f'\<rparr>" by simp
  then show "\<exists>m f. s2 = s\<lparr>pmem := m, freelist := f\<rparr>" by blast
  show "pt_inv s2 pt ps2" by (rule pt_growD(1) [OF b])
  show "suffix ps2 ps"
    by (rule suffix_order.trans [OF pt_growD(3) [OF b] pt_growD(3) [OF a]])
  show "tables (pmem s) pt \<subseteq> tables (pmem s2) pt"
    by (rule subset_trans [OF pt_growD(4) [OF a] pt_growD(4) [OF b]])
  show "tables (pmem s2) pt \<union> set ps2 = tables (pmem s) pt \<union> set ps"
    by (simp only: pt_growD(5) [OF b] pt_growD(5) [OF a])
  show "pmem s2 x = pmem s x" if "page_no x \<notin> page_no ` (tables (pmem s) pt \<union> set ps)" for x
    using pt_growD(6) [OF b, of x] pt_growD(6) [OF a, of x] that
    unfolding pt_growD(5) [OF a] by simp
qed

lemma va_path_step:
  assumes "l < 2"
  shows "take (2 - l) (va_path va) = take (2 - Suc l) (va_path va) @ [PX (Suc l) va]"
  using less_2_cases [OF assms] by (elim disjE) (simp_all add: va_path_def eval_nat_numeral)

text \<open>
  Where nothing needs to be allocated, \<open>walk\<close> finds the slot of the address or returns 0.
\<close>

lemma walk_from_lookup:
  assumes "k \<le> 2" and "table (pmem s) pt (take (2 - k) (va_path va)) = Some q"
    and "alloc \<longrightarrow> table (pmem s) pt (va_path va) \<noteq> None"
  shows "walk_from k q va alloc s =
    ((case table (pmem s) pt (va_path va) of None \<Rightarrow> 0 | Some r \<Rightarrow> r + 8 * PX 0 va), s)"
  using assms(1,2)
proof (induction k arbitrary: q)
  case 0
  then show ?case by (simp add: va_path_def)
next
  case (Suc l)
  then have l: "l < 2" by simp
  let ?is = "take (2 - Suc l) (va_path va)"
  have rest: "va_path va = (?is @ [PX (Suc l) va]) @ drop (2 - l) (va_path va)"
    unfolding va_path_step [OF l, symmetric] by simp
  have step: "table (pmem s) pt (?is @ [PX (Suc l) va]) = pt_next (pmem s) q (PX (Suc l) va)"
    using Suc.prems(2) by (simp add: table_snoc)
  show ?case
  proof (cases "pt_next (pmem s) q (PX (Suc l) va)")
    case None
    then have "table (pmem s) pt (va_path va) = None"
      by (subst rest, subst table_append) (simp only: step bind.simps)
    then show ?thesis using None assms(3) by (simp add: pt_next_def Let_def split: if_splits)
  next
    case (Some r)
    then have "walk_from l r va alloc s =
      ((case table (pmem s) pt (va_path va) of None \<Rightarrow> 0 | Some r \<Rightarrow> r + 8 * PX 0 va), s)"
      using step l by (intro Suc.IH) (simp_all only: va_path_step)
    then show ?thesis using Some by (cases alloc) (simp_all add: pt_next_def Let_def split: if_splits)
  qed
qed

lemma walk_lookup:
  assumes "va < MAXVA" and "alloc \<longrightarrow> table (pmem s) pt (va_path va) \<noteq> None"
  shows "walk pt va alloc s =
    Ok ((case table (pmem s) pt (va_path va) of None \<Rightarrow> 0 | Some r \<Rightarrow> r + 8 * PX 0 va), s)"
  using walk_from_lookup [of 2 s pt va pt alloc] assms by (simp add: walk_def)

lemma free_chain_agree:
  assumes "free_chain m r ps" and "\<forall>q \<in> set ps. aligned q"
    and "\<And>x q. q \<in> set ps \<Longrightarrow> page_no x = page_no q \<Longrightarrow> m' x = m x"
  shows "free_chain m' r ps"
  using assms
proof (induction ps arbitrary: r)
  case (Cons q qs)
  have "load64 m' (q + 8 * 0) = load64 m (q + 8 * 0)"
    using Cons.prems(2) by (intro load64_agree Cons.prems(3)) auto
  then have "load64 m' q = load64 m q" by simp
  moreover have "free_chain m' (load64 m q) qs"
  proof (rule Cons.IH)
    show "free_chain m (load64 m q) qs" using Cons.prems(1) by auto
    show "m' x = m x" if "p \<in> set qs" "page_no x = page_no p" for x p
      using Cons.prems(3) [of p x] that by simp
  qed (use Cons.prems(2) in simp)
  ultimately show ?case using Cons.prems(1) by auto
qed simp

lemma free_pages_agree:
  assumes "free_pages s ps"
    and "\<And>x q. q \<in> set ps \<Longrightarrow> page_no x = page_no q \<Longrightarrow> m x = pmem s x"
  shows "free_pages (s\<lparr>pmem := m\<rparr>) ps"
proof -
  have "free_chain m (freelist s) ps"
    using assms(1) by (intro free_chain_agree [OF _ _ assms(2)]) (auto simp: free_pages_def is_page_def)
  then show ?thesis using assms(1) by (simp add: free_pages_def is_page_def)
qed

lemma slot_store_other:
  "aligned q \<Longrightarrow> i < 512 \<Longrightarrow> page_no x \<noteq> page_no q \<Longrightarrow> store64 m (q + 8 * i) v x = m x"
  by (rule store64_other_page) simp_all

lemma install_inv:
  assumes inv: "pt_inv s pt ps" and p: "is_page s p" "p \<notin> tables (pmem s) pt" "p \<notin> set ps"
    and "is": "length is \<le> 1" "\<forall>j \<in> set is. j < 512" "table (pmem s) pt is = Some q" "i < 512"
    and none: "pt_next (pmem s) q i = None"
    and zero: "\<forall>x. page_no x = page_no p \<longrightarrow> pmem s x = 0"
  defines "m \<equiv> store64 (pmem s) (q + 8 * i) (PA2PTE p OR 1)"
  shows "tables m pt = insert p (tables (pmem s) pt)" and "pt_inv (s\<lparr>pmem := m\<rparr>) pt ps"
proof -
  note ins = install_table(1) [OF assms(1-10), folded m_def]
  have q: "q \<in> tables (pmem s) pt" using "is" by (intro tablesI) auto
  note qp = pt_inv_page [OF inv q]
  have new: "index_ok (is @ [i])" using "is" by auto
  have old: "table (pmem s) pt (is @ [i]) = None" using none "is"(3) by (simp add: table_snoc)
  show T: "tables m pt = insert p (tables (pmem s) pt)"
  proof (intro equalityI subsetI)
    fix r assume "r \<in> tables m pt"
    then obtain js where js: "index_ok js" "table m pt js = Some r" by (auto simp: tables_def)
    show "r \<in> insert p (tables (pmem s) pt)"
      using js(2) ins [OF js(1)] tablesI [OF js(1)] by (auto split: if_splits)
  next
    fix r assume "r \<in> insert p (tables (pmem s) pt)"
    then consider "r = p" | js where "index_ok js" "table (pmem s) pt js = Some r"
      by (auto simp: tables_def)
    then show "r \<in> tables m pt"
    proof cases
      case 1
      then show ?thesis using tablesI [OF new] ins [OF new] by simp
    next
      case (2 js)
      then show ?thesis using tablesI [OF 2(1)] ins [OF 2(1)] old by (auto split: if_splits)
    qed
  qed
  have "js = ks" if "index_ok js" "index_ok ks" "table m pt js = Some r" "table m pt ks = Some r"
    for js ks r
    using that(3,4) pt_inv_inj [OF inv that(1,2)] tablesI [OF that(1)] tablesI [OF that(2)] p(2)
    unfolding ins [OF that(1)] ins [OF that(2)] by (auto split: if_splits)
  moreover have "\<forall>r \<in> tables m pt. is_page s r \<and> r \<notin> set ps"
    using inv p unfolding T pt_inv_def by auto
  moreover have "free_pages (s\<lparr>pmem := m\<rparr>) ps"
  proof (rule free_pages_agree)
    show fp: "free_pages s ps" using inv by (simp add: pt_inv_def)
    fix x r assume r: "r \<in> set ps" "page_no x = page_no r"
    then have "aligned r" "r \<noteq> q" using fp qp(2) by (auto simp: free_pages_def is_page_def)
    then show "m x = pmem s x"
      unfolding m_def using r qp(3) "is"(4) page_no_inj by (intro slot_store_other) auto
  qed
  ultimately show "pt_inv (s\<lparr>pmem := m\<rparr>) pt ps"
    unfolding pt_inv_def by (simp add: is_page_def)
qed

text \<open>Taking a page from the allocator, clearing it and entering it as a table.\<close>

lemma alloc_cleared:
  assumes inv: "pt_inv s pt (p # ps)" and "kalloc s = (p', s1)"
  defines "s2 \<equiv> s1\<lparr>pmem := memset (pmem s1) p 0 4096\<rparr>"
  shows "p' = p" and "free_pages s2 ps" and "\<exists>m f. s2 = s\<lparr>pmem := m, freelist := f\<rparr>"
    and "\<And>x. page_no x \<noteq> page_no p \<Longrightarrow> pmem s2 x = pmem s x"
    and "\<And>x. page_no x = page_no p \<Longrightarrow> pmem s2 x = 0"
proof -
  have fp: "free_pages s (p # ps)" using inv by (simp add: pt_inv_def)
  have al: "aligned p" using fp by (simp add: free_pages_def is_page_def)
  obtain m where m: "kalloc s = (p, s\<lparr>pmem := m, freelist := load64 (pmem s) p\<rparr>)"
    "free_pages (s\<lparr>pmem := m, freelist := load64 (pmem s) p\<rparr>) ps"
    "\<forall>x. page_no x \<noteq> page_no p \<longrightarrow> m x = pmem s x"
    using kalloc_pop [OF fp] by blast
  have s1: "s1 = s\<lparr>pmem := m, freelist := load64 (pmem s) p\<rparr>" using assms(2) m(1) by auto
  show "p' = p" using assms(2) m(1) by simp
  have "s2 = s\<lparr>pmem := memset m p 0 4096, freelist := load64 (pmem s) p\<rparr>" by (simp add: s2_def s1)
  then show "\<exists>m f. s2 = s\<lparr>pmem := m, freelist := f\<rparr>" by blast
  show "pmem s2 x = pmem s x" if "page_no x \<noteq> page_no p" for x
    using that m(3) by (simp add: s2_def s1 memset_other_page [OF al])
  show "pmem s2 x = 0" if "page_no x = page_no p" for x
    using that by (simp add: s2_def memset_same_page [OF al])
  have ne: "page_no q \<noteq> page_no p" if "q \<in> set ps" for q
    using that fp page_no_inj [OF _ al, of q] by (auto simp: free_pages_def is_page_def)
  have "free_pages s1 ps" using m(2) s1 by simp
  then show "free_pages s2 ps"
    unfolding s2_def by (rule free_pages_agree) (auto simp: ne memset_other_page [OF al])
qed

lemma grow_step:
  assumes inv: "pt_inv s pt (p # ps)" and ka: "kalloc s = (p', s1)"
    and "is": "length is \<le> 1" "\<forall>j \<in> set is. j < 512" "table (pmem s) pt is = Some q" "i < 512"
    and none: "pt_next (pmem s) q i = None"
  defines "s2 \<equiv> s1\<lparr>pmem := memset (pmem s1) p 0 4096\<rparr>"
  defines "s3 \<equiv> s1\<lparr>pmem := store64 (memset (pmem s1) p 0 4096) (q + 8 * i) (PA2PTE p OR 1)\<rparr>"
  shows "pt_grow s pt (p # ps) s3 ps" and "lookup (pmem s3) pt va = lookup (pmem s) pt va"
    and "table (pmem s3) pt (is @ [i]) = Some p"
proof -
  note alloc = alloc_cleared [OF inv ka, folded s2_def]
  have "free_pages s (p # ps)" using inv by (simp add: pt_inv_def)
  then have pg: "is_page s p" "aligned p" "p \<notin> set ps" by (auto simp: free_pages_def is_page_def)
  obtain m f where s2: "s2 = s\<lparr>pmem := m, freelist := f\<rparr>" using alloc(3) by blast
  have k2: "kend s2 = kend s" by (simp add: s2)
  have pnt: "p \<notin> tables (pmem s) pt" "tables (pmem s) pt \<inter> set ps = {}"
    using inv by (auto simp: pt_inv_def)
  have same: "\<forall>r \<in> tables (pmem s) pt. \<forall>x. page_no x = page_no r \<longrightarrow> pmem s2 x = pmem s x"
    using alloc(4) page_no_table [OF inv _ pg(2)] pnt(1) by metis
  note fr = pt_inv_frame [OF inv alloc(2) k2 pnt(2) same]
  have t2: "table (pmem s2) pt is = Some q" using fr(4) "is" by simp
  have q: "q \<in> tables (pmem s) pt" using "is" by (intro tablesI) auto
  have "load64 (pmem s2) (q + 8 * i) = load64 (pmem s) (q + 8 * i)"
    using q same "is"(4) pt_inv_page(3) [OF inv q] by (intro load64_agree) auto
  then have none2: "pt_next (pmem s2) q i = None" using none by (simp add: pt_next_def)
  have p2: "is_page s2 p" "p \<notin> tables (pmem s2) pt"
    using pg(1) pnt(1) by (simp_all add: is_page_cong [OF k2] fr(2))
  have zero: "\<forall>x. page_no x = page_no p \<longrightarrow> pmem s2 x = 0" using alloc(5) by blast
  note prem = fr(1) p2 pg(3) "is"(1,2) t2 "is"(4) none2 zero
  let ?m3 = "store64 (pmem s2) (q + 8 * i) (PA2PTE p OR 1)"
  have s3: "s3 = s2\<lparr>pmem := ?m3\<rparr>" by (simp add: s3_def s2_def)
  show "table (pmem s3) pt (is @ [i]) = Some p"
    using install_table(1) [OF prem, of "is @ [i]"] "is" by (simp add: s3)
  show "lookup (pmem s3) pt va = lookup (pmem s) pt va"
    using install_table(2) [OF prem] fr(3) by (simp add: s3)
  show "pt_grow s pt (p # ps) s3 ps"
    unfolding pt_grow_def
  proof (intro conjI allI impI)
    show "pt_inv s3 pt ps" unfolding s3 by (rule install_inv(2) [OF prem])
    have "s3 = s\<lparr>pmem := ?m3, freelist := f\<rparr>" unfolding s3 by (simp add: s2)
    then show "\<exists>m f. s3 = s\<lparr>pmem := m, freelist := f\<rparr>" by blast
    fix x assume x: "page_no x \<notin> page_no ` (tables (pmem s) pt \<union> set (p # ps))"
    then have "page_no x \<noteq> page_no q" "page_no x \<noteq> page_no p" using q by auto
    then show "pmem s3 x = pmem s x"
      using alloc(4) by (simp add: s3 slot_store_other pt_inv_page(3) [OF inv q] "is"(4))
  qed (use install_inv(1) [OF prem] fr(2) s3 in \<open>auto simp: suffix_def\<close>)
qed

text \<open>With allocation, \<open>walk\<close> finds or makes the slot, and fails only when memory runs out.\<close>

lemma walk_from_alloc:
  assumes "pt_inv s pt ps" and "k \<le> 2"
    and "table (pmem s) pt (take (2 - k) (va_path va)) = Some q"
    and "walk_from k q va True s = (pte, s')"
  shows "\<exists>ps'. pt_grow s pt ps s' ps' \<and> (\<forall>a. lookup (pmem s') pt a = lookup (pmem s) pt a) \<and>
    (if pte = 0 then ps' = [] \<and> length ps < k
     else \<exists>r. table (pmem s') pt (va_path va) = Some r \<and> pte = r + 8 * PX 0 va) \<and>
    length ps \<le> length ps' + k"
  using assms
proof (induction k arbitrary: s ps q)
  case 0
  have "table (pmem s) pt (va_path va) = Some q" using 0 by (simp add: va_path_def)
  moreover from this have "q \<in> tables (pmem s) pt" by (rule tablesI [OF index_ok_path(1)])
  then have "q + 8 * PX 0 va \<noteq> 0"
    using pt_inv_page(3,4) [OF 0(1)] slot_eq_iff [of q "PX 0 va" 0 0] by (auto simp: aligned_def)
  ultimately show ?case using 0 pt_grow_refl by (intro exI [of _ ps]) auto
next
  case (Suc l)
  then have l: "l < 2" by simp
  let ?is = "take (2 - Suc l) (va_path va)" and ?i = "PX (Suc l) va"
  have is1: "length ?is \<le> 1" "\<forall>j \<in> set ?is. j < 512" using index_ok_path(2) by (auto simp: va_path_def)
  note t = Suc.prems(3)
  show ?case
  proof (cases "pt_next (pmem s) q ?i")
    case (Some r)
    then have "table (pmem s) pt (take (2 - l) (va_path va)) = Some r"
      using t by (simp only: va_path_step [OF l] table_snoc bind.simps)
    moreover have "walk_from l r va True s = (pte, s')"
      using Suc.prems(4) Some by (simp add: pt_next_def Let_def split: if_splits)
    ultimately show ?thesis using Suc.IH [OF Suc.prems(1), of r] l by (fastforce split: if_splits)
  next
    case None
    show ?thesis
    proof (cases ps)
      case Nil
      then have "kalloc s = (0, s)" using kalloc_empty Suc.prems(1) by (auto simp: pt_inv_def)
      then have "pte = 0 \<and> s' = s"
        using Suc.prems(4) None by (auto simp: pt_next_def Let_def split: if_splits)
      then show ?thesis using pt_grow_refl [OF Suc.prems(1)] Nil by auto
    next
      case (Cons p ps1)
      obtain p' s1 where ka: "kalloc s = (p', s1)" by fastforce
      note inv = Suc.prems(1) [unfolded Cons]
      have p': "p' = p" using alloc_cleared(1) [OF inv ka] .
      have p0: "p \<noteq> 0" using inv is_page_nonzero by (auto simp: pt_inv_def free_pages_def)
      define s3 where "s3 = s1\<lparr>pmem := store64 (memset (pmem s1) p 0 4096) (q + 8 * ?i) (PA2PTE p OR 1)\<rparr>"
      note gs = grow_step [OF inv ka is1 t PX_less None, folded s3_def]
      have "walk_from l p va True s3 = (pte, s')"
        using Suc.prems(4) None p0
        by (simp add: pt_next_def Let_def ka p' s3_def split: if_splits)
      then obtain ps' where ih: "pt_grow s3 pt ps1 s' ps'"
        "\<forall>a. lookup (pmem s') pt a = lookup (pmem s3) pt a"
        "if pte = 0 then ps' = [] \<and> length ps1 < l
         else \<exists>r. table (pmem s') pt (va_path va) = Some r \<and> pte = r + 8 * PX 0 va"
        "length ps1 \<le> length ps' + l"
        using Suc.IH [OF pt_growD(1) [OF gs(1)], of p] l gs(3) unfolding va_path_step [OF l] by auto
      then show ?thesis
        using pt_grow_trans [OF gs(1) ih(1)] gs(2) Cons by (intro exI [of _ ps']) auto
    qed
  qed
qed

section \<open>The address space as a map from page numbers to entries\<close>

definition page_addr :: "nat \<Rightarrow> u64" where
  "page_addr n = of_nat (4096 * n)"

definition pt_map :: "mem \<Rightarrow> u64 \<Rightarrow> nat \<Rightarrow> u64 option" where
  "pt_map m pt n = (if n < 2 ^ 26 then lookup m pt (page_addr n) else None)"

lemma page_no_less: "va < MAXVA \<longleftrightarrow> page_no va < 2 ^ 26"
  by (auto simp: word_less_nat_alt page_no_def)

lemma page_addr:
  assumes "n < 2 ^ 26"
  shows "page_no (page_addr n) = n" and "page_addr n < MAXVA"
proof -
  have "unat (page_addr n) = 4096 * n"
    using assms unfolding page_addr_def by (subst unat_of_nat_u64) simp_all
  then show "page_no (page_addr n) = n" by (simp add: page_no_def)
  with assms show "page_addr n < MAXVA" by (simp only: page_no_less)
qed

lemma lookup_pt_map:
  assumes "va < MAXVA"
  shows "lookup m pt va = pt_map m pt (page_no va)"
proof -
  have n: "page_no va < 2 ^ 26" using assms by (simp only: page_no_less)
  have "va_path va = va_path (page_addr (page_no va)) \<and> PX 0 va = PX 0 (page_addr (page_no va))"
    by (simp only: PX_eq_iff [OF assms page_addr(2) [OF n]] page_addr(1) [OF n])
  then have "lookup m pt va = lookup m pt (page_addr (page_no va))"
    unfolding lookup_def by (simp split: option.split)
  then show ?thesis using n by (simp add: pt_map_def)
qed

lemma pt_map_frame: "(\<And>va. lookup m' pt va = lookup m pt va) \<Longrightarrow> pt_map m' pt = pt_map m pt"
  by (auto simp: pt_map_def)

text \<open>Writing the slot of an address changes the map at its page, and nothing else of the tables.\<close>

lemma leaf_store:
  fixes e :: u64
  assumes inv: "pt_inv s pt ps" and va: "va < MAXVA" and r: "table (pmem s) pt (va_path va) = Some r"
  defines "m \<equiv> store64 (pmem s) (r + 8 * PX 0 va) e"
  shows "pt_map m pt = (pt_map (pmem s) pt)(page_no va := (if e AND PTE_V \<noteq> 0 then Some e else None))"
    and "tables m pt = tables (pmem s) pt" and "pt_inv (s\<lparr>pmem := m\<rparr>) pt ps"
proof -
  have rt: "r \<in> tables (pmem s) pt" using r by (rule tablesI [OF index_ok_path(1)])
  note rp = pt_inv_page [OF inv rt]
  have t: "table m pt js = table (pmem s) pt js" if "index_ok js" for js
    unfolding m_def using that
    by (intro table_store [OF inv index_ok_path(1) r]) (auto simp: va_path_def dest: prefix_length_le)
  then show T: "tables m pt = tables (pmem s) pt" by (auto simp: tables_def)
  have "free_pages (s\<lparr>pmem := m\<rparr>) ps"
  proof (rule free_pages_agree)
    show fp: "free_pages s ps" using inv by (simp add: pt_inv_def)
    fix x q assume q: "q \<in> set ps" "page_no x = page_no q"
    then have "aligned q" "q \<noteq> r" using fp rp(2) by (auto simp: free_pages_def is_page_def)
    then show "m x = pmem s x"
      unfolding m_def using q rp(3) page_no_inj by (intro slot_store_other) auto
  qed
  then show "pt_inv (s\<lparr>pmem := m\<rparr>) pt ps"
    using inv unfolding pt_inv_def by (simp add: is_page_def T t)
  have "lookup m pt a = (if page_no a = page_no va then (if e AND PTE_V \<noteq> 0 then Some e else None)
    else lookup (pmem s) pt a)" if a: "a < MAXVA" for a
  proof (cases "table (pmem s) pt (va_path a)")
    case None
    then have "va_path a \<noteq> va_path va" using r by auto
    then show ?thesis using None t [OF index_ok_path(1)] PX_eq_iff [OF a va] by (auto simp: lookup_def)
  next
    case (Some q)
    then have q: "q \<in> tables (pmem s) pt" by (rule tablesI [OF index_ok_path(1)])
    have "r = q \<longleftrightarrow> va_path a = va_path va"
      using pt_inv_inj [OF inv index_ok_path(1) index_ok_path(1) Some, of va] r Some by auto
    then have iff: "r = q \<and> PX 0 va = PX 0 a \<longleftrightarrow> page_no a = page_no va"
      using PX_eq_iff [OF a va] by auto
    have "load64 m (q + 8 * PX 0 a) =
        (if page_no a = page_no va then e else load64 (pmem s) (q + 8 * PX 0 a))"
      unfolding m_def iff [symmetric]
      by (rule load64_store64_slot [OF rp(3) PX_less pt_inv_page(3) [OF inv q] PX_less])
    then show ?thesis using Some t [OF index_ok_path(1)] by (simp add: lookup_def)
  qed
  then show "pt_map m pt = (pt_map (pmem s) pt)(page_no va := (if e AND PTE_V \<noteq> 0 then Some e else None))"
    using va page_addr unfolding page_no_less by (simp add: pt_map_def fun_eq_iff)
qed

end
