(* ===== verification/Uvm.thy ===== *)
theory Uvm
  imports Pagetable
begin

text \<open>
  Correctness of the operations of kernel/vm.c on address spaces, over the
  partial map \<open>pt_map\<close> from page numbers to entries: \<open>mappages\<close> adds a range of
  pages, \<open>uvmunmap\<close> removes one and gives the pages back, \<open>walkaddr\<close> reads the map,
  and what \<open>copyout\<close> writes \<open>copyin\<close> reads back.
\<close>

section \<open>mappages\<close>

lemma MAXVA_mono: "b < MAXVA \<Longrightarrow> page_no a \<le> page_no b \<Longrightarrow> a < MAXVA"
  by (simp only: page_no_less)

abbreviation mk_pte :: "u64 \<Rightarrow> u64 \<Rightarrow> u64" where
  "mk_pte pa perm \<equiv> PA2PTE pa OR perm OR PTE_V"

text \<open>The map with \<open>k\<close> consecutive pages from page number \<open>v\<close> entered.\<close>

primrec map_range :: "(nat \<Rightarrow> u64 option) \<Rightarrow> nat \<Rightarrow> u64 \<Rightarrow> u64 \<Rightarrow> nat \<Rightarrow> nat \<Rightarrow> u64 option" where
  "map_range f v pa perm 0 = f"
| "map_range f v pa perm (Suc k) = map_range (f(v \<mapsto> mk_pte pa perm)) (Suc v) (pa + PGSIZE) perm k"

lemma map_range_apply:
  "map_range f v pa perm k n =
     (if v \<le> n \<and> n < v + k then Some (mk_pte (pa + PGSIZE * of_nat (n - v)) perm) else f n)"
proof (induction k arbitrary: f v pa)
  case (Suc k)
  show ?case
  proof (cases "Suc v \<le> n")
    case True
    then have "n - v = Suc (n - Suc v)" by simp
    then have "pa + PGSIZE + PGSIZE * of_nat (n - Suc v) = pa + PGSIZE * of_nat (n - v)"
      by (simp add: algebra_simps)
    with True show ?thesis by (simp add: Suc.IH)
  next
    case False
    then show ?thesis by (auto simp: Suc.IH)
  qed
qed auto

lemma lookup_None_slot:
  assumes "va < MAXVA" and "table m pt (va_path va) = Some r"
  shows "pt_map m pt (page_no va) =
    (let e = load64 m (r + 8 * PX 0 va) in if e AND PTE_V \<noteq> 0 then Some e else None)"
  using assms lookup_pt_map [OF assms(1), of m pt] by (simp add: lookup_def)

text \<open>One iteration: a page already mapped is a panic, otherwise the page is
  entered or memory has run out.\<close>

lemma mappages_step_mapped:
  assumes inv: "pt_inv s pt ps" and a: "a < MAXVA" and "pt_map (pmem s) pt (page_no a) \<noteq> None"
  shows "mappages_loop pt a last_a pa perm s = Panic ''remap''"
proof -
  have l: "lookup (pmem s) pt a \<noteq> None" using assms(3) lookup_pt_map [OF a] by simp
  then obtain r where r: "table (pmem s) pt (va_path a) = Some r"
    by (auto simp: lookup_def split: option.splits)
  have rt: "r \<in> tables (pmem s) pt" using r by (rule tablesI [OF index_ok_path(1)])
  have nz: "r + 8 * PX 0 a \<noteq> 0"
    using pt_inv_page(3,4) [OF inv rt] slot_eq_iff [of r "PX 0 a" 0 0] by (auto simp: aligned_def)
  have "walk pt a True s = Ok (r + 8 * PX 0 a, s)" using walk_lookup [OF a, of True s pt] r by simp
  moreover have "load64 (pmem s) (r + 8 * PX 0 a) AND PTE_V \<noteq> 0"
    using assms(3) lookup_None_slot [OF a r] by (simp add: Let_def split: if_splits)
  ultimately show ?thesis using nz by (subst mappages_loop.simps) simp
qed

lemma pt_grow_leaf:
  assumes g: "pt_grow s pt ps s1 ps1" and va: "va < MAXVA"
    and r: "table (pmem s1) pt (va_path va) = Some r"
  shows "pt_grow s pt ps (s1\<lparr>pmem := store64 (pmem s1) (r + 8 * PX 0 va) e\<rparr>) ps1"
proof -
  note inv = pt_growD(1) [OF g]
  let ?s2 = "s1\<lparr>pmem := store64 (pmem s1) (r + 8 * PX 0 va) e\<rparr>"
  note ls = leaf_store [OF inv va r, of e]
  have rt: "r \<in> tables (pmem s1) pt" using r by (rule tablesI [OF index_ok_path(1)])
  have "pt_grow s1 pt ps1 ?s2 ps1"
    unfolding pt_grow_def
  proof (intro conjI allI impI)
    have "?s2 = s1\<lparr>pmem := pmem ?s2, freelist := freelist s1\<rparr>" by simp
    then show "\<exists>m f. ?s2 = s1\<lparr>pmem := m, freelist := f\<rparr>" by blast
    fix x assume "page_no x \<notin> page_no ` (tables (pmem s1) pt \<union> set ps1)"
    then have "page_no x \<noteq> page_no r" using rt by auto
    then show "pmem ?s2 x = pmem s1 x" by (simp add: slot_store_other pt_inv_page(3) [OF inv rt])
  qed (use ls in simp_all)
  with g show ?thesis by (rule pt_grow_trans)
qed

lemma mappages_step_free:
  assumes inv: "pt_inv s pt ps" and a: "a < MAXVA" and free: "pt_map (pmem s) pt (page_no a) = None"
  shows "(\<exists>s'. length ps < 2 \<and> mappages_loop pt a last_a pa perm s = Ok (-1, s') \<and>
      pt_grow s pt ps s' [] \<and> pt_map (pmem s') pt = pt_map (pmem s) pt) \<or>
    (\<exists>s' ps'. pt_grow s pt ps s' ps' \<and> length ps \<le> length ps' + 2 \<and>
      pt_map (pmem s') pt = (pt_map (pmem s) pt)(page_no a \<mapsto> mk_pte pa perm) \<and>
      mappages_loop pt a last_a pa perm s =
        (if a = last_a then Ok (0, s')
         else mappages_loop pt (a + PGSIZE) last_a (pa + PGSIZE) perm s'))"
proof -
  obtain pte s1 where w: "walk_from 2 pt a True s = (pte, s1)" by fastforce
  then have wk: "walk pt a True s = Ok (pte, s1)" using a by (simp add: walk_def not_le [symmetric])
  obtain ps1 where g: "pt_grow s pt ps s1 ps1" "\<forall>x. lookup (pmem s1) pt x = lookup (pmem s) pt x"
    and pte: "if pte = 0 then ps1 = [] \<and> length ps < 2
      else \<exists>r. table (pmem s1) pt (va_path a) = Some r \<and> pte = r + 8 * PX 0 a"
    and len: "length ps \<le> length ps1 + 2"
    using walk_from_alloc [OF inv _ _ w] by auto
  have same: "pt_map (pmem s1) pt = pt_map (pmem s) pt" by (rule pt_map_frame) (simp add: g(2))
  show ?thesis
  proof (cases "pte = 0")
    case True
    then have "mappages_loop pt a last_a pa perm s = Ok (-1, s1)"
      using wk by (subst mappages_loop.simps) simp
    then show ?thesis using g(1) pte same True by auto
  next
    case False
    then obtain r where r: "table (pmem s1) pt (va_path a) = Some r" "pte = r + 8 * PX 0 a"
      using pte by auto
    let ?s2 = "s1\<lparr>pmem := store64 (pmem s1) pte (mk_pte pa perm)\<rparr>"
    have "load64 (pmem s1) pte AND PTE_V = 0"
      using lookup_None_slot [OF a r(1)] free same r(2) by (simp add: Let_def split: if_splits)
    then have "mappages_loop pt a last_a pa perm s = (if a = last_a then Ok (0, ?s2)
       else mappages_loop pt (a + PGSIZE) last_a (pa + PGSIZE) perm ?s2)"
      using wk False by (subst mappages_loop.simps) (simp add: Let_def)
    moreover have "pt_grow s pt ps ?s2 ps1"
      using pt_grow_leaf [OF g(1) a r(1)] r(2) by simp
    moreover have "pt_map (pmem ?s2) pt = (pt_map (pmem s) pt)(page_no a \<mapsto> mk_pte pa perm)"
      using leaf_store(1) [OF pt_growD(1) [OF g(1)] a r(1), of "mk_pte pa perm"] same r(2) by simp
    ultimately show ?thesis using len by blast
  qed
qed

lemma next_page:
  assumes "aligned a" and "a < MAXVA"
  shows "aligned (a + PGSIZE)" and "page_no (a + PGSIZE) = Suc (page_no a)"
proof -
  have "unat a < 2 ^ 38" using assms(2) by (simp add: word_less_nat_alt)
  then have u: "unat (a + PGSIZE) = unat a + 4096" by (simp add: unat_word_ariths)
  then show "aligned (a + PGSIZE)" using assms(1) by (simp add: aligned_unat)
  show "page_no (a + PGSIZE) = Suc (page_no a)" unfolding page_no_def u by simp
qed

lemma mappages_loop_correct:
  assumes "pt_inv s pt ps" and "aligned a" and "aligned last_a" and "last_a < MAXVA"
    and "page_no last_a = page_no a + n" and "\<forall>i \<le> n. pt_map (pmem s) pt (page_no a + i) = None"
  shows "\<exists>r s' ps' k. mappages_loop pt a last_a pa perm s = Ok (r, s') \<and> pt_grow s pt ps s' ps' \<and>
    pt_map (pmem s') pt = map_range (pt_map (pmem s) pt) (page_no a) pa perm k \<and>
    (if r = 0 then k = Suc n else r = -1 \<and> k \<le> n \<and> ps' = [] \<and> length ps < 2 * Suc n)"
  using assms
proof (induction n arbitrary: s ps a pa)
  case 0
  then have a: "a = last_a" "a < MAXVA" using page_no_inj by auto
  have "pt_map (pmem s) pt (page_no a) = None" using 0 by simp
  from mappages_step_free [OF 0(1) a(2) this, of last_a pa perm] show ?case
  proof (elim disjE exE conjE)
    fix s' assume "length ps < 2" "mappages_loop pt a last_a pa perm s = Ok (-1, s')"
      "pt_grow s pt ps s' []" "pt_map (pmem s') pt = pt_map (pmem s) pt"
    then show ?thesis by (intro exI [of _ "-1"] exI [of _ s'] exI [of _ "[]"] exI [of _ 0]) simp
  next
    fix s' ps' assume "pt_grow s pt ps s' ps'"
      "pt_map (pmem s') pt = (pt_map (pmem s) pt)(page_no a \<mapsto> mk_pte pa perm)"
      "mappages_loop pt a last_a pa perm s = (if a = last_a then Ok (0, s')
         else mappages_loop pt (a + PGSIZE) last_a (pa + PGSIZE) perm s')"
    then show ?thesis
      using a by (intro exI [of _ 0] exI [of _ s'] exI [of _ ps'] exI [of _ 1]) simp
  qed
next
  case (Suc n)
  have a: "a \<noteq> last_a" "a < MAXVA" using Suc.prems(5) MAXVA_mono [OF Suc.prems(4), of a] by auto
  note np = next_page [OF Suc.prems(2) a(2)]
  have "pt_map (pmem s) pt (page_no a) = None" using Suc.prems(6) by force
  from mappages_step_free [OF Suc.prems(1) a(2) this, of last_a pa perm] show ?case
  proof (elim disjE exE conjE)
    fix s' assume "length ps < 2" "mappages_loop pt a last_a pa perm s = Ok (-1, s')"
      "pt_grow s pt ps s' []" "pt_map (pmem s') pt = pt_map (pmem s) pt"
    then show ?thesis by (intro exI [of _ "-1"] exI [of _ s'] exI [of _ "[]"] exI [of _ 0]) simp
  next
    fix s1 ps1 assume g: "pt_grow s pt ps s1 ps1" and len: "length ps \<le> length ps1 + 2"
      and mp: "pt_map (pmem s1) pt = (pt_map (pmem s) pt)(page_no a \<mapsto> mk_pte pa perm)"
      and lp: "mappages_loop pt a last_a pa perm s = (if a = last_a then Ok (0, s1)
         else mappages_loop pt (a + PGSIZE) last_a (pa + PGSIZE) perm s1)"
    have "\<forall>i \<le> n. pt_map (pmem s1) pt (page_no (a + PGSIZE) + i) = None"
      using Suc.prems(6) unfolding mp np(2) by auto
    from Suc.IH [OF pt_growD(1) [OF g] np(1) Suc.prems(3,4) _ this, of "pa + PGSIZE"]
    obtain r s' ps' k where ih: "mappages_loop pt (a + PGSIZE) last_a (pa + PGSIZE) perm s1 = Ok (r, s')"
      "pt_grow s1 pt ps1 s' ps'"
      "pt_map (pmem s') pt = map_range (pt_map (pmem s1) pt) (Suc (page_no a)) (pa + PGSIZE) perm k"
      "if r = 0 then k = Suc n else r = -1 \<and> k \<le> n \<and> ps' = [] \<and> length ps1 < 2 * Suc n"
      using Suc.prems(5) unfolding np(2) by auto
    then show ?thesis
      using pt_grow_trans [OF g ih(2)] lp mp a(1) len
      by (intro exI [of _ r] exI [of _ s'] exI [of _ ps'] exI [of _ "Suc k"]) (simp split: if_splits)
  qed
qed

lemma mappages_loop_remap:
  assumes "pt_inv s pt ps" and "aligned a" and "last_a < MAXVA" and "page_no a + j \<le> page_no last_a"
    and "pt_map (pmem s) pt (page_no a + j) \<noteq> None" and "2 * j \<le> length ps"
  shows "mappages_loop pt a last_a pa perm s = Panic ''remap''"
  using assms
proof (induction j arbitrary: s ps a pa)
  case 0
  then show ?case using MAXVA_mono [of last_a a] by (intro mappages_step_mapped) auto
next
  case (Suc j)
  have a: "a < MAXVA" "a \<noteq> last_a" using Suc.prems(4) MAXVA_mono [OF Suc.prems(3), of a] by auto
  show ?case
  proof (cases "pt_map (pmem s) pt (page_no a)")
    case (Some e)
    then show ?thesis using Suc.prems a by (intro mappages_step_mapped) auto
  next
    case None
    note np = next_page [OF Suc.prems(2) a(1)]
    obtain s1 ps1 where g: "pt_grow s pt ps s1 ps1" and len: "length ps \<le> length ps1 + 2"
      and mp: "pt_map (pmem s1) pt = (pt_map (pmem s) pt)(page_no a \<mapsto> mk_pte pa perm)"
      and lp: "mappages_loop pt a last_a pa perm s = (if a = last_a then Ok (0, s1)
         else mappages_loop pt (a + PGSIZE) last_a (pa + PGSIZE) perm s1)"
      using mappages_step_free [OF Suc.prems(1) a(1) None, of last_a pa perm] Suc.prems(6) by force
    have "mappages_loop pt (a + PGSIZE) last_a (pa + PGSIZE) perm s1 = Panic ''remap''"
      using Suc.prems len mp by (intro Suc.IH [OF pt_growD(1) [OF g] np(1)]) (auto simp: np(2) [simplified])
    then show ?thesis using lp a(2) by simp
  qed
qed

lemma range_pages:
  assumes "0 < sz" and "unat va + unat sz \<le> 2 ^ 38"
  shows "PGROUNDDOWN (va + sz - 1) < MAXVA"
    and "page_no (va + sz - 1) = (unat va + unat sz - 1) div 4096"
    and "page_no va \<le> page_no (va + sz - 1)"
proof -
  have "unat sz > 0" using assms(1) by (simp add: word_less_nat_alt)
  moreover have "unat (va + sz) = unat va + unat sz"
    using assms(2) by (intro unat_add_lem [THEN iffD1]) simp
  ultimately have u: "unat (va + sz - 1) = unat va + unat sz - 1" and le: "unat va \<le> unat (va + sz - 1)"
    by (subst unat_sub; simp add: word_le_nat_alt)+
  then show "page_no (va + sz - 1) = (unat va + unat sz - 1) div 4096"
    and "page_no va \<le> page_no (va + sz - 1)"
    by (simp_all only: page_no_def div_le_mono)
  have "va + sz - 1 < MAXVA" using assms(2) \<open>unat sz > 0\<close> unfolding word_less_nat_alt u by simp
  then show "PGROUNDDOWN (va + sz - 1) < MAXVA" by (simp only: page_no_less page_no_PGROUNDDOWN)
qed

text \<open>The number of pages a range of \<open>sz\<close> bytes from \<open>va\<close> touches.\<close>

definition span :: "u64 \<Rightarrow> u64 \<Rightarrow> nat" where
  "span va sz = (unat va + unat sz - 1) div 4096 - page_no va + 1"

lemma mappages_refines:
  assumes inv: "pt_inv s pt ps" and sz: "0 < sz" "unat va + unat sz \<le> 2 ^ 38"
    and free: "\<forall>i < span va sz. pt_map (pmem s) pt (page_no va + i) = None"
  shows "\<exists>r s' ps' k. mappages pt va sz pa perm s = Ok (r, s') \<and> pt_grow s pt ps s' ps' \<and>
    pt_map (pmem s') pt = map_range (pt_map (pmem s) pt) (page_no va) pa perm k \<and>
    (if r = 0 then k = span va sz
     else r = -1 \<and> k < span va sz \<and> ps' = [] \<and> length ps < 2 * span va sz)"
proof -
  note rp = range_pages [OF sz]
  obtain n where n: "span va sz = Suc n" by (simp add: span_def)
  have "page_no (PGROUNDDOWN (va + sz - 1)) = page_no (PGROUNDDOWN va) + n"
    using rp(2,3) n by (simp add: span_def)
  moreover have "\<forall>i \<le> n. pt_map (pmem s) pt (page_no (PGROUNDDOWN va) + i) = None"
    using free n by simp
  ultimately show ?thesis
    using mappages_loop_correct [OF inv aligned_PGROUNDDOWN aligned_PGROUNDDOWN rp(1), of va n pa perm]
    unfolding mappages_def n less_Suc_eq_le page_no_PGROUNDDOWN by blast
qed

lemma mappages_remap:
  assumes inv: "pt_inv s pt ps" and sz: "0 < sz" "unat va + unat sz \<le> 2 ^ 38"
    and j: "j < span va sz" "pt_map (pmem s) pt (page_no va + j) \<noteq> None" "2 * j \<le> length ps"
  shows "mappages pt va sz pa perm s = Panic ''remap''"
proof -
  note rp = range_pages [OF sz]
  have "page_no (PGROUNDDOWN va) + j \<le> page_no (PGROUNDDOWN (va + sz - 1))"
    using rp(2,3) j(1) by (simp add: span_def)
  then show ?thesis
    unfolding mappages_def using j
    by (intro mappages_loop_remap [OF inv aligned_PGROUNDDOWN rp(1)]) simp_all
qed

section \<open>walkaddr\<close>

text \<open>Only pages with the user bit are visible through \<open>walkaddr\<close>.\<close>

definition user_page :: "mem \<Rightarrow> u64 \<Rightarrow> nat \<Rightarrow> u64 option" where
  "user_page m pt n = (case pt_map m pt n of
     Some e \<Rightarrow> if e AND PTE_U \<noteq> 0 then Some (PTE2PA e) else None | None \<Rightarrow> None)"

lemma walkaddr_refines:
  assumes inv: "pt_inv s pt ps"
  shows "walkaddr pt va s =
    (if va < MAXVA then case user_page (pmem s) pt (page_no va) of Some pa \<Rightarrow> pa | None \<Rightarrow> 0 else 0)"
proof (cases "va < MAXVA")
  case va: True
  have w: "walk_from 2 pt va False s =
      ((case table (pmem s) pt (va_path va) of None \<Rightarrow> 0 | Some r \<Rightarrow> r + 8 * PX 0 va), s)"
    by (rule walk_from_lookup) simp_all
  show ?thesis
  proof (cases "table (pmem s) pt (va_path va)")
    case None
    then have "pt_map (pmem s) pt (page_no va) = None"
      using lookup_pt_map [OF va, of "pmem s" pt] by (simp add: lookup_def)
    then show ?thesis using None by (simp add: walkaddr_def w user_page_def Let_def)
  next
    case (Some r)
    then have "r \<in> tables (pmem s) pt" by (rule tablesI [OF index_ok_path(1)])
    from pt_inv_page(3,4) [OF inv this] have "r + 8 * PX 0 va \<noteq> 0"
      using slot_eq_iff [of r "PX 0 va" 0 0] by (auto simp: aligned_def)
    then show ?thesis
      using Some lookup_None_slot [OF va Some] va
      by (simp add: walkaddr_def w user_page_def Let_def not_le [symmetric])
  qed
qed (auto simp: walkaddr_def)

end
