(* ===== verification/Usercopy.thy ===== *)
theory Usercopy
  imports Uvm
begin

text \<open>
  \<open>copyout\<close> and \<open>copyin\<close> of kernel/vm.c against the address translation they
  perform: \<open>utrans\<close> is the physical address behind a user virtual address.
  They succeed exactly when every byte of the range is user memory; \<open>copyin\<close> then
  returns those bytes, and \<open>copyout\<close> changes those bytes and no others.
\<close>

section \<open>Translation of user addresses\<close>

definition utrans :: "mem \<Rightarrow> u64 \<Rightarrow> u64 \<Rightarrow> u64 option" where
  "utrans m pt va =
     (if va < MAXVA then map_option (\<lambda>pa. pa + (va - PGROUNDDOWN va)) (user_page m pt (page_no va))
      else None)"

text \<open>User pages are pages of the allocator, neither tables nor free, and mapped once.\<close>

definition user_wf :: "'a kmem_scheme \<Rightarrow> u64 \<Rightarrow> u64 list \<Rightarrow> bool" where
  "user_wf s pt ps \<longleftrightarrow> pt_inv s pt ps \<and>
     (\<forall>n pa. user_page (pmem s) pt n = Some pa \<longrightarrow>
        is_page s pa \<and> pa \<notin> tables (pmem s) pt \<and> pa \<notin> set ps) \<and>
     (\<forall>n n' pa. user_page (pmem s) pt n = Some pa \<longrightarrow> user_page (pmem s) pt n' = Some pa \<longrightarrow> n = n')"

lemma user_wfD:
  assumes "user_wf s pt ps"
  shows "pt_inv s pt ps"
    and "user_page (pmem s) pt n = Some pa \<Longrightarrow> is_page s pa \<and> pa \<notin> tables (pmem s) pt \<and> pa \<notin> set ps"
    and "user_page (pmem s) pt n = Some pa \<Longrightarrow> user_page (pmem s) pt n' = Some pa \<Longrightarrow> n = n'"
    and "user_page (pmem s) pt n = Some pa \<Longrightarrow> aligned pa \<and> pa \<noteq> 0"
  using assms is_page_nonzero [of s pa] unfolding user_wf_def pt_inv_def free_pages_def is_page_def
  by blast+

lemma unat_in_page:
  assumes "aligned p" and "unat d < 4096"
  shows "unat (p + d) = unat p + unat d" and "page_no (p + d) = page_no p"
proof -
  have p: "unat p = 4096 * page_no p" using assms(1) by (rule aligned_page_no)
  have "page_no p < 2 ^ 52" using unat_less_u64 [of p] by (simp add: page_no_def less_mult_imp_div_less)
  then have "unat p + unat d < 2 ^ 64" using p assms(2) by simp
  then show u: "unat (p + d) = unat p + unat d" by (intro unat_add_lem [THEN iffD1]) simp
  show "page_no (p + d) = page_no p"
    using in_page_iff [OF assms(1), of "p + d"] assms(2) by simp
qed

lemma utrans_inj:
  assumes wf: "user_wf s pt ps" and "utrans (pmem s) pt a = Some x" "utrans (pmem s) pt b = Some x"
  shows "a = b"
proof -
  obtain p q where p: "user_page (pmem s) pt (page_no a) = Some p" "x = p + (a - PGROUNDDOWN a)"
    and q: "user_page (pmem s) pt (page_no b) = Some q" "x = q + (b - PGROUNDDOWN b)"
    using assms(2,3) by (auto simp: utrans_def split: if_splits)
  have al: "aligned p" "aligned q" using user_wfD(4) [OF wf] p(1) q(1) by blast+
  have d: "unat (c - PGROUNDDOWN c) < 4096" for c by (simp add: unat_page_offset)
  have "page_no p = page_no q"
    using unat_in_page(2) [OF al(1) d] unat_in_page(2) [OF al(2) d] p(2) q(2) by metis
  then have "p = q" using al page_no_inj by simp
  then have "page_no a = page_no b" using user_wfD(3) [OF wf p(1)] q(1) by simp
  then have "PGROUNDDOWN a = PGROUNDDOWN b"
    by (simp only: word_unat_eq_iff unat_PGROUNDDOWN)
  moreover have "a - PGROUNDDOWN a = b - PGROUNDDOWN b" using p(2) q(2) \<open>p = q\<close> by simp
  ultimately show "a = b" by simp
qed

lemma walkaddr_utrans:
  assumes wf: "user_wf s pt ps"
  shows "walkaddr pt (PGROUNDDOWN va) s = 0 \<longleftrightarrow> utrans (pmem s) pt va = None"
    and "utrans (pmem s) pt va = Some x \<Longrightarrow> x = walkaddr pt (PGROUNDDOWN va) s + (va - PGROUNDDOWN va)"
proof -
  have "PGROUNDDOWN va < MAXVA \<longleftrightarrow> va < MAXVA" by (simp only: page_no_less page_no_PGROUNDDOWN)
  then have w: "walkaddr pt (PGROUNDDOWN va) s = (if va < MAXVA then
      case user_page (pmem s) pt (page_no va) of Some pa \<Rightarrow> pa | None \<Rightarrow> 0 else 0)"
    by (simp only: walkaddr_refines [OF user_wfD(1) [OF wf]] page_no_PGROUNDDOWN)
  show "walkaddr pt (PGROUNDDOWN va) s = 0 \<longleftrightarrow> utrans (pmem s) pt va = None"
    unfolding w utrans_def using user_wfD(4) [OF wf] by (auto split: option.splits)
  show "utrans (pmem s) pt va = Some x \<Longrightarrow> x = walkaddr pt (PGROUNDDOWN va) s + (va - PGROUNDDOWN va)"
    unfolding w utrans_def by (auto split: if_splits)
qed

text \<open>The bytes up to the end of a page translate together.\<close>

lemma utrans_same_page:
  assumes "unat va mod 4096 + i < 4096"
  shows "utrans m pt (va + of_nat i) = map_option (\<lambda>x. x + of_nat i) (utrans m pt va)"
proof -
  have i: "unat (of_nat i :: u64) = i" using assms by (intro unat_of_nat_u64) simp
  have va: "va = PGROUNDDOWN va + (va - PGROUNDDOWN va)" by simp
  have "unat (va - PGROUNDDOWN va + of_nat i) = unat va mod 4096 + i"
    using assms i unat_page_offset [of va] by (subst unat_add_lem [THEN iffD1]) simp_all
  then have "page_no (PGROUNDDOWN va + (va - PGROUNDDOWN va + of_nat i)) = page_no (PGROUNDDOWN va)"
    using assms by (intro unat_in_page(2)) simp_all
  then have pn: "page_no (va + of_nat i) = page_no va" by simp
  then have "PGROUNDDOWN (va + of_nat i) = PGROUNDDOWN va"
    by (simp only: word_unat_eq_iff unat_PGROUNDDOWN)
  moreover have "va + of_nat i < MAXVA \<longleftrightarrow> va < MAXVA" by (simp only: page_no_less pn)
  ultimately show ?thesis
    unfolding utrans_def pn by (simp add: option.map_comp comp_def algebra_simps)
qed

lemma next_page_addr:
  assumes "4096 - unat va mod 4096 \<le> i"
  shows "va + of_nat i = PGROUNDDOWN va + PGSIZE + of_nat (i - (4096 - unat va mod 4096))"
proof -
  have "(of_nat (unat va mod 4096) :: u64) = va - PGROUNDDOWN va"
    by (simp add: unat_page_offset [symmetric])
  moreover have "i = 4096 - unat va mod 4096 + (i - (4096 - unat va mod 4096))" using assms by simp
  then have "(of_nat i :: u64) = of_nat (4096 - unat va mod 4096) + of_nat (i - (4096 - unat va mod 4096))"
    by (metis of_nat_add)
  moreover have "(of_nat (4096 - unat va mod 4096) :: u64) = 4096 - of_nat (unat va mod 4096)"
    by (simp add: of_nat_diff)
  ultimately show ?thesis by simp
qed

section \<open>copyin\<close>

definition mapped :: "mem \<Rightarrow> u64 \<Rightarrow> u64 \<Rightarrow> nat \<Rightarrow> bool" where
  "mapped m pt va len \<longleftrightarrow> (\<forall>i < len. utrans m pt (va + of_nat i) \<noteq> None)"

definition ubytes :: "mem \<Rightarrow> u64 \<Rightarrow> u64 \<Rightarrow> nat \<Rightarrow> u8 list" where
  "ubytes m pt va len = map (\<lambda>i. m (the (utrans m pt (va + of_nat i)))) [0..<len]"

text \<open>A range is its part on the first page and the rest from the next page on.\<close>

lemma mapped_split:
  fixes va :: u64
  defines "room \<equiv> 4096 - unat va mod 4096"
  assumes "0 < len"
  shows "mapped m pt va len \<longleftrightarrow> utrans m pt va \<noteq> None \<and>
    mapped m pt (PGROUNDDOWN va + PGSIZE) (len - min room len)"
proof -
  have room: "0 < room" by (simp add: room_def)
  have first: "utrans m pt (va + of_nat i) = None \<longleftrightarrow> utrans m pt va = None" if "i < room" for i
    using utrans_same_page [of va i] that by (simp add: room_def)
  have rest: "va + of_nat i = PGROUNDDOWN va + PGSIZE + of_nat (i - room)" if "room \<le> i" for i
    using that unfolding room_def by (rule next_page_addr)
  show ?thesis
  proof
    assume m: "mapped m pt va len"
    have "utrans m pt va \<noteq> None"
      using m [unfolded mapped_def, rule_format, OF assms(2)] by simp
    moreover have "utrans m pt (PGROUNDDOWN va + PGSIZE + of_nat i) \<noteq> None" if "i < len - min room len" for i
    proof -
      have "room + i < len" using that by simp
      then have "utrans m pt (va + of_nat (room + i)) \<noteq> None" using m unfolding mapped_def by blast
      then show ?thesis by (simp only: rest [of "room + i"] le_add1 diff_add_inverse not_False_eq_True)
    qed
    ultimately show "utrans m pt va \<noteq> None \<and> mapped m pt (PGROUNDDOWN va + PGSIZE) (len - min room len)"
      by (simp add: mapped_def)
  next
    assume m: "utrans m pt va \<noteq> None \<and> mapped m pt (PGROUNDDOWN va + PGSIZE) (len - min room len)"
    have "utrans m pt (va + of_nat i) \<noteq> None" if i: "i < len" for i
    proof (cases "i < room")
      case True
      then show ?thesis using m first by simp
    next
      case False
      then have "i - room < len - min room len" using i by simp
      then have "utrans m pt (PGROUNDDOWN va + PGSIZE + of_nat (i - room)) \<noteq> None"
        using m unfolding mapped_def by blast
      then show ?thesis using False by (simp only: rest not_less not_False_eq_True)
    qed
    then show "mapped m pt va len" by (simp add: mapped_def)
  qed
qed

lemma ubytes_split:
  fixes va :: u64
  defines "room \<equiv> 4096 - unat va mod 4096"
  assumes "utrans m pt va = Some x"
  shows "ubytes m pt va len =
    read_bytes m x (min room len) @ ubytes m pt (PGROUNDDOWN va + PGSIZE) (len - min room len)"
proof (rule nth_equalityI)
  show "length (ubytes m pt va len) =
    length (read_bytes m x (min room len) @ ubytes m pt (PGROUNDDOWN va + PGSIZE) (len - min room len))"
    by (simp add: ubytes_def length_read_bytes)
  fix i assume "i < length (ubytes m pt va len)"
  then have i: "i < len" by (simp add: ubytes_def)
  show "ubytes m pt va len ! i =
    (read_bytes m x (min room len) @ ubytes m pt (PGROUNDDOWN va + PGSIZE) (len - min room len)) ! i"
  proof (cases "i < room")
    case True
    then show ?thesis
      using i utrans_same_page [of va i m pt] assms(2)
      by (simp add: ubytes_def nth_append length_read_bytes nth_read_bytes room_def)
  next
    case False
    then have eq: "va + of_nat i = PGROUNDDOWN va + PGSIZE + of_nat (i - room)"
      unfolding room_def by (intro next_page_addr) simp
    have lt: "i - room < len - room" using i False by simp
    have "ubytes m pt va len ! i = m (the (utrans m pt (va + of_nat i)))"
      using i by (simp add: ubytes_def)
    also have "\<dots> = ubytes m pt (PGROUNDDOWN va + PGSIZE) (len - min room len) ! (i - room)"
      unfolding eq using lt by (simp add: ubytes_def del: of_nat_diff)
    finally show ?thesis using i False by (simp add: nth_append length_read_bytes)
  qed
qed

lemma copyin_correct:
  assumes wf: "user_wf s pt ps"
  shows "fst (copyin pt va len s) = (if mapped (pmem s) pt va len then 0 else -1)"
    and "mapped (pmem s) pt va len \<Longrightarrow> snd (copyin pt va len s) = ubytes (pmem s) pt va len"
proof (atomize (full), induction len arbitrary: va rule: less_induct)
  case (less len)
  let ?va' = "PGROUNDDOWN va + PGSIZE" and ?n = "min (4096 - unat va mod 4096) len"
  show ?case
  proof (cases "len = 0")
    case True
    then show ?thesis by (subst (1 2) copyin.simps) (simp add: mapped_def ubytes_def)
  next
    case len: False
    note sp = mapped_split [of len "pmem s" pt va]
    show ?thesis
    proof (cases "utrans (pmem s) pt va")
      case None
      then have "walkaddr pt (PGROUNDDOWN va) s = 0" using walkaddr_utrans(1) [OF wf] by simp
      then show ?thesis
        using len None sp by (subst (1 2) copyin.simps) (simp add: Let_def)
    next
      case (Some x)
      then have w: "walkaddr pt (PGROUNDDOWN va) s \<noteq> 0" using walkaddr_utrans(1) [OF wf, of va] by simp
      have x: "walkaddr pt (PGROUNDDOWN va) s + (va - PGROUNDDOWN va) = x"
        using walkaddr_utrans(2) [OF wf Some] by simp
      obtain r rest where rr: "copyin pt ?va' (len - ?n) s = (r, rest)" by fastforce
      have "copyin pt va len s = (r, read_bytes (pmem s) x ?n @ rest)"
        using len w by (subst copyin.simps)
          (simp only: Let_def x unat_page_room rr prod.case if_False if_True neq0_conv)
      moreover have "fst (copyin pt ?va' (len - ?n) s) = (if mapped (pmem s) pt ?va' (len - ?n) then 0 else -1) \<and>
        (mapped (pmem s) pt ?va' (len - ?n) \<longrightarrow>
          snd (copyin pt ?va' (len - ?n) s) = ubytes (pmem s) pt ?va' (len - ?n))"
        using len by (intro less.IH) auto
      ultimately show ?thesis
        using sp len Some rr ubytes_split [OF Some, of len] by (auto split: if_splits)
    qed
  qed
qed

section \<open>copyout\<close>

text \<open>Writing user pages leaves the tables, the free list and the translation alone.\<close>

lemma user_wf_write:
  assumes wf: "user_wf s pt ps"
    and same: "\<And>x. (\<And>n pa. user_page (pmem s) pt n = Some pa \<Longrightarrow> page_no x \<noteq> page_no pa) \<Longrightarrow> m x = pmem s x"
  shows "user_wf (s\<lparr>pmem := m\<rparr>) pt ps" and "pt_map m pt = pt_map (pmem s) pt"
    and "tables m pt = tables (pmem s) pt"
proof -
  note inv = user_wfD(1) [OF wf]
  have eq: "m x = pmem s x" if q: "aligned q" "q \<in> tables (pmem s) pt \<or> q \<in> set ps" "page_no x = page_no q" for x q
  proof (rule same)
    fix n pa assume u: "user_page (pmem s) pt n = Some pa"
    then show "page_no x \<noteq> page_no pa"
      using user_wfD(2,4) [OF wf u] q page_no_inj [of q pa] by auto
  qed
  have free: "free_pages (s\<lparr>pmem := m\<rparr>) ps"
    using inv eq by (intro free_pages_agree) (auto simp: pt_inv_def free_pages_def is_page_def)
  have "\<forall>q \<in> tables (pmem s) pt. \<forall>x. page_no x = page_no q \<longrightarrow> pmem (s\<lparr>pmem := m\<rparr>) x = pmem s x"
    using pt_inv_page(3) [OF inv] by (auto intro!: eq)
  moreover have "tables (pmem s) pt \<inter> set ps = {}" using inv by (auto simp: pt_inv_def)
  ultimately have fr: "pt_inv (s\<lparr>pmem := m\<rparr>) pt ps" "tables m pt = tables (pmem s) pt"
    "\<And>va. lookup m pt va = lookup (pmem s) pt va"
    using pt_inv_frame [OF inv free] by simp_all
  show mp: "pt_map m pt = pt_map (pmem s) pt" by (rule pt_map_frame) (rule fr(3))
  show "tables m pt = tables (pmem s) pt" by (rule fr(2))
  show "user_wf (s\<lparr>pmem := m\<rparr>) pt ps"
    using wf fr(1,2) mp unfolding user_wf_def user_page_def by (simp add: is_page_def)
qed

lemma utrans_cong: "pt_map m' pt = pt_map m pt \<Longrightarrow> utrans m' pt va = utrans m pt va"
  by (simp add: utrans_def user_page_def)

lemma utrans_page:
  assumes "user_wf s pt ps" and "utrans (pmem s) pt va = Some x"
  obtains n pa where "user_page (pmem s) pt n = Some pa" "page_no x = page_no pa"
proof -
  obtain pa where "user_page (pmem s) pt (page_no va) = Some pa" "x = pa + (va - PGROUNDDOWN va)"
    using assms(2) by (auto simp: utrans_def split: if_splits)
  moreover have "unat (va - PGROUNDDOWN va) < 4096" by (simp add: unat_page_offset)
  ultimately show thesis using that unat_in_page(2) user_wfD(4) [OF assms(1)] by blast
qed

text \<open>One chunk: the part of the buffer that lands on the first page.\<close>

lemma write_chunk:
  assumes wf: "user_wf s pt ps" and x: "utrans (pmem s) pt va = Some x"
    and n: "length bs \<le> 4096 - unat va mod 4096"
  defines "m \<equiv> write_bytes (pmem s) x bs"
  shows "user_wf (s\<lparr>pmem := m\<rparr>) pt ps" and "pt_map m pt = pt_map (pmem s) pt"
    and "\<And>i. i < length bs \<Longrightarrow> m (x + of_nat i) = bs ! i"
    and "\<And>y. (\<And>i. i < length bs \<Longrightarrow> utrans (pmem s) pt (va + of_nat i) \<noteq> Some y) \<Longrightarrow> m y = pmem s y"
proof -
  have len: "length bs < 2 ^ 64" using n by simp
  have tr: "utrans (pmem s) pt (va + of_nat i) = Some (x + of_nat i)" if "i < length bs" for i
    using utrans_same_page [of va i "pmem s" pt] that n x by simp
  show out: "m y = pmem s y" if y: "\<And>i. i < length bs \<Longrightarrow> utrans (pmem s) pt (va + of_nat i) \<noteq> Some y" for y
  proof -
    have "\<not> unat (y - x) < length bs"
    proof
      assume "unat (y - x) < length bs"
      from y [OF this] tr [OF this] show False by simp
    qed
    then show ?thesis by (simp add: m_def write_bytes_apply [OF len])
  qed
  show "m (x + of_nat i) = bs ! i" if "i < length bs" for i
    using that n by (simp add: m_def write_bytes_apply [OF len] unat_of_nat_u64)
  have same: "m y = pmem s y" if y: "\<And>n pa. user_page (pmem s) pt n = Some pa \<Longrightarrow> page_no y \<noteq> page_no pa" for y
    using utrans_page [OF wf] y by (intro out) metis
  show "user_wf (s\<lparr>pmem := m\<rparr>) pt ps" and "pt_map m pt = pt_map (pmem s) pt"
    using user_wf_write [OF wf same] by blast+
qed

lemma copyout_stop:
  assumes "user_wf s pt ps" and "src \<noteq> []" and "utrans (pmem s) pt va = None"
  shows "copyout pt va src s = (-1, s)"
proof -
  have "walkaddr pt (PGROUNDDOWN va) s = 0" using walkaddr_utrans(1) [OF assms(1)] assms(3) by simp
  then show ?thesis using assms(2) by (subst copyout.simps) (simp add: Let_def)
qed

lemma copyout_step:
  assumes wf: "user_wf s pt ps" and ne: "src \<noteq> []" and x: "utrans (pmem s) pt va = Some x"
  defines "n \<equiv> min (4096 - unat va mod 4096) (length src)"
  defines "s1 \<equiv> s\<lparr>pmem := write_bytes (pmem s) x (take n src)\<rparr>"
  shows "copyout pt va src s = copyout pt (PGROUNDDOWN va + PGSIZE) (drop n src) s1"
    and "user_wf s1 pt ps" and "pt_map (pmem s1) pt = pt_map (pmem s) pt"
    and "\<And>i. i < n \<Longrightarrow> pmem s1 (x + of_nat i) = src ! i"
    and "\<And>y. (\<And>i. i < n \<Longrightarrow> utrans (pmem s) pt (va + of_nat i) \<noteq> Some y) \<Longrightarrow> pmem s1 y = pmem s y"
proof -
  have w: "walkaddr pt (PGROUNDDOWN va) s \<noteq> 0" using walkaddr_utrans(1) [OF wf, of va] x by simp
  have xw: "walkaddr pt (PGROUNDDOWN va) s + (va - PGROUNDDOWN va) = x"
    using walkaddr_utrans(2) [OF wf x] by simp
  show "copyout pt va src s = copyout pt (PGROUNDDOWN va + PGSIZE) (drop n src) s1"
    using ne w unfolding s1_def n_def
    by (subst copyout.simps) (simp only: Let_def xw unat_page_room if_False if_True refl not_False_eq_True)
  have tl: "length (take n src) \<le> 4096 - unat va mod 4096" by (simp add: n_def)
  note ch = write_chunk [OF wf x tl]
  show "user_wf s1 pt ps" "pt_map (pmem s1) pt = pt_map (pmem s) pt" using ch(1,2) by (simp_all add: s1_def)
  show "pmem s1 (x + of_nat i) = src ! i" if "i < n" for i
    using ch(3) [of i] that by (simp add: s1_def n_def)
  show "pmem s1 y = pmem s y"
    if "\<And>i. i < n \<Longrightarrow> utrans (pmem s) pt (va + of_nat i) \<noteq> Some y" for y
    using ch(4) [of y] that by (simp add: s1_def)
qed

lemma copyout_frame:
  assumes "user_wf s pt ps"
  shows "\<exists>m. copyout pt va src s = ((if mapped (pmem s) pt va (length src) then 0 else -1), s\<lparr>pmem := m\<rparr>) \<and>
    user_wf (s\<lparr>pmem := m\<rparr>) pt ps \<and> pt_map m pt = pt_map (pmem s) pt \<and>
    (\<forall>y. (\<forall>i < length src. utrans (pmem s) pt (va + of_nat i) \<noteq> Some y) \<longrightarrow> m y = pmem s y)"
  using assms
proof (induction src arbitrary: va s rule: length_induct)
  case (1 src)
  note wf = 1(2)
  let ?room = "4096 - unat va mod 4096" and ?va' = "PGROUNDDOWN va + PGSIZE"
  let ?n = "min ?room (length src)"
  have id: "s = s\<lparr>pmem := pmem s\<rparr>" by simp
  show ?case
  proof (cases "src = []")
    case True
    then have "copyout pt va src s = (0, s)" by (subst copyout.simps) simp
    then show ?thesis using True wf id by (intro exI [of _ "pmem s"]) (simp add: mapped_def)
  next
    case ne: False
    then have len: "0 < length src" by simp
    note sp = mapped_split [OF len, of "pmem s" pt va]
    show ?thesis
    proof (cases "utrans (pmem s) pt va")
      case None
      then show ?thesis
        using copyout_stop [OF wf ne None] sp wf id by (intro exI [of _ "pmem s"]) simp
    next
      case (Some x)
      define s1 where "s1 = s\<lparr>pmem := write_bytes (pmem s) x (take ?n src)\<rparr>"
      note st = copyout_step [OF wf ne Some, folded s1_def]
      have tr: "utrans (pmem s1) pt a = utrans (pmem s) pt a" for a by (rule utrans_cong) (rule st(3))
      then have mp: "mapped (pmem s1) pt a k = mapped (pmem s) pt a k" for a k by (simp add: mapped_def)
      have "length (drop ?n src) < length src" using ne by simp
      with 1(1) st(2) obtain m where m: "copyout pt ?va' (drop ?n src) s1 =
          ((if mapped (pmem s) pt ?va' (length src - ?n) then 0 else -1), s1\<lparr>pmem := m\<rparr>)"
        "user_wf (s1\<lparr>pmem := m\<rparr>) pt ps" "pt_map m pt = pt_map (pmem s1) pt"
        and rest: "\<And>y. (\<forall>i < length src - ?n. utrans (pmem s) pt (?va' + of_nat i) \<noteq> Some y) \<Longrightarrow> m y = pmem s1 y"
        unfolding tr [symmetric] mp [symmetric] length_drop [symmetric] by blast
      have "m y = pmem s y" if y: "\<forall>i < length src. utrans (pmem s) pt (va + of_nat i) \<noteq> Some y" for y
      proof -
        have "utrans (pmem s) pt (?va' + of_nat i) \<noteq> Some y" if "i < length src - ?n" for i
        proof -
          have "va + of_nat (?room + i) = ?va' + of_nat i" using next_page_addr [of va "?room + i"] by simp
          moreover have "?room + i < length src" using that by simp
          ultimately show ?thesis using y by metis
        qed
        then have "m y = pmem s1 y" using rest by blast
        also have "\<dots> = pmem s y" using y by (intro st(5)) simp
        finally show ?thesis .
      qed
      moreover have "s1\<lparr>pmem := m\<rparr> = s\<lparr>pmem := m\<rparr>" by (simp add: s1_def)
      ultimately show ?thesis
        using st(1,3) m sp Some by (intro exI [of _ m]) (simp add: s1_def)
    qed
  qed
qed

lemma next_room:
  assumes "unat va + len \<le> 2 ^ 38" and "0 < len"
  shows "unat (PGROUNDDOWN va + PGSIZE) = unat va + (4096 - unat va mod 4096)"
    and "unat va + (4096 - unat va mod 4096) + (len - min (4096 - unat va mod 4096) len) \<le> 2 ^ 38"
proof -
  have d: "unat (PGROUNDDOWN va) = unat va - unat va mod 4096"
    by (simp add: unat_PGROUNDDOWN page_no_def minus_mod_eq_mult_div)
  have "unat va < 2 ^ 38" using assms by simp
  then have p: "page_no va < 2 ^ 26" by (simp add: page_no_def)
  then have "4096 * Suc (page_no va) \<le> 2 ^ 38" by simp
  moreover have e: "4096 * Suc (page_no va) = unat va + (4096 - unat va mod 4096)"
    using d unat_PGROUNDDOWN [of va] mod_less_eq_dividend [of "unat va" 4096]
      mod_less_divisor [of 4096 "unat va"] by simp
  ultimately show "unat va + (4096 - unat va mod 4096) + (len - min (4096 - unat va mod 4096) len) \<le> 2 ^ 38"
    using assms(1) by (cases "4096 - unat va mod 4096 \<le> len") simp_all
  show "unat (PGROUNDDOWN va + PGSIZE) = unat va + (4096 - unat va mod 4096)"
    using p unfolding e [symmetric] by (subst unat_add_lem [THEN iffD1]) (simp_all add: unat_PGROUNDDOWN)
qed

lemma copyout_writes:
  assumes "user_wf s pt ps" and "mapped (pmem s) pt va (length src)" and "unat va + length src \<le> 2 ^ 38"
    and "i < length src" and "utrans (pmem s) pt (va + of_nat i) = Some y"
  shows "pmem (snd (copyout pt va src s)) y = src ! i"
  using assms
proof (induction src arbitrary: va s i rule: length_induct)
  case (1 src)
  note wf = 1(2)
  let ?room = "4096 - unat va mod 4096" and ?va' = "PGROUNDDOWN va + PGSIZE"
  let ?n = "min ?room (length src)"
  have ne: "src \<noteq> []" and len: "0 < length src" using 1(5) by auto
  note sp = mapped_split [OF len, of "pmem s" pt va]
  obtain x where x: "utrans (pmem s) pt va = Some x" using sp 1(3) by auto
  define s1 where "s1 = s\<lparr>pmem := write_bytes (pmem s) x (take ?n src)\<rparr>"
  note st = copyout_step [OF wf ne x, folded s1_def]
  note nr = next_room [OF 1(4) len]
  have tr: "utrans (pmem s1) pt a = utrans (pmem s) pt a" for a by (rule utrans_cong) (rule st(3))
  then have mp: "mapped (pmem s1) pt a k = mapped (pmem s) pt a k" for a k by (simp add: mapped_def)
  have addr: "?va' + of_nat j = va + of_nat (?room + j)" for j
    using next_page_addr [of va "?room + j"] by simp
  show ?case
  proof (cases "i < ?room")
    case True
    have y: "y = x + of_nat i" using utrans_same_page [of va i "pmem s" pt] True x 1(6) by simp
    have far: "utrans (pmem s1) pt (?va' + of_nat j) \<noteq> Some y" if j: "j < length (drop ?n src)" for j
    proof
      assume "utrans (pmem s1) pt (?va' + of_nat j) = Some y"
      then have "va + of_nat (?room + j) = va + of_nat i"
        unfolding tr addr using utrans_inj [OF wf _ 1(6)] by blast
      then have "unat (of_nat (?room + j) :: u64) = unat (of_nat i :: u64)" by simp
      moreover have "?room + j < 18446744073709551616" "i < 18446744073709551616" using j 1(4,5) by auto
      ultimately have "?room + j = i" by (simp only: unat_of_nat_u64)
      with True show False by simp
    qed
    obtain m where m: "copyout pt ?va' (drop ?n src) s1 =
        ((if mapped (pmem s1) pt ?va' (length (drop ?n src)) then 0 else -1), s1\<lparr>pmem := m\<rparr>)"
      "(\<forall>j < length (drop ?n src). utrans (pmem s1) pt (?va' + of_nat j) \<noteq> Some y) \<longrightarrow> m y = pmem s1 y"
      using copyout_frame [OF st(2)] by blast
    have "pmem (snd (copyout pt va src s)) y = pmem s1 y" using st(1) m far by simp
    also have "\<dots> = src ! i" unfolding y using st(4) True 1(5) by simp
    finally show ?thesis .
  next
    case False
    have "pmem (snd (copyout pt ?va' (drop ?n src) s1)) y = drop ?n src ! (i - ?room)"
    proof (rule 1(1) [rule_format, OF _ st(2)])
      show "length (drop ?n src) < length src" using ne by simp
      show "mapped (pmem s1) pt ?va' (length (drop ?n src))" unfolding mp using sp 1(3) by simp
      show "unat ?va' + length (drop ?n src) \<le> 2 ^ 38" using nr by simp
      show "i - ?room < length (drop ?n src)" using False 1(5) by simp
      show "utrans (pmem s1) pt (?va' + of_nat (i - ?room)) = Some y"
        unfolding tr addr using False 1(6) by simp
    qed
    then show ?thesis using st(1) False 1(5) by (simp add: min_def)
  qed
qed

section \<open>User memory and the rest of the state\<close>

lemma walk_from_cong:
  assumes "pmem s' = pmem s"
  shows "fst (walk_from l pt va False s') = fst (walk_from l pt va False s)"
  using assms by (induction l arbitrary: pt) (simp_all add: Let_def)

lemma walkaddr_cong: "pmem s' = pmem s \<Longrightarrow> walkaddr pt va s' = walkaddr pt va s"
  using walk_from_cong [of s' s] by (simp add: walkaddr_def Let_def)

lemma copyin_cong: "pmem s' = pmem s \<Longrightarrow> copyin pt va n s' = copyin pt va n s"
proof (induction pt va n s rule: copyin.induct)
  case (1 pt va n s)
  show ?case
    unfolding copyin.simps [of pt va n s'] copyin.simps [of pt va n s] walkaddr_cong [OF 1(2)] 1(2) Let_def
    by (intro if_cong refl) (use 1 in \<open>simp add: Let_def\<close>)
qed

lemma copyout_upd:
  fixes upd :: "'a kmem_scheme \<Rightarrow> 'a kmem_scheme"
  assumes "\<And>s. pmem (upd s) = pmem s" and "\<And>s m. upd (s\<lparr>pmem := m\<rparr>) = (upd s)\<lparr>pmem := m\<rparr>"
  shows "copyout pt va src (upd s) = (fst (copyout pt va src s), upd (snd (copyout pt va src s)))"
proof (induction pt va src s rule: copyout.induct)
  case (1 pt va src s)
  note w = walkaddr_cong [OF assms(1), of pt _ s]
  show ?case
  proof (cases "src = [] \<or> walkaddr pt (PGROUNDDOWN va) s = 0")
    case True
    then show ?thesis
      unfolding copyout.simps [of pt va src "upd s"] copyout.simps [of pt va src s] w Let_def by auto
  next
    case False
    then show ?thesis
      unfolding copyout.simps [of pt va src "upd s"] copyout.simps [of pt va src s] w Let_def
      using 1 [OF _ refl refl _ refl] by (simp add: assms)
  qed
qed

lemma copyout_pmem: "snd (copyout pt va src s) = s\<lparr>pmem := pmem (snd (copyout pt va src s))\<rparr>"
proof (induction pt va src s rule: copyout.induct)
  case (1 pt va src s)
  show ?case
  proof (cases "src = [] \<or> walkaddr pt (PGROUNDDOWN va) s = 0")
    case True
    then show ?thesis unfolding copyout.simps [of pt va src s] Let_def by auto
  next
    case False
    then show ?thesis
      unfolding copyout.simps [of pt va src s] Let_def
      by (simp del: PGSIZE_def) (subst 1 [OF _ refl refl _ refl], simp_all)
  qed
qed

section \<open>The content of user memory after a copy\<close>

text \<open>\<open>m'\<close> is \<open>m\<close> with the bytes \<open>v\<close> at the user addresses from \<open>a\<close> on, and with the same translation.\<close>

definition user_wrote :: "mem \<Rightarrow> u64 \<Rightarrow> u64 \<Rightarrow> u8 list \<Rightarrow> mem \<Rightarrow> bool" where
  "user_wrote m pt a v m' \<longleftrightarrow> pt_map m' pt = pt_map m pt \<and>
     (\<forall>j < length v. m' (the (utrans m pt (a + of_nat j))) = v ! j) \<and>
     (\<forall>y. (\<forall>j < length v. utrans m pt (a + of_nat j) \<noteq> Some y) \<longrightarrow> m' y = m y)"

lemma mapped_append: "mapped m pt a (n + k) \<longleftrightarrow> mapped m pt a n \<and> mapped m pt (a + of_nat n) k"
proof -
  have e: "utrans m pt (a + of_nat i) = utrans m pt (a + of_nat n + of_nat (i - n))" if "n \<le> i" for i
    using that by (simp add: of_nat_diff)
  show ?thesis
  proof (intro iffI conjI)
    assume l: "mapped m pt a (n + k)"
    then show "mapped m pt a n" by (simp add: mapped_def)
    show "mapped m pt (a + of_nat n) k"
      unfolding mapped_def
    proof (intro allI impI)
      fix j assume "j < k"
      then have "n + j < n + k" by simp
      then have "utrans m pt (a + of_nat (n + j)) \<noteq> None" using l unfolding mapped_def by blast
      then show "utrans m pt (a + of_nat n + of_nat j) \<noteq> None" by (simp add: add.assoc)
    qed
  next
    assume r: "mapped m pt a n \<and> mapped m pt (a + of_nat n) k"
    show "mapped m pt a (n + k)"
      unfolding mapped_def
    proof (intro allI impI)
      fix i assume i: "i < n + k"
      show "utrans m pt (a + of_nat i) \<noteq> None"
      proof (cases "i < n")
        case False
        then have "i - n < k" using i by simp
        then have "utrans m pt (a + of_nat n + of_nat (i - n)) \<noteq> None" using r unfolding mapped_def by blast
        then show ?thesis using e False by (metis linorder_not_less)
      qed (use r in \<open>simp add: mapped_def\<close>)
    qed
  qed
qed

lemma ubytes_append: "ubytes m pt a (n + k) = ubytes m pt a n @ ubytes m pt (a + of_nat n) k"
proof -
  have "[0..<n + k] = [0..<n] @ map (\<lambda>i. n + i) [0..<k]" using upt_add_eq_append [of 0 n k] by (simp add: map_add_upt add.commute)
  then show ?thesis by (simp add: ubytes_def add.assoc)
qed

lemma length_ubytes [simp]: "length (ubytes m pt a n) = n"
  by (simp add: ubytes_def)

lemma mapped_bound:
  assumes "mapped m pt a n" and "0 < n"
  shows "unat a + n \<le> 2 ^ 38"
proof (rule ccontr)
  assume n: "\<not> unat a + n \<le> 2 ^ 38"
  have b: "unat (a + of_nat j) < 2 ^ 38" if "j < n" for j
  proof -
    have "utrans m pt (a + of_nat j) \<noteq> None" using assms(1) that unfolding mapped_def by blast
    then show ?thesis by (auto simp: utrans_def word_less_nat_alt split: if_splits)
  qed
  have a: "unat a < 2 ^ 38" using b [OF assms(2)] by simp
  then have j: "2 ^ 38 - unat a < n" using n by simp
  have "unat (a + of_nat (2 ^ 38 - unat a)) = 2 ^ 38"
    using a by (subst unat_add_lem [THEN iffD1]) (simp_all add: unat_of_nat_u64 del: of_nat_diff)
  then show False using b [OF j] by simp
qed

lemma mapped_distinct:
  assumes "mapped m pt a n" and "i < n" "j < n" "a + of_nat i = a + of_nat j"
  shows "i = j"
proof -
  have "unat a + n \<le> 2 ^ 38" by (rule mapped_bound [OF assms(1)]) (use assms(2) in simp)
  then have "i < 2 ^ 64" "j < 2 ^ 64" using assms(2,3) by simp_all
  moreover have "unat (of_nat i :: u64) = unat (of_nat j :: u64)" using assms(4) by simp
  ultimately show ?thesis by (simp add: unat_of_nat_u64)
qed

lemma copyout_user_wrote:
  assumes wf: "user_wf s pt ps" and mp: "mapped (pmem s) pt a (length v)"
  obtains m where "copyout pt a v s = (0, s\<lparr>pmem := m\<rparr>)" "user_wrote (pmem s) pt a v m" "user_wf (s\<lparr>pmem := m\<rparr>) pt ps"
proof -
  obtain m where m: "copyout pt a v s = (0, s\<lparr>pmem := m\<rparr>)" "user_wf (s\<lparr>pmem := m\<rparr>) pt ps" "pt_map m pt = pt_map (pmem s) pt"
    "\<forall>y. (\<forall>j < length v. utrans (pmem s) pt (a + of_nat j) \<noteq> Some y) \<longrightarrow> m y = pmem s y"
    using copyout_frame [OF wf, of a v] mp by auto
  have "m (the (utrans (pmem s) pt (a + of_nat j))) = v ! j" if j: "j < length v" for j
  proof -
    obtain y where y: "utrans (pmem s) pt (a + of_nat j) = Some y" using mp j unfolding mapped_def by blast
    have "unat a + length v \<le> 2 ^ 38" by (rule mapped_bound [OF mp]) (use j in \<open>cases v; simp\<close>)
    from copyout_writes [OF wf mp this j y] show ?thesis by (simp add: m(1) y)
  qed
  then show thesis using that m by (simp add: user_wrote_def)
qed

lemma user_wrote_append:
  assumes wf: "user_wf s pt ps" and mp: "mapped (pmem s) pt a (length v + length w)"
    and v: "user_wrote (pmem s) pt a v m1" and w: "user_wrote m1 pt (a + of_nat (length v)) w m2"
  shows "user_wrote (pmem s) pt a (v @ w) m2"
proof -
  let ?u = "utrans (pmem s) pt" and ?n = "length v"
  have tr: "utrans m1 pt = ?u" using v by (intro ext utrans_cong) (simp add: user_wrote_def)
  have ad: "a + of_nat ?n + of_nat j = a + of_nat (?n + j)" for j by (simp add: add.assoc)
  have W: "\<forall>j < length w. m2 (the (?u (a + of_nat (?n + j)))) = w ! j"
    "\<And>y. (\<forall>j < length w. ?u (a + of_nat (?n + j)) \<noteq> Some y) \<Longrightarrow> m2 y = m1 y"
    using w unfolding user_wrote_def tr ad by blast+
  have V: "\<forall>j < ?n. m1 (the (?u (a + of_nat j))) = v ! j"
    "\<And>y. (\<forall>j < ?n. ?u (a + of_nat j) \<noteq> Some y) \<Longrightarrow> m1 y = pmem s y"
    using v unfolding user_wrote_def by blast+
  have "m2 (the (?u (a + of_nat j))) = (v @ w) ! j" if j: "j < length (v @ w)" for j
  proof (cases "j < ?n")
    case True
    obtain y where y: "?u (a + of_nat j) = Some y" using mp j unfolding mapped_def by fastforce
    have "?u (a + of_nat (?n + k)) \<noteq> Some y" if "k < length w" for k
    proof
      assume "?u (a + of_nat (?n + k)) = Some y"
      from utrans_inj [OF wf this y] have "?n + k = j" using mapped_distinct [OF mp] that j by simp
      then show False using True by simp
    qed
    then have "m2 y = m1 y" using W(2) by blast
    then show ?thesis using V(1) [rule_format, OF True] True by (simp add: nth_append y)
  next
    case False
    then show ?thesis using W(1) [rule_format, of "j - ?n"] j by (simp add: nth_append del: of_nat_diff)
  qed
  moreover have "m2 y = pmem s y" if y: "\<forall>j < length (v @ w). ?u (a + of_nat j) \<noteq> Some y" for y
  proof -
    have "?u (a + of_nat (?n + j)) \<noteq> Some y" if "j < length w" for j using y that by (metis length_append nat_add_left_cancel_less)
    then have "m2 y = m1 y" using W(2) by blast
    also have "m1 y = pmem s y" using y V(2) by simp
    finally show ?thesis .
  qed
  moreover have "pt_map m2 pt = pt_map (pmem s) pt" using v w by (simp add: user_wrote_def)
  ultimately show ?thesis unfolding user_wrote_def by blast
qed

lemma user_wrote_ubytes:
  assumes "user_wrote m pt a v m'"
  shows "ubytes m' pt a (length v) = v"
proof -
  have tr: "utrans m' pt x = utrans m pt x" for x using assms by (intro utrans_cong) (simp add: user_wrote_def)
  show ?thesis
    by (rule nth_equalityI) (use assms in \<open>simp_all add: ubytes_def tr user_wrote_def\<close>)
qed

section \<open>A concrete address space\<close>

text \<open>
  A machine with two free pages and an empty page table at 0x80001000, used to
  show that the hypotheses of the theorems can hold.
\<close>

definition demo :: kmem where
  "demo = \<lparr>pmem = store64 (\<lambda>_. 0) 0x80002000 0x80003000, freelist = 0x80002000, kend = 0x80000000\<rparr>"

lemma zero_root_inv:
  assumes free: "free_pages s ps" and pt: "is_page s pt" "pt \<notin> set ps"
    and zero: "\<And>x. page_no x = page_no pt \<Longrightarrow> pmem s x = 0"
  shows "pt_inv s pt ps" and "tables (pmem s) pt = {pt}" and "pt_map (pmem s) pt n = None"
proof -
  have al: "aligned pt" using pt(1) by (simp add: is_page_def)
  have none: "pt_next (pmem s) pt i = None" if "i < 512" for i
    using load64_zero [OF al that zero] by (simp add: pt_next_def)
  have tab: "table (pmem s) pt is = (if is = [] then Some pt else None)" if "index_ok is" for "is"
    using that none by (cases "is") auto
  have iff: "table (pmem s) pt is = Some q \<longleftrightarrow> is = [] \<and> q = pt" if "index_ok is" for "is" q
    using tab [OF that] by auto
  show "tables (pmem s) pt = {pt}"
    unfolding tables_def using iff by (auto intro!: exI [of _ "[]"])
  then show "pt_inv s pt ps" unfolding pt_inv_def using free pt iff by auto
  show "pt_map (pmem s) pt n = None"
    by (simp add: pt_map_def lookup_def tab [OF index_ok_path(1)]) (simp add: va_path_def)
qed

lemma demo_inv: "pt_inv demo 0x80001000 [0x80002000, 0x80003000]"
  and demo_tables: "tables (pmem demo) 0x80001000 = {0x80001000}"
  and demo_map: "pt_map (pmem demo) 0x80001000 n = None"
proof -
  have "load64 (store64 (\<lambda>_. 0) 0x80002000 0x80003000) 0x80003000 = load64 (\<lambda>_. 0) 0x80003000"
    by (rule load64_store64_other) simp_all
  also have "\<dots> = 0" by (simp add: load64_def numeral_eq_Suc)
  finally have fp: "free_pages demo [0x80002000, 0x80003000]"
    by (simp add: demo_def free_pages_def is_page_def aligned_def)
  have zero: "pmem demo x = 0" if "page_no x = page_no 0x80001000" for x
    using that store64_other_page [where a = "0x80002000" and x = x and m = "\<lambda>_. 0"]
    by (simp add: demo_def page_no_def)
  have pg: "is_page demo 0x80001000" "(0x80001000 :: u64) \<notin> set [0x80002000, 0x80003000]"
    by (simp_all add: demo_def is_page_def aligned_def)
  show "pt_inv demo 0x80001000 [0x80002000, 0x80003000]"
    "tables (pmem demo) 0x80001000 = {0x80001000}" "pt_map (pmem demo) 0x80001000 n = None"
    by (rule zero_root_inv [OF fp pg zero], assumption)+
qed

text \<open>Mapping one fresh page as user memory gives a well-formed user address space.\<close>

lemma map_user_page:
  assumes inv: "pt_inv s pt ps" and none: "\<And>n. pt_map (pmem s) pt n = None" and len: "length ps \<ge> 2"
    and d: "is_page s d" "d \<notin> tables (pmem s) pt" "d \<notin> set ps"
  shows "\<exists>s' ps'. mappages pt 0 PGSIZE d 0x16 s = Ok (0, s') \<and> user_wf s' pt ps' \<and>
    (\<forall>n. user_page (pmem s') pt n = (if n = 0 then Some d else None))"
proof -
  have span: "span 0 PGSIZE = 1" by (simp add: span_def page_no_def)
  obtain r s' ps' k where m: "mappages pt 0 PGSIZE d 0x16 s = Ok (r, s')" "pt_grow s pt ps s' ps'"
    "pt_map (pmem s') pt = map_range (pt_map (pmem s) pt) (page_no 0) d 0x16 k"
    and r: "if r = 0 then k = span 0 PGSIZE else r = -1 \<and> k < span 0 PGSIZE \<and> ps' = [] \<and> length ps < 2 * span 0 PGSIZE"
    using mappages_refines [OF inv, where va = 0 and sz = PGSIZE and pa = d and perm = "0x16"] none by auto
  have rk: "r = 0" "k = 1" using r len unfolding span by (auto split: if_splits)
  have al: "aligned d" using d(1) by (simp add: is_page_def)
  have pte: "mk_pte d 0x16 = PA2PTE d OR 0x17" by (simp add: or.assoc)
  have "(PA2PTE d OR 0x17) AND 16 \<noteq> 0"
  proof -
    have "bit ((PA2PTE d OR 0x17) AND 16) 4" by (simp add: bit_simps)
    then show ?thesis by (metis bit_0_eq bot_apply bot_bool_def)
  qed
  moreover have "PTE2PA (PA2PTE d OR 0x17) = d" using al by (rule PTE2PA_encode) simp
  ultimately have u: "user_page (pmem s') pt n = (if n = 0 then Some d else None)" for n
    using m(3) rk(2) none unfolding user_page_def by (auto simp: map_range_apply page_no_def pte)
  have "kend s' = kend s" using pt_growD(2) [OF m(2)] by auto
  then have "user_wf s' pt ps'"
    using d pt_growD(1,5) [OF m(2)] unfolding user_wf_def u by (auto simp: is_page_def split: if_splits)
  with m(1) u rk(1) show ?thesis by auto
qed

section \<open>Properties\<close>

text \<open>
  C15: \<open>mappages\<close> implements an update of the map from page numbers to entries. On a
  range that is not mapped yet it enters one entry per page of the range, in order
  and pointing to consecutive physical pages, and changes no other entry; it keeps the
  page table a tree of allocated pages and writes only to its tables and to free
  pages. It fails only if fewer than two free pages per page of the range were there.
\<close>

theorem mappages_adds_range:
  assumes "pt_inv s pt ps" and "0 < sz" and "unat va + unat sz \<le> 2 ^ 38"
    and "\<forall>i < span va sz. pt_map (pmem s) pt (page_no va + i) = None"
  shows "\<exists>r s' ps' k. mappages pt va sz pa perm s = Ok (r, s') \<and> pt_grow s pt ps s' ps' \<and>
    pt_map (pmem s') pt = map_range (pt_map (pmem s) pt) (page_no va) pa perm k \<and>
    (if r = 0 then k = span va sz
     else r = -1 \<and> k < span va sz \<and> ps' = [] \<and> length ps < 2 * span va sz)"
  using assms by (rule mappages_refines)

theorem mappages_adds_range_witness:
  "\<exists>s' ps'. mappages 0x80001000 0 4096 0x80005000 0x16 demo = Ok (0, s') \<and>
     pt_map (pmem s') 0x80001000 = map_range (pt_map (pmem demo) 0x80001000) 0 0x80005000 0x16 1"
  using mappages_adds_range [OF demo_inv, where va = 0 and sz = 4096 and pa = "0x80005000" and perm = "0x16"]
  by (auto simp: demo_map span_def page_no_def split: if_splits)

text \<open>
  C16: \<open>mappages\<close> never overwrites a mapping: if a page of the range is already mapped
  and memory for the tables up to it does not run out, the call panics.
\<close>

theorem mappages_never_remaps:
  assumes "pt_inv s pt ps" and "0 < sz" and "unat va + unat sz \<le> 2 ^ 38"
    and "j < span va sz" and "pt_map (pmem s) pt (page_no va + j) \<noteq> None" and "2 * j \<le> length ps"
  shows "mappages pt va sz pa perm s = Panic ''remap''"
  using assms by (rule mappages_remap)

theorem mappages_never_remaps_witness:
  "\<exists>s'. mappages 0x80001000 0 4096 0x80005000 0x16 demo = Ok (0, s') \<and>
     mappages 0x80001000 0 4096 0x80006000 0x16 s' = Panic ''remap''"
proof -
  obtain r s' ps' k where m: "mappages 0x80001000 0 4096 0x80005000 0x16 demo = Ok (r, s')"
    "pt_grow demo 0x80001000 [0x80002000, 0x80003000] s' ps'"
    "pt_map (pmem s') 0x80001000 = map_range (pt_map (pmem demo) 0x80001000) (page_no 0) 0x80005000 0x16 k"
    "if r = 0 then k = span 0 4096 else r = -1 \<and> k < span 0 4096 \<and> ps' = [] \<and>
       length [0x80002000 :: u64, 0x80003000] < 2 * span 0 4096"
    using mappages_refines [OF demo_inv, where va = 0 and sz = 4096 and pa = "0x80005000" and perm = "0x16"]
    by (auto simp: demo_map)
  then have "r = 0" "pt_map (pmem s') 0x80001000 0 \<noteq> None"
    by (auto simp: span_def page_no_def map_range_apply split: if_splits)
  then show ?thesis
    using m(1) mappages_never_remaps [OF pt_growD(1) [OF m(2)], where va = 0 and sz = 4096 and j = 0
        and pa = "0x80006000" and perm = "0x16"]
    by (simp add: span_def page_no_def)
qed

text \<open>
  C17: \<open>copyin\<close> succeeds exactly when every byte of the user range lies on a mapped
  page with the user bit, and then returns the bytes behind those addresses.
\<close>

theorem copyin_reads_user_memory:
  assumes "user_wf s pt ps"
  shows "fst (copyin pt va len s) = (if mapped (pmem s) pt va len then 0 else -1) \<and>
    (mapped (pmem s) pt va len \<longrightarrow> snd (copyin pt va len s) = ubytes (pmem s) pt va len)"
  using copyin_correct [OF assms] by blast

text \<open>
  C18: \<open>copyout\<close> succeeds exactly when the whole user range is mapped user memory;
  whether it succeeds or not, it changes no byte outside the range's physical
  pages, and neither the page table nor the free list.
\<close>

theorem copyout_confined:
  assumes "user_wf s pt ps"
  shows "\<exists>m. copyout pt va src s = ((if mapped (pmem s) pt va (length src) then 0 else -1), s\<lparr>pmem := m\<rparr>) \<and>
    user_wf (s\<lparr>pmem := m\<rparr>) pt ps \<and> pt_map m pt = pt_map (pmem s) pt \<and>
    (\<forall>y. (\<forall>i < length src. utrans (pmem s) pt (va + of_nat i) \<noteq> Some y) \<longrightarrow> m y = pmem s y)"
  using assms by (rule copyout_frame)

text \<open>
  C19: What \<open>copyout\<close> has written to a mapped user range, \<open>copyin\<close> reads back.
\<close>

theorem copyout_copyin_roundtrip:
  assumes wf: "user_wf s pt ps" and mp: "mapped (pmem s) pt va (length src)"
    and len: "unat va + length src \<le> 2 ^ 38"
  shows "\<exists>s'. copyout pt va src s = (0, s') \<and> copyin pt va (length src) s' = (0, src)"
proof -
  obtain m where m: "copyout pt va src s = (0, s\<lparr>pmem := m\<rparr>)" "user_wf (s\<lparr>pmem := m\<rparr>) pt ps"
    "pt_map m pt = pt_map (pmem s) pt"
    using copyout_frame [OF wf, of va src] mp by auto
  have tr: "utrans m pt a = utrans (pmem s) pt a" for a by (rule utrans_cong) (rule m(3))
  have mp': "mapped m pt va (length src)" using mp by (simp add: mapped_def tr)
  have "ubytes m pt va (length src) = src"
  proof (rule nth_equalityI)
    fix i assume "i < length (ubytes m pt va (length src))"
    then have i: "i < length src" by (simp add: ubytes_def)
    then obtain y where y: "utrans (pmem s) pt (va + of_nat i) = Some y"
      using mp unfolding mapped_def by blast
    show "ubytes m pt va (length src) ! i = src ! i"
      using copyout_writes [OF wf mp len i y] m(1) i y by (simp add: ubytes_def tr)
  qed (simp add: ubytes_def)
  then have "copyin pt va (length src) (s\<lparr>pmem := m\<rparr>) = (0, src)"
    using copyin_correct [OF m(2), of va "length src"] mp' by (simp add: prod_eq_iff)
  with m(1) show ?thesis by blast
qed


lemma demo_user:
  "\<exists>s' ps'. mappages 0x80001000 0 PGSIZE 0x80005000 0x16 demo = Ok (0, s') \<and> user_wf s' 0x80001000 ps' \<and>
    (\<forall>n. user_page (pmem s') 0x80001000 n = (if n = 0 then Some 0x80005000 else None))"
proof (rule map_user_page [OF demo_inv demo_map])
  show "(0x80005000 :: u64) \<notin> tables (pmem demo) 0x80001000" by (simp add: demo_tables)
qed (simp_all add: demo_def is_page_def aligned_def)

lemma demo_mapped:
  assumes "\<forall>n. user_page m pt n = (if n = 0 then Some 0x80005000 else None)"
  shows "mapped m pt 16 3"
  using assms by (auto simp: mapped_def utrans_def page_no_def less_Suc_eq numeral_3_eq_3)

theorem copyin_reads_user_memory_witness:
  "\<exists>s :: kmem. fst (copyin 0x80001000 16 3 s) = 0 \<and>
     snd (copyin 0x80001000 16 3 s) = ubytes (pmem s) 0x80001000 16 3"
  using demo_user copyin_reads_user_memory demo_mapped by metis

theorem copyout_confined_witness:
  "\<exists>(s :: kmem) m. copyout 0x80001000 16 [1, 2, 3] s = (0, s\<lparr>pmem := m\<rparr>) \<and>
     pt_map m 0x80001000 = pt_map (pmem s) 0x80001000"
proof -
  obtain s :: kmem and ps where s: "user_wf s 0x80001000 ps"
    "\<forall>n. user_page (pmem s) 0x80001000 n = (if n = 0 then Some 0x80005000 else None)"
    using demo_user by blast
  show ?thesis
    using copyout_confined [OF s(1), of 16 "[1, 2, 3]"] demo_mapped [OF s(2)]
    by (auto simp: numeral_3_eq_3)
qed

theorem copyout_copyin_roundtrip_witness:
  "\<exists>(s :: kmem) s'. copyout 0x80001000 16 [1, 2, 3] s = (0, s') \<and> copyin 0x80001000 16 3 s' = (0, [1, 2, 3])"
proof -
  obtain s :: kmem and ps where s: "user_wf s 0x80001000 ps"
    "\<forall>n. user_page (pmem s) 0x80001000 n = (if n = 0 then Some 0x80005000 else None)"
    using demo_user by blast
  show ?thesis
    using copyout_copyin_roundtrip [OF s(1), of 16 "[1, 2, 3]"] demo_mapped [OF s(2)]
    by (auto simp: numeral_3_eq_3)
qed

end
