(* ===== verification/Spinlock.thy ===== *)
theory Spinlock
  imports Vm
begin

text \<open>
  kernel/spinlock.c: spin-locks and the nesting of interrupt disabling. The first
  part is the code as functions of the machine state, run by CPU \<open>c\<close>. The second
  part splits \<open>acquire\<close> and \<open>release\<close> at their memory accesses into the steps of a
  transition system in which all CPUs interleave, and shows mutual exclusion, that
  interrupts are off while a lock is held, and that disciplined callers never
  reach the panics.
\<close>

section \<open>Locks and CPUs (kernel/spinlock.h, kernel/proc.h)\<close>

text \<open>Every spin-lock of the kernel has a name of its own.\<close>

datatype lockid =
    Lk_kmem | Lk_pid | Lk_proc nat | Lk_ticks | Lk_bcache | Lk_log | Lk_icache | Lk_ftable
  | Lk_buf nat | Lk_inode nat | Lk_pipe u64 | Lk_cons | Lk_uart | Lk_pr | Lk_disk

record spinlock =
  locked :: u32
  cpu :: "nat option"

record cpu =
  proc :: "nat option"
  noff :: int
  intena :: bool
  intr :: bool

text \<open>\<open>intr\<close> is the bit SIE of the hart's \<open>sstatus\<close>, read by \<open>intr_get\<close>.\<close>

record machine = kvm +
  locks :: "lockid \<Rightarrow> spinlock"
  cpus :: "nat \<Rightarrow> cpu"

definition initlock :: "lockid \<Rightarrow> 'a machine_scheme \<Rightarrow> 'a machine_scheme" where
  "initlock lk s = s\<lparr>locks := (locks s)(lk := \<lparr>locked = 0, cpu = None\<rparr>)\<rparr>"

definition intr_get :: "nat \<Rightarrow> 'a machine_scheme \<Rightarrow> bool" where
  "intr_get c s = intr (cpus s c)"

definition intr_on :: "nat \<Rightarrow> 'a machine_scheme \<Rightarrow> 'a machine_scheme" where
  "intr_on c s = s\<lparr>cpus := (cpus s)(c := (cpus s c)\<lparr>intr := True\<rparr>)\<rparr>"

definition intr_off :: "nat \<Rightarrow> 'a machine_scheme \<Rightarrow> 'a machine_scheme" where
  "intr_off c s = s\<lparr>cpus := (cpus s)(c := (cpus s c)\<lparr>intr := False\<rparr>)\<rparr>"

definition push_off :: "nat \<Rightarrow> 'a machine_scheme \<Rightarrow> 'a machine_scheme" where
  "push_off c s =
     (let old = intr_get c s;
          s1 = intr_off c s;
          k = cpus s1 c;
          k1 = (if noff k = 0 then k\<lparr>intena := old\<rparr> else k)
      in s1\<lparr>cpus := (cpus s1)(c := k1\<lparr>noff := noff k1 + 1\<rparr>)\<rparr>)"

definition pop_off :: "nat \<Rightarrow> 'a machine_scheme \<Rightarrow> 'a machine_scheme res" where
  "pop_off c s =
     (if intr_get c s then Panic ''pop_off - interruptible''
      else if noff (cpus s c) < 1 then Panic ''pop_off''
      else let k = (cpus s c)\<lparr>noff := noff (cpus s c) - 1\<rparr>;
               s1 = s\<lparr>cpus := (cpus s)(c := k)\<rparr>
           in Ok (if noff k = 0 \<and> intena k then intr_on c s1 else s1))"

definition holding :: "nat \<Rightarrow> lockid \<Rightarrow> 'a machine_scheme \<Rightarrow> bool" where
  "holding c lk s \<longleftrightarrow> locked (locks s lk) \<noteq> 0 \<and> cpu (locks s lk) = Some c"

text \<open>\<open>__sync_lock_test_and_set\<close>: the atomic swap, returning the old value.\<close>

definition test_and_set :: "lockid \<Rightarrow> 'a machine_scheme \<Rightarrow> u32 \<times> 'a machine_scheme" where
  "test_and_set lk s =
     (locked (locks s lk), s\<lparr>locks := (locks s)(lk := (locks s lk)\<lparr>locked := 1\<rparr>)\<rparr>)"

definition set_lock_cpu :: "lockid \<Rightarrow> nat option \<Rightarrow> 'a machine_scheme \<Rightarrow> 'a machine_scheme" where
  "set_lock_cpu lk v s = s\<lparr>locks := (locks s)(lk := (locks s lk)\<lparr>cpu := v\<rparr>)\<rparr>"

definition lock_release :: "lockid \<Rightarrow> 'a machine_scheme \<Rightarrow> 'a machine_scheme" where
  "lock_release lk s = s\<lparr>locks := (locks s)(lk := (locks s lk)\<lparr>locked := 0\<rparr>)\<rparr>"

text \<open>A swap that finds the lock taken is repeated until its holder has released it.\<close>

definition acquire :: "nat \<Rightarrow> lockid \<Rightarrow> 'a machine_scheme \<Rightarrow> 'a machine_scheme res" where
  "acquire c lk s =
     (let s1 = push_off c s
      in if holding c lk s1 then Panic ''acquire''
         else let (old, s2) = test_and_set lk s1
              in if old \<noteq> 0 then Spin else Ok (set_lock_cpu lk (Some c) s2))"

definition release :: "nat \<Rightarrow> lockid \<Rightarrow> 'a machine_scheme \<Rightarrow> 'a machine_scheme res" where
  "release c lk s =
     (if \<not> holding c lk s then Panic ''release''
      else pop_off c (lock_release lk (set_lock_cpu lk None s)))"

section \<open>Interleaved execution\<close>

text \<open>
  Where a CPU is inside \<open>acquire\<close> or \<open>release\<close>: each constructor stands before one
  access to the lock. \<open>Run\<close> is the caller's code. \<open>own\<close> is the set of locks whose
  \<open>acquire\<close> has returned and whose word has not been cleared by \<open>release\<close> yet.
\<close>

datatype lpc =
    Run
  | AcqRead lockid | AcqOwner lockid | AcqSwap lockid | AcqSet lockid
  | RelRead lockid | RelOwner lockid | RelClear lockid | RelUnlock lockid | RelPop

record lockrun = machine +
  pc :: "nat \<Rightarrow> lpc"
  own :: "nat \<Rightarrow> lockid set"
  panicked :: bool

definition goto :: "nat \<Rightarrow> lpc \<Rightarrow> lockrun \<Rightarrow> lockrun" where
  "goto c p s = s\<lparr>pc := (pc s)(c := p)\<rparr>"

definition set_own :: "nat \<Rightarrow> lockid set \<Rightarrow> lockrun \<Rightarrow> lockrun" where
  "set_own c L s = s\<lparr>own := (own s)(c := L)\<rparr>"

text \<open>
  A disciplined caller acquires locks it does not hold and releases locks it
  holds; outside critical sections it may turn interrupts on and off.
\<close>

inductive lock_step :: "lockrun \<Rightarrow> lockrun \<Rightarrow> bool" where
  acq_call: "pc s c = Run \<Longrightarrow> lk \<notin> own s c \<Longrightarrow> lock_step s (goto c (AcqRead lk) (push_off c s))"
| acq_read: "pc s c = AcqRead lk \<Longrightarrow>
    lock_step s (goto c (if locked (locks s lk) \<noteq> 0 then AcqOwner lk else AcqSwap lk) s)"
| acq_owner: "pc s c = AcqOwner lk \<Longrightarrow>
    lock_step s (if cpu (locks s lk) = Some c then s\<lparr>panicked := True\<rparr> else goto c (AcqSwap lk) s)"
| acq_swap: "pc s c = AcqSwap lk \<Longrightarrow> test_and_set lk s = (old, s1) \<Longrightarrow>
    lock_step s (if old \<noteq> 0 then s1 else goto c (AcqSet lk) s1)"
| acq_set: "pc s c = AcqSet lk \<Longrightarrow>
    lock_step s (goto c Run (set_own c (insert lk (own s c)) (set_lock_cpu lk (Some c) s)))"
| rel_call: "pc s c = Run \<Longrightarrow> lk \<in> own s c \<Longrightarrow> lock_step s (goto c (RelRead lk) s)"
| rel_read: "pc s c = RelRead lk \<Longrightarrow>
    lock_step s (if locked (locks s lk) = 0 then s\<lparr>panicked := True\<rparr> else goto c (RelOwner lk) s)"
| rel_owner: "pc s c = RelOwner lk \<Longrightarrow>
    lock_step s (if cpu (locks s lk) \<noteq> Some c then s\<lparr>panicked := True\<rparr> else goto c (RelClear lk) s)"
| rel_clear: "pc s c = RelClear lk \<Longrightarrow> lock_step s (goto c (RelUnlock lk) (set_lock_cpu lk None s))"
| rel_unlock: "pc s c = RelUnlock lk \<Longrightarrow>
    lock_step s (goto c RelPop (set_own c (own s c - {lk}) (lock_release lk s)))"
| rel_pop: "pc s c = RelPop \<Longrightarrow>
    lock_step s (case pop_off c s of Ok s1 \<Rightarrow> goto c Run s1 | _ \<Rightarrow> s\<lparr>panicked := True\<rparr>)"
| turn_on: "pc s c = Run \<Longrightarrow> noff (cpus s c) = 0 \<Longrightarrow> lock_step s (intr_on c s)"
| turn_off: "pc s c = Run \<Longrightarrow> noff (cpus s c) = 0 \<Longrightarrow> lock_step s (intr_off c s)"

definition lock_init :: "lockrun \<Rightarrow> bool" where
  "lock_init s \<longleftrightarrow> (\<forall>lk. locked (locks s lk) = 0 \<and> cpu (locks s lk) = None) \<and>
     (\<forall>c. noff (cpus s c) = 0 \<and> pc s c = Run \<and> own s c = {}) \<and> \<not> panicked s"

text \<open>The locks a CPU holds: \<open>acquire\<close> has swapped the word and \<open>release\<close> has not cleared it.\<close>

definition owns :: "lockrun \<Rightarrow> nat \<Rightarrow> lockid \<Rightarrow> bool" where
  "owns s c lk \<longleftrightarrow> lk \<in> own s c \<or> pc s c = AcqSet lk"

fun acquiring :: "lpc \<Rightarrow> lockid set" where
  "acquiring (AcqRead lk) = {lk}"
| "acquiring (AcqOwner lk) = {lk}"
| "acquiring (AcqSwap lk) = {lk}"
| "acquiring (AcqSet lk) = {lk}"
| "acquiring _ = {}"

fun releasing :: "lpc \<Rightarrow> lockid set" where
  "releasing (RelRead lk) = {lk}"
| "releasing (RelOwner lk) = {lk}"
| "releasing (RelClear lk) = {lk}"
| "releasing (RelUnlock lk) = {lk}"
| "releasing _ = {}"

definition pushes :: "lpc \<Rightarrow> nat" where
  "pushes p = (if acquiring p \<noteq> {} \<or> p = RelPop then 1 else 0)"

text \<open>
  The invariant, with the holder \<open>h lk\<close> of every lock: the lock word is set exactly
  while the lock has a holder, and \<open>lk->cpu\<close> names the holder from the end of
  \<open>acquire\<close> to the clearing in \<open>release\<close>. \<open>noff\<close> counts the locks a CPU holds or is
  acquiring, and keeps interrupts off.
\<close>

definition cpu_ok :: "lockrun \<Rightarrow> nat \<Rightarrow> bool" where
  "cpu_ok s c \<longleftrightarrow> finite (own s c) \<and> noff (cpus s c) = int (card (own s c) + pushes (pc s c)) \<and>
     (noff (cpus s c) > 0 \<longrightarrow> \<not> intr (cpus s c)) \<and>
     acquiring (pc s c) \<inter> own s c = {} \<and> releasing (pc s c) \<subseteq> own s c"

definition lock_inv :: "(lockid \<Rightarrow> nat option) \<Rightarrow> lockrun \<Rightarrow> bool" where
  "lock_inv h s \<longleftrightarrow>
     (\<forall>lk. locked (locks s lk) \<noteq> 0 \<longleftrightarrow> h lk \<noteq> None) \<and>
     (\<forall>c lk. h lk = Some c \<longleftrightarrow> owns s c lk) \<and>
     (\<forall>c lk. cpu (locks s lk) = Some c \<longleftrightarrow> lk \<in> own s c \<and> pc s c \<noteq> RelUnlock lk) \<and>
     (\<forall>c. cpu_ok s c) \<and> \<not> panicked s"

lemmas lock_defs = goto_def set_own_def set_lock_cpu_def lock_release_def test_and_set_def
  push_off_def pop_off_def intr_on_def intr_off_def intr_get_def Let_def

lemmas inv_defs = lock_inv_def cpu_ok_def owns_def pushes_def

lemma lock_inv_init: "lock_init s \<Longrightarrow> lock_inv (\<lambda>_. None) s"
  by (auto simp: lock_init_def inv_defs)

lemma lock_invD:
  assumes "lock_inv h s"
  shows "locked (locks s lk) \<noteq> 0 \<longleftrightarrow> h lk \<noteq> None" and "h lk = Some c \<longleftrightarrow> owns s c lk"
    and "cpu (locks s lk) = Some c \<longleftrightarrow> lk \<in> own s c \<and> pc s c \<noteq> RelUnlock lk"
    and "cpu_ok s c" and "\<not> panicked s"
  using assms unfolding lock_inv_def by blast+

lemma lock_inv_only:
  assumes "lock_inv h s" and "owns s c lk"
  shows "h lk = Some c" and "locked (locks s lk) \<noteq> 0"
    and "\<And>c'. c' \<noteq> c \<Longrightarrow> lk \<notin> own s c' \<and> pc s c' \<noteq> AcqSet lk"
proof -
  show h: "h lk = Some c" using lock_invD(2) [OF assms(1)] assms(2) by blast
  then show "locked (locks s lk) \<noteq> 0" using lock_invD(1) [OF assms(1)] by blast
  show "lk \<notin> own s c' \<and> pc s c' \<noteq> AcqSet lk" if "c' \<noteq> c" for c'
    using lock_invD(2) [OF assms(1), of lk c'] h that unfolding owns_def by auto
qed

text \<open>A step of CPU \<open>c\<close> on lock \<open>lk\<close> leaves the other CPUs and locks as they are.\<close>

lemma lock_inv_upd:
  assumes inv: "lock_inv h s"
    and other: "\<And>c'. c' \<noteq> c \<Longrightarrow> pc s' c' = pc s c' \<and> own s' c' = own s c' \<and> cpus s' c' = cpus s c'"
    and same: "\<And>l. l \<noteq> lk \<Longrightarrow> locks s' l = locks s l \<and> h' l = h l \<and> (owns s' c l \<longleftrightarrow> owns s c l) \<and>
      (l \<in> own s' c \<and> pc s' c \<noteq> RelUnlock l \<longleftrightarrow> l \<in> own s c \<and> pc s c \<noteq> RelUnlock l)"
    and ok: "cpu_ok s' c" "\<not> panicked s'"
    and word: "locked (locks s' lk) \<noteq> 0 \<longleftrightarrow> h' lk \<noteq> None"
    and hold: "\<And>c'. h' lk = Some c' \<longleftrightarrow> owns s' c' lk"
    and cpu: "\<And>c'. cpu (locks s' lk) = Some c' \<longleftrightarrow> lk \<in> own s' c' \<and> pc s' c' \<noteq> RelUnlock lk"
  shows "\<exists>h'. lock_inv h' s'"
proof -
  note D = lock_invD [OF inv]
  have "locked (locks s' l) \<noteq> 0 \<longleftrightarrow> h' l \<noteq> None" for l
    using word D(1) [of l] same [of l] by (cases "l = lk") auto
  moreover have "h' l = Some c' \<longleftrightarrow> owns s' c' l" for c' l
  proof (cases "l = lk")
    case False
    then have "h' l = h l" using same by blast
    moreover have "owns s' c' l \<longleftrightarrow> owns s c' l"
      using other [of c'] same [OF False] by (cases "c' = c") (auto simp: owns_def)
    ultimately show ?thesis using D(2) by simp
  qed (simp add: hold)
  moreover have "cpu (locks s' l) = Some c' \<longleftrightarrow> l \<in> own s' c' \<and> pc s' c' \<noteq> RelUnlock l" for c' l
  proof (cases "l = lk")
    case False
    then show ?thesis using D(3) [of l c'] other [of c'] same [OF False] by (cases "c' = c") auto
  qed (simp add: cpu)
  moreover have "cpu_ok s' c'" for c'
    using ok(1) other [of c'] D(4) [of c'] by (cases "c' = c") (auto simp: cpu_ok_def)
  ultimately have "lock_inv h' s'" unfolding lock_inv_def using ok(2) by blast
  then show ?thesis by blast
qed

lemma lock_inv_step:
  assumes "lock_step s s'" and "lock_inv h s"
  shows "\<exists>h'. lock_inv h' s'"
  using assms
proof (induction rule: lock_step.induct)
  case (acq_call s c lk)
  note D = lock_invD [OF acq_call(3)]
  show ?case
    using acq_call(1,2) D(1) [of lk] D(2,3) [of lk] D(4) [of c] D(5)
    by (intro lock_inv_upd [OF acq_call(3), where c = c and lk = lk and h' = "h"])
      (auto simp: cpu_ok_def owns_def pushes_def lock_defs split: if_splits)
next
  case (acq_read s c lk)
  note D = lock_invD [OF acq_read(2)]
  show ?case
    using acq_read(1) D(1) [of lk] D(2,3) [of lk] D(4) [of c] D(5)
    by (intro lock_inv_upd [OF acq_read(2), where c = c and lk = lk and h' = "h"])
      (auto simp: cpu_ok_def owns_def pushes_def lock_defs split: if_splits)
next
  case (acq_owner s c lk)
  note D = lock_invD [OF acq_owner(2)]
  show ?case
    using acq_owner(1) D(1) [of lk] D(2,3) [of lk] D(4) [of c] D(5)
    by (intro lock_inv_upd [OF acq_owner(2), where c = c and lk = lk and h' = "h"])
      (auto simp: cpu_ok_def owns_def pushes_def lock_defs split: if_splits)
next
  case (acq_swap s c lk old s1)
  note D = lock_invD [OF acq_swap(3)]
  have old: "old = locked (locks s lk)" and s1: "s1 = s\<lparr>locks := (locks s)(lk := (locks s lk)\<lparr>locked := 1\<rparr>)\<rparr>"
    using acq_swap(2) by (simp_all add: test_and_set_def)
  show ?case
  proof (cases "old = 0")
    case True
    then have "\<not> owns s c' lk" for c' using D(1,2) [of lk] old by auto
    then show ?thesis
      using True acq_swap(1) D(3) [of lk] D(4) [of c] D(5) s1
      by (intro lock_inv_upd [OF acq_swap(3), where c = c and lk = lk and h' = "h(lk \<mapsto> c)"])
        (auto simp: cpu_ok_def owns_def pushes_def goto_def)
  next
    case False
    then show ?thesis
      using acq_swap(1) D(1) [of lk] D(2,3) [of lk] D(4) [of c] D(5) s1 old
      by (intro lock_inv_upd [OF acq_swap(3), where c = c and lk = lk and h' = h])
        (auto simp: cpu_ok_def owns_def)
  qed
next
  case (acq_set s c lk)
  note D = lock_invD [OF acq_set(2)]
  have ow: "owns s c lk" using acq_set(1) D(4) [of c] by (simp add: owns_def cpu_ok_def)
  show ?case
    using acq_set(1) lock_inv_only [OF acq_set(2) ow] D(3) [of lk] D(4) [of c] D(5)
    by (intro lock_inv_upd [OF acq_set(2), where c = c and lk = lk and h' = "h"])
      (auto simp: cpu_ok_def owns_def pushes_def lock_defs split: if_splits)
next
  case (rel_call s c lk)
  note D = lock_invD [OF rel_call(3)]
  have ow: "owns s c lk" using rel_call(1,2) D(4) [of c] by (simp add: owns_def cpu_ok_def)
  show ?case
    using rel_call(1,2) lock_inv_only [OF rel_call(3) ow] D(3) [of lk] D(4) [of c] D(5)
    by (intro lock_inv_upd [OF rel_call(3), where c = c and lk = lk and h' = "h"])
      (auto simp: cpu_ok_def owns_def pushes_def lock_defs split: if_splits)
next
  case (rel_read s c lk)
  note D = lock_invD [OF rel_read(2)]
  have ow: "owns s c lk" using rel_read(1) D(4) [of c] by (simp add: owns_def cpu_ok_def)
  show ?case
    using rel_read(1) lock_inv_only [OF rel_read(2) ow] D(3) [of lk] D(4) [of c] D(5)
    by (intro lock_inv_upd [OF rel_read(2), where c = c and lk = lk and h' = "h"])
      (auto simp: cpu_ok_def owns_def pushes_def lock_defs split: if_splits)
next
  case (rel_owner s c lk)
  note D = lock_invD [OF rel_owner(2)]
  have ow: "owns s c lk" using rel_owner(1) D(4) [of c] by (simp add: owns_def cpu_ok_def)
  show ?case
    using rel_owner(1) lock_inv_only [OF rel_owner(2) ow] D(3) [of lk] D(4) [of c] D(5)
    by (intro lock_inv_upd [OF rel_owner(2), where c = c and lk = lk and h' = "h"])
      (auto simp: cpu_ok_def owns_def pushes_def lock_defs split: if_splits)
next
  case (rel_clear s c lk)
  note D = lock_invD [OF rel_clear(2)]
  have ow: "owns s c lk" using rel_clear(1) D(4) [of c] by (simp add: owns_def cpu_ok_def)
  show ?case
    using rel_clear(1) lock_inv_only [OF rel_clear(2) ow] D(3) [of lk] D(4) [of c] D(5)
    by (intro lock_inv_upd [OF rel_clear(2), where c = c and lk = lk and h' = "h"])
      (auto simp: cpu_ok_def owns_def pushes_def lock_defs split: if_splits)
next
  case (rel_unlock s c lk)
  note D = lock_invD [OF rel_unlock(2)]
  have ow: "owns s c lk" using rel_unlock(1) D(4) [of c] by (simp add: owns_def cpu_ok_def)
  have "card (own s c) = Suc (card (own s c - {lk}))"
    using D(4) [of c] rel_unlock(1) by (intro card.remove) (auto simp: cpu_ok_def)
  then show ?case
    using rel_unlock(1) lock_inv_only [OF rel_unlock(2) ow] D(3) [of lk] D(4) [of c] D(5)
    by (intro lock_inv_upd [OF rel_unlock(2), where c = c and lk = lk and h' = "h(lk := None)"])
      (auto simp: cpu_ok_def owns_def pushes_def lock_defs split: if_splits)
next
  case (rel_pop s c)
  note D = lock_invD [OF rel_pop(2)]
  show ?case
    using rel_pop(1) D(1) [of Lk_kmem] D(2,3) [of Lk_kmem] D(4) [of c] D(5)
    by (intro lock_inv_upd [OF rel_pop(2), where c = c and lk = Lk_kmem and h' = h])
      (auto simp: cpu_ok_def owns_def pushes_def lock_defs split: if_splits)
next
  case (turn_on s c)
  note D = lock_invD [OF turn_on(3)]
  show ?case
    using turn_on(1,2) D(1) [of Lk_kmem] D(2,3) [of Lk_kmem] D(4) [of c] D(5)
    by (intro lock_inv_upd [OF turn_on(3), where c = c and lk = Lk_kmem and h' = h])
      (auto simp: cpu_ok_def owns_def pushes_def lock_defs split: if_splits)
next
  case (turn_off s c)
  note D = lock_invD [OF turn_off(3)]
  show ?case
    using turn_off(1,2) D(1) [of Lk_kmem] D(2,3) [of Lk_kmem] D(4) [of c] D(5)
    by (intro lock_inv_upd [OF turn_off(3), where c = c and lk = Lk_kmem and h' = h])
      (auto simp: cpu_ok_def owns_def pushes_def lock_defs split: if_splits)
qed

lemma lock_inv_reach:
  assumes "lock_step\<^sup>*\<^sup>* s0 s" and "lock_init s0"
  shows "\<exists>h. lock_inv h s"
  using assms
proof (induction rule: rtranclp_induct)
  case base
  then show ?case using lock_inv_init by blast
next
  case (step y z)
  then show ?case using lock_inv_step by blast
qed

section \<open>The functions and the steps\<close>

text \<open>The steps of one CPU from the call to the return compute what the functions compute.\<close>

lemma acquire_steps:
  assumes run: "pc s c = Run" and lk: "lk \<notin> own s c" and acq: "acquire c lk s = Ok s1"
  shows "lock_step\<^sup>*\<^sup>* s (set_own c (insert lk (own s c)) s1)"
proof -
  let ?a = "goto c (AcqRead lk) (push_off c s)"
  have locks: "locks (push_off c s) = locks s" by (simp add: lock_defs)
  have free: "locked (locks s lk) = 0"
    and s1: "s1 = set_lock_cpu lk (Some c) (snd (test_and_set lk (push_off c s)))"
    using acq by (auto simp: acquire_def Let_def test_and_set_def locks split: if_splits)
  let ?b = "goto c (AcqSwap lk) (push_off c s)"
  let ?d = "goto c (AcqSet lk) (snd (test_and_set lk (push_off c s)))"
  have 1: "lock_step s ?a" using run lk by (rule acq_call)
  have "lock_step ?a (goto c (if locked (locks ?a lk) \<noteq> 0 then AcqOwner lk else AcqSwap lk) ?a)"
    by (rule acq_read) (simp add: goto_def)
  then have 2: "lock_step ?a ?b" using free locks by (simp add: goto_def)
  have "test_and_set lk ?b = (0, goto c (AcqSwap lk) (snd (test_and_set lk (push_off c s))))"
    using free locks by (simp add: test_and_set_def goto_def)
  from acq_swap [OF _ this, of c] have 3: "lock_step ?b ?d" by (simp add: goto_def)
  have pcs: "pc (snd (test_and_set lk (push_off c s))) = pc s"
    "own (snd (test_and_set lk (push_off c s))) = own s" by (simp_all add: lock_defs)
  have "lock_step ?d (goto c Run (set_own c (insert lk (own ?d c)) (set_lock_cpu lk (Some c) ?d)))"
    by (rule acq_set) (simp add: goto_def)
  moreover have "goto c Run (set_own c (insert lk (own ?d c)) (set_lock_cpu lk (Some c) ?d)) =
      set_own c (insert lk (own s c)) s1"
    using run pcs by (simp add: s1 goto_def set_own_def set_lock_cpu_def fun_upd_idem)
  ultimately have "lock_step ?d (set_own c (insert lk (own s c)) s1)" by simp
  with 1 2 3 show ?thesis by (meson converse_rtranclp_into_rtranclp rtranclp.rtrancl_refl)
qed

lemma release_steps:
  assumes run: "pc s c = Run" and lk: "lk \<in> own s c" and rel: "release c lk s = Ok s1"
  shows "lock_step\<^sup>*\<^sup>* s (set_own c (own s c - {lk}) s1)"
proof -
  have h: "locked (locks s lk) \<noteq> 0" "cpu (locks s lk) = Some c"
    and pop: "pop_off c (lock_release lk (set_lock_cpu lk None s)) = Ok s1"
    using rel by (auto simp: release_def holding_def split: if_splits)
  let ?u = "lock_release lk (set_lock_cpu lk None s)"
  have 1: "lock_step s (goto c (RelRead lk) s)" using run lk by (rule rel_call)
  have 2: "lock_step (goto c (RelRead lk) s) (goto c (RelOwner lk) s)"
    using rel_read [of "goto c (RelRead lk) s" c lk] h by (simp add: goto_def)
  have 3: "lock_step (goto c (RelOwner lk) s) (goto c (RelClear lk) s)"
    using rel_owner [of "goto c (RelOwner lk) s" c lk] h by (simp add: goto_def)
  have 4: "lock_step (goto c (RelClear lk) s) (goto c (RelUnlock lk) (set_lock_cpu lk None s))"
    using rel_clear [of "goto c (RelClear lk) s" c lk] by (simp add: goto_def set_lock_cpu_def)
  have 5: "lock_step (goto c (RelUnlock lk) (set_lock_cpu lk None s))
      (goto c RelPop (set_own c (own s c - {lk}) ?u))"
    using rel_unlock [of "goto c (RelUnlock lk) (set_lock_cpu lk None s)" c lk]
    by (simp add: goto_def set_lock_cpu_def lock_release_def set_own_def)
  have "pop_off c (goto c RelPop (set_own c (own s c - {lk}) ?u)) =
      Ok (goto c RelPop (set_own c (own s c - {lk}) s1))"
    using pop by (auto simp: lock_defs split: if_splits)
  moreover have "goto c Run (goto c RelPop (set_own c (own s c - {lk}) s1)) = set_own c (own s c - {lk}) s1"
    using run pop by (auto simp: lock_defs fun_upd_idem split: if_splits)
  ultimately have 6: "lock_step (goto c RelPop (set_own c (own s c - {lk}) ?u)) (set_own c (own s c - {lk}) s1)"
    using rel_pop [of "goto c RelPop (set_own c (own s c - {lk}) ?u)" c] by (simp add: goto_def)
  from 1 2 3 4 5 6 show ?thesis by (meson converse_rtranclp_into_rtranclp rtranclp.rtrancl_refl)
qed

lemma push_off_pop_off:
  assumes "noff (cpus s c) \<ge> 0" and "noff (cpus s c) > 0 \<longrightarrow> \<not> intr (cpus s c)"
  shows "pop_off c (push_off c s) = Ok (s\<lparr>cpus := (cpus s)(c := (cpus s c)\<lparr>intena :=
    (if noff (cpus s c) = 0 then intr (cpus s c) else intena (cpus s c))\<rparr>)\<rparr>)"
proof (cases "cpus s c")
  case (fields p n i b)
  show ?thesis
  proof (cases "n = 0")
    case True
    then show ?thesis using fields by (cases b) (simp_all add: lock_defs)
  next
    case False
    then show ?thesis using fields assms by (simp add: lock_defs)
  qed
qed

section \<open>Properties\<close>

text \<open>
  C20. Mutual exclusion: however the CPUs interleave, no two of them are ever
  between \<open>acquire\<close> and \<open>release\<close> of the same lock; the holder's interrupts are off and
  \<open>lk->locked\<close> is set; and no CPU that releases only what it holds and acquires only
  what it does not hold ever reaches a panic of spinlock.c.
\<close>

theorem spinlock_mutual_exclusion:
  assumes "lock_step\<^sup>*\<^sup>* s0 s" and "lock_init s0"
  shows "\<not> panicked s \<and>
    (\<forall>c lk. lk \<in> own s c \<longrightarrow> locked (locks s lk) \<noteq> 0 \<and> \<not> intr (cpus s c) \<and>
       (\<forall>d. d \<noteq> c \<longrightarrow> lk \<notin> own s d))"
proof -
  obtain h where inv: "lock_inv h s" using lock_inv_reach [OF assms] by blast
  have "locked (locks s lk) \<noteq> 0 \<and> \<not> intr (cpus s c) \<and> (\<forall>d. d \<noteq> c \<longrightarrow> lk \<notin> own s d)"
    if "lk \<in> own s c" for c lk
  proof -
    have ow: "owns s c lk" using that by (simp add: owns_def)
    have "card (own s c) > 0" using lock_invD(4) [OF inv, of c] that by (auto simp: cpu_ok_def card_gt_0_iff)
    then show ?thesis using lock_invD(4) [OF inv, of c] lock_inv_only [OF inv ow] by (auto simp: cpu_ok_def)
  qed
  then show ?thesis using lock_invD(5) [OF inv] by blast
qed

definition boot_locks :: lockrun where
  "boot_locks = \<lparr>pmem = (\<lambda>_. 0), freelist = 0, kend = 0, kernel_pagetable = 0, etext = 0, trampoline = 0,
     satp = 0, locks = (\<lambda>_. \<lparr>locked = 0, cpu = None\<rparr>),
     cpus = (\<lambda>_. \<lparr>proc = None, noff = 0, intena = False, intr = True\<rparr>),
     pc = (\<lambda>_. Run), own = (\<lambda>_. {}), panicked = False\<rparr>"

lemma boot_locks_init: "lock_init boot_locks"
  by (simp add: boot_locks_def lock_init_def)

lemma boot_acquire: "\<exists>s. acquire c lk boot_locks = Ok s"
  by (simp add: boot_locks_def acquire_def holding_def lock_defs)

theorem spinlock_mutual_exclusion_witness:
  "\<exists>s. lock_step\<^sup>*\<^sup>* boot_locks s \<and> Lk_kmem \<in> own s 0 \<and> locked (locks s Lk_kmem) \<noteq> 0 \<and> Lk_kmem \<notin> own s 1"
proof -
  obtain s1 where s1: "acquire 0 Lk_kmem boot_locks = Ok s1" using boot_acquire by blast
  define s where "s = set_own 0 (insert Lk_kmem (own boot_locks 0)) s1"
  have st: "lock_step\<^sup>*\<^sup>* boot_locks s"
    unfolding s_def by (rule acquire_steps [OF _ _ s1]) (simp_all add: boot_locks_def)
  have ow: "Lk_kmem \<in> own s 0" by (simp add: s_def set_own_def)
  show ?thesis using spinlock_mutual_exclusion [OF st boot_locks_init] st ow by auto
qed

end
