(* ===== verification/Vm_Frame.thy ===== *)
theory Vm_Frame
  imports Vm
begin

text \<open>
  Every operation of kernel/kalloc.c and kernel/vm.c changes nothing of the machine
  but physical memory and the head of the free list. The components above rely on
  this for their own state.
\<close>

named_theorems mem_only_intros \<open>operations that change memory only\<close>

definition mem_only :: "'a kmem_scheme \<Rightarrow> 'a kmem_scheme \<Rightarrow> bool" where
  "mem_only s s' \<longleftrightarrow> (\<exists>m f. s' = s\<lparr>pmem := m, freelist := f\<rparr>)"

lemma mem_only_refl [simp, intro]: "mem_only s s"
  unfolding mem_only_def by (rule exI [of _ "pmem s"], rule exI [of _ "freelist s"]) simp

lemma mem_only_trans: "mem_only s s1 \<Longrightarrow> mem_only s1 s2 \<Longrightarrow> mem_only s s2"
  unfolding mem_only_def by (elim exE) (auto intro: exI)

lemma mem_only_pmem [simp, intro]: "mem_only s (s\<lparr>pmem := m\<rparr>)"
  unfolding mem_only_def by (rule exI [of _ m], rule exI [of _ "freelist s"]) simp

lemma mem_only_upd: "mem_only s s1 \<Longrightarrow> mem_only s (s1\<lparr>pmem := m\<rparr>)"
  by (rule mem_only_trans) auto

lemma mem_only_both [simp]: "mem_only s (s\<lparr>pmem := m, freelist := f\<rparr>)"
  unfolding mem_only_def by blast

lemma kalloc_mem_only [mem_only_intros]:
  assumes "kalloc s = (p, s')"
  shows "mem_only s s'"
proof (cases "freelist s = 0")
  case True
  then show ?thesis using assms by (simp add: kalloc_def)
next
  case False
  then have "s' = s\<lparr>pmem := memset (pmem s) (freelist s) 5 4096, freelist := load64 (pmem s) (freelist s)\<rparr>"
    using assms by (auto simp: kalloc_def Let_def)
  then show ?thesis by simp
qed

lemma kfree_mem_only [mem_only_intros]: "kfree p s = Ok s' \<Longrightarrow> mem_only s s'"
  by (auto simp: kfree_def Let_def split: if_splits)

lemma walk_from_mem_only: "walk_from k q va alloc s = (pte, s') \<Longrightarrow> mem_only s s'"
proof (induction k q va alloc s rule: walk_from.induct)
  case (2 level q va alloc s)
  let ?e = "load64 (pmem s) (q + 8 * PX (Suc level) va)"
  show ?case
  proof (cases "?e AND PTE_V \<noteq> 0")
    case True
    then show ?thesis using 2(1) [OF refl refl True] 2(3) by (simp add: Let_def)
  next
    case V: False
    obtain pt' s1 where ka: "kalloc s = (pt', s1)" by fastforce
    show ?thesis
    proof (cases "\<not> alloc \<or> pt' = 0")
      case True
      then show ?thesis using 2(3) V kalloc_mem_only [OF ka] by (auto simp: Let_def ka split: if_splits)
    next
      case False
      then have "mem_only (s1\<lparr>pmem := store64 (memset (pmem s1) pt' 0 4096) (q + 8 * PX (Suc level) va)
          (PA2PTE pt' OR PTE_V)\<rparr>) s'"
        using 2(2) [OF refl refl _ _ ka [symmetric] refl] 2(3) V by (simp add: Let_def ka)
      then show ?thesis using kalloc_mem_only [OF ka] mem_only_upd mem_only_trans by blast
    qed
  qed
qed simp

lemma walk_mem_only [mem_only_intros]: "walk pt va alloc s = Ok (pte, s') \<Longrightarrow> mem_only s s'"
  using walk_from_mem_only by (auto simp: walk_def split: if_splits)

lemma mappages_loop_mem_only: "mappages_loop pt a last_a pa perm s = Ok (r, s') \<Longrightarrow> mem_only s s'"
proof (induction pt a last_a pa perm s rule: mappages_loop.induct)
  case (1 pt a last_a pa perm s)
  obtain pte s1 where w: "walk pt a True s = Ok (pte, s1)"
    using 1(2) by (subst (asm) mappages_loop.simps) (auto elim: bindp_OkE)
  let ?s2 = "s1\<lparr>pmem := store64 (pmem s1) pte (PA2PTE pa OR perm OR PTE_V)\<rparr>"
  have s2: "mem_only s s1" "mem_only s ?s2" using walk_mem_only [OF w] mem_only_upd by blast+
  have eq: "(if pte = 0 then Ok (-1, s1)
      else if load64 (pmem s1) pte AND PTE_V \<noteq> 0 then Panic ''remap''
      else if a = last_a then Ok (0, ?s2)
      else mappages_loop pt (a + PGSIZE) last_a (pa + PGSIZE) perm ?s2) = Ok (r, s')"
    using 1(2) w by (subst (asm) mappages_loop.simps) (simp only: bindp_simps Let_def)
  show ?case
  proof (cases "pte = 0 \<or> a = last_a")
    case True
    then show ?thesis using eq s2 by (auto split: if_splits)
  next
    case False
    then have "load64 (pmem s1) pte AND PTE_V = 0"
      "mappages_loop pt (a + PGSIZE) last_a (pa + PGSIZE) perm ?s2 = Ok (r, s')"
      using eq by (simp_all split: if_splits)
    then have "mem_only ?s2 s'" using 1(1) [OF w _ _ refl] False by blast
    then show ?thesis using s2(2) mem_only_trans by blast
  qed
qed

lemma mappages_mem_only [mem_only_intros]: "mappages pt va sz pa perm s = Ok (r, s') \<Longrightarrow> mem_only s s'"
  unfolding mappages_def by (rule mappages_loop_mem_only)

lemma uvmunmap_loop_mem_only: "uvmunmap_loop pt a e do_free s = Ok s' \<Longrightarrow> mem_only s s'"
proof (induction pt a e do_free s rule: uvmunmap_loop.induct)
  case (1 pt a e do_free s)
  show ?case
  proof (cases "a < e")
    case False
    then show ?thesis using 1(2) by (subst (asm) uvmunmap_loop.simps) simp
  next
    case True
    from 1(2) obtain pte s1 where w: "walk pt a False s = Ok (pte, s1)"
      and rest: "(if pte = 0 then Panic ''uvmunmap: walk''
          else if load64 (pmem s1) pte AND PTE_V = 0 then Panic ''uvmunmap: not mapped''
          else if PTE_FLAGS (load64 (pmem s1) pte) = PTE_V then Panic ''uvmunmap: not a leaf''
          else bindr (if do_free then kfree (PTE2PA (load64 (pmem s1) pte)) s1 else Ok s1) (\<lambda>s2.
            uvmunmap_loop pt (a + PGSIZE) e do_free (s2\<lparr>pmem := store64 (pmem s2) pte 0\<rparr>))) = Ok s'"
      using True by (subst (asm) uvmunmap_loop.simps) (simp only: if_True, elim bindp_OkE)
    then have pte: "pte \<noteq> 0" "load64 (pmem s1) pte AND PTE_V \<noteq> 0"
      "PTE_FLAGS (load64 (pmem s1) pte) \<noteq> PTE_V"
      by (auto simp del: PTE_V_def split: if_splits)
    then obtain s2 where s2: "(if do_free then kfree (PTE2PA (load64 (pmem s1) pte)) s1 else Ok s1) = Ok s2"
      and lp: "uvmunmap_loop pt (a + PGSIZE) e do_free (s2\<lparr>pmem := store64 (pmem s2) pte 0\<rparr>) = Ok s'"
      using rest by (simp del: PTE_V_def) (erule bindr_OkE)
    have "mem_only s1 s2" using s2 kfree_mem_only by (auto split: if_splits)
    moreover have "mem_only (s2\<lparr>pmem := store64 (pmem s2) pte 0\<rparr>) s'"
      using 1(1) [OF True w pte s2 lp] .
    ultimately have "mem_only s1 s'" using mem_only_upd mem_only_trans by blast
    then show ?thesis by (rule mem_only_trans [OF walk_mem_only [OF w]])
  qed
qed

lemma uvmunmap_mem_only [mem_only_intros]: "uvmunmap pt va n do_free s = Ok s' \<Longrightarrow> mem_only s s'"
  using uvmunmap_loop_mem_only by (auto simp: uvmunmap_def split: if_splits)

lemma freewalk_entries_mem_only:
  assumes "\<And>q s s'. f q s = Ok s' \<Longrightarrow> mem_only s s'" and "freewalk_entries f pt is s = Ok s'"
  shows "mem_only s s'"
  using assms(2)
proof (induction "is" arbitrary: s)
  case (Cons i "is")
  let ?a = "pt + 8 * of_nat i" and ?e = "load64 (pmem s) (pt + 8 * of_nat i)"
  show ?case
  proof (cases "?e AND PTE_V \<noteq> 0 \<and> ?e AND (PTE_R OR PTE_W OR PTE_X) = 0")
    case True
    then obtain s1 where s1: "f (PTE2PA ?e) s = Ok s1"
      "freewalk_entries f pt is (s1\<lparr>pmem := store64 (pmem s1) ?a 0\<rparr>) = Ok s'"
      using Cons.prems by (auto simp: Let_def elim!: bindr_OkE)
    then show ?thesis using mem_only_trans [OF mem_only_upd [OF assms(1) [OF s1(1)]] Cons.IH [OF s1(2)]] by blast
  next
    case False
    then show ?thesis using Cons by (auto simp: Let_def split: if_splits)
  qed
qed simp

lemma freewalk_mem_only [mem_only_intros]: "freewalk d pt s = Ok s' \<Longrightarrow> mem_only s s'"
proof (induction d arbitrary: pt s s')
  case (Suc d)
  then obtain s1 where s1: "freewalk_entries (freewalk d) pt [0..<512] s = Ok s1" "kfree pt s1 = Ok s'"
    by (auto elim!: bindr_OkE simp del: upt_rec_numeral)
  then show ?case
    using freewalk_entries_mem_only [of "freewalk d"] Suc.IH kfree_mem_only mem_only_trans by blast
qed simp

lemma uvmfree_mem_only [mem_only_intros]:
  assumes "uvmfree pt sz s = Ok s'"
  shows "mem_only s s'"
proof -
  obtain s1 where s1: "(if sz > 0 then uvmunmap pt 0 (PGROUNDUP sz div PGSIZE) True s else Ok s) = Ok s1"
    "freewalk 3 pt s1 = Ok s'"
    using assms unfolding uvmfree_def by (rule bindr_OkE)
  then have "mem_only s s1" using uvmunmap_mem_only by (auto split: if_splits)
  then show ?thesis using freewalk_mem_only [OF s1(2)] by (rule mem_only_trans)
qed

lemma uvmcreate_mem_only [mem_only_intros]:
  assumes "uvmcreate s = (pt, s')"
  shows "mem_only s s'"
proof -
  obtain p s1 where ka: "kalloc s = (p, s1)" by fastforce
  then have "s' = s1 \<or> (\<exists>m. s' = s1\<lparr>pmem := m\<rparr>)"
    using assms by (auto simp: uvmcreate_def split: if_splits)
  then show ?thesis using kalloc_mem_only [OF ka] mem_only_upd by blast
qed

lemma copyout_mem_only [mem_only_intros]: "copyout pt va src s = (r, s') \<Longrightarrow> mem_only s s'"
proof (induction pt va src s rule: copyout.induct)
  case (1 pt va src s)
  show ?case
  proof (cases "src = [] \<or> walkaddr pt (PGROUNDDOWN va) s = 0")
    case True
    then show ?thesis using 1(2) by (subst (asm) copyout.simps) (auto simp: Let_def split: if_splits)
  next
    case False
    then have ne: "src \<noteq> []" "walkaddr pt (PGROUNDDOWN va) s \<noteq> 0" by auto
    let ?n = "min (unat (PGSIZE - (va - PGROUNDDOWN va))) (length src)"
    let ?s1 = "s\<lparr>pmem := write_bytes (pmem s) (walkaddr pt (PGROUNDDOWN va) s + (va - PGROUNDDOWN va)) (take ?n src)\<rparr>"
    have "copyout pt (PGROUNDDOWN va + PGSIZE) (drop ?n src) ?s1 = (r, s')"
      using 1(2) ne by (subst (asm) copyout.simps) (simp only: Let_def if_True if_False not_False_eq_True)
    then have "mem_only ?s1 s'" using 1(1) [OF ne(1) refl refl ne(2) refl] by blast
    then show ?thesis by (rule mem_only_trans [OF mem_only_pmem])
  qed
qed

end
