(* ===== verification/Proc.thy ===== *)
theory Proc
  imports Spinlock Vm_Frame
begin

text \<open>
  kernel/proc.c: the process table, up to the operations that need the file
  system (those are in theory \<open>Process\<close>). A process is its index in the table.
  Every function takes the CPU \<open>c\<close> that runs it, and \<open>p->lock\<close> is acquired and
  released as in the source. A call of \<open>swtch\<close> ends the part of a function that
  runs before the switch; what runs after it is a function of its own.
\<close>

section \<open>Processes (kernel/proc.h)\<close>

datatype procstate = UNUSED | SLEEPING | RUNNABLE | RUNNING | ZOMBIE

record kcontext =
  ctx_ra :: u64
  ctx_sp :: u64
  ctx_saved :: "u64 list"

text \<open>
  \<open>trapframe\<close> is the address of the page that holds it; \<open>ofile\<close> holds indices into
  the file table and \<open>cwd\<close> an index into the inode cache.
\<close>

record proc =
  state :: procstate
  parent :: "nat option"
  chan :: "chan option"
  killed :: bool
  xstate :: u32
  pid :: int
  kstack :: u64
  sz :: u64
  pagetable :: u64
  trapframe :: u64
  pcontext :: kcontext
  ofile :: "nat option list"
  cwd :: "nat option"
  pname :: "u8 list"

abbreviation NPROC :: nat where "NPROC \<equiv> 64"
abbreviation NOFILE :: nat where "NOFILE \<equiv> 16"

record kproc = machine +
  procs :: "nat \<Rightarrow> proc"
  initproc :: "nat option"
  nextpid :: int
  forkret_addr :: u64

definition upd_proc :: "nat \<Rightarrow> (proc \<Rightarrow> proc) \<Rightarrow> 'a kproc_scheme \<Rightarrow> 'a kproc_scheme" where
  "upd_proc i f s = s\<lparr>procs := (procs s)(i := f (procs s i))\<rparr>"

text \<open>
  Offsets of the trapframe's fields used by the C code; the fields are 64-bit
  words of the trapframe page.
\<close>

definition TF_kernel_satp :: u64 where "TF_kernel_satp = 0"
definition TF_kernel_sp :: u64 where "TF_kernel_sp = 8"
definition TF_kernel_trap :: u64 where "TF_kernel_trap = 16"
definition TF_epc :: u64 where "TF_epc = 24"
definition TF_kernel_hartid :: u64 where "TF_kernel_hartid = 32"
definition TF_sp :: u64 where "TF_sp = 48"
definition TF_a :: "nat \<Rightarrow> u64" where "TF_a n = 112 + 8 * of_nat n"

definition tf_get :: "nat \<Rightarrow> u64 \<Rightarrow> 'a kproc_scheme \<Rightarrow> u64" where
  "tf_get i off s = load64 (pmem s) (trapframe (procs s i) + off)"

definition tf_set :: "nat \<Rightarrow> u64 \<Rightarrow> u64 \<Rightarrow> 'a kproc_scheme \<Rightarrow> 'a kproc_scheme" where
  "tf_set i off v s = s\<lparr>pmem := store64 (pmem s) (trapframe (procs s i) + off) v\<rparr>"

section \<open>The process table\<close>

fun procinit_loop :: "nat list \<Rightarrow> 'a kproc_scheme \<Rightarrow> 'a kproc_scheme res" where
  "procinit_loop [] s = Ok s"
| "procinit_loop (i # is) s =
     (let s0 = initlock (Lk_proc i) s; (pa, s1) = kalloc s0
      in if pa = 0 then Panic ''kalloc''
         else bindr (kvmmap (KSTACK i) pa PGSIZE (PTE_R OR PTE_W) s1) (\<lambda>s2.
           procinit_loop is (upd_proc i (\<lambda>p. p\<lparr>kstack := KSTACK i\<rparr>) s2)))"

definition procinit :: "'a kproc_scheme \<Rightarrow> 'a kproc_scheme res" where
  "procinit s = bindr (procinit_loop [0..<NPROC] (initlock Lk_pid s)) (\<lambda>s1. Ok (kvminithart s1))"

text \<open>\<open>myproc\<close> brackets its read with \<open>push_off\<close> and \<open>pop_off\<close>; \<open>curproc\<close> is the value read.\<close>

definition curproc :: "nat \<Rightarrow> 'a kproc_scheme \<Rightarrow> nat option" where
  "curproc c s = proc (cpus s c)"

definition myproc :: "nat \<Rightarrow> 'a kproc_scheme \<Rightarrow> (nat option \<times> 'a kproc_scheme) res" where
  "myproc c s =
     (let s1 = push_off c s; p = proc (cpus s1 c) in bindr (pop_off c s1) (\<lambda>s2. Ok (p, s2)))"

definition allocpid :: "nat \<Rightarrow> 'a kproc_scheme \<Rightarrow> (int \<times> 'a kproc_scheme) res" where
  "allocpid c s =
     bindr (acquire c Lk_pid s) (\<lambda>s1.
       let p = nextpid s1; s2 = s1\<lparr>nextpid := s32 (nextpid s1 + 1)\<rparr>
       in bindr (release c Lk_pid s2) (\<lambda>s3. Ok (p, s3)))"

definition proc_pagetable :: "nat \<Rightarrow> 'a kproc_scheme \<Rightarrow> (u64 \<times> 'a kproc_scheme) res" where
  "proc_pagetable i s =
     (let (pt, s1) = uvmcreate s
      in if pt = 0 then Ok (0, s1)
         else bindp (mappages pt TRAMPOLINE PGSIZE (trampoline s1) (PTE_R OR PTE_X) s1) (\<lambda>r s2.
           if r < 0 then bindr (uvmfree pt 0 s2) (\<lambda>s3. Ok (0, s3))
           else bindp (mappages pt TRAPFRAME PGSIZE (trapframe (procs s2 i)) (PTE_R OR PTE_W) s2) (\<lambda>r' s3.
             if r' < 0 then
               bindr (uvmunmap pt TRAMPOLINE 1 False s3) (\<lambda>s4.
                 bindr (uvmfree pt 0 s4) (\<lambda>s5. Ok (0, s5)))
             else Ok (pt, s3))))"

definition proc_freepagetable :: "u64 \<Rightarrow> u64 \<Rightarrow> 'a kproc_scheme \<Rightarrow> 'a kproc_scheme res" where
  "proc_freepagetable pt n s =
     bindr (uvmunmap pt TRAMPOLINE 1 False s) (\<lambda>s1.
       bindr (uvmunmap pt TRAPFRAME 1 False s1) (\<lambda>s2. uvmfree pt n s2))"

definition freeproc :: "nat \<Rightarrow> 'a kproc_scheme \<Rightarrow> 'a kproc_scheme res" where
  "freeproc i s =
     bindr (if trapframe (procs s i) \<noteq> 0 then kfree (trapframe (procs s i)) s else Ok s) (\<lambda>s1.
       let s2 = upd_proc i (\<lambda>p. p\<lparr>trapframe := 0\<rparr>) s1
       in bindr (if pagetable (procs s2 i) \<noteq> 0
                 then proc_freepagetable (pagetable (procs s2 i)) (sz (procs s2 i)) s2 else Ok s2) (\<lambda>s3.
         Ok (upd_proc i (\<lambda>p. p\<lparr>pagetable := 0, sz := 0, pid := 0, parent := None,
               pname := (pname p)[0 := 0], chan := None, killed := False, xstate := 0,
               state := UNUSED\<rparr>) s3)))"

fun allocproc_scan :: "nat \<Rightarrow> nat list \<Rightarrow> 'a kproc_scheme \<Rightarrow> (nat option \<times> 'a kproc_scheme) res" where
  "allocproc_scan c [] s = Ok (None, s)"
| "allocproc_scan c (i # is) s =
     bindr (acquire c (Lk_proc i) s) (\<lambda>s1.
       if state (procs s1 i) = UNUSED then Ok (Some i, s1)
       else bindr (release c (Lk_proc i) s1) (\<lambda>s2. allocproc_scan c is s2))"

definition allocproc :: "nat \<Rightarrow> 'a kproc_scheme \<Rightarrow> (nat option \<times> 'a kproc_scheme) res" where
  "allocproc c s =
     bindp (allocproc_scan c [0..<NPROC] s) (\<lambda>found s1.
       case found of
         None \<Rightarrow> Ok (None, s1)
       | Some i \<Rightarrow>
           bindp (allocpid c s1) (\<lambda>id s2.
             let s3 = upd_proc i (\<lambda>p. p\<lparr>pid := id\<rparr>) s2;
                 (tf, s4) = kalloc s3;
                 s5 = upd_proc i (\<lambda>p. p\<lparr>trapframe := tf\<rparr>) s4
             in if tf = 0 then bindr (release c (Lk_proc i) s5) (\<lambda>s6. Ok (None, s6))
                else bindp (proc_pagetable i s5) (\<lambda>pt s6.
                  let s7 = upd_proc i (\<lambda>p. p\<lparr>pagetable := pt\<rparr>) s6
                  in if pt = 0 then
                       bindr (freeproc i s7) (\<lambda>s8.
                         bindr (release c (Lk_proc i) s8) (\<lambda>s9. Ok (None, s9)))
                     else Ok (Some i, upd_proc i (\<lambda>p. p\<lparr>pcontext :=
                       \<lparr>ctx_ra = forkret_addr s7, ctx_sp = kstack p + PGSIZE,
                        ctx_saved = replicate 12 0\<rparr>\<rparr>) s7))))"

text \<open>
  \<open>growproc\<close> computes in a 32-bit \<open>uint sz\<close>: \<open>sz + n\<close> wraps at 32 bits, and the
  results of \<open>uvmalloc\<close> and \<open>uvmdealloc\<close> are truncated to 32 bits.
\<close>

definition growproc :: "nat \<Rightarrow> int \<Rightarrow> 'a kproc_scheme \<Rightarrow> (int \<times> 'a kproc_scheme) res" where
  "growproc i n s =
     (let pt = pagetable (procs s i); sz0 = (ucast (sz (procs s i)) :: u32);
          newsz = (ucast (sz0 + word_of_int n) :: u64)
      in if n > 0 then
           bindp (uvmalloc pt (ucast sz0) newsz s) (\<lambda>r s1.
             let sz1 = (ucast r :: u32)
             in if sz1 = 0 then Ok (-1, s1) else Ok (0, upd_proc i (\<lambda>p. p\<lparr>sz := ucast sz1\<rparr>) s1))
         else if n < 0 then
           bindp (uvmdealloc pt (ucast sz0) newsz s) (\<lambda>r s1.
             Ok (0, upd_proc i (\<lambda>p. p\<lparr>sz := ucast (ucast r :: u32)\<rparr>) s1))
         else Ok (0, upd_proc i (\<lambda>p. p\<lparr>sz := ucast sz0\<rparr>) s))"

section \<open>Scheduling\<close>

text \<open>
  \<open>sched\<close> up to its \<open>swtch\<close>, and its rest, which restores \<open>intena\<close>. The value saved
  in the local variable is carried from one to the other.
\<close>

definition sched_out :: "nat \<Rightarrow> nat \<Rightarrow> 'a kproc_scheme \<Rightarrow> bool res" where
  "sched_out c i s =
     (if \<not> holding c (Lk_proc i) s then Panic ''sched p->lock''
      else if noff (cpus s c) \<noteq> 1 then Panic ''sched locks''
      else if state (procs s i) = RUNNING then Panic ''sched running''
      else if intr_get c s then Panic ''sched interruptible''
      else Ok (intena (cpus s c)))"

definition sched_in :: "nat \<Rightarrow> bool \<Rightarrow> 'a kproc_scheme \<Rightarrow> 'a kproc_scheme" where
  "sched_in c ie s = s\<lparr>cpus := (cpus s)(c := (cpus s c)\<lparr>intena := ie\<rparr>)\<rparr>"

definition yield_out :: "nat \<Rightarrow> nat \<Rightarrow> 'a kproc_scheme \<Rightarrow> (bool \<times> 'a kproc_scheme) res" where
  "yield_out c i s =
     bindr (acquire c (Lk_proc i) s) (\<lambda>s1.
       let s2 = upd_proc i (\<lambda>p. p\<lparr>state := RUNNABLE\<rparr>) s1
       in bindr (sched_out c i s2) (\<lambda>ie. Ok (ie, s2)))"

definition yield_in :: "nat \<Rightarrow> nat \<Rightarrow> bool \<Rightarrow> 'a kproc_scheme \<Rightarrow> 'a kproc_scheme res" where
  "yield_in c i ie s = release c (Lk_proc i) (sched_in c ie s)"

definition sleep_out ::
  "nat \<Rightarrow> nat \<Rightarrow> chan \<Rightarrow> lockid \<Rightarrow> 'a kproc_scheme \<Rightarrow> (bool \<times> 'a kproc_scheme) res" where
  "sleep_out c i ch lk s =
     bindr (if lk \<noteq> Lk_proc i
            then bindr (acquire c (Lk_proc i) s) (\<lambda>s1. release c lk s1) else Ok s) (\<lambda>s1.
       let s2 = upd_proc i (\<lambda>p. p\<lparr>chan := Some ch, state := SLEEPING\<rparr>) s1
       in bindr (sched_out c i s2) (\<lambda>ie. Ok (ie, s2)))"

definition sleep_in ::
  "nat \<Rightarrow> nat \<Rightarrow> lockid \<Rightarrow> bool \<Rightarrow> 'a kproc_scheme \<Rightarrow> 'a kproc_scheme res" where
  "sleep_in c i lk ie s =
     (let s1 = upd_proc i (\<lambda>p. p\<lparr>chan := None\<rparr>) (sched_in c ie s)
      in if lk \<noteq> Lk_proc i
         then bindr (release c (Lk_proc i) s1) (\<lambda>s2. acquire c lk s2) else Ok s1)"

fun wakeup_loop :: "nat \<Rightarrow> chan \<Rightarrow> nat list \<Rightarrow> 'a kproc_scheme \<Rightarrow> 'a kproc_scheme res" where
  "wakeup_loop c ch [] s = Ok s"
| "wakeup_loop c ch (i # is) s =
     bindr (acquire c (Lk_proc i) s) (\<lambda>s1.
       let s2 = (if state (procs s1 i) = SLEEPING \<and> chan (procs s1 i) = Some ch
                 then upd_proc i (\<lambda>p. p\<lparr>state := RUNNABLE\<rparr>) s1 else s1)
       in bindr (release c (Lk_proc i) s2) (\<lambda>s3. wakeup_loop c ch is s3))"

definition wakeup :: "nat \<Rightarrow> chan \<Rightarrow> 'a kproc_scheme \<Rightarrow> 'a kproc_scheme res" where
  "wakeup c ch s = wakeup_loop c ch [0..<NPROC] s"

definition wakeup1 :: "nat \<Rightarrow> nat \<Rightarrow> 'a kproc_scheme \<Rightarrow> 'a kproc_scheme res" where
  "wakeup1 c i s =
     (if \<not> holding c (Lk_proc i) s then Panic ''wakeup1''
      else if chan (procs s i) = Some (Chan_proc i) \<and> state (procs s i) = SLEEPING
           then Ok (upd_proc i (\<lambda>p. p\<lparr>state := RUNNABLE\<rparr>) s) else Ok s)"

fun kill_loop :: "nat \<Rightarrow> int \<Rightarrow> nat list \<Rightarrow> 'a kproc_scheme \<Rightarrow> (int \<times> 'a kproc_scheme) res" where
  "kill_loop c target [] s = Ok (-1, s)"
| "kill_loop c target (i # is) s =
     bindr (acquire c (Lk_proc i) s) (\<lambda>s1.
       if pid (procs s1 i) = target then
         let s2 = upd_proc i (\<lambda>p. p\<lparr>killed := True,
                    state := (if state p = SLEEPING then RUNNABLE else state p)\<rparr>) s1
         in bindr (release c (Lk_proc i) s2) (\<lambda>s3. Ok (0, s3))
       else bindr (release c (Lk_proc i) s1) (\<lambda>s2. kill_loop c target is s2))"

definition kill :: "nat \<Rightarrow> int \<Rightarrow> 'a kproc_scheme \<Rightarrow> (int \<times> 'a kproc_scheme) res" where
  "kill c target s = kill_loop c target [0..<NPROC] s"

text \<open>
  One visit of the scheduler to slot \<open>i\<close>: if the process is runnable, the CPU
  switches to it with \<open>p->lock\<close> held (\<open>True\<close>), otherwise the lock is released. When
  the process switches back, \<open>scheduler_back\<close> runs.
\<close>

definition scheduler_visit :: "nat \<Rightarrow> nat \<Rightarrow> 'a kproc_scheme \<Rightarrow> (bool \<times> 'a kproc_scheme) res" where
  "scheduler_visit c i s =
     bindr (acquire c (Lk_proc i) s) (\<lambda>s1.
       if state (procs s1 i) = RUNNABLE then
         let s2 = upd_proc i (\<lambda>p. p\<lparr>state := RUNNING\<rparr>) s1
         in Ok (True, s2\<lparr>cpus := (cpus s2)(c := (cpus s2 c)\<lparr>proc := Some i\<rparr>)\<rparr>)
       else bindr (release c (Lk_proc i) s1) (\<lambda>s2. Ok (False, s2)))"

definition scheduler_back :: "nat \<Rightarrow> nat \<Rightarrow> 'a kproc_scheme \<Rightarrow> 'a kproc_scheme res" where
  "scheduler_back c i s = release c (Lk_proc i) (s\<lparr>cpus := (cpus s)(c := (cpus s c)\<lparr>proc := None\<rparr>)\<rparr>)"

section \<open>Parents and children\<close>

fun reparent_loop :: "nat \<Rightarrow> nat \<Rightarrow> nat list \<Rightarrow> 'a kproc_scheme \<Rightarrow> 'a kproc_scheme res" where
  "reparent_loop c i [] s = Ok s"
| "reparent_loop c i (k # ks) s =
     (if parent (procs s k) = Some i then
        bindr (acquire c (Lk_proc k) s) (\<lambda>s1.
          bindr (release c (Lk_proc k) (upd_proc k (\<lambda>p. p\<lparr>parent := initproc s1\<rparr>) s1)) (\<lambda>s2.
            reparent_loop c i ks s2))
      else reparent_loop c i ks s)"

definition reparent :: "nat \<Rightarrow> nat \<Rightarrow> 'a kproc_scheme \<Rightarrow> 'a kproc_scheme res" where
  "reparent c i s = reparent_loop c i [0..<NPROC] s"

text \<open>
  One scan of \<open>wait\<close> through the table. \<open>Inl r\<close>: \<open>wait\<close> returns \<open>r\<close> (with both locks
  released); \<open>Inr havekids\<close>: no exited child was found.
\<close>

fun wait_scan ::
  "nat \<Rightarrow> nat \<Rightarrow> u64 \<Rightarrow> nat list \<Rightarrow> bool \<Rightarrow> 'a kproc_scheme \<Rightarrow> ((int + bool) \<times> 'a kproc_scheme) res" where
  "wait_scan c i addr [] havekids s = Ok (Inr havekids, s)"
| "wait_scan c i addr (k # ks) havekids s =
     (if parent (procs s k) = Some i then
        bindr (acquire c (Lk_proc k) s) (\<lambda>s1.
          if state (procs s1 k) = ZOMBIE then
            let id = pid (procs s1 k);
                (r, s2) = (if addr \<noteq> 0
                           then copyout (pagetable (procs s1 i)) addr (word_bytes 4 (xstate (procs s1 k))) s1
                           else (0, s1))
            in if r < 0 then
                 bindr (release c (Lk_proc k) s2) (\<lambda>s3.
                   bindr (release c (Lk_proc i) s3) (\<lambda>s4. Ok (Inl (-1), s4)))
               else
                 bindr (freeproc k s2) (\<lambda>s3.
                   bindr (release c (Lk_proc k) s3) (\<lambda>s4.
                     bindr (release c (Lk_proc i) s4) (\<lambda>s5. Ok (Inl id, s5))))
          else bindr (release c (Lk_proc k) s1) (\<lambda>s2. wait_scan c i addr ks True s2))
      else wait_scan c i addr ks havekids s)"

text \<open>
  A round of \<open>wait\<close>'s loop with \<open>p->lock\<close> held: it returns (\<open>Some r\<close>) or goes to
  sleep on the process itself (\<open>None\<close>; the state is the one at \<open>swtch\<close>, and the
  next round starts after \<open>sleep_in\<close>).
\<close>

definition wait_round ::
  "nat \<Rightarrow> nat \<Rightarrow> u64 \<Rightarrow> 'a kproc_scheme \<Rightarrow> (int option \<times> bool \<times> 'a kproc_scheme) res" where
  "wait_round c i addr s =
     bindp (wait_scan c i addr [0..<NPROC] False s) (\<lambda>r s1.
       case r of
         Inl v \<Rightarrow> Ok (Some v, False, s1)
       | Inr havekids \<Rightarrow>
           if \<not> havekids \<or> killed (procs s1 i)
           then bindr (release c (Lk_proc i) s1) (\<lambda>s2. Ok (Some (-1), False, s2))
           else bindp (sleep_out c i (Chan_proc i) (Lk_proc i) s1) (\<lambda>ie s2. Ok (None, ie, s2)))"

definition wait :: "nat \<Rightarrow> nat \<Rightarrow> u64 \<Rightarrow> 'a kproc_scheme \<Rightarrow> (int option \<times> bool \<times> 'a kproc_scheme) res" where
  "wait c i addr s = bindr (acquire c (Lk_proc i) s) (\<lambda>s1. wait_round c i addr s1)"

section \<open>Copies to and from user or kernel space\<close>

text \<open>
  A destination of \<open>either_copyout\<close> is a user address of process \<open>i\<close>, or a kernel
  address.
\<close>

definition either_copyout :: "nat \<Rightarrow> bool \<Rightarrow> u64 \<Rightarrow> u8 list \<Rightarrow> 'a kproc_scheme \<Rightarrow> int \<times> 'a kproc_scheme" where
  "either_copyout i user_dst dst src s =
     (if user_dst then copyout (pagetable (procs s i)) dst src s
      else (0, s\<lparr>pmem := write_bytes (pmem s) dst src\<rparr>))"

definition either_copyin :: "nat \<Rightarrow> bool \<Rightarrow> u64 \<Rightarrow> nat \<Rightarrow> 'a kproc_scheme \<Rightarrow> int \<times> u8 list" where
  "either_copyin i user_src src len s =
     (if user_src then copyin (pagetable (procs s i)) src len s
      else (0, read_bytes (pmem s) src len))"

end
