(* ===== verification/Proc_Sched.thy ===== *)
theory Proc_Sched
  imports Proc
begin

text \<open>
  Properties of the process table operations of kernel/proc.c: what \<open>wakeup\<close>,
  \<open>kill\<close> and \<open>reparent\<close> do to the table, the locking discipline of \<open>sleep\<close>, \<open>yield\<close>
  and \<open>sched\<close>, the uniqueness of process ids, and, as a transition system of a
  sleeping and a waking thread, that no wakeup is lost.
\<close>

section \<open>Critical sections on a free lock\<close>

definition free_lock :: "lockid \<Rightarrow> 'a machine_scheme \<Rightarrow> bool" where
  "free_lock lk s \<longleftrightarrow> locks s lk = \<lparr>locked = 0, cpu = None\<rparr>"

definition cpu_quiet :: "nat \<Rightarrow> 'a machine_scheme \<Rightarrow> bool" where
  "cpu_quiet c s \<longleftrightarrow> noff (cpus s c) \<ge> 0 \<and> (noff (cpus s c) > 0 \<longrightarrow> \<not> intr (cpus s c))"

text \<open>The state with \<open>lk\<close> acquired, and what remains of it after the release.\<close>

definition locked_state :: "nat \<Rightarrow> lockid \<Rightarrow> 'a machine_scheme \<Rightarrow> 'a machine_scheme" where
  "locked_state c lk s = set_lock_cpu lk (Some c) (snd (test_and_set lk (push_off c s)))"

definition tidy :: "nat \<Rightarrow> 'a machine_scheme \<Rightarrow> 'a machine_scheme" where
  "tidy c s = s\<lparr>cpus := (cpus s)(c := (cpus s c)\<lparr>intena :=
     (if noff (cpus s c) = 0 then intr (cpus s c) else intena (cpus s c))\<rparr>)\<rparr>"

lemma acquire_free: "free_lock lk s \<Longrightarrow> acquire c lk s = Ok (locked_state c lk s)"
  by (simp add: acquire_def free_lock_def locked_state_def holding_def lock_defs)

lemma locked_state_fields:
  "holding c lk (locked_state c lk s)" "\<not> intr (cpus (locked_state c lk s) c)"
  "noff (cpus (locked_state c lk s) c) = noff (cpus s c) + 1"
  "lk' \<noteq> lk \<Longrightarrow> locks (locked_state c lk s) lk' = locks s lk'"
  by (simp_all add: locked_state_def holding_def lock_defs)

lemma locked_state_procs [simp]:
  "procs (locked_state c lk s) = procs s" "nextpid (locked_state c lk s) = nextpid s"
  "initproc (locked_state c lk s) = initproc s"
  by (simp_all add: locked_state_def lock_defs)

lemma release_locked_state:
  assumes "free_lock lk s" and "cpu_quiet c s"
  shows "release c lk (locked_state c lk s) = Ok (tidy c s)"
proof (cases "cpus s c")
  case (fields p n i b)
  have u: "(locks s)(lk := \<lparr>locked = 0, cpu = None\<rparr>) = locks s"
    using assms(1) by (simp add: free_lock_def fun_upd_idem)
  show ?thesis
  proof (cases "n = 0")
    case True
    then show ?thesis
      using fields assms u
      by (cases b) (simp_all add: release_def locked_state_def tidy_def holding_def free_lock_def lock_defs)
  next
    case False
    then show ?thesis
      using fields assms u
      by (simp add: release_def locked_state_def tidy_def holding_def free_lock_def cpu_quiet_def lock_defs)
  qed
qed

text \<open>An update that leaves locks and CPUs alone commutes with the lock operations.\<close>

lemma locked_state_procs_upd: "locked_state c lk (s\<lparr>procs := P\<rparr>) = (locked_state c lk s)\<lparr>procs := P\<rparr>"
  by (simp add: locked_state_def lock_defs)

lemma tidy_procs_upd: "tidy c (s\<lparr>procs := P\<rparr>) = (tidy c s)\<lparr>procs := P\<rparr>"
  by (simp add: tidy_def)

lemma free_lock_procs_upd [simp]: "free_lock lk (s\<lparr>procs := P\<rparr>) = free_lock lk s"
  by (simp add: free_lock_def)

lemma cpu_quiet_procs_upd [simp]: "cpu_quiet c (s\<lparr>procs := P\<rparr>) = cpu_quiet c s"
  by (simp add: cpu_quiet_def)

lemma tidy_simps [simp]:
  "free_lock lk (tidy c s) = free_lock lk s" "cpu_quiet c (tidy c s) = cpu_quiet c s"
  "tidy c (tidy c s) = tidy c s" "procs (tidy c s) = procs s" "initproc (tidy c s) = initproc s"
  by (auto simp: free_lock_def cpu_quiet_def tidy_def)

lemma release_procs_upd:
  assumes "free_lock lk s" and "cpu_quiet c s"
  shows "release c lk ((locked_state c lk s)\<lparr>procs := P\<rparr>) = Ok ((tidy c s)\<lparr>procs := P\<rparr>)"
  using release_locked_state [of lk "s\<lparr>procs := P\<rparr>" c] assms
  by (simp add: locked_state_procs_upd tidy_procs_upd)

section \<open>wakeup, kill and reparent\<close>

definition wake :: "chan \<Rightarrow> proc \<Rightarrow> proc" where
  "wake ch p = (if state p = SLEEPING \<and> chan p = Some ch then p\<lparr>state := RUNNABLE\<rparr> else p)"

definition proc_locks_free :: "'a machine_scheme \<Rightarrow> bool" where
  "proc_locks_free s \<longleftrightarrow> (\<forall>i < NPROC. free_lock (Lk_proc i) s)"

lemma wakeup_loop_correct:
  assumes "\<forall>i \<in> set is. free_lock (Lk_proc i) s" and "cpu_quiet c s" and "is \<noteq> []"
  shows "wakeup_loop c ch is s =
    Ok ((tidy c s)\<lparr>procs := (\<lambda>i. if i \<in> set is then wake ch (procs s i) else procs s i)\<rparr>)"
  using assms
proof (induction "is" arbitrary: s)
  case (Cons i "is")
  let ?P = "(procs s)(i := wake ch (procs s i))"
  have "(if state (procs s i) = SLEEPING \<and> chan (procs s i) = Some ch
         then upd_proc i (\<lambda>p. p\<lparr>state := RUNNABLE\<rparr>) (locked_state c (Lk_proc i) s)
         else locked_state c (Lk_proc i) s) = (locked_state c (Lk_proc i) s)\<lparr>procs := ?P\<rparr>"
    by (simp add: upd_proc_def wake_def fun_upd_idem)
  then have step: "wakeup_loop c ch (i # is) s = wakeup_loop c ch is ((tidy c s)\<lparr>procs := ?P\<rparr>)"
    using Cons.prems by (simp add: acquire_free release_procs_upd Let_def)
  have P: "(\<lambda>k. if k \<in> set (i # is) then wake ch (procs s k) else procs s k) =
      (\<lambda>k. if k \<in> set is then wake ch (?P k) else ?P k)"
    by (auto simp: wake_def)
  show ?case
  proof (cases "is = []")
    case True
    then show ?thesis unfolding step P by (simp add: fun_upd_def)
  next
    case False
    define s1 where "s1 = (tidy c s)\<lparr>procs := ?P\<rparr>"
    have s1: "procs s1 = ?P" "tidy c s1 = s1" "\<And>Q. s1\<lparr>procs := Q\<rparr> = (tidy c s)\<lparr>procs := Q\<rparr>"
      by (simp_all add: s1_def tidy_procs_upd)
    have "wakeup_loop c ch is s1 =
        Ok ((tidy c s1)\<lparr>procs := (\<lambda>k. if k \<in> set is then wake ch (procs s1 k) else procs s1 k)\<rparr>)"
      using Cons.prems False by (intro Cons.IH) (auto simp: s1_def)
    then show ?thesis unfolding step P s1 by (simp only: s1_def)
  qed
qed simp

lemma wakeup_correct:
  assumes "proc_locks_free s" and "cpu_quiet c s"
  shows "wakeup c ch s = Ok ((tidy c s)\<lparr>procs := (\<lambda>i. if i < NPROC then wake ch (procs s i) else procs s i)\<rparr>)"
  using wakeup_loop_correct [of "[0..<NPROC]" s c ch] assms
  by (auto simp: wakeup_def proc_locks_free_def)

lemma kill_loop_correct:
  assumes "\<forall>i \<in> set is. free_lock (Lk_proc i) s" and "cpu_quiet c s" and "is \<noteq> []"
  shows "kill_loop c target is s =
    (case find (\<lambda>i. pid (procs s i) = target) is of
       None \<Rightarrow> Ok (-1, tidy c s)
     | Some i \<Rightarrow> Ok (0, upd_proc i (\<lambda>p. p\<lparr>killed := True,
         state := (if state p = SLEEPING then RUNNABLE else state p)\<rparr>) (tidy c s)))"
  using assms
proof (induction "is" arbitrary: s)
  case (Cons i "is")
  show ?case
  proof (cases "pid (procs s i) = target")
    case True
    then show ?thesis
      using Cons.prems by (simp add: acquire_free upd_proc_def Let_def release_procs_upd)
  next
    case False
    then have step: "kill_loop c target (i # is) s = kill_loop c target is (tidy c s)"
      using Cons.prems by (simp add: acquire_free release_locked_state)
    show ?thesis
    proof (cases "is = []")
      case False
      then have "kill_loop c target is (tidy c s) =
        (case find (\<lambda>i. pid (procs (tidy c s) i) = target) is of
           None \<Rightarrow> Ok (-1, tidy c (tidy c s))
         | Some i \<Rightarrow> Ok (0, upd_proc i (\<lambda>p. p\<lparr>killed := True,
             state := (if state p = SLEEPING then RUNNABLE else state p)\<rparr>) (tidy c (tidy c s))))"
        using Cons.prems by (intro Cons.IH) auto
      then show ?thesis
        unfolding step using \<open>pid (procs s i) \<noteq> target\<close> by (simp split: option.split)
    qed (use step False in simp)
  qed
qed simp

lemma kill_correct:
  assumes "proc_locks_free s" and "cpu_quiet c s"
  shows "kill c target s =
    (case find (\<lambda>i. pid (procs s i) = target) [0..<NPROC] of
       None \<Rightarrow> Ok (-1, tidy c s)
     | Some i \<Rightarrow> Ok (0, upd_proc i (\<lambda>p. p\<lparr>killed := True,
         state := (if state p = SLEEPING then RUNNABLE else state p)\<rparr>) (tidy c s)))"
  using kill_loop_correct [of "[0..<NPROC]" s c target] assms
  by (simp add: kill_def proc_locks_free_def)

lemma reparent_loop_correct:
  assumes "\<forall>k \<in> set ks. parent (procs s k) = Some i \<longrightarrow> free_lock (Lk_proc k) s" and "cpu_quiet c s"
    and "initproc s \<noteq> Some i"
  shows "\<exists>s'. reparent_loop c i ks s = Ok s' \<and> locks s' = locks s \<and>
    procs s' = (\<lambda>k. if k \<in> set ks \<and> parent (procs s k) = Some i
      then (procs s k)\<lparr>parent := initproc s\<rparr> else procs s k)"
  using assms
proof (induction ks arbitrary: s)
  case (Cons k ks)
  show ?case
  proof (cases "parent (procs s k) = Some i")
    case True
    define s1 where "s1 = (tidy c s)\<lparr>procs := (procs s)(k := (procs s k)\<lparr>parent := initproc s\<rparr>)\<rparr>"
    have step: "reparent_loop c i (k # ks) s = reparent_loop c i ks s1"
      using Cons.prems True by (simp add: acquire_free upd_proc_def release_procs_upd s1_def)
    have s1: "procs s1 = (procs s)(k := (procs s k)\<lparr>parent := initproc s\<rparr>)" "initproc s1 = initproc s"
      "locks s1 = locks s"
      by (simp_all add: s1_def tidy_def)
    have "\<exists>s'. reparent_loop c i ks s1 = Ok s' \<and> locks s' = locks s1 \<and>
      procs s' = (\<lambda>k. if k \<in> set ks \<and> parent (procs s1 k) = Some i
        then (procs s1 k)\<lparr>parent := initproc s1\<rparr> else procs s1 k)"
      using Cons.prems by (intro Cons.IH) (auto simp: s1_def)
    then show ?thesis unfolding step using True Cons.prems(3) by (auto simp: s1 fun_eq_iff)
  next
    case False
    have "\<exists>s'. reparent_loop c i ks s = Ok s' \<and> locks s' = locks s \<and>
      procs s' = (\<lambda>k. if k \<in> set ks \<and> parent (procs s k) = Some i
        then (procs s k)\<lparr>parent := initproc s\<rparr> else procs s k)"
      using Cons.prems by (intro Cons.IH) auto
    with False show ?thesis by (auto simp: fun_eq_iff)
  qed
qed auto

section \<open>The locking discipline of sleep and yield\<close>

definition held_by :: "nat \<Rightarrow> lockid \<Rightarrow> 'a machine_scheme \<Rightarrow> bool" where
  "held_by c lk s \<longleftrightarrow> locks s lk = \<lparr>locked = 1, cpu = Some c\<rparr>"

lemma release_nested:
  assumes "held_by c lk s" and "noff (cpus s c) > 1" and "\<not> intr (cpus s c)"
  shows "release c lk s = Ok (s\<lparr>locks := (locks s)(lk := \<lparr>locked = 0, cpu = None\<rparr>),
    cpus := (cpus s)(c := (cpus s c)\<lparr>noff := noff (cpus s c) - 1\<rparr>)\<rparr>)"
  using assms by (simp add: release_def held_by_def holding_def lock_defs)

text \<open>
  A thread that holds exactly the lock \<open>lk\<close> and calls \<open>sleep\<close> gets to \<open>swtch\<close> with
  \<open>lk\<close> free and exactly \<open>p->lock\<close> held; a thread that holds more panics.
\<close>

lemma sleep_out_correct:
  assumes lk: "lk \<noteq> Lk_proc i" "held_by c lk s" and free: "free_lock (Lk_proc i) s"
    and cpu: "noff (cpus s c) \<ge> 1" "\<not> intr (cpus s c)"
  shows "if noff (cpus s c) = 1
    then \<exists>s'. sleep_out c i ch lk s = Ok (intena (cpus s c), s') \<and>
      locks s' = (locks s)(lk := \<lparr>locked = 0, cpu = None\<rparr>, Lk_proc i := \<lparr>locked = 1, cpu = Some c\<rparr>) \<and>
      procs s' = (procs s)(i := (procs s i)\<lparr>chan := Some ch, state := SLEEPING\<rparr>) \<and>
      cpus s' = cpus s
    else sleep_out c i ch lk s = Panic ''sched locks''"
proof -
  define s1 where "s1 = s\<lparr>locks := (locks s)(Lk_proc i := \<lparr>locked = 1, cpu = Some c\<rparr>),
    cpus := (cpus s)(c := (cpus s c)\<lparr>noff := noff (cpus s c) + 1\<rparr>)\<rparr>"
  obtain p n b where k: "cpus s c = \<lparr>proc = p, noff = n, intena = b, intr = False\<rparr>"
    using cpu(2) by (cases "cpus s c") auto
  then have "locked_state c (Lk_proc i) s = s1"
    using cpu(1) free by (simp add: locked_state_def lock_defs s1_def free_lock_def)
  then have acq: "acquire c (Lk_proc i) s = Ok s1" using acquire_free [OF free] by simp
  define s2 where "s2 = s\<lparr>locks := (locks s)(lk := \<lparr>locked = 0, cpu = None\<rparr>,
      Lk_proc i := \<lparr>locked = 1, cpu = Some c\<rparr>)\<rparr>"
  have "release c lk s1 = Ok s2"
  proof -
    have "release c lk s1 = Ok (s1\<lparr>locks := (locks s1)(lk := \<lparr>locked = 0, cpu = None\<rparr>),
        cpus := (cpus s1)(c := (cpus s1 c)\<lparr>noff := noff (cpus s1 c) - 1\<rparr>)\<rparr>)"
      using lk cpu by (intro release_nested) (simp_all add: held_by_def s1_def)
    also have "\<dots> = Ok s2"
      using lk(1) by (simp add: s1_def s2_def fun_upd_twist)
    finally show ?thesis .
  qed
  then have "bindr (acquire c (Lk_proc i) s) (\<lambda>s1. release c lk s1) = Ok s2" using acq by simp
  then show ?thesis
    using lk cpu
    by (simp add: sleep_out_def sched_out_def upd_proc_def s2_def holding_def intr_get_def Let_def)
qed

text \<open>When it runs again, on CPU \<open>c\<close>, the thread releases \<open>p->lock\<close> and takes \<open>lk\<close> back.\<close>

lemma sleep_in_correct:
  assumes lk: "lk \<noteq> Lk_proc i" "free_lock lk s" and held: "held_by c (Lk_proc i) s"
    and cpu: "noff (cpus s c) = 1" "\<not> intr (cpus s c)"
  shows "\<exists>s'. sleep_in c i lk ie s = Ok s' \<and>
    locks s' = (locks s)(Lk_proc i := \<lparr>locked = 0, cpu = None\<rparr>, lk := \<lparr>locked = 1, cpu = Some c\<rparr>) \<and>
    procs s' = (procs s)(i := (procs s i)\<lparr>chan := None\<rparr>) \<and>
    noff (cpus s' c) = 1 \<and> \<not> intr (cpus s' c) \<and> intena (cpus s' c) = ie"
proof -
  define s1 where "s1 = upd_proc i (\<lambda>p. p\<lparr>chan := None\<rparr>) (sched_in c ie s)"
  define s2 where "s2 = s1\<lparr>locks := (locks s)(Lk_proc i := \<lparr>locked = 0, cpu = None\<rparr>),
    cpus := (cpus s1)(c := (cpus s1 c)\<lparr>noff := 0, intr := ie\<rparr>)\<rparr>"
  have c1: "cpus s1 c = (cpus s c)\<lparr>intena := ie\<rparr>" "locks s1 = locks s"
    by (simp_all add: s1_def upd_proc_def sched_in_def)
  obtain p b where k: "cpus s c = \<lparr>proc = p, noff = 1, intena = b, intr = False\<rparr>"
    using cpu by (cases "cpus s c") auto
  then have "release c (Lk_proc i) s1 = Ok s2"
    using held
    by (cases ie) (simp_all add: release_def held_by_def holding_def lock_defs s2_def c1)
  moreover have "acquire c lk s2 = Ok (locked_state c lk s2)"
    using lk by (intro acquire_free) (simp add: free_lock_def s2_def)
  ultimately have "sleep_in c i lk ie s = Ok (locked_state c lk s2)"
    using lk(1) by (simp add: sleep_in_def Let_def s1_def [symmetric])
  then show ?thesis
    using lk by (simp add: locked_state_def lock_defs s2_def free_lock_def)
      (simp add: s1_def upd_proc_def sched_in_def)
qed

section \<open>Allocation of processes and their ids\<close>

lemma acquire_procs:
  "acquire c lk s = Ok s' \<Longrightarrow> procs s' = procs s \<and> nextpid s' = nextpid s"
  by (auto simp: acquire_def lock_defs split: if_splits)

lemma release_procs:
  "release c lk s = Ok s' \<Longrightarrow> procs s' = procs s \<and> nextpid s' = nextpid s"
  by (auto simp: release_def lock_defs split: if_splits)

lemma mem_only_procs: "mem_only s s' \<Longrightarrow> procs s' = procs s \<and> nextpid s' = nextpid s"
  by (auto simp: mem_only_def)

lemma proc_pagetable_mem_only:
  assumes "proc_pagetable i s = Ok (pt, s')"
  shows "mem_only s s'"
proof -
  obtain p s1 where u: "uvmcreate s = (p, s1)" by fastforce
  note m1 = uvmcreate_mem_only [OF u]
  show ?thesis
  proof (cases "p = 0")
    case True
    then show ?thesis using assms u m1 by (simp add: proc_pagetable_def)
  next
    case False
    then obtain r s2 where mp: "mappages p TRAMPOLINE PGSIZE (trampoline s1) (PTE_R OR PTE_X) s1 = Ok (r, s2)"
      and rest: "(if r < 0 then bindr (uvmfree p 0 s2) (\<lambda>s3. Ok (0, s3))
           else bindp (mappages p TRAPFRAME PGSIZE (trapframe (procs s2 i)) (PTE_R OR PTE_W) s2) (\<lambda>r' s3.
             if r' < 0 then
               bindr (uvmunmap p TRAMPOLINE 1 False s3) (\<lambda>s4.
                 bindr (uvmfree p 0 s4) (\<lambda>s5. Ok (0, s5)))
             else Ok (p, s3))) = Ok (pt, s')"
      using assms u unfolding proc_pagetable_def by (auto simp del: PTE_R_def PTE_W_def PTE_X_def PGSIZE_def elim!: bindp_OkE)
    have m2: "mem_only s s2" using mem_only_trans [OF m1 mappages_mem_only [OF mp]] .
    show ?thesis
      using rest mem_only_trans [OF m2]
      by (auto simp del: PTE_R_def PTE_W_def PTE_X_def PGSIZE_def elim!: bindp_OkE bindr_OkE split: if_splits
          dest!: mem_only_intros) (meson mem_only_trans)+
  qed
qed

lemma proc_freepagetable_mem_only:
  assumes "proc_freepagetable pt n s = Ok s'"
  shows "mem_only s s'"
proof -
  obtain s1 s2 where u: "uvmunmap pt TRAMPOLINE 1 False s = Ok s1"
    "uvmunmap pt TRAPFRAME 1 False s1 = Ok s2" "uvmfree pt n s2 = Ok s'"
    using assms unfolding proc_freepagetable_def by (auto elim!: bindr_OkE)
  show ?thesis
    by (rule mem_only_trans [OF mem_only_trans [OF uvmunmap_mem_only uvmunmap_mem_only] uvmfree_mem_only])
      (rule u)+
qed

definition clear_proc :: "proc \<Rightarrow> proc" where
  "clear_proc p = p\<lparr>trapframe := 0, pagetable := 0, sz := 0, pid := 0, parent := None,
     pname := (pname p)[0 := 0], chan := None, killed := False, xstate := 0, state := UNUSED\<rparr>"

lemma freeproc_procs:
  assumes "freeproc i s = Ok s'"
  shows "procs s' = (procs s)(i := clear_proc (procs s i)) \<and> nextpid s' = nextpid s"
proof -
  obtain s1 where s1: "(if trapframe (procs s i) \<noteq> 0 then kfree (trapframe (procs s i)) s else Ok s) = Ok s1"
    and rest: "(let s2 = upd_proc i (\<lambda>p. p\<lparr>trapframe := 0\<rparr>) s1
       in bindr (if pagetable (procs s2 i) \<noteq> 0
                 then proc_freepagetable (pagetable (procs s2 i)) (sz (procs s2 i)) s2 else Ok s2) (\<lambda>s3.
         Ok (upd_proc i (\<lambda>p. p\<lparr>pagetable := 0, sz := 0, pid := 0, parent := None,
               pname := (pname p)[0 := 0], chan := None, killed := False, xstate := 0,
               state := UNUSED\<rparr>) s3))) = Ok s'"
    using assms unfolding freeproc_def by (rule bindr_OkE)
  have m1: "mem_only s s1" using s1 kfree_mem_only by (auto split: if_splits)
  define s2 where "s2 = upd_proc i (\<lambda>p. p\<lparr>trapframe := 0\<rparr>) s1"
  obtain s3 where s3: "(if pagetable (procs s2 i) \<noteq> 0
        then proc_freepagetable (pagetable (procs s2 i)) (sz (procs s2 i)) s2 else Ok s2) = Ok s3"
    and s': "s' = upd_proc i (\<lambda>p. p\<lparr>pagetable := 0, sz := 0, pid := 0, parent := None,
        pname := (pname p)[0 := 0], chan := None, killed := False, xstate := 0, state := UNUSED\<rparr>) s3"
    using rest unfolding Let_def s2_def [symmetric] by (auto elim!: bindr_OkE)
  have "mem_only s2 s3" using s3 proc_freepagetable_mem_only by (auto split: if_splits)
  then show ?thesis
    using mem_only_procs [OF m1] mem_only_procs [of s2 s3]
    by (simp add: s' s2_def upd_proc_def clear_proc_def)
qed

lemma allocpid_procs:
  assumes "allocpid c s = Ok (n, s')"
  shows "n = nextpid s \<and> nextpid s' = s32 (nextpid s + 1) \<and> procs s' = procs s"
proof -
  obtain s1 s3 where "acquire c Lk_pid s = Ok s1" "release c Lk_pid (s1\<lparr>nextpid := s32 (nextpid s1 + 1)\<rparr>) = Ok s3"
    "n = nextpid s1" "s' = s3"
    using assms unfolding allocpid_def by (auto simp: Let_def elim!: bindr_OkE)
  then show ?thesis using acquire_procs [of c Lk_pid s s1] release_procs [of c Lk_pid _ s3] by simp
qed

lemma allocproc_scan_procs:
  assumes "allocproc_scan c is s = Ok (r, s')"
  shows "procs s' = procs s \<and> nextpid s' = nextpid s \<and>
    (\<forall>i. r = Some i \<longrightarrow> i \<in> set is \<and> state (procs s i) = UNUSED)"
  using assms
proof (induction "is" arbitrary: s)
  case (Cons i "is")
  then obtain s1 where a: "acquire c (Lk_proc i) s = Ok s1"
    and rest: "(if state (procs s1 i) = UNUSED then Ok (Some i, s1)
       else bindr (release c (Lk_proc i) s1) (\<lambda>s2. allocproc_scan c is s2)) = Ok (r, s')"
    by (auto elim!: bindr_OkE)
  show ?case
  proof (cases "state (procs s1 i) = UNUSED")
    case True
    then show ?thesis using rest acquire_procs [OF a] by auto
  next
    case False
    then obtain s2 where "release c (Lk_proc i) s1 = Ok s2" "allocproc_scan c is s2 = Ok (r, s')"
      using rest by (auto elim!: bindr_OkE)
    then show ?thesis using Cons.IH [of s2] release_procs [of c _ s1 s2] acquire_procs [OF a] by auto
  qed
qed simp

text \<open>Process ids: below \<open>nextpid\<close>, and no two slots share one (0 means none).\<close>

definition pid_inv :: "'a kproc_scheme \<Rightarrow> bool" where
  "pid_inv s \<longleftrightarrow> nextpid s > 0 \<and> (\<forall>i. pid (procs s i) < nextpid s) \<and>
     (\<forall>i j. pid (procs s i) = pid (procs s j) \<longrightarrow> i = j \<or> pid (procs s i) = 0)"

text \<open>The three ways \<open>allocproc\<close> can return.\<close>

lemma allocproc_cases:
  assumes "allocproc c s = Ok (r, s')"
  obtains (none) "r = None" "procs s' = procs s" "nextpid s' = nextpid s"
  | (nomem) i p where "r = None" "procs s' = (procs s)(i := p)" "nextpid s' = s32 (nextpid s + 1)"
      "pid p = nextpid s \<or> pid p = 0"
  | (some) i p where "r = Some i" "i < NPROC" "state (procs s i) = UNUSED"
      "procs s' = (procs s)(i := p)" "nextpid s' = s32 (nextpid s + 1)"
      "pid p = nextpid s" "killed p = killed (procs s i)" "state p = UNUSED"
proof -
  obtain f s1 where sc: "allocproc_scan c [0..<NPROC] s = Ok (f, s1)"
    using assms unfolding allocproc_def by (auto elim!: bindp_OkE simp del: upt_rec_numeral)
  note sc' = allocproc_scan_procs [OF sc]
  show thesis
  proof (cases f)
    case None
    then show thesis using none assms sc' sc unfolding allocproc_def by (simp del: upt_rec_numeral)
  next
    case (Some i)
    have iN: "i < NPROC" "state (procs s i) = UNUSED" using sc' Some by auto
    obtain n s2 where al: "allocpid c s1 = Ok (n, s2)"
      using assms sc Some unfolding allocproc_def by (auto elim!: bindp_OkE simp del: upt_rec_numeral)
    define s3 where "s3 = upd_proc i (\<lambda>p. p\<lparr>pid := n\<rparr>) s2"
    obtain tf s4 where ka: "kalloc s3 = (tf, s4)" by fastforce
    define s5 where "s5 = upd_proc i (\<lambda>p. p\<lparr>trapframe := tf\<rparr>) s4"
    define p5 where "p5 = (procs s i)\<lparr>pid := n, trapframe := tf\<rparr>"
    have n: "n = nextpid s" and s5: "procs s5 = (procs s)(i := p5)" "nextpid s5 = s32 (nextpid s + 1)"
      using allocpid_procs [OF al] sc' mem_only_procs [OF kalloc_mem_only [OF ka]]
      by (simp_all add: s5_def s3_def upd_proc_def p5_def)
    have rest: "(if tf = 0 then bindr (release c (Lk_proc i) s5) (\<lambda>s6. Ok (None, s6))
         else bindp (proc_pagetable i s5) (\<lambda>pt s6.
           let s7 = upd_proc i (\<lambda>p. p\<lparr>pagetable := pt\<rparr>) s6
           in if pt = 0 then
                bindr (freeproc i s7) (\<lambda>s8.
                  bindr (release c (Lk_proc i) s8) (\<lambda>s9. Ok (None, s9)))
              else Ok (Some i, upd_proc i (\<lambda>p. p\<lparr>pcontext :=
                \<lparr>ctx_ra = forkret_addr s7, ctx_sp = kstack p + PGSIZE,
                 ctx_saved = replicate 12 0\<rparr>\<rparr>) s7))) = Ok (r, s')"
      using assms sc Some al ka unfolding allocproc_def s3_def s5_def
      by (simp add: Let_def del: upt_rec_numeral PGSIZE_def)
    show thesis
    proof (cases "tf = 0")
      case True
      then obtain s6 where "release c (Lk_proc i) s5 = Ok s6" "r = None" "s' = s6"
        using rest by (auto elim!: bindr_OkE)
      then show thesis using nomem [of i p5] release_procs [of c _ s5 s6] s5 n by (simp add: p5_def)
    next
      case False
      then obtain pt s6 where pp: "proc_pagetable i s5 = Ok (pt, s6)"
        using rest by (auto elim!: bindp_OkE simp del: PGSIZE_def)
      define s7 where "s7 = upd_proc i (\<lambda>p. p\<lparr>pagetable := pt\<rparr>) s6"
      have s7: "procs s7 = (procs s)(i := p5\<lparr>pagetable := pt\<rparr>)" "nextpid s7 = s32 (nextpid s + 1)"
        using mem_only_procs [OF proc_pagetable_mem_only [OF pp]] s5 by (simp_all add: s7_def upd_proc_def)
      show thesis
      proof (cases "pt = 0")
        case True
        then obtain s8 s9 where "freeproc i s7 = Ok s8" "release c (Lk_proc i) s8 = Ok s9" "r = None" "s' = s9"
          using rest False pp by (auto simp: Let_def s7_def elim!: bindr_OkE simp del: PGSIZE_def)
        then show thesis
          using nomem [of i "clear_proc (p5\<lparr>pagetable := pt\<rparr>)"] freeproc_procs [of i s7 s8]
            release_procs [of c _ s8 s9] s7 by (simp add: clear_proc_def)
      next
        case False
        then have r: "r = Some i" and s': "s' = upd_proc i (\<lambda>p. p\<lparr>pcontext :=
                \<lparr>ctx_ra = forkret_addr s7, ctx_sp = kstack p + PGSIZE, ctx_saved = replicate 12 0\<rparr>\<rparr>) s7"
          using rest \<open>tf \<noteq> 0\<close> pp by (auto simp: Let_def s7_def simp del: PGSIZE_def)
        show thesis
          using s' s7 n iN(2)
          by (intro some [OF r iN, of "procs s' i"]) (simp_all add: upd_proc_def p5_def)
      qed
    qed
  qed
qed

lemma pid_inv_upd:
  assumes inv: "pid_inv s" and s': "procs s' = (procs s)(i := p)" "nextpid s' = s32 (nextpid s + 1)"
    and p: "pid p = nextpid s \<or> pid p = 0" and room: "nextpid s < 2147483647"
  shows "pid_inv s'"
proof -
  have s'2: "nextpid s' = nextpid s + 1" using s'(2) room inv by (simp add: s32_id pid_inv_def)
  have lt: "pid (procs s k) < nextpid s" for k using inv by (simp add: pid_inv_def)
  have "pid (procs s k) \<noteq> nextpid s" "pid (procs s k) < nextpid s + 1" for k
    using lt [of k] by linarith+
  then show ?thesis using inv p unfolding pid_inv_def s'(1) s'2 by (auto simp: fun_upd_def)
qed

lemma allocproc_pid_inv:
  assumes inv: "pid_inv s" and room: "nextpid s < 2147483647" and al: "allocproc c s = Ok (r, s')"
  shows "pid_inv s'"
  using al
proof (cases rule: allocproc_cases)
  case none
  then show ?thesis using inv by (simp add: pid_inv_def)
next
  case (nomem i p)
  then show ?thesis using pid_inv_upd [OF inv _ _ _ room] by blast
next
  case (some i p)
  then show ?thesis using pid_inv_upd [OF inv _ _ _ room] by blast
qed

section \<open>Properties\<close>

text \<open>A process table at rest: every slot unused, every lock free.\<close>

definition idle_proc :: proc where
  "idle_proc = \<lparr>state = UNUSED, parent = None, chan = None, killed = False, xstate = 0, pid = 0, kstack = 0,
     sz = 0, pagetable = 0, trapframe = 0, pcontext = \<lparr>ctx_ra = 0, ctx_sp = 0, ctx_saved = []\<rparr>,
     ofile = replicate NOFILE None, cwd = None, pname = replicate 16 0\<rparr>"

definition idle_table :: kproc where
  "idle_table = \<lparr>pmem = (\<lambda>_. 0), freelist = 0, kend = 0, kernel_pagetable = 0, etext = 0, trampoline = 0,
     satp = 0, locks = (\<lambda>_. \<lparr>locked = 0, cpu = None\<rparr>),
     cpus = (\<lambda>_. \<lparr>proc = None, noff = 0, intena = False, intr = True\<rparr>),
     procs = (\<lambda>_. idle_proc), initproc = None, nextpid = 1, forkret_addr = 0\<rparr>"

lemma idle_table_locks: "proc_locks_free idle_table" "cpu_quiet c idle_table" "free_lock lk idle_table"
  by (simp_all add: proc_locks_free_def free_lock_def cpu_quiet_def idle_table_def)

text \<open>
  C22. \<open>wakeup(chan)\<close> makes runnable exactly the processes that sleep on \<open>chan\<close> and
  changes nothing else of the process table; every lock it takes is free again and
  the CPU's interrupt state is what it was.
\<close>

theorem wakeup_wakes_exactly:
  assumes "proc_locks_free s" and "cpu_quiet c s"
  shows "\<exists>s'. wakeup c ch s = Ok s' \<and> locks s' = locks s \<and> intr (cpus s' c) = intr (cpus s c) \<and>
    noff (cpus s' c) = noff (cpus s c) \<and>
    procs s' = (\<lambda>i. if i < NPROC \<and> state (procs s i) = SLEEPING \<and> chan (procs s i) = Some ch
      then (procs s i)\<lparr>state := RUNNABLE\<rparr> else procs s i)"
  using wakeup_correct [OF assms, of ch] by (auto simp: tidy_def wake_def fun_eq_iff)

definition two_sleepers :: kproc where
  "two_sleepers = idle_table\<lparr>procs := (\<lambda>_. idle_proc)(
     1 := idle_proc\<lparr>state := SLEEPING, chan := Some Chan_ticks, pid := 5\<rparr>,
     2 := idle_proc\<lparr>state := SLEEPING, chan := Some Chan_log, pid := 6\<rparr>), nextpid := 7\<rparr>"

lemma two_sleepers_locks: "proc_locks_free two_sleepers" "cpu_quiet c two_sleepers"
  using idle_table_locks by (simp_all add: two_sleepers_def proc_locks_free_def free_lock_def cpu_quiet_def)

theorem wakeup_wakes_exactly_witness:
  "\<exists>s'. wakeup 0 Chan_ticks two_sleepers = Ok s' \<and> state (procs s' 1) = RUNNABLE \<and> state (procs s' 2) = SLEEPING"
  using wakeup_wakes_exactly [OF two_sleepers_locks, of 0 Chan_ticks] by (auto simp: two_sleepers_def)

text \<open>
  C23. \<open>kill(pid)\<close> fails exactly when no slot has the pid, and then changes no
  process; otherwise it sets \<open>killed\<close> in the first such slot, makes it runnable if it
  sleeps, and changes no other process.
\<close>

theorem kill_marks_target:
  assumes "proc_locks_free s" and "cpu_quiet c s"
  shows "\<exists>r s'. kill c target s = Ok (r, s') \<and> locks s' = locks s \<and>
    (case find (\<lambda>i. pid (procs s i) = target) [0..<NPROC] of
       None \<Rightarrow> r = -1 \<and> procs s' = procs s
     | Some i \<Rightarrow> r = 0 \<and> procs s' = (procs s)(i := (procs s i)\<lparr>killed := True,
         state := (if state (procs s i) = SLEEPING then RUNNABLE else state (procs s i))\<rparr>))"
  unfolding kill_correct [OF assms] by (simp add: tidy_def upd_proc_def split: option.split)

lemma find_upt_first:
  assumes "P i" and "i < n" and "\<And>k. k < i \<Longrightarrow> \<not> P k"
  shows "find P [0..<n] = Some i"
  using assms by (auto simp: find_Some_iff intro!: exI [of _ i])

theorem kill_marks_target_witness:
  "\<exists>s'. kill 0 6 two_sleepers = Ok (0, s') \<and> killed (procs s' 2) \<and> state (procs s' 2) = RUNNABLE \<and>
    state (procs s' 1) = SLEEPING"
proof -
  have f: "find (\<lambda>i. pid (procs two_sleepers i) = 6) [0..<NPROC] = Some 2"
    by (rule find_upt_first) (auto simp: two_sleepers_def idle_proc_def less_2_cases_iff)
  show ?thesis using kill_marks_target [OF two_sleepers_locks, of 0 6] unfolding f
    by (auto simp: two_sleepers_def)
qed

text \<open>
  C24. The locking discipline of \<open>sleep\<close>: a thread that holds exactly the condition
  lock arrives at \<open>swtch\<close> with the condition lock free and exactly its process lock
  held, marked as sleeping on the channel; a thread that holds any other lock too
  panics in \<open>sched\<close> instead of switching.
\<close>

theorem sleep_trades_locks:
  assumes "lk \<noteq> Lk_proc i" and "held_by c lk s" and "free_lock (Lk_proc i) s"
    and "noff (cpus s c) \<ge> 1" and "\<not> intr (cpus s c)"
  shows "if noff (cpus s c) = 1
    then \<exists>s'. sleep_out c i ch lk s = Ok (intena (cpus s c), s') \<and> free_lock lk s' \<and> held_by c (Lk_proc i) s' \<and>
      procs s' = (procs s)(i := (procs s i)\<lparr>chan := Some ch, state := SLEEPING\<rparr>) \<and> cpus s' = cpus s
    else sleep_out c i ch lk s = Panic ''sched locks''"
  using sleep_out_correct [OF assms, of ch] assms(1)
  by (auto simp: free_lock_def held_by_def split: if_splits)

theorem sleep_trades_locks_witness:
  "\<exists>s'. sleep_out 0 3 Chan_log Lk_log (locked_state 0 Lk_log idle_table) = Ok (True, s') \<and>
    free_lock Lk_log s' \<and> state (procs s' 3) = SLEEPING"
proof -
  define s where "s = locked_state 0 Lk_log idle_table"
  have "held_by 0 Lk_log s" "free_lock (Lk_proc 3) s" "noff (cpus s 0) = 1" "\<not> intr (cpus s 0)" "intena (cpus s 0)"
    by (simp_all add: s_def locked_state_def held_by_def free_lock_def idle_table_def lock_defs)
  then show ?thesis using sleep_trades_locks [of Lk_log 3 0 s Chan_log]
    unfolding s_def [symmetric] by auto
qed

text \<open>
  C25. Process ids are unique: while fewer than \<open>2^31 - 1\<close> ids have been given out,
  \<open>allocproc\<close> keeps ids distinct and below \<open>nextpid\<close>, and the slot it returns was
  unused and gets an id no other slot has.
\<close>

theorem allocproc_unique_pid:
  assumes "pid_inv s" and "nextpid s < 2147483647" and "allocproc c s = Ok (r, s')"
  shows "pid_inv s' \<and> (\<forall>i. r = Some i \<longrightarrow> i < NPROC \<and> state (procs s i) = UNUSED \<and>
    pid (procs s' i) = nextpid s \<and> (\<forall>j. j \<noteq> i \<longrightarrow> pid (procs s' j) \<noteq> nextpid s))"
proof -
  have lt: "pid (procs s j) \<noteq> nextpid s" for j using assms(1) unfolding pid_inv_def by (metis less_irrefl)
  have "\<forall>i. r = Some i \<longrightarrow> i < NPROC \<and> state (procs s i) = UNUSED \<and>
    pid (procs s' i) = nextpid s \<and> (\<forall>j. j \<noteq> i \<longrightarrow> pid (procs s' j) \<noteq> nextpid s)"
    using assms(3) by (cases rule: allocproc_cases) (use lt in auto)
  then show ?thesis using allocproc_pid_inv [OF assms] by blast
qed

lemma allocproc_idle: "\<exists>s'. allocproc 0 idle_table = Ok (None, s')"
proof -
  have u: "[0..<NPROC] = 0 # [1..<NPROC]" by (simp add: upt_rec)
  show ?thesis
    unfolding allocproc_def u
    by (simp add: acquire_def release_def holding_def idle_table_def idle_proc_def lock_defs allocpid_def
        kalloc_def upd_proc_def)
qed

theorem allocproc_unique_pid_witness: "\<exists>s'. allocproc 0 idle_table = Ok (None, s') \<and> pid_inv s'"
proof -
  obtain s' where s': "allocproc 0 idle_table = Ok (None, s')" using allocproc_idle by blast
  have "pid_inv idle_table" "nextpid idle_table < 2147483647"
    by (simp_all add: pid_inv_def idle_table_def idle_proc_def)
  then show ?thesis using allocproc_unique_pid [OF _ _ s'] s' by blast
qed

text \<open>
  C26. \<open>kill(0)\<close> is not refused: an unused slot has pid 0, so the call marks the first
  unused slot as killed and returns 0. \<open>allocproc\<close> does not clear the flag, so the next
  process made in the slot starts out killed.
\<close>

theorem kill_zero_dooms_next_process:
  assumes "proc_locks_free s" and "cpu_quiet c s" and "find (\<lambda>i. pid (procs s i) = 0) [0..<NPROC] = Some i"
  shows "\<exists>s'. kill c 0 s = Ok (0, s') \<and> killed (procs s' i) \<and>
    (\<forall>s''. allocproc c s' = Ok (Some i, s'') \<longrightarrow> killed (procs s'' i))"
proof -
  obtain s' where k: "kill c 0 s = Ok (0, s')" "killed (procs s' i)"
    using kill_correct [OF assms(1,2), of 0] assms(3) by (auto simp: upd_proc_def)
  have "killed (procs s'' i)" if "allocproc c s' = Ok (Some i, s'')" for s''
    using that by (cases rule: allocproc_cases) (use k(2) in auto)
  then show ?thesis using k by blast
qed

theorem kill_zero_dooms_next_process_witness: "\<exists>s'. kill 0 0 idle_table = Ok (0, s') \<and> killed (procs s' 0)"
proof -
  have "find (\<lambda>i. pid (procs idle_table i) = 0) [0..<NPROC] = Some 0"
    by (rule find_upt_first) (auto simp: idle_table_def idle_proc_def)
  from kill_zero_dooms_next_process [OF idle_table_locks(1,2) this, of 0] show ?thesis by blast
qed

end
