(* ===== verification/Sleep_Wakeup.thy ===== *)
theory Sleep_Wakeup
  imports Proc_Sched
begin

text \<open>
  The interplay of \<open>sleep\<close> and \<open>wakeup\<close> of kernel/proc.c. One thread waits for a
  condition with the loop every kernel client uses (\<open>acquire lk; while not cond:
  sleep(ch, lk)\<close>), another makes the condition true under \<open>lk\<close> and calls
  \<open>wakeup(ch)\<close>. Their steps interleave; each step is one access to a lock, to the
  condition or to the sleeper's process structure, in the order of the source. The steps of the loop around \<open>sleep\<close>,
  and of the scheduler that releases and takes \<open>p->lock\<close> around \<open>swtch\<close>, are included. Of the table that \<open>wakeup\<close> scans
  only the sleeper's slot is kept, and \<open>lk\<close> is not the lock of the sleeper, so the branches of \<open>sleep\<close> for that case are left out.
\<close>

datatype who = Sleeper | Waker

text \<open>
  Where the sleeper is. \<open>S_plock\<close> to \<open>S_set\<close> are the first half of \<open>sleep\<close>,
  \<open>S_sched\<close> is the scheduler about to release \<open>p->lock\<close> after \<open>swtch\<close>,
  \<open>S_asleep\<close> is a process off the CPU, \<open>S_run\<close> is \<open>sleep\<close> after \<open>swtch\<close>.
\<close>

datatype spc = S_acq | S_test | S_plock | S_unlk | S_set | S_sched | S_asleep | S_run | S_done

datatype wpc = W_acq | W_set | W_plock | W_wake | W_punlock | W_unlk | W_done

record sw =
  cond :: bool
  lkh :: "who option"
  plh :: "who option"
  slp :: proc
  spc :: spc
  wpc :: wpc

text \<open>The two halves of \<open>sleep\<close>'s updates of the process structure.\<close>

definition go_to_sleep :: "chan \<Rightarrow> proc \<Rightarrow> proc" where
  "go_to_sleep ch p = p\<lparr>chan := Some ch, state := SLEEPING\<rparr>"

definition tidy_up :: "proc \<Rightarrow> proc" where
  "tidy_up p = p\<lparr>chan := None\<rparr>"

inductive sw_step :: "chan \<Rightarrow> sw \<Rightarrow> sw \<Rightarrow> bool" for ch where
  s_acq: "spc s = S_acq \<Longrightarrow> lkh s = None \<Longrightarrow> sw_step ch s (s\<lparr>lkh := Some Sleeper, spc := S_test\<rparr>)"
| s_test: "spc s = S_test \<Longrightarrow> sw_step ch s (s\<lparr>spc := (if cond s then S_done else S_plock)\<rparr>)"
| s_plock: "spc s = S_plock \<Longrightarrow> plh s = None \<Longrightarrow> sw_step ch s (s\<lparr>plh := Some Sleeper, spc := S_unlk\<rparr>)"
| s_unlk: "spc s = S_unlk \<Longrightarrow> sw_step ch s (s\<lparr>lkh := None, spc := S_set\<rparr>)"
| s_set: "spc s = S_set \<Longrightarrow> sw_step ch s (s\<lparr>slp := go_to_sleep ch (slp s), spc := S_sched\<rparr>)"
| s_sched: "spc s = S_sched \<Longrightarrow> sw_step ch s (s\<lparr>plh := None, spc := S_asleep\<rparr>)"
| s_asleep: "spc s = S_asleep \<Longrightarrow> plh s = None \<Longrightarrow> state (slp s) = RUNNABLE \<Longrightarrow>
    sw_step ch s (s\<lparr>plh := Some Sleeper, slp := (slp s)\<lparr>state := RUNNING\<rparr>, spc := S_run\<rparr>)"
| s_run: "spc s = S_run \<Longrightarrow> sw_step ch s (s\<lparr>slp := tidy_up (slp s), plh := None, spc := S_acq\<rparr>)"
| w_acq: "wpc s = W_acq \<Longrightarrow> lkh s = None \<Longrightarrow> sw_step ch s (s\<lparr>lkh := Some Waker, wpc := W_set\<rparr>)"
| w_set: "wpc s = W_set \<Longrightarrow> sw_step ch s (s\<lparr>cond := True, wpc := W_plock\<rparr>)"
| w_plock: "wpc s = W_plock \<Longrightarrow> plh s = None \<Longrightarrow> sw_step ch s (s\<lparr>plh := Some Waker, wpc := W_wake\<rparr>)"
| w_wake: "wpc s = W_wake \<Longrightarrow> sw_step ch s (s\<lparr>slp := wake ch (slp s), wpc := W_punlock\<rparr>)"
| w_punlock: "wpc s = W_punlock \<Longrightarrow> sw_step ch s (s\<lparr>plh := None, wpc := W_unlk\<rparr>)"
| w_unlk: "wpc s = W_unlk \<Longrightarrow> sw_step ch s (s\<lparr>lkh := None, wpc := W_done\<rparr>)"

definition sw_init :: "sw \<Rightarrow> bool" where
  "sw_init s \<longleftrightarrow> \<not> cond s \<and> lkh s = None \<and> plh s = None \<and> state (slp s) = RUNNING \<and>
     spc s = S_acq \<and> wpc s = W_acq"

definition sw_inv :: "chan \<Rightarrow> sw \<Rightarrow> bool" where
  "sw_inv ch s \<longleftrightarrow>
     (lkh s = Some Sleeper \<longleftrightarrow> spc s \<in> {S_test, S_plock, S_unlk, S_done}) \<and>
     (lkh s = Some Waker \<longleftrightarrow> wpc s \<in> {W_set, W_plock, W_wake, W_punlock, W_unlk}) \<and>
     (plh s = Some Sleeper \<longleftrightarrow> spc s \<in> {S_unlk, S_set, S_sched, S_run}) \<and>
     (plh s = Some Waker \<longleftrightarrow> wpc s \<in> {W_wake, W_punlock}) \<and>
     (state (slp s) = SLEEPING \<longrightarrow> spc s \<in> {S_sched, S_asleep} \<and> chan (slp s) = Some ch) \<and>
     (spc s = S_sched \<longrightarrow> state (slp s) = SLEEPING) \<and>
     (spc s = S_asleep \<longrightarrow> state (slp s) \<in> {SLEEPING, RUNNABLE}) \<and>
     (cond s \<longleftrightarrow> wpc s \<in> {W_plock, W_wake, W_punlock, W_unlk, W_done}) \<and>
     (spc s \<in> {S_plock, S_unlk} \<longrightarrow> \<not> cond s) \<and>
     (cond s \<and> (spc s = S_set \<or> state (slp s) = SLEEPING) \<longrightarrow> wpc s \<in> {W_plock, W_wake})"

lemmas sw_defs = sw_inv_def go_to_sleep_def tidy_up_def wake_def

lemma sw_inv_step:
  assumes "sw_step ch s s'" and "sw_inv ch s"
  shows "sw_inv ch s'"
  using assms
proof (induction rule: sw_step.induct)
  case (s_acq s)
  then show ?case by (cases "spc s"; cases "wpc s") (simp_all add: sw_defs)
next
  case (s_test s)
  then show ?case by (cases "spc s"; cases "wpc s") (simp_all add: sw_defs)
next
  case (s_plock s)
  then show ?case by (cases "spc s"; cases "wpc s") (simp_all add: sw_defs)
next
  case (s_unlk s)
  then show ?case by (cases "spc s"; cases "wpc s") (simp_all add: sw_defs)
next
  case (s_set s)
  then show ?case by (cases "spc s"; cases "wpc s") (simp_all add: sw_defs)
next
  case (s_sched s)
  then show ?case by (cases "spc s"; cases "wpc s") (simp_all add: sw_defs)
next
  case (s_asleep s)
  then show ?case by (cases "spc s"; cases "wpc s") (simp_all add: sw_defs)
next
  case (s_run s)
  then show ?case by (cases "spc s"; cases "wpc s") (simp_all add: sw_defs)
next
  case (w_acq s)
  then show ?case by (cases "spc s"; cases "wpc s") (simp_all add: sw_defs)
next
  case (w_set s)
  then show ?case by (cases "spc s"; cases "wpc s") (simp_all add: sw_defs)
next
  case (w_plock s)
  then show ?case by (cases "spc s"; cases "wpc s") (simp_all add: sw_defs)
next
  case (w_wake s)
  then show ?case by (cases "spc s"; cases "wpc s"; cases "state (slp s)") (simp_all add: sw_defs)
next
  case (w_punlock s)
  then show ?case by (cases "spc s"; cases "wpc s") (simp_all add: sw_defs)
next
  case (w_unlk s)
  then show ?case by (cases "spc s"; cases "wpc s") (simp_all add: sw_defs)
qed

lemma sw_inv_reach:
  assumes "(sw_step ch)\<^sup>*\<^sup>* s0 s" and "sw_init s0"
  shows "sw_inv ch s"
  using assms
proof (induction rule: rtranclp_induct)
  case base
  then show ?case by (auto simp: sw_init_def sw_inv_def)
next
  case (step y z)
  then show ?case using sw_inv_step by blast
qed

text \<open>Once the waker is done, the sleeper gets past its wait on its own.\<close>

definition gets_through :: "chan \<Rightarrow> sw \<Rightarrow> bool" where
  "gets_through ch s \<longleftrightarrow> (\<exists>s'. (sw_step ch)\<^sup>*\<^sup>* s s' \<and> spc s' = S_done)"

lemma gets_through_step: "sw_step ch s s1 \<Longrightarrow> gets_through ch s1 \<Longrightarrow> gets_through ch s"
  unfolding gets_through_def by (blast intro: converse_rtranclp_into_rtranclp)

lemma gets_through_done: "spc s = S_done \<Longrightarrow> gets_through ch s"
  unfolding gets_through_def by blast

lemma sw_progress:
  assumes inv: "sw_inv ch s" and fin: "wpc s = W_done"
  shows "gets_through ch s"
proof -
  have test: "gets_through ch s" if "spc s = S_test" "cond s" for s
    by (rule gets_through_step [OF s_test [OF that(1)]]) (simp add: that gets_through_done)
  have acq: "gets_through ch s" if "spc s = S_acq" "cond s" "lkh s = None" for s
    by (rule gets_through_step [OF s_acq [OF that(1,3)]], rule test) (simp_all add: that)
  have run: "gets_through ch s" if "spc s = S_run" "cond s" "lkh s = None" for s
    by (rule gets_through_step [OF s_run [OF that(1)]], rule acq) (simp_all add: that)
  have asleep: "gets_through ch s"
    if "spc s = S_asleep" "cond s" "lkh s = None" "plh s = None" "state (slp s) = RUNNABLE" for s
    by (rule gets_through_step [OF s_asleep [OF that(1,4,5)]], rule run) (simp_all add: that)
  have holders: "lkh s = Some Sleeper \<longleftrightarrow> spc s \<in> {S_test, S_plock, S_unlk, S_done}"
    "plh s = Some Sleeper \<longleftrightarrow> spc s \<in> {S_unlk, S_set, S_sched, S_run}"
    using inv unfolding sw_inv_def by blast+
  have held: "lkh s \<noteq> Some Waker" "plh s \<noteq> Some Waker" "cond s" "state (slp s) \<noteq> SLEEPING"
    using inv fin unfolding sw_inv_def by auto
  have at: "spc s \<notin> {S_plock, S_unlk, S_set, S_sched}"
    "spc s = S_asleep \<longrightarrow> state (slp s) = RUNNABLE"
    using inv fin unfolding sw_inv_def by auto
  have free: "lkh s = None \<or> lkh s = Some Sleeper" "plh s = None \<or> plh s = Some Sleeper"
    using held(1,2) by (metis not_Some_eq who.exhaust)+
  show ?thesis
  proof (cases "spc s")
    case S_acq
    then have "lkh s = None" using holders(1) free(1) by simp
    then show ?thesis using acq S_acq held(3) by blast
  next
    case S_test
    then show ?thesis using test held(3) by blast
  next
    case S_asleep
    then have "lkh s = None" "plh s = None" using holders free by simp_all
    then show ?thesis using asleep S_asleep held(3) at(2) by blast
  next
    case S_run
    then have "lkh s = None" using holders(1) free(1) by simp
    then show ?thesis using run S_run held(3) by blast
  qed (use at(1) gets_through_done in simp_all)
qed

section \<open>Properties\<close>

text \<open>
  C27. No wakeup is lost: however the two threads interleave, once the waker has
  made the condition true and returned from \<open>wakeup\<close>, the sleeper is not asleep on
  the channel, and its own steps take it past its wait.
\<close>

theorem no_lost_wakeup:
  assumes "sw_init s0" and "(sw_step ch)\<^sup>*\<^sup>* s0 s" and "wpc s = W_done"
  shows "state (slp s) \<noteq> SLEEPING \<and> gets_through ch s"
proof -
  have inv: "sw_inv ch s" using sw_inv_reach [OF assms(2,1)] .
  then have "state (slp s) \<noteq> SLEEPING" using assms(3) unfolding sw_inv_def by auto
  then show ?thesis using sw_progress [OF inv assms(3)] by blast
qed

definition sw_start :: sw where
  "sw_start = \<lparr>cond = False, lkh = None, plh = None, slp = idle_proc\<lparr>state := RUNNING\<rparr>, spc = S_acq, wpc = W_acq\<rparr>"

lemma waker_alone:
  assumes "wpc s = W_acq" and "lkh s = None" and "plh s = None"
  shows "\<exists>s'. (sw_step ch)\<^sup>*\<^sup>* s s' \<and> wpc s' = W_done"
proof -
  define s1 where "s1 = s\<lparr>lkh := Some Waker, wpc := W_set\<rparr>"
  define s2 where "s2 = s1\<lparr>cond := True, wpc := W_plock\<rparr>"
  define s3 where "s3 = s2\<lparr>plh := Some Waker, wpc := W_wake\<rparr>"
  define s4 where "s4 = s3\<lparr>slp := wake ch (slp s3), wpc := W_punlock\<rparr>"
  define s5 where "s5 = s4\<lparr>plh := None, wpc := W_unlk\<rparr>"
  define s6 where "s6 = s5\<lparr>lkh := None, wpc := W_done\<rparr>"
  note d = s1_def s2_def s3_def s4_def s5_def s6_def
  have "sw_step ch s s1" unfolding s1_def by (rule w_acq) (simp_all add: assms)
  moreover have "sw_step ch s1 s2" unfolding s2_def by (rule w_set) (simp add: d)
  moreover have "sw_step ch s2 s3" unfolding s3_def by (rule w_plock) (simp_all add: d assms)
  moreover have "sw_step ch s3 s4" unfolding s4_def by (rule w_wake) (simp add: d)
  moreover have "sw_step ch s4 s5" unfolding s5_def by (rule w_punlock) (simp add: d)
  moreover have "sw_step ch s5 s6" unfolding s6_def by (rule w_unlk) (simp add: d)
  moreover have "wpc s6 = W_done" by (simp add: s6_def)
  ultimately show ?thesis by (meson converse_rtranclp_into_rtranclp rtranclp.rtrancl_refl)
qed

theorem no_lost_wakeup_witness:
  "\<exists>s. (sw_step Chan_log)\<^sup>*\<^sup>* sw_start s \<and> wpc s = W_done \<and> gets_through Chan_log s"
proof -
  have "sw_init sw_start" by (simp add: sw_init_def sw_start_def)
  moreover obtain s where "(sw_step Chan_log)\<^sup>*\<^sup>* sw_start s" "wpc s = W_done"
    using waker_alone [of sw_start Chan_log] by (auto simp: sw_start_def)
  ultimately show ?thesis using no_lost_wakeup by blast
qed

end
