(* ===== verification/Sleeplock.thy ===== *)
theory Sleeplock
  imports Proc_Sched
begin

text \<open>
  kernel/sleeplock.c: long-term locks. A sleep-lock lives inside another object (a
  buffer, an in-memory inode), so the functions take what a pointer to it gives:
  the channel that is its address, the spin-lock \<open>lk->lk\<close> inside it, and how to read
  and update it in the kernel's state. The locale \<open>sleeplock_at\<close> states what such a
  pointer satisfies and holds the facts its users need; the buffer cache and the
  inode cache interpret it.
\<close>

section \<open>Calm CPUs\<close>

text \<open>
  A critical section of the kernel: the lock is acquired, the body runs, and the
  lock is released on every path that returns.
\<close>

definition critical ::
  "nat \<Rightarrow> lockid \<Rightarrow> ('a machine_scheme \<Rightarrow> ('b \<times> 'a machine_scheme) res) \<Rightarrow> 'a machine_scheme \<Rightarrow>
   ('b \<times> 'a machine_scheme) res" where
  "critical c lk body s =
     bindr (acquire c lk s) (\<lambda>s1. bindp (body s1) (\<lambda>x s2. bindr (release c lk s2) (\<lambda>s3. Ok (x, s3))))"

text \<open>
  A CPU is calm when no spin-lock is held anywhere, it has not disabled interrupts
  and its record of the interrupt state is up to date, as it is after any critical
  section.
\<close>

definition calm :: "nat \<Rightarrow> 'a machine_scheme \<Rightarrow> bool" where
  "calm c s \<longleftrightarrow> (\<forall>lk. free_lock lk s) \<and> noff (cpus s c) = 0 \<and> intena (cpus s c) = intr (cpus s c)"

lemma calm_free: "calm c s \<Longrightarrow> free_lock lk s"
  by (simp add: calm_def)

lemma calm_quiet: "calm c s \<Longrightarrow> cpu_quiet c s"
  by (simp add: calm_def cpu_quiet_def)

lemma calm_tidy: "calm c s \<Longrightarrow> tidy c s = s"
  by (simp add: calm_def tidy_def fun_upd_idem)

lemma calm_acquire: "calm c s \<Longrightarrow> acquire c lk s = Ok (locked_state c lk s)"
  by (simp add: calm_def acquire_free)

lemma calm_release: "calm c s \<Longrightarrow> release c lk (locked_state c lk s) = Ok s"
  by (simp add: calm_tidy calm_quiet calm_free release_locked_state)

lemma critical_calm:
  assumes "calm c s" and "calm c s'"
    and "body (locked_state c lk s) = Ok (x, locked_state c lk s')"
  shows "critical c lk body s = Ok (x, s')"
  using assms by (simp add: critical_def calm_acquire calm_release)

lemma critical_calm_Panic:
  assumes "calm c s" and "body (locked_state c lk s) = Panic m"
  shows "critical c lk body s = Panic m"
  using assms by (simp add: critical_def calm_acquire)

lemma calm_same:
  assumes "calm c s" and "locks s' = locks s" and "cpus s' = cpus s"
  shows "calm c s'"
  using assms unfolding calm_def free_lock_def by simp

lemma locked_state_quiet:
  assumes "calm c s"
  shows "cpu_quiet c (locked_state c lk s)" and "tidy c (locked_state c lk s) = locked_state c lk s"
proof -
  let ?l = "locked_state c lk s"
  have n: "noff (cpus ?l c) > 0" using assms by (simp add: locked_state_fields calm_def)
  then show "cpu_quiet c ?l" by (simp add: cpu_quiet_def locked_state_fields)
  show "tidy c ?l = ?l" using n by (simp add: tidy_def)
qed

text \<open>The effect of \<open>wakeup\<close> on a state whose process locks are free.\<close>

definition wake_all :: "chan \<Rightarrow> (nat \<Rightarrow> proc) \<Rightarrow> nat \<Rightarrow> proc" where
  "wake_all ch P = (\<lambda>i. if i < NPROC then wake ch (P i) else P i)"

definition woken :: "chan \<Rightarrow> 'a kproc_scheme \<Rightarrow> 'a kproc_scheme" where
  "woken ch s = s\<lparr>procs := wake_all ch (procs s)\<rparr>"

lemma wakeup_calm: "calm c s \<Longrightarrow> wakeup c ch s = Ok (woken ch s)"
  using wakeup_correct [of s c ch] by (simp add: calm_tidy calm_quiet woken_def wake_all_def) (simp add: calm_def proc_locks_free_def)

lemma wakeup_locked:
  assumes "calm c s" and "\<And>i. lk \<noteq> Lk_proc i"
  shows "wakeup c ch (locked_state c lk s) = Ok (locked_state c lk (woken ch s))"
proof -
  have "proc_locks_free (locked_state c lk s)"
    using assms(1) assms(2) [symmetric] by (simp add: proc_locks_free_def calm_def free_lock_def locked_state_fields)
  then show ?thesis
    using wakeup_correct [OF _ locked_state_quiet(1) [OF assms(1)]]
    unfolding woken_def wake_all_def locked_state_procs_upd locked_state_quiet(2) [OF assms(1)] locked_state_procs by blast
qed

lemma woken_procs [simp]: "pid (procs (woken ch s) i) = pid (procs s i)"
  "pagetable (procs (woken ch s) i) = pagetable (procs s i)"
  "killed (procs (woken ch s) i) = killed (procs s i)"
  "locks (woken ch s) = locks s" "cpus (woken ch s) = cpus s"
  by (simp_all add: woken_def wake_all_def wake_def)

lemma calm_woken [simp]: "calm c s \<Longrightarrow> calm c (woken ch s)"
  by (erule calm_same) simp_all

text \<open>Whatever happens in them, these operations touch only locks, CPUs and the process table.\<close>

definition sched_only :: "'a kproc_scheme \<Rightarrow> 'a kproc_scheme \<Rightarrow> bool" where
  "sched_only s s' \<longleftrightarrow> (\<exists>L C P. s' = s\<lparr>locks := L, cpus := C, procs := P\<rparr>)"

lemma sched_only_refl [simp]: "sched_only s s"
  unfolding sched_only_def by (rule exI [of _ "locks s"], rule exI [of _ "cpus s"], rule exI [of _ "procs s"]) simp

lemma sched_only_trans: "sched_only s s1 \<Longrightarrow> sched_only s1 s2 \<Longrightarrow> sched_only s s2"
  unfolding sched_only_def by fastforce

lemma sched_onlyI: "s' = s\<lparr>locks := L, cpus := C, procs := P\<rparr> \<Longrightarrow> sched_only s s'"
  unfolding sched_only_def by blast

lemma acquire_sched_only:
  assumes "acquire c lk s = Ok s'"
  shows "sched_only s s'"
  by (rule sched_onlyI [where L = "locks s'" and C = "cpus s'" and P = "procs s"])
    (use assms in \<open>auto simp: acquire_def lock_defs split: if_splits\<close>)

lemma release_sched_only:
  assumes "release c lk s = Ok s'"
  shows "sched_only s s'"
  by (rule sched_onlyI [where L = "locks s'" and C = "cpus s'" and P = "procs s"])
    (use assms in \<open>auto simp: release_def lock_defs split: if_splits\<close>)

lemma upd_proc_sched_only: "sched_only s (upd_proc i f s)"
  by (rule sched_onlyI [where L = "locks s" and C = "cpus s" and P = "(procs s)(i := f (procs s i))"]) (simp add: upd_proc_def)

lemma wakeup_loop_sched_only: "wakeup_loop c ch is s = Ok s' \<Longrightarrow> sched_only s s'"
proof (induction "is" arbitrary: s)
  case (Cons i "is")
  obtain s1 where a: "acquire c (Lk_proc i) s = Ok s1"
    and r: "(let s2 = (if state (procs s1 i) = SLEEPING \<and> chan (procs s1 i) = Some ch
                 then upd_proc i (\<lambda>p. p\<lparr>state := RUNNABLE\<rparr>) s1 else s1)
       in bindr (release c (Lk_proc i) s2) (\<lambda>s3. wakeup_loop c ch is s3)) = Ok s'"
    using Cons.prems by (auto elim!: bindr_OkE)
  define s2 where "s2 = (if state (procs s1 i) = SLEEPING \<and> chan (procs s1 i) = Some ch
                 then upd_proc i (\<lambda>p. p\<lparr>state := RUNNABLE\<rparr>) s1 else s1)"
  obtain s3 where b: "release c (Lk_proc i) s2 = Ok s3" and w: "wakeup_loop c ch is s3 = Ok s'"
    using r unfolding Let_def s2_def [symmetric] by (rule bindr_OkE)
  have "sched_only s1 s2" by (simp add: s2_def upd_proc_sched_only)
  then show ?case
    using acquire_sched_only [OF a] release_sched_only [OF b] Cons.IH [OF w] sched_only_trans by blast
qed simp

lemma wakeup_sched_only: "wakeup c ch s = Ok s' \<Longrightarrow> sched_only s s'"
  unfolding wakeup_def by (rule wakeup_loop_sched_only)

text \<open>
  A call of \<open>sleep\<close> in the middle of a function: the thread reaches \<open>swtch\<close> and the
  outcome is \<open>Sleep\<close>, or a panic of \<open>sched\<close> if the thread holds other spin-locks.
\<close>

definition sleep_on :: "nat \<Rightarrow> nat \<Rightarrow> chan \<Rightarrow> lockid \<Rightarrow> 'a kproc_scheme \<Rightarrow> 'b res" where
  "sleep_on c i ch lk s = bindp (sleep_out c i ch lk s) (\<lambda>_ _. Sleep ch)"

lemma sleep_on_calm:
  assumes "calm c s" and "lk \<noteq> Lk_proc i"
  shows "sleep_on c i ch lk (locked_state c lk s) = Sleep ch"
proof -
  let ?l = "locked_state c lk s"
  have "held_by c lk ?l" using assms(1)
    by (simp add: held_by_def locked_state_def lock_defs calm_def free_lock_def)
  moreover have "free_lock (Lk_proc i) ?l"
    using assms by (simp add: free_lock_def locked_state_fields calm_def)
  moreover have "noff (cpus ?l c) = 1" "\<not> intr (cpus ?l c)"
    using assms(1) by (simp_all add: locked_state_fields calm_def)
  ultimately show ?thesis
    using sleep_out_correct [OF assms(2), of c ?l ch] by (auto simp: sleep_on_def)
qed

section \<open>Sleep-locks (kernel/sleeplock.h, kernel/sleeplock.c)\<close>

record sleeplock =
  slocked :: u32
  spid :: int

lemma sleeplock_set: "(l :: sleeplock)\<lparr>slocked := a, spid := b\<rparr> = \<lparr>slocked = a, spid = b\<rparr>"
  by (cases l) simp

definition initsleeplock ::
  "lockid \<Rightarrow> ((sleeplock \<Rightarrow> sleeplock) \<Rightarrow> 'a machine_scheme \<Rightarrow> 'a machine_scheme) \<Rightarrow>
   'a machine_scheme \<Rightarrow> 'a machine_scheme" where
  "initsleeplock lk upd s = upd (\<lambda>l. l\<lparr>slocked := 0, spid := 0\<rparr>) (initlock lk s)"

text \<open>The caller sleeps in \<open>acquiresleep\<close> while another process holds the lock.\<close>

definition acquiresleep ::
  "nat \<Rightarrow> nat \<Rightarrow> lockid \<Rightarrow> chan \<Rightarrow> ('a kproc_scheme \<Rightarrow> sleeplock) \<Rightarrow>
   ((sleeplock \<Rightarrow> sleeplock) \<Rightarrow> 'a kproc_scheme \<Rightarrow> 'a kproc_scheme) \<Rightarrow> 'a kproc_scheme \<Rightarrow> 'a kproc_scheme res" where
  "acquiresleep c i lk ch sl upd s =
     bindr (acquire c lk s) (\<lambda>s1.
       if slocked (sl s1) \<noteq> 0 then sleep_on c i ch lk s1
       else release c lk (upd (\<lambda>l. l\<lparr>slocked := 1, spid := pid (procs s1 i)\<rparr>) s1))"

definition releasesleep ::
  "nat \<Rightarrow> lockid \<Rightarrow> chan \<Rightarrow> ((sleeplock \<Rightarrow> sleeplock) \<Rightarrow> 'a kproc_scheme \<Rightarrow> 'a kproc_scheme) \<Rightarrow>
   'a kproc_scheme \<Rightarrow> 'a kproc_scheme res" where
  "releasesleep c lk ch upd s =
     bindr (acquire c lk s) (\<lambda>s1.
       bindr (wakeup c ch (upd (\<lambda>l. l\<lparr>slocked := 0, spid := 0\<rparr>) s1)) (\<lambda>s2. release c lk s2))"

definition holdingsleep ::
  "nat \<Rightarrow> nat \<Rightarrow> lockid \<Rightarrow> ('a kproc_scheme \<Rightarrow> sleeplock) \<Rightarrow> 'a kproc_scheme \<Rightarrow> (bool \<times> 'a kproc_scheme) res" where
  "holdingsleep c i lk sl s =
     critical c lk (\<lambda>s1. Ok (slocked (sl s1) \<noteq> 0 \<and> spid (sl s1) = pid (procs s1 i), s1)) s"

text \<open>What a pointer to a sleep-lock satisfies: it points outside the locks, CPUs and processes.\<close>

locale sleeplock_at =
  fixes lk :: lockid
    and sl :: "'a kproc_scheme \<Rightarrow> sleeplock"
    and upd :: "(sleeplock \<Rightarrow> sleeplock) \<Rightarrow> 'a kproc_scheme \<Rightarrow> 'a kproc_scheme"
  assumes not_proc: "lk \<noteq> Lk_proc i"
    and sl_upd: "sl (upd f s) = f (sl s)"
    and sl_locked: "sl (locked_state c l s) = sl s"
    and sl_woken: "sl (woken ch s) = sl s"
    and upd_locked: "upd f (locked_state c l s) = locked_state c l (upd f s)"
    and upd_fields: "locks (upd f s) = locks s" "cpus (upd f s) = cpus s" "procs (upd f s) = procs s"
begin

lemma calm_upd: "calm c s \<Longrightarrow> calm c (upd f s)"
  by (erule calm_same) (simp_all add: upd_fields)

lemma acquiresleep_calm:
  assumes "calm c s"
  shows "acquiresleep c i lk ch sl upd s =
    (if slocked (sl s) \<noteq> 0 then Sleep ch
     else Ok (upd (\<lambda>l. l\<lparr>slocked := 1, spid := pid (procs s i)\<rparr>) s))"
  using assms
  by (simp add: acquiresleep_def calm_acquire sl_locked upd_locked calm_release calm_upd sleep_on_calm not_proc)

lemma releasesleep_calm:
  assumes "calm c s"
  shows "releasesleep c lk ch upd s = Ok (woken ch (upd (\<lambda>l. l\<lparr>slocked := 0, spid := 0\<rparr>) s))"
  using assms
  by (simp add: releasesleep_def calm_acquire upd_locked wakeup_locked calm_upd not_proc calm_release)

lemma holdingsleep_calm:
  assumes "calm c s"
  shows "holdingsleep c i lk sl s = Ok (slocked (sl s) \<noteq> 0 \<and> spid (sl s) = pid (procs s i), s)"
  using assms unfolding holdingsleep_def by (intro critical_calm) (simp_all add: sl_locked)

text \<open>A lock taken is held; a second \<open>acquiresleep\<close> sleeps until \<open>releasesleep\<close>, which wakes every waiter.\<close>

lemma sleeplock_cycle:
  assumes "calm c s" and "slocked (sl s) = 0"
  obtains s1 s2 where "acquiresleep c i lk ch sl upd s = Ok s1"
    and "holdingsleep c i lk sl s1 = Ok (True, s1)"
    and "acquiresleep c j lk ch sl upd s1 = Sleep ch"
    and "releasesleep c lk ch upd s1 = Ok s2" and "slocked (sl s2) = 0"
proof -
  define s1 where "s1 = upd (\<lambda>l. l\<lparr>slocked := 1, spid := pid (procs s i)\<rparr>) s"
  have c1: "calm c s1" using assms(1) by (simp add: s1_def calm_upd)
  have sl1: "sl s1 = (sl s)\<lparr>slocked := 1, spid := pid (procs s i)\<rparr>" by (simp add: s1_def sl_upd)
  show thesis
  proof (rule that)
    show "acquiresleep c i lk ch sl upd s = Ok s1"
      using acquiresleep_calm [OF assms(1), of i ch] assms(2) by (simp add: s1_def)
    show "holdingsleep c i lk sl s1 = Ok (True, s1)"
      using holdingsleep_calm [OF c1, of i] sl1 by (simp add: s1_def upd_fields)
    show "acquiresleep c j lk ch sl upd s1 = Sleep ch"
      using acquiresleep_calm [OF c1, of j ch] sl1 by simp
    show "releasesleep c lk ch upd s1 = Ok (woken ch (upd (\<lambda>l. l\<lparr>slocked := 0, spid := 0\<rparr>) s1))"
      using releasesleep_calm [OF c1] .
    show "slocked (sl (woken ch (upd (\<lambda>l. l\<lparr>slocked := 0, spid := 0\<rparr>) s1))) = 0"
      by (simp add: sl_woken sl_upd)
  qed
qed

end

end
