(* ===== verification/Bio.thy ===== *)
theory Bio
  imports Sleeplock
begin

text \<open>
  kernel/bio.c: the buffer cache. The buffers form a doubly linked list through
  \<open>prev\<close> and \<open>next\<close>, most recently used first, with \<open>bcache.head\<close> as sentinel; the
  model keeps the pointers as indices into the array of buffers, \<open>NBUF\<close> being the
  sentinel. \<open>ring\<close> relates the pointers to the list of buffers they link; \<open>content\<close> is
  what the cache and the disk together hold for a block.
\<close>

section \<open>Buffers (kernel/buf.h)\<close>

abbreviation NBUF :: nat where "NBUF \<equiv> 30"
abbreviation BSIZE :: nat where "BSIZE \<equiv> 1024"

record buf =
  valid :: bool
  bdisk :: bool
  dev :: u32
  blockno :: u32
  blk :: sleeplock
  refcnt :: u32
  bprev :: nat
  bnext :: nat
  data :: "u8 list"

text \<open>
  \<open>disk\<close> is the content of the disk by block number, and \<open>disk_writes\<close> the history of
  the writes that made it.
\<close>

record kbio = kproc +
  bufs :: "nat \<Rightarrow> buf"
  disk :: "u32 \<Rightarrow> u8 list"
  disk_writes :: "(u32 \<times> u8 list) list"

definition upd_buf :: "nat \<Rightarrow> (buf \<Rightarrow> buf) \<Rightarrow> 'a kbio_scheme \<Rightarrow> 'a kbio_scheme" where
  "upd_buf b f s = s\<lparr>bufs := (bufs s)(b := f (bufs s b))\<rparr>"

definition upd_blk :: "nat \<Rightarrow> (sleeplock \<Rightarrow> sleeplock) \<Rightarrow> 'a kbio_scheme \<Rightarrow> 'a kbio_scheme" where
  "upd_blk b f s = upd_buf b (\<lambda>x. x\<lparr>blk := f (blk x)\<rparr>) s"

text \<open>
  The specification of the disk driver that the cache is built on: when \<open>virtio_disk_rw\<close> returns, the block has gone to
  the disk or come from it. It is not a translation of code: the driver is modelled in \<open>Virtio\<close>, and \<open>Virtio_Disk\<close> proves that a call of it has this effect,
  for blocks within the capacity of the disk (so below \<open>2\<^sup>3\<^sup>1\<close>, where the sector number
  \<open>2 * blockno\<close> does not wrap around) and a device that keeps to the virtio specification.
\<close>

definition disk_rw :: "nat \<Rightarrow> bool \<Rightarrow> 'a kbio_scheme \<Rightarrow> 'a kbio_scheme" where
  "disk_rw b write s =
     (let n = blockno (bufs s b); v = data (bufs s b)
      in if write then s\<lparr>disk := (disk s)(n := v), disk_writes := disk_writes s @ [(n, v)]\<rparr>
         else upd_buf b (\<lambda>x. x\<lparr>data := disk s n\<rparr>) s)"

section \<open>The operations of bio.c\<close>

fun binit_loop :: "nat list \<Rightarrow> 'a kbio_scheme \<Rightarrow> 'a kbio_scheme" where
  "binit_loop [] s = s"
| "binit_loop (b # bs) s =
     (let s1 = upd_buf b (\<lambda>x. x\<lparr>bnext := bnext (bufs s NBUF), bprev := NBUF\<rparr>) s;
          s2 = initsleeplock (Lk_buf b) (upd_blk b) s1;
          s3 = upd_buf (bnext (bufs s2 NBUF)) (\<lambda>x. x\<lparr>bprev := b\<rparr>) s2
      in binit_loop bs (upd_buf NBUF (\<lambda>x. x\<lparr>bnext := b\<rparr>) s3))"

definition binit :: "'a kbio_scheme \<Rightarrow> 'a kbio_scheme" where
  "binit s =
     (let s1 = initlock Lk_bcache s
      in binit_loop [0..<NBUF] (upd_buf NBUF (\<lambda>x. x\<lparr>bprev := NBUF, bnext := NBUF\<rparr>) s1))"

text \<open>A loop along the list from \<open>b\<close> that stops at the sentinel or at a buffer with \<open>P\<close>.\<close>

fun scan :: "nat \<Rightarrow> (nat \<Rightarrow> nat) \<Rightarrow> (nat \<Rightarrow> bool) \<Rightarrow> nat \<Rightarrow> nat option res" where
  "scan 0 nx P b = Nofuel"
| "scan (Suc k) nx P b = (if b = NBUF then Ok None else if P b then Ok (Some b) else scan k nx P (nx b))"

definition bget_slot :: "u32 \<Rightarrow> u32 \<Rightarrow> 'a kbio_scheme \<Rightarrow> (nat \<times> 'a kbio_scheme) res" where
  "bget_slot d bno s =
     bindr (scan (Suc NBUF) (\<lambda>b. bnext (bufs s b))
              (\<lambda>b. dev (bufs s b) = d \<and> blockno (bufs s b) = bno) (bnext (bufs s NBUF))) (\<lambda>r.
       case r of
         Some b \<Rightarrow> Ok (b, upd_buf b (\<lambda>x. x\<lparr>refcnt := refcnt x + 1\<rparr>) s)
       | None \<Rightarrow>
           bindr (scan (Suc NBUF) (\<lambda>b. bprev (bufs s b)) (\<lambda>b. refcnt (bufs s b) = 0) (bprev (bufs s NBUF))) (\<lambda>r'.
             case r' of
               Some b \<Rightarrow> Ok (b, upd_buf b (\<lambda>x. x\<lparr>dev := d, blockno := bno, valid := False, refcnt := 1\<rparr>) s)
             | None \<Rightarrow> Panic ''bget: no buffers''))"

definition bget :: "nat \<Rightarrow> nat \<Rightarrow> u32 \<Rightarrow> u32 \<Rightarrow> 'a kbio_scheme \<Rightarrow> (nat \<times> 'a kbio_scheme) res" where
  "bget c i d bno s =
     bindp (critical c Lk_bcache (bget_slot d bno) s) (\<lambda>b s1.
       bindr (acquiresleep c i (Lk_buf b) (Chan_buflock b) (\<lambda>s. blk (bufs s b)) (upd_blk b) s1) (\<lambda>s2.
         Ok (b, s2)))"

definition bread :: "nat \<Rightarrow> nat \<Rightarrow> u32 \<Rightarrow> u32 \<Rightarrow> 'a kbio_scheme \<Rightarrow> (nat \<times> 'a kbio_scheme) res" where
  "bread c i d bno s =
     bindp (bget c i d bno s) (\<lambda>b s1.
       if \<not> valid (bufs s1 b) then Ok (b, upd_buf b (\<lambda>x. x\<lparr>valid := True\<rparr>) (disk_rw b False s1))
       else Ok (b, s1))"

definition bwrite :: "nat \<Rightarrow> nat \<Rightarrow> nat \<Rightarrow> 'a kbio_scheme \<Rightarrow> 'a kbio_scheme res" where
  "bwrite c i b s =
     bindp (holdingsleep c i (Lk_buf b) (\<lambda>s. blk (bufs s b)) s) (\<lambda>h s1.
       if \<not> h then Panic ''bwrite'' else Ok (disk_rw b True s1))"

text \<open>The pointer assignments of \<open>brelse\<close>, in the order of the source.\<close>

definition to_front :: "nat \<Rightarrow> 'a kbio_scheme \<Rightarrow> 'a kbio_scheme" where
  "to_front b s =
     (let s1 = upd_buf (bnext (bufs s b)) (\<lambda>x. x\<lparr>bprev := bprev (bufs s b)\<rparr>) s;
          s2 = upd_buf (bprev (bufs s1 b)) (\<lambda>x. x\<lparr>bnext := bnext (bufs s1 b)\<rparr>) s1;
          s3 = upd_buf b (\<lambda>x. x\<lparr>bnext := bnext (bufs s2 NBUF), bprev := NBUF\<rparr>) s2;
          s4 = upd_buf (bnext (bufs s3 NBUF)) (\<lambda>x. x\<lparr>bprev := b\<rparr>) s3
      in upd_buf NBUF (\<lambda>x. x\<lparr>bnext := b\<rparr>) s4)"

definition brelse :: "nat \<Rightarrow> nat \<Rightarrow> nat \<Rightarrow> 'a kbio_scheme \<Rightarrow> 'a kbio_scheme res" where
  "brelse c i b s =
     bindp (holdingsleep c i (Lk_buf b) (\<lambda>s. blk (bufs s b)) s) (\<lambda>h s1.
       if \<not> h then Panic ''brelse''
       else bindr (releasesleep c (Lk_buf b) (Chan_buflock b) (upd_blk b) s1) (\<lambda>s2.
         bindp (critical c Lk_bcache (\<lambda>s3.
           let s4 = upd_buf b (\<lambda>x. x\<lparr>refcnt := refcnt x - 1\<rparr>) s3
           in Ok ((), if refcnt (bufs s4 b) = 0 then to_front b s4 else s4)) s2) (\<lambda>_ s5. Ok s5)))"

definition bpin :: "nat \<Rightarrow> nat \<Rightarrow> 'a kbio_scheme \<Rightarrow> 'a kbio_scheme res" where
  "bpin c b s =
     bindp (critical c Lk_bcache (\<lambda>s1. Ok ((), upd_buf b (\<lambda>x. x\<lparr>refcnt := refcnt x + 1\<rparr>) s1)) s) (\<lambda>_ s2. Ok s2)"

definition bunpin :: "nat \<Rightarrow> nat \<Rightarrow> 'a kbio_scheme \<Rightarrow> 'a kbio_scheme res" where
  "bunpin c b s =
     bindp (critical c Lk_bcache (\<lambda>s1. Ok ((), upd_buf b (\<lambda>x. x\<lparr>refcnt := refcnt x - 1\<rparr>) s1)) s) (\<lambda>_ s2. Ok s2)"

section \<open>The linked list\<close>

text \<open>\<open>seg n p a xs z\<close>: from \<open>a\<close>, the pointers \<open>n\<close> lead through \<open>xs\<close> to \<open>z\<close>, and \<open>p\<close> back.\<close>

primrec seg :: "(nat \<Rightarrow> nat) \<Rightarrow> (nat \<Rightarrow> nat) \<Rightarrow> nat \<Rightarrow> nat list \<Rightarrow> nat \<Rightarrow> bool" where
  "seg n p a [] z \<longleftrightarrow> n a = z \<and> p z = a"
| "seg n p a (x # xs) z \<longleftrightarrow> n a = x \<and> p x = a \<and> seg n p x xs z"

lemma seg_append [simp]: "seg n p a (xs @ y # ys) z \<longleftrightarrow> seg n p a xs y \<and> seg n p y ys z"
  by (induction xs arbitrary: a) auto

lemma seg_rev: "seg n p a xs z \<longleftrightarrow> seg p n z (rev xs) a"
  by (induction xs arbitrary: a) auto

lemma seg_cong:
  assumes "\<And>x. x \<in> insert a (set xs) \<Longrightarrow> n' x = n x" and "\<And>x. x \<in> insert z (set xs) \<Longrightarrow> p' x = p x"
  shows "seg n' p' a xs z = seg n p a xs z"
  using assms by (induction xs arbitrary: a) auto

lemma seg_ends:
  assumes "seg n p a xs z"
  shows "n a = hd (xs @ [z])" and "p z = last (a # xs)"
  using assms by (induction xs arbitrary: a) auto

lemma seg_unlink:
  assumes "seg n p a xs b" and "seg n p b ys z" and "distinct (xs @ b # ys)"
    and "a \<notin> set (xs @ b # ys)" and "z \<notin> set (xs @ b # ys)"
  shows "seg (n(p b := n b)) (p(n b := p b)) a (xs @ ys) z"
  using assms
proof (induction xs arbitrary: a)
  case Nil
  then show ?case
  proof (cases ys)
    case (Cons y ys')
    have "seg (n(a := y)) (p(y := a)) y ys' z = seg n p y ys' z"
      using Nil Cons by (intro seg_cong) auto
    then show ?thesis using Nil Cons by (simp add: fun_upd_def)
  qed simp
next
  case (Cons x xs)
  have "seg n p x xs b" using Cons.prems(1) by simp
  then have "p b = last (x # xs)" by (rule seg_ends(2))
  then have "p b \<in> set (x # xs)" by (auto split: if_splits)
  then have "p b \<noteq> a" using Cons.prems(4) by auto
  moreover have "n b = hd (ys @ [z])" using Cons.prems(2) by (rule seg_ends(1))
  then have "n b \<noteq> x" using Cons.prems(3,5) by (cases ys) auto
  ultimately show ?case using Cons by auto
qed

text \<open>The list the sentinel \<open>NBUF\<close> closes.\<close>

definition ring :: "(nat \<Rightarrow> nat) \<Rightarrow> (nat \<Rightarrow> nat) \<Rightarrow> nat list \<Rightarrow> bool" where
  "ring n p xs \<longleftrightarrow> seg n p NBUF xs NBUF \<and> distinct xs \<and> NBUF \<notin> set xs"

lemma scan_seg:
  assumes "seg n p a xs NBUF" and "NBUF \<notin> set xs" and "length xs < k"
  shows "scan k n P (n a) = Ok (find P xs)"
  using assms
proof (induction xs arbitrary: a k)
  case Nil
  then show ?case by (cases k) auto
next
  case (Cons x xs)
  then show ?case by (cases k) auto
qed

lemma scan_ring:
  assumes "ring n p xs" and "length xs < k"
  shows "scan k n P (n NBUF) = Ok (find P xs)" and "scan k p P (p NBUF) = Ok (find P (rev xs))"
  using scan_seg [of n p NBUF xs k P] scan_seg [of p n NBUF "rev xs" k P] assms
  by (simp_all add: ring_def flip: seg_rev)

lemma ring_unlink:
  assumes "ring n p (xs @ b # ys)"
  shows "ring (n(p b := n b)) (p(n b := p b)) (xs @ ys)"
  using assms seg_unlink [of n p NBUF xs b ys NBUF] by (auto simp: ring_def)

lemma ring_push:
  assumes "ring n p xs" and "b \<notin> set xs" and "b \<noteq> NBUF"
  shows "ring (n(b := n NBUF, NBUF := b)) (p(b := NBUF, n NBUF := b)) (b # xs)"
proof -
  have h: "n NBUF = hd (xs @ [NBUF])" using assms(1) seg_ends(1) by (auto simp: ring_def)
  show ?thesis
  proof (cases xs)
    case Nil
    then show ?thesis using assms by (auto simp: ring_def)
  next
    case (Cons y ys)
    have "seg (n(b := y, NBUF := b)) (p(b := NBUF, y := b)) y ys NBUF = seg n p y ys NBUF"
      using assms Cons by (intro seg_cong) (auto simp: ring_def)
    then show ?thesis using assms Cons by (auto simp: ring_def)
  qed
qed

section \<open>The operations on the list and the slots\<close>

definition nexts :: "'a kbio_scheme \<Rightarrow> nat \<Rightarrow> nat" where
  "nexts s b = bnext (bufs s b)"

definition prevs :: "'a kbio_scheme \<Rightarrow> nat \<Rightarrow> nat" where
  "prevs s b = bprev (bufs s b)"

text \<open>The order of use: most recently released first.\<close>

definition lru :: "'a kbio_scheme \<Rightarrow> nat list \<Rightarrow> bool" where
  "lru s xs \<longleftrightarrow> ring (nexts s) (prevs s) xs \<and> set xs = {..<NBUF}"

text \<open>A buffer without its list pointers.\<close>

definition slot :: "'a kbio_scheme \<Rightarrow> nat \<Rightarrow> buf" where
  "slot s b = (bufs s b)\<lparr>bprev := 0, bnext := 0\<rparr>"

lemma slot_fields [simp]:
  "valid (slot s b) = valid (bufs s b)" "dev (slot s b) = dev (bufs s b)" "blockno (slot s b) = blockno (bufs s b)"
  "blk (slot s b) = blk (bufs s b)" "refcnt (slot s b) = refcnt (bufs s b)" "data (slot s b) = data (bufs s b)"
  by (simp_all add: slot_def)

lemma lru_length: "lru s xs \<Longrightarrow> length xs < Suc NBUF"
  using distinct_card [of xs] by (simp add: lru_def ring_def)

lemma bget_slot_lru:
  assumes "lru s xs"
  shows "bget_slot d bno s =
    (case find (\<lambda>b. dev (bufs s b) = d \<and> blockno (bufs s b) = bno) xs of
       Some b \<Rightarrow> Ok (b, upd_buf b (\<lambda>x. x\<lparr>refcnt := refcnt x + 1\<rparr>) s)
     | None \<Rightarrow> (case find (\<lambda>b. refcnt (bufs s b) = 0) (rev xs) of
         Some b \<Rightarrow> Ok (b, upd_buf b (\<lambda>x. x\<lparr>dev := d, blockno := bno, valid := False, refcnt := 1\<rparr>) s)
       | None \<Rightarrow> Panic ''bget: no buffers''))"
proof -
  have r: "ring (\<lambda>b. bnext (bufs s b)) (\<lambda>b. bprev (bufs s b)) xs"
    using assms by (simp add: lru_def nexts_def [abs_def] prevs_def [abs_def])
  show ?thesis
    unfolding bget_slot_def scan_ring [OF r lru_length [OF assms]] by (simp split: option.split)
qed

lemma links_upd_buf:
  "nexts (upd_buf b f s) = (nexts s)(b := bnext (f (bufs s b)))"
  "prevs (upd_buf b f s) = (prevs s)(b := bprev (f (bufs s b)))"
  "slot (upd_buf b f s) = (slot s)(b := (f (bufs s b))\<lparr>bprev := 0, bnext := 0\<rparr>)"
  by (auto simp: nexts_def prevs_def slot_def upd_buf_def)

lemma links_fold: "bnext (bufs s b) = nexts s b" "bprev (bufs s b) = prevs s b"
  by (simp_all add: nexts_def prevs_def)

lemma slot_fold: "(bufs s b)\<lparr>bprev := 0, bnext := 0\<rparr> = slot s b"
  by (simp add: slot_def)

lemma lru_upd_buf:
  assumes "lru s xs" and "\<And>x. bnext (f x) = bnext x" and "\<And>x. bprev (f x) = bprev x"
  shows "lru (upd_buf b f s) xs"
proof -
  have "nexts (upd_buf b f s) = nexts s" "prevs (upd_buf b f s) = prevs s"
    using assms(2,3) by (auto simp: nexts_def prevs_def upd_buf_def)
  then show ?thesis using assms(1) by (simp add: lru_def)
qed

lemma to_front_links:
  assumes "lru s (xs @ b # ys)"
  shows "lru (to_front b s) (b # xs @ ys)" and "slot (to_front b s) = slot s"
proof -
  have r: "ring (nexts s) (prevs s) (xs @ b # ys)" and st: "set (xs @ b # ys) = {..<NBUF}"
    using assms by (simp_all add: lru_def)
  have b: "b \<noteq> NBUF" "b \<notin> set (xs @ ys)" using r by (auto simp: ring_def)
  have "nexts s b = hd (ys @ [NBUF])" using r seg_ends(1) [of "nexts s" "prevs s" b ys NBUF] by (simp add: ring_def)
  then have nb: "nexts s b \<noteq> b" using b by (cases ys) auto
  have "prevs s b = last (NBUF # xs)" using r seg_ends(2) [of "nexts s" "prevs s" NBUF xs b] by (simp add: ring_def)
  then have pb: "prevs s b \<noteq> b" using b last_in_set [of xs] by (auto split: if_splits)
  let ?n = "(nexts s)(prevs s b := nexts s b)" and ?p = "(prevs s)(nexts s b := prevs s b)"
  have "nexts (to_front b s) = ?n(b := ?n NBUF, NBUF := b)"
    using b nb pb by (simp add: to_front_def Let_def links_upd_buf links_fold fun_upd_idem)
  moreover have "prevs (to_front b s) = ?p(b := NBUF, ?n NBUF := b)"
    using b nb pb by (simp add: to_front_def Let_def links_upd_buf links_fold fun_upd_idem)
  ultimately have "ring (nexts (to_front b s)) (prevs (to_front b s)) (b # xs @ ys)"
    using ring_push [OF ring_unlink [OF r] b(2,1)] by simp
  then show "lru (to_front b s) (b # xs @ ys)" using st by (auto simp: lru_def)
  show "slot (to_front b s) = slot s"
    by (simp add: to_front_def Let_def links_upd_buf slot_fold fun_upd_idem)
qed

text \<open>\<open>binit\<close> builds the list.\<close>

lemma links_initsleeplock:
  "nexts (initsleeplock lk (upd_blk b) s) = nexts s" "prevs (initsleeplock lk (upd_blk b) s) = prevs s"
  by (auto simp: nexts_def prevs_def initsleeplock_def upd_blk_def upd_buf_def initlock_def)

lemma binit_loop_links:
  assumes "ring (nexts s) (prevs s) xs" and "distinct bs" and "set bs \<inter> set xs = {}" and "NBUF \<notin> set bs"
  shows "ring (nexts (binit_loop bs s)) (prevs (binit_loop bs s)) (rev bs @ xs)"
  using assms
proof (induction bs arbitrary: s xs)
  case (Cons b bs)
  define s1 where "s1 = upd_buf b (\<lambda>x. x\<lparr>bnext := bnext (bufs s NBUF), bprev := NBUF\<rparr>) s"
  define s2 where "s2 = initsleeplock (Lk_buf b) (upd_blk b) s1"
  define s3 where "s3 = upd_buf NBUF (\<lambda>x. x\<lparr>bnext := b\<rparr>) (upd_buf (bnext (bufs s2 NBUF)) (\<lambda>x. x\<lparr>bprev := b\<rparr>) s2)"
  have b: "b \<noteq> NBUF" "b \<notin> set xs" using Cons.prems by auto
  have n: "nexts s3 = (nexts s)(b := nexts s NBUF, NBUF := b)" "prevs s3 = (prevs s)(b := NBUF, nexts s NBUF := b)"
    using b by (simp_all add: s3_def s2_def s1_def links_upd_buf links_initsleeplock links_fold fun_upd_idem)
  have "ring (nexts s3) (prevs s3) (b # xs)" unfolding n by (rule ring_push [OF Cons.prems(1) b(2,1)])
  then have "ring (nexts (binit_loop bs s3)) (prevs (binit_loop bs s3)) (rev bs @ b # xs)"
    using Cons.prems by (intro Cons.IH) auto
  then show ?case by (simp add: Let_def s1_def s2_def s3_def)
qed simp

lemma binit_lru: "lru (binit s) (rev [0..<NBUF])"
proof -
  define s1 where "s1 = upd_buf NBUF (\<lambda>x. x\<lparr>bprev := NBUF, bnext := NBUF\<rparr>) (initlock Lk_bcache s)"
  have "ring (nexts s1) (prevs s1) []" by (simp add: ring_def nexts_def prevs_def s1_def upd_buf_def)
  then have "ring (nexts (binit s)) (prevs (binit s)) (rev [0..<NBUF] @ [])"
    unfolding binit_def Let_def s1_def by (intro binit_loop_links) auto
  then show ?thesis by (auto simp: lru_def)
qed

end
