(* ===== verification/Bio_Cache.thy ===== *)
theory Bio_Cache
  imports Bio
begin

text \<open>
  The contract of the buffer cache: \<open>bread\<close> returns a locked buffer with the
  content of the block, \<open>bwrite\<close> puts it on the disk, \<open>brelse\<close> gives it back, and no
  operation changes what the cache and the disk together hold for any other block.
\<close>

section \<open>Frame facts\<close>

interpretation buflock: sleeplock_at "Lk_buf b" "\<lambda>s. blk (bufs s b)" "upd_blk b" for b
  by unfold_locales
    (simp_all add: upd_blk_def upd_buf_def locked_state_def woken_def lock_defs)

lemma locked_state_bio [simp]:
  "bufs (locked_state c lk s) = bufs s" "disk (locked_state c lk s) = disk s"
  "disk_writes (locked_state c lk s) = disk_writes s"
  by (simp_all add: locked_state_def lock_defs)

lemma locked_state_upd_buf: "upd_buf b f (locked_state c lk s) = locked_state c lk (upd_buf b f s)"
  by (simp add: upd_buf_def locked_state_def lock_defs)

lemma locked_state_to_front: "to_front b (locked_state c lk s) = locked_state c lk (to_front b s)"
  by (simp add: to_front_def locked_state_upd_buf Let_def)

lemma woken_bio [simp]:
  "bufs (woken ch s) = bufs s" "disk (woken ch s) = disk s" "disk_writes (woken ch s) = disk_writes s"
  by (simp_all add: woken_def)

lemma upd_buf_fields [simp]:
  "bufs (upd_buf b f s) = (bufs s)(b := f (bufs s b))" "disk (upd_buf b f s) = disk s"
  "disk_writes (upd_buf b f s) = disk_writes s" "locks (upd_buf b f s) = locks s" "cpus (upd_buf b f s) = cpus s"
  "procs (upd_buf b f s) = procs s"
  by (simp_all add: upd_buf_def)

lemma to_front_fields [simp]:
  "disk (to_front b s) = disk s" "disk_writes (to_front b s) = disk_writes s" "locks (to_front b s) = locks s"
  "cpus (to_front b s) = cpus s" "procs (to_front b s) = procs s"
  by (simp_all add: to_front_def Let_def)

lemma calm_upd_buf [simp]: "calm c s \<Longrightarrow> calm c (upd_buf b f s)"
  by (erule calm_same) simp_all

lemma calm_to_front [simp]: "calm c s \<Longrightarrow> calm c (to_front b s)"
  by (erule calm_same) simp_all

lemma lru_locked [simp]: "lru (locked_state c lk s) xs = lru s xs"
  by (simp add: lru_def nexts_def [abs_def] prevs_def [abs_def])

lemma critical_bget_slot:
  assumes "calm c s" and "lru s xs"
  shows "critical c Lk_bcache (bget_slot d bno) s = bget_slot d bno s"
proof -
  have l: "lru (locked_state c Lk_bcache s) xs" using assms(2) by simp
  note g = bget_slot_lru [OF assms(2), of d bno] bget_slot_lru [OF l, of d bno]
  show ?thesis
  proof (cases "find (\<lambda>b. dev (bufs s b) = d \<and> blockno (bufs s b) = bno) xs")
    case (Some b)
    then show ?thesis
      using assms(1) g by (simp add: critical_calm locked_state_upd_buf)
  next
    case None
    then show ?thesis
      using assms(1) g
      by (cases "find (\<lambda>b. refcnt (bufs s b) = 0) (rev xs)")
        (simp_all add: critical_calm critical_calm_Panic locked_state_upd_buf)
  qed
qed

section \<open>The invariant and the content\<close>

definition cached :: "u32 \<Rightarrow> u32 \<Rightarrow> (nat \<Rightarrow> buf) \<Rightarrow> nat \<Rightarrow> bool" where
  "cached d n B i \<longleftrightarrow> i < NBUF \<and> dev (B i) = d \<and> blockno (B i) = n"

text \<open>
  A block of device \<open>d\<close> is cached at most once; a buffer nobody refers to is not
  locked and, if valid, agrees with the disk; blocks have \<open>BSIZE\<close> bytes.
\<close>

definition cache_ok :: "u32 \<Rightarrow> (nat \<Rightarrow> buf) \<Rightarrow> (u32 \<Rightarrow> u8 list) \<Rightarrow> bool" where
  "cache_ok d B D \<longleftrightarrow>
     (\<forall>n i j. cached d n B i \<and> cached d n B j \<longrightarrow> i = j) \<and>
     (\<forall>i < NBUF. refcnt (B i) = 0 \<longrightarrow> slocked (blk (B i)) = 0 \<and>
        (dev (B i) = d \<and> valid (B i) \<longrightarrow> data (B i) = D (blockno (B i)))) \<and>
     (\<forall>i < NBUF. dev (B i) = d \<and> valid (B i) \<longrightarrow> length (data (B i)) = BSIZE) \<and>
     (\<forall>n. length (D n) = BSIZE)"

definition bio_inv :: "u32 \<Rightarrow> 'a kbio_scheme \<Rightarrow> bool" where
  "bio_inv d s \<longleftrightarrow> (\<exists>xs. lru s xs) \<and> cache_ok d (slot s) (disk s)"

definition holds :: "u32 \<Rightarrow> u32 \<Rightarrow> (nat \<Rightarrow> buf) \<Rightarrow> nat \<Rightarrow> bool" where
  "holds d n B i \<longleftrightarrow> dev (B i) = d \<and> blockno (B i) = n \<and> valid (B i)"

definition content :: "u32 \<Rightarrow> (nat \<Rightarrow> buf) \<Rightarrow> (u32 \<Rightarrow> u8 list) \<Rightarrow> u32 \<Rightarrow> u8 list" where
  "content d B D n = (case find (holds d n B) [0..<NBUF] of Some i \<Rightarrow> data (B i) | None \<Rightarrow> D n)"

lemma content_cached:
  assumes "cache_ok d B D" and "cached d n B i" and "valid (B i)"
  shows "content d B D n = data (B i)"
proof -
  have "find (holds d n B) [0..<NBUF] \<noteq> None"
    using assms(2,3) by (auto simp: find_None_iff cached_def holds_def)
  then obtain j where f: "find (holds d n B) [0..<NBUF] = Some j" by blast
  have "j \<in> set [0..<NBUF]" "holds d n B j" using find_SomeD [OF f] by blast+
  then have "cached d n B j" by (auto simp: cached_def holds_def)
  then have "j = i" using assms(1,2) unfolding cache_ok_def by blast
  then show ?thesis using f by (simp add: content_def)
qed

lemma content_uncached:
  assumes "\<And>i. cached d n B i \<Longrightarrow> \<not> valid (B i)"
  shows "content d B D n = D n"
proof -
  have "find (holds d n B) [0..<NBUF] = None"
    using assms by (auto simp: find_None_iff cached_def holds_def)
  then show ?thesis by (simp add: content_def)
qed

lemma content_cases:
  assumes "cache_ok d B D"
  obtains (hit) i where "cached d n B i" "valid (B i)" "content d B D n = data (B i)"
  | (miss) "\<And>i. cached d n B i \<Longrightarrow> \<not> valid (B i)" "content d B D n = D n"
  using content_cached [OF assms] content_uncached by metis

text \<open>A change of one slot that keeps the content.\<close>

lemma content_eqI:
  assumes ok: "cache_ok d B D" and ok': "cache_ok d B' D'"
    and hit: "\<And>n i. cached d n B i \<Longrightarrow> valid (B i) \<Longrightarrow>
      (\<exists>j. cached d n B' j \<and> valid (B' j) \<and> data (B' j) = data (B i)) \<or>
      ((\<forall>j. cached d n B' j \<longrightarrow> \<not> valid (B' j)) \<and> D' n = data (B i))"
    and miss: "\<And>n. (\<And>i. cached d n B i \<Longrightarrow> \<not> valid (B i)) \<Longrightarrow>
      (\<exists>j. cached d n B' j \<and> valid (B' j) \<and> data (B' j) = D n) \<or>
      ((\<forall>j. cached d n B' j \<longrightarrow> \<not> valid (B' j)) \<and> D' n = D n)"
  shows "content d B' D' = content d B D"
proof
  fix n
  show "content d B' D' n = content d B D n"
    using ok
  proof (cases rule: content_cases [where n = n])
    case (hit i)
    then show ?thesis
      using assms(3) [OF hit(1,2)] content_cached [OF ok'] content_uncached by metis
  next
    case miss
    then show ?thesis
      using assms(4) [OF miss(1)] content_cached [OF ok'] content_uncached by metis
  qed
qed

lemma cache_okD:
  assumes "cache_ok d B D"
  shows "cached d n B i \<Longrightarrow> cached d n B j \<Longrightarrow> i = j"
    and "i < NBUF \<Longrightarrow> refcnt (B i) = 0 \<Longrightarrow> slocked (blk (B i)) = 0"
    and "i < NBUF \<Longrightarrow> refcnt (B i) = 0 \<Longrightarrow> dev (B i) = d \<Longrightarrow> valid (B i) \<Longrightarrow> data (B i) = D (blockno (B i))"
    and "i < NBUF \<Longrightarrow> dev (B i) = d \<Longrightarrow> valid (B i) \<Longrightarrow> length (data (B i)) = BSIZE"
    and "length (D n) = BSIZE"
  using assms unfolding cache_ok_def by blast+

lemma cache_ok_upd:
  assumes ok: "cache_ok d B D" and j: "j < NBUF"
    and uniq: "dev x = d \<Longrightarrow> \<forall>k. cached d (blockno x) B k \<longrightarrow> k = j"
    and clean: "refcnt x = 0 \<Longrightarrow> slocked (blk x) = 0 \<and> (dev x = d \<and> valid x \<longrightarrow> data x = D (blockno x))"
    and len: "dev x = d \<Longrightarrow> valid x \<Longrightarrow> length (data x) = BSIZE"
  shows "cache_ok d (B(j := x)) D"
  unfolding cache_ok_def
proof (intro conjI allI impI)
  show "i = k" if "cached d n (B(j := x)) i \<and> cached d n (B(j := x)) k" for n i k
    using that uniq cache_okD(1) [OF ok] by (auto simp: cached_def split: if_splits)
qed (use clean len cache_okD(2-5) [OF ok] in \<open>auto split: if_splits\<close>)

lemma content_upd:
  assumes ok: "cache_ok d B D" and ok': "cache_ok d (B(j := x)) D" and j: "j < NBUF"
    and x: "dev x = d" "valid x"
    and old: "dev (B j) = d \<and> blockno (B j) = blockno x \<or> refcnt (B j) = 0"
  shows "content d (B(j := x)) D = (content d B D)(blockno x := data x)"
proof
  fix n
  have cj: "cached d (blockno x) (B(j := x)) j" using j x by (simp add: cached_def)
  show "content d (B(j := x)) D n = ((content d B D)(blockno x := data x)) n"
  proof (cases "n = blockno x")
    case True
    then show ?thesis using content_cached [OF ok' cj] x by simp
  next
    case False
    have other: "cached d n (B(j := x)) k \<longleftrightarrow> k \<noteq> j \<and> cached d n B k" for k
      using False by (auto simp: cached_def)
    from ok have "content d (B(j := x)) D n = content d B D n"
    proof (cases rule: content_cases [where n = n])
      case (hit i)
      show ?thesis
      proof (cases "i = j")
        case True
        then have "data (B j) = D n"
          using hit old False cache_okD(3) [OF ok j] by (auto simp: cached_def)
        moreover have "content d (B(j := x)) D n = D n"
          using True hit(1) cache_okD(1) [OF ok] by (intro content_uncached) (auto simp: other)
        ultimately show ?thesis using hit True by simp
      next
        case False
        then show ?thesis using hit content_cached [OF ok', of n i] by (simp add: other)
      qed
    next
      case miss
      then have "content d (B(j := x)) D n = D n" by (intro content_uncached) (auto simp: other)
      then show ?thesis using miss(2) by simp
    qed
    then show ?thesis using False by simp
  qed
qed

lemma cache_ok_disk:
  assumes ok: "cache_ok d B D" and j: "cached d n B j" "valid (B j)"
  shows "cache_ok d B (D(n := data (B j)))" and "content d B (D(n := data (B j))) = content d B D"
proof -
  show ok': "cache_ok d B (D(n := data (B j)))"
    unfolding cache_ok_def
  proof (intro conjI allI impI)
    show "data (B i) = (D(n := data (B j))) (blockno (B i))"
      if "i < NBUF" "refcnt (B i) = 0" "dev (B i) = d \<and> valid (B i)" for i
    proof (cases "blockno (B i) = n")
      case True
      then have "i = j" using that j cache_okD(1) [OF ok, of n i j] by (simp add: cached_def)
      then show ?thesis using True by simp
    qed (use that cache_okD(3) [OF ok] in simp)
  qed (use j cache_okD [OF ok] in \<open>auto simp: cached_def\<close>)
  show "content d B (D(n := data (B j))) = content d B D"
  proof
    fix m
    show "content d B (D(n := data (B j))) m = content d B D m"
      using ok
    proof (cases rule: content_cases [where n = m])
      case (hit i)
      then show ?thesis using content_cached [OF ok'] by simp
    next
      case miss
      then have "m \<noteq> n" using j by blast
      then show ?thesis using miss content_uncached [of d m B "D(n := data (B j))"] by simp
    qed
  qed
qed

section \<open>bread, bwrite and brelse\<close>

lemma slot_bufs: "slot (s\<lparr>bufs := (bufs s)(j := x)\<rparr>) = (slot s)(j := x\<lparr>bprev := 0, bnext := 0\<rparr>)"
  by (rule ext) (simp add: slot_def)

lemma cached_slot [simp]: "cached d n (slot s) j = cached d n (bufs s) j"
  by (simp add: cached_def)

lemma find_lru:
  assumes "lru s xs" and "P j" and "j < NBUF" and "\<And>k. k < NBUF \<Longrightarrow> P k \<Longrightarrow> k = j"
  shows "find P xs = Some j"
proof -
  have j: "j \<in> set xs" using assms(1,3) by (simp add: lru_def)
  then have "find P xs \<noteq> None" using assms(2) by (auto simp: find_None_iff)
  then obtain k where k: "find P xs = Some k" by blast
  have "P k" "k \<in> set xs" using find_SomeD [OF k] by simp_all
  then have "k = j" using assms(1) by (intro assms(4)) (simp_all add: lru_def)
  then show ?thesis using k by simp
qed

text \<open>The buffer of a cached block, or the least recently used free buffer.\<close>

lemma bget_hit:
  assumes "calm c s" and inv: "bio_inv d s" and j: "cached d n (bufs s) j"
  shows "bget c i d n s = (if slocked (blk (bufs s j)) \<noteq> 0 then Sleep (Chan_buflock j)
    else Ok (j, upd_buf j (\<lambda>x. x\<lparr>refcnt := refcnt x + 1, blk := \<lparr>slocked = 1, spid = pid (procs s i)\<rparr>\<rparr>) s))"
proof -
  obtain xs where xs: "lru s xs" and ok: "cache_ok d (slot s) (disk s)" using inv by (auto simp: bio_inv_def)
  have "find (\<lambda>b. dev (bufs s b) = d \<and> blockno (bufs s b) = n) xs = Some j"
  proof (rule find_lru [OF xs])
    show "k = j" if "k < NBUF" "dev (bufs s k) = d \<and> blockno (bufs s k) = n" for k
      by (rule cache_okD(1) [OF ok, of n]) (use that j in \<open>simp_all add: cached_def\<close>)
  qed (use j in \<open>simp_all add: cached_def\<close>)
  then have g: "critical c Lk_bcache (bget_slot d n) s = Ok (j, upd_buf j (\<lambda>x. x\<lparr>refcnt := refcnt x + 1\<rparr>) s)"
    using critical_bget_slot [OF assms(1) xs, of d n] bget_slot_lru [OF xs, of d n] by simp
  show ?thesis
    using assms(1)
    by (simp add: bget_def g buflock.acquiresleep_calm)
      (simp add: upd_blk_def upd_buf_def sleeplock_set)
qed

lemma bget_miss:
  assumes "calm c s" and xs: "lru s xs" and ok: "cache_ok d (slot s) (disk s)"
    and none: "\<And>j. \<not> cached d n (bufs s) j"
  shows "bget c i d n s = (case find (\<lambda>b. refcnt (bufs s b) = 0) (rev xs) of
      None \<Rightarrow> Panic ''bget: no buffers''
    | Some j \<Rightarrow> Ok (j, upd_buf j (\<lambda>x. x\<lparr>dev := d, blockno := n, valid := False, refcnt := 1,
        blk := \<lparr>slocked = 1, spid = pid (procs s i)\<rparr>\<rparr>) s))"
proof -
  have f: "find (\<lambda>b. dev (bufs s b) = d \<and> blockno (bufs s b) = n) xs = None"
    using none xs by (auto simp: find_None_iff cached_def lru_def)
  note g = critical_bget_slot [OF assms(1) xs, of d n] bget_slot_lru [OF xs, of d n]
  show ?thesis
  proof (cases "find (\<lambda>b. refcnt (bufs s b) = 0) (rev xs)")
    case None
    then show ?thesis using f g by (simp add: bget_def)
  next
    case (Some j)
    then have "j \<in> set xs" "refcnt (bufs s j) = 0" using find_SomeD [OF Some] by simp_all
    then have "slocked (blk (bufs s j)) = 0" using cache_okD(2) [OF ok, of j] xs by (simp add: lru_def)
    then show ?thesis
      using f g Some assms(1)
      by (simp add: bget_def buflock.acquiresleep_calm)
        (simp add: upd_blk_def upd_buf_def sleeplock_set)
  qed
qed

text \<open>A slot can be had for block \<open>n\<close>: its unlocked buffer, or a buffer nobody refers to.\<close>

definition available :: "u32 \<Rightarrow> u32 \<Rightarrow> 'a kbio_scheme \<Rightarrow> bool" where
  "available d n s \<longleftrightarrow>
     (\<exists>j. cached d n (bufs s) j \<and> slocked (blk (bufs s j)) = 0 \<and> refcnt (bufs s j) \<noteq> - 1) \<or>
     (\<forall>j. \<not> cached d n (bufs s) j) \<and> (\<exists>j < NBUF. refcnt (bufs s j) = 0)"

text \<open>The buffer after \<open>bread\<close>.\<close>

definition read_buf :: "u32 \<Rightarrow> u32 \<Rightarrow> int \<Rightarrow> u8 list \<Rightarrow> buf \<Rightarrow> buf" where
  "read_buf d n p v x = x\<lparr>valid := True, dev := d, blockno := n, blk := \<lparr>slocked = 1, spid = p\<rparr>,
     refcnt := (if dev x = d \<and> blockno x = n then refcnt x + 1 else 1), data := v\<rparr>"

lemma read_buf_fields [simp]:
  "valid (read_buf d n p v x)" "dev (read_buf d n p v x) = d" "blockno (read_buf d n p v x) = n"
  "blk (read_buf d n p v x) = \<lparr>slocked = 1, spid = p\<rparr>" "data (read_buf d n p v x) = v"
  "bnext (read_buf d n p v x) = bnext x" "bprev (read_buf d n p v x) = bprev x"
  "refcnt (read_buf d n p v x) = (if dev x = d \<and> blockno x = n then refcnt x + 1 else 1)"
  by (simp_all add: read_buf_def)

lemma bread_value:
  assumes calm: "calm c s" and inv: "bio_inv d s" and av: "available d n s"
  obtains j where "bread c i d n s = Ok (j, upd_buf j (read_buf d n (pid (procs s i)) (content d (slot s) (disk s) n)) s)"
    and "j < NBUF" and "slocked (blk (bufs s j)) = 0"
    and "cached d n (bufs s) j \<and> refcnt (bufs s j) \<noteq> - 1 \<or>
      refcnt (bufs s j) = 0 \<and> (\<forall>k. \<not> cached d n (bufs s) k)"
proof -
  obtain xs where xs: "lru s xs" and ok: "cache_ok d (slot s) (disk s)" using inv by (auto simp: bio_inv_def)
  let ?v = "content d (slot s) (disk s) n"
  from av consider (hit) j where "cached d n (bufs s) j" "slocked (blk (bufs s j)) = 0" "refcnt (bufs s j) \<noteq> - 1"
    | (miss) k where "\<And>j. \<not> cached d n (bufs s) j" "k < NBUF" "refcnt (bufs s k) = 0"
    unfolding available_def by blast
  then show thesis
  proof cases
    case (hit j)
    have g: "bget c i d n s =
        Ok (j, upd_buf j (\<lambda>x. x\<lparr>refcnt := refcnt x + 1, blk := \<lparr>slocked = 1, spid = pid (procs s i)\<rparr>\<rparr>) s)"
      using bget_hit [OF calm inv hit(1)] hit(2) by simp
    have jf: "j < NBUF" "dev (bufs s j) = d" "blockno (bufs s j) = n" using hit(1) by (simp_all add: cached_def)
    have v: "?v = (if valid (bufs s j) then data (bufs s j) else disk s n)"
    proof (cases "valid (bufs s j)")
      case True
      then show ?thesis using content_cached [OF ok, of n j] hit(1) by simp
    next
      case False
      have "\<not> valid (slot s k)" if "cached d n (slot s) k" for k
        using cache_okD(1) [OF ok that, of j] hit(1) False by simp
      then show ?thesis using content_uncached [of d n "slot s" "disk s"] False by simp
    qed
    have "bread c i d n s = Ok (j, upd_buf j (read_buf d n (pid (procs s i)) ?v) s)"
      using jf v by (cases "bufs s j") (simp add: bread_def g disk_rw_def upd_buf_def read_buf_def Let_def)
    then show thesis using that jf(1) hit by blast
  next
    case (miss k)
    have "find (\<lambda>b. refcnt (bufs s b) = 0) (rev xs) \<noteq> None"
      using miss(2,3) xs by (auto simp: find_None_iff lru_def)
    then obtain j where f: "find (\<lambda>b. refcnt (bufs s b) = 0) (rev xs) = Some j" by blast
    have jf: "j < NBUF" "refcnt (bufs s j) = 0" using find_SomeD [OF f] xs by (simp_all add: lru_def)
    have g: "bget c i d n s = Ok (j, upd_buf j (\<lambda>x. x\<lparr>dev := d, blockno := n, valid := False, refcnt := 1,
        blk := \<lparr>slocked = 1, spid = pid (procs s i)\<rparr>\<rparr>) s)"
      using bget_miss [OF calm xs ok miss(1), of i] f by simp
    have nc: "\<not> (dev (bufs s j) = d \<and> blockno (bufs s j) = n)" using miss(1) [of j] jf(1) by (simp add: cached_def)
    have "?v = disk s n" using miss(1) by (intro content_uncached) simp
    then have "bread c i d n s = Ok (j, upd_buf j (read_buf d n (pid (procs s i)) ?v) s)"
      using nc by (cases "bufs s j") (auto simp: bread_def g disk_rw_def upd_buf_def read_buf_def Let_def)
    then show thesis using that jf miss(1) cache_okD(2) [OF ok, of j] by simp
  qed
qed

lemma bio_inv_read:
  assumes inv: "bio_inv d s" and j: "j < NBUF"
    and free: "cached d n (bufs s) j \<and> refcnt (bufs s j) \<noteq> - 1 \<or>
      refcnt (bufs s j) = 0 \<and> (\<forall>k. \<not> cached d n (bufs s) k)"
    and s': "s' = upd_buf j (read_buf d n p (content d (slot s) (disk s) n)) s"
  shows "bio_inv d s'" and "content d (slot s') (disk s') = content d (slot s) (disk s)"
proof -
  obtain xs where xs: "lru s xs" and ok: "cache_ok d (slot s) (disk s)" using inv by (auto simp: bio_inv_def)
  let ?C = "content d (slot s) (disk s)"
  define x where "x = (read_buf d n p (?C n) (bufs s j))\<lparr>bprev := 0, bnext := 0\<rparr>"
  have x: "dev x = d" "blockno x = n" "valid x" "data x = ?C n"
    "refcnt x = (if dev (bufs s j) = d \<and> blockno (bufs s j) = n then refcnt (bufs s j) + 1 else 1)"
    by (simp_all add: x_def)
  have sl: "slot s' = (slot s)(j := x)" unfolding s' x_def by (rule links_upd_buf(3))
  have d': "disk s' = disk s" by (simp add: s')
  have len: "length (?C n) = BSIZE"
    using ok by (cases rule: content_cases [where n = n]) (use cache_okD(4,5) [OF ok] in \<open>auto simp: cached_def\<close>)
  have uniq: "\<forall>k. cached d n (slot s) k \<longrightarrow> k = j"
    using free cache_okD(1) [OF ok, of n _ j] by auto
  have nz: "refcnt x \<noteq> 0"
    using free x(5) by (auto simp: cached_def eq_neg_iff_add_eq_0)
  have ok': "cache_ok d ((slot s)(j := x)) (disk s)"
    by (rule cache_ok_upd [OF ok j]) (use x uniq nz len in simp_all)
  have lr: "lru s' xs" unfolding s' by (rule lru_upd_buf [OF xs]) simp_all
  show "bio_inv d s'" unfolding bio_inv_def sl d' using ok' lr by blast
  have "content d ((slot s)(j := x)) (disk s) = ?C(blockno x := data x)"
    by (rule content_upd [OF ok ok' j x(1,3)]) (use free x in \<open>auto simp: cached_def\<close>)
  then show "content d (slot s') (disk s') = ?C" using x by (simp add: sl d')
qed

text \<open>What \<open>brelse\<close> leaves in the slot it is given.\<close>

definition drop_ref :: "buf \<Rightarrow> buf" where
  "drop_ref x = x\<lparr>blk := \<lparr>slocked = 0, spid = 0\<rparr>, refcnt := refcnt x - 1\<rparr>"

lemma drop_ref_fields [simp]:
  "valid (drop_ref x) = valid x" "dev (drop_ref x) = dev x" "blockno (drop_ref x) = blockno x"
  "data (drop_ref x) = data x" "refcnt (drop_ref x) = refcnt x - 1" "slocked (blk (drop_ref x)) = 0"
  "bnext (drop_ref x) = bnext x" "bprev (drop_ref x) = bprev x"
  by (simp_all add: drop_ref_def)

lemma drop_ref_links: "(drop_ref x)\<lparr>bprev := m, bnext := n\<rparr> = drop_ref (x\<lparr>bprev := m, bnext := n\<rparr>)"
  by (cases x) (simp add: drop_ref_def)

definition locked_by :: "'a kbio_scheme \<Rightarrow> nat \<Rightarrow> nat \<Rightarrow> bool" where
  "locked_by s i j \<longleftrightarrow> slocked (blk (bufs s j)) \<noteq> 0 \<and> spid (blk (bufs s j)) = pid (procs s i)"

lemma bwrite_value:
  assumes "calm c s"
  shows "bwrite c i j s = (if locked_by s i j then Ok (disk_rw j True s) else Panic ''bwrite'')"
  using buflock.holdingsleep_calm [OF assms, of i j] by (simp add: bwrite_def locked_by_def)

lemma to_front_bufs: "to_front b s = s\<lparr>bufs := bufs (to_front b s)\<rparr>"
  by (simp add: to_front_def upd_buf_def Let_def)

lemma brelse_value:
  assumes calm: "calm c s" and j: "locked_by s i j"
  shows "brelse c i j s = Ok (let s1 = upd_buf j drop_ref (woken (Chan_buflock j) s)
    in if refcnt (bufs s1 j) = 0 then to_front j s1 else s1)"
proof -
  define w where "w = woken (Chan_buflock j) (upd_blk j (\<lambda>l. l\<lparr>slocked := 0, spid := 0\<rparr>) s)"
  have h: "holdingsleep c i (Lk_buf j) (\<lambda>s. blk (bufs s j)) s = Ok (True, s)"
    using buflock.holdingsleep_calm [OF calm, of i j] j by (simp add: locked_by_def)
  have r: "releasesleep c (Lk_buf j) (Chan_buflock j) (upd_blk j) s = Ok w"
    using buflock.releasesleep_calm [OF calm] by (simp add: w_def)
  have cw: "calm c w" unfolding w_def by (intro calm_woken buflock.calm_upd calm)
  define s4 where "s4 = upd_buf j (\<lambda>x. x\<lparr>refcnt := refcnt x - 1\<rparr>) w"
  have w4: "s4 = upd_buf j drop_ref (woken (Chan_buflock j) s)"
    by (cases "bufs s j")
      (simp add: s4_def w_def upd_blk_def upd_buf_def woken_def drop_ref_def sleeplock_set)
  have "critical c Lk_bcache (\<lambda>s3.
      let s4 = upd_buf j (\<lambda>x. x\<lparr>refcnt := refcnt x - 1\<rparr>) s3
      in Ok ((), if refcnt (bufs s4 j) = 0 then to_front j s4 else s4)) w =
    Ok ((), if refcnt (bufs s4 j) = 0 then to_front j s4 else s4)"
    using cw by (intro critical_calm)
      (simp_all add: s4_def locked_state_upd_buf locked_state_to_front Let_def)
  then show ?thesis by (simp add: brelse_def h r Let_def w4)
qed

lemma brelse_Panic: "calm c s \<Longrightarrow> \<not> locked_by s i j \<Longrightarrow> brelse c i j s = Panic ''brelse''"
  using buflock.holdingsleep_calm [of c s i j] by (simp add: brelse_def locked_by_def)

section \<open>Steps of the buffer cache\<close>

text \<open>The operations touch only the process table, the buffers and the disk.\<close>

definition same_procs :: "(nat \<Rightarrow> proc) \<Rightarrow> (nat \<Rightarrow> proc) \<Rightarrow> bool" where
  "same_procs P Q \<longleftrightarrow> (\<forall>k. pid (P k) = pid (Q k) \<and> pagetable (P k) = pagetable (Q k))"

lemma same_procs_refl [simp]: "same_procs P P"
  by (simp add: same_procs_def)

definition touch :: "'a kbio_scheme \<Rightarrow> 'a kbio_scheme \<Rightarrow> bool" where
  "touch s s' \<longleftrightarrow> (\<exists>P B D W. s' = s\<lparr>procs := P, bufs := B, disk := D, disk_writes := W\<rparr> \<and>
     same_procs P (procs s))"

lemma touchI:
  assumes "s' = s\<lparr>procs := P, bufs := B, disk := D, disk_writes := W\<rparr>" and "same_procs P (procs s)"
  shows "touch s s'"
  using assms unfolding touch_def by blast

lemma touch_refl [simp]: "touch s s"
  by (rule touchI [where P = "procs s" and B = "bufs s" and D = "disk s" and W = "disk_writes s"]) simp_all

lemma touch_trans:
  assumes "touch s s1" and "touch s1 s2"
  shows "touch s s2"
proof -
  obtain P B D W where 1: "s1 = s\<lparr>procs := P, bufs := B, disk := D, disk_writes := W\<rparr>" "same_procs P (procs s)"
    using assms(1) unfolding touch_def by blast
  obtain P' B' D' W' where 2: "s2 = s1\<lparr>procs := P', bufs := B', disk := D', disk_writes := W'\<rparr>"
    "same_procs P' (procs s1)"
    using assms(2) unfolding touch_def by blast
  show ?thesis
    by (rule touchI [where P = P' and B = B' and D = D' and W = W']) (use 1 2 in \<open>simp_all add: same_procs_def\<close>)
qed

lemma touch_pid: "touch s s' \<Longrightarrow> pid (procs s' k) = pid (procs s k)"
  "touch s s' \<Longrightarrow> pagetable (procs s' k) = pagetable (procs s k)" "touch s s' \<Longrightarrow> pmem s' = pmem s"
  unfolding touch_def same_procs_def by auto

lemma touch_calm: "touch s s' \<Longrightarrow> calm c s \<Longrightarrow> calm c s'"
  unfolding touch_def by (auto elim!: calm_same)

lemma touch_upd_buf: "touch s (upd_buf j f s)"
  by (rule touchI [where P = "procs s" and B = "(bufs s)(j := f (bufs s j))" and D = "disk s" and W = "disk_writes s"])
    (simp_all add: upd_buf_def)

lemma touch_disk_rw: "touch s (disk_rw j True s)"
  by (rule touchI [where P = "procs s" and B = "bufs s" and D = "disk (disk_rw j True s)"
        and W = "disk_writes (disk_rw j True s)"]) (simp_all add: disk_rw_def Let_def)

lemma touch_woken: "touch s ((woken ch s)\<lparr>bufs := B\<rparr>)"
  by (rule touchI [where P = "procs (woken ch s)" and B = B and D = "disk s" and W = "disk_writes s"])
    (simp_all add: same_procs_def woken_def wake_all_def wake_def)

abbreviation bview :: "u32 \<Rightarrow> 'a kbio_scheme \<Rightarrow> u32 \<Rightarrow> u8 list" where
  "bview d s \<equiv> content d (slot s) (disk s)"

lemma bview_length:
  assumes "bio_inv d s"
  shows "length (bview d s n) = BSIZE"
proof -
  have ok: "cache_ok d (slot s) (disk s)" using assms by (simp add: bio_inv_def)
  then show ?thesis
    by (cases rule: content_cases [where n = n]) (use cache_okD(4,5) [OF ok] in \<open>auto simp: cached_def\<close>)
qed

lemma bread_step:
  assumes calm: "calm c s" and inv: "bio_inv d s" and av: "available d n s"
  obtains j s1 where "bread c i d n s = Ok (j, s1)" and "j < NBUF" and "touch s s1" and "bio_inv d s1"
    and "disk s1 = disk s" "disk_writes s1 = disk_writes s" "bview d s1 = bview d s"
    and "\<And>k. k \<noteq> j \<Longrightarrow> slot s1 k = slot s k"
    and "dev (bufs s1 j) = d" "blockno (bufs s1 j) = n" "valid (bufs s1 j)" "data (bufs s1 j) = bview d s n"
    and "locked_by s1 i j" "refcnt (bufs s1 j) = refcnt (bufs s j) + 1" "refcnt (bufs s1 j) \<noteq> 0"
    and "slocked (blk (bufs s j)) = 0"
    and "cached d n (bufs s) j \<or> refcnt (bufs s j) = 0 \<and> (\<forall>k. \<not> cached d n (bufs s) k)"
proof -
  obtain j where j: "bread c i d n s = Ok (j, upd_buf j (read_buf d n (pid (procs s i)) (bview d s n)) s)"
    "j < NBUF" "slocked (blk (bufs s j)) = 0"
    "cached d n (bufs s) j \<and> refcnt (bufs s j) \<noteq> - 1 \<or> refcnt (bufs s j) = 0 \<and> (\<forall>k. \<not> cached d n (bufs s) k)"
    using bread_value [OF calm inv av] by blast
  define s1 where "s1 = upd_buf j (read_buf d n (pid (procs s i)) (bview d s n)) s"
  note i1 = bio_inv_read [OF inv j(2) j(4) s1_def]
  have r: "refcnt (bufs s1 j) = refcnt (bufs s j) + 1"
    using j(2,4) by (auto simp: s1_def cached_def)
  have "refcnt (bufs s1 j) \<noteq> 0" using j(4) unfolding r by (auto simp: eq_neg_iff_add_eq_0)
  then show thesis
    using that [of j s1] j i1 r touch_upd_buf [of s j "read_buf d n (pid (procs s i)) (bview d s n)"]
    by (auto simp: s1_def locked_by_def slot_def)
qed

lemma modify_step:
  assumes inv: "bio_inv d s" and j: "j < NBUF" "dev (bufs s j) = d" "valid (bufs s j)" "refcnt (bufs s j) \<noteq> 0"
    and v: "length v = BSIZE"
  shows "bio_inv d (upd_buf j (\<lambda>x. x\<lparr>data := v\<rparr>) s)"
    and "bview d (upd_buf j (\<lambda>x. x\<lparr>data := v\<rparr>) s) = (bview d s)(blockno (bufs s j) := v)"
proof -
  obtain xs where xs: "lru s xs" and ok: "cache_ok d (slot s) (disk s)" using inv by (auto simp: bio_inv_def)
  let ?s = "upd_buf j (\<lambda>x. x\<lparr>data := v\<rparr>) s"
  define x where "x = (slot s j)\<lparr>data := v\<rparr>"
  have sl: "slot ?s = (slot s)(j := x)" unfolding links_upd_buf x_def slot_def by (cases "bufs s j") simp
  have x: "dev x = d" "valid x" "blockno x = blockno (bufs s j)" "data x = v" "refcnt x \<noteq> 0"
    using j by (simp_all add: x_def)
  have uniq: "\<forall>k. cached d (blockno x) (slot s) k \<longrightarrow> k = j"
    using j cache_okD(1) [OF ok, of _ _ j] by (simp add: x(3)) (simp add: cached_def)
  have ok': "cache_ok d ((slot s)(j := x)) (disk s)"
    by (rule cache_ok_upd [OF ok j(1)]) (use x v uniq in simp_all)
  have "lru ?s xs" by (rule lru_upd_buf [OF xs]) simp_all
  then show "bio_inv d ?s" unfolding bio_inv_def sl using ok' by auto
  show "bview d ?s = (bview d s)(blockno (bufs s j) := v)"
    using content_upd [OF ok ok' j(1) x(1,2)] j unfolding sl by (simp add: x)
qed

lemma write_step:
  assumes inv: "bio_inv d s" and j: "j < NBUF" "dev (bufs s j) = d" "valid (bufs s j)"
  shows "bio_inv d (disk_rw j True s)" and "bview d (disk_rw j True s) = bview d s"
    and "disk (disk_rw j True s) = (disk s)(blockno (bufs s j) := data (bufs s j))"
    and "disk_writes (disk_rw j True s) = disk_writes s @ [(blockno (bufs s j), data (bufs s j))]"
    and "bufs (disk_rw j True s) = bufs s" and "procs (disk_rw j True s) = procs s"
proof -
  obtain xs where xs: "lru s xs" and ok: "cache_ok d (slot s) (disk s)" using inv by (auto simp: bio_inv_def)
  have c: "cached d (blockno (bufs s j)) (slot s) j" "valid (slot s j)" using j by (simp_all add: cached_def)
  have b: "bufs (disk_rw j True s) = bufs s" by (simp add: disk_rw_def Let_def)
  then have sl: "slot (disk_rw j True s) = slot s" by (auto simp: slot_def)
  have d': "disk (disk_rw j True s) = (disk s)(blockno (bufs s j) := data (slot s j))"
    by (simp add: disk_rw_def Let_def)
  have "lru (disk_rw j True s) xs" using xs b by (simp add: lru_def nexts_def [abs_def] prevs_def [abs_def])
  then show "bio_inv d (disk_rw j True s)"
    unfolding bio_inv_def sl d' using cache_ok_disk(1) [OF ok c] by auto
  show "bview d (disk_rw j True s) = bview d s" unfolding sl d' by (rule cache_ok_disk(2) [OF ok c])
qed (simp_all add: disk_rw_def Let_def)

text \<open>A change of the counts and the locks only, not of what the buffers hold.\<close>

definition same_block :: "buf \<Rightarrow> buf \<Rightarrow> bool" where
  "same_block x y \<longleftrightarrow> dev x = dev y \<and> blockno x = blockno y \<and> valid x = valid y \<and> data x = data y"

lemma counts_inv:
  assumes inv: "bio_inv d s" and l: "lru s' xs" and D: "disk s' = disk s"
    and same: "\<And>k. same_block (slot s' k) (slot s k)"
    and free: "\<And>k. k < NBUF \<Longrightarrow> refcnt (slot s' k) = 0 \<Longrightarrow> slocked (blk (slot s' k)) = 0 \<and>
      (dev (slot s k) = d \<and> valid (slot s k) \<longrightarrow> data (slot s k) = disk s (blockno (slot s k)))"
  shows "bio_inv d s'" and "bview d s' = bview d s"
proof -
  have ok: "cache_ok d (slot s) (disk s)" using inv by (simp add: bio_inv_def)
  have f: "dev (slot s' k) = dev (slot s k)" "blockno (slot s' k) = blockno (slot s k)"
    "valid (slot s' k) = valid (slot s k)" "data (slot s' k) = data (slot s k)" for k
    using same by (simp_all add: same_block_def)
  have c: "cached d n (slot s') = cached d n (slot s)" for n by (rule ext) (simp only: cached_def f)
  have "cache_ok d (slot s') (disk s')"
    using ok free unfolding cache_ok_def c D f by blast
  then show "bio_inv d s'" using l by (auto simp: bio_inv_def)
  show "bview d s' = bview d s"
    by (rule ext) (simp only: content_def holds_def [abs_def] f D)
qed

lemma brelse_slots:
  assumes calm: "calm c s" and j: "j < NBUF" "locked_by s i j" and xs: "lru s xs"
  obtains s1 where "brelse c i j s = Ok s1" and "touch s s1" and "lru s1 (if refcnt (bufs s j) = 1 then j # remove1 j xs else xs)"
    and "disk s1 = disk s" "disk_writes s1 = disk_writes s" "slot s1 = (slot s)(j := drop_ref (slot s j))"
proof -
  define w where "w = woken (Chan_buflock j) s"
  define s1 where "s1 = upd_buf j drop_ref w"
  define s' where "s' = (if refcnt (bufs s1 j) = 0 then to_front j s1 else s1)"
  have w: "lru w xs" "slot w = slot s"
    using xs by (simp_all add: w_def lru_def nexts_def [abs_def] prevs_def [abs_def] slot_def [abs_def])
  have l1: "lru s1 xs" unfolding s1_def by (rule lru_upd_buf [OF w(1)]) simp_all
  have sl1: "slot s1 = (slot s)(j := drop_ref (slot s j))"
    unfolding s1_def links_upd_buf w(2) by (simp add: w_def drop_ref_links slot_fold)
  obtain ys zs where yz: "xs = ys @ j # zs" using j(1) xs by (metis lru_def lessThan_iff split_list)
  have "j \<notin> set ys" using xs by (simp add: lru_def ring_def yz)
  moreover have "refcnt (bufs s1 j) = 0 \<longleftrightarrow> refcnt (bufs s j) = 1" by (simp add: s1_def w_def)
  ultimately have l': "lru s' (if refcnt (bufs s j) = 1 then j # remove1 j xs else xs)" and sl': "slot s' = slot s1"
    using to_front_links [of s1 ys j zs] l1 by (auto simp: s'_def yz remove1_append)
  have s': "s' = (woken (Chan_buflock j) s)\<lparr>bufs := bufs s'\<rparr>"
    unfolding s'_def using to_front_bufs [of j s1] by (auto simp: s1_def w_def upd_buf_def)
  show thesis
  proof (rule that [OF _ _ l'])
    show "brelse c i j s = Ok s'"
      using brelse_value [OF calm j(2)] by (simp add: s'_def s1_def w_def Let_def)
    show "touch s s'" by (subst s') (rule touch_woken)
    show "disk s' = disk s" "disk_writes s' = disk_writes s" by (subst s', simp)+
    show "slot s' = (slot s)(j := drop_ref (slot s j))" using sl' sl1 by simp
  qed
qed

lemma brelse_step:
  assumes calm: "calm c s" and inv: "bio_inv d s" and j: "j < NBUF" "locked_by s i j"
    and clean: "refcnt (bufs s j) \<noteq> 1 \<or> data (bufs s j) = disk s (blockno (bufs s j))"
  obtains s1 where "brelse c i j s = Ok s1" and "touch s s1" and "bio_inv d s1"
    and "disk s1 = disk s" "disk_writes s1 = disk_writes s" "bview d s1 = bview d s"
    and "slot s1 = (slot s)(j := drop_ref (slot s j))"
proof -
  obtain xs where xs: "lru s xs" and ok: "cache_ok d (slot s) (disk s)" using inv by (auto simp: bio_inv_def)
  obtain s1 where b: "brelse c i j s = Ok s1" "touch s s1" "lru s1 (if refcnt (bufs s j) = 1 then j # remove1 j xs else xs)" "disk s1 = disk s"
    "disk_writes s1 = disk_writes s" "slot s1 = (slot s)(j := drop_ref (slot s j))"
    using brelse_slots [OF calm j xs] by metis
  have s: "same_block (slot s1 k) (slot s k)" for k by (simp add: b(6) same_block_def)
  have f: "slocked (blk (slot s1 k)) = 0 \<and>
      (dev (slot s k) = d \<and> valid (slot s k) \<longrightarrow> data (slot s k) = disk s (blockno (slot s k)))"
    if "k < NBUF" "refcnt (slot s1 k) = 0" for k
    using that clean cache_okD(2,3) [OF ok, of k] by (auto simp: b(6) split: if_splits)
  show thesis using that [OF b(1,2) counts_inv(1) [OF inv b(3,4) s f] b(4,5) counts_inv(2) [OF inv b(3,4) s f] b(6)] .
qed

text \<open>The lock and the reference of a process on a buffer.\<close>

definition held :: "u32 \<Rightarrow> u32 \<Rightarrow> nat \<Rightarrow> 'a kbio_scheme \<Rightarrow> nat \<Rightarrow> bool" where
  "held d n i s j \<longleftrightarrow> j < NBUF \<and> dev (bufs s j) = d \<and> blockno (bufs s j) = n \<and> valid (bufs s j) \<and>
     locked_by s i j \<and> refcnt (bufs s j) \<noteq> 0"

lemma bunpin_value: "calm c s \<Longrightarrow> bunpin c b s = Ok (upd_buf b (\<lambda>x. x\<lparr>refcnt := refcnt x - 1\<rparr>) s)"
  unfolding bunpin_def
  by (subst critical_calm [where s' = "upd_buf b (\<lambda>x. x\<lparr>refcnt := refcnt x - 1\<rparr>) s"])
    (simp_all add: locked_state_upd_buf touch_calm [OF touch_upd_buf])

lemma bpin_value: "calm c s \<Longrightarrow> bpin c b s = Ok (upd_buf b (\<lambda>x. x\<lparr>refcnt := refcnt x + 1\<rparr>) s)"
  unfolding bpin_def
  by (subst critical_calm [where s' = "upd_buf b (\<lambda>x. x\<lparr>refcnt := refcnt x + 1\<rparr>) s"])
    (simp_all add: locked_state_upd_buf touch_calm [OF touch_upd_buf])

lemma slot_data: "slot (upd_buf j (\<lambda>x. x\<lparr>data := v\<rparr>) s) = (slot s)(j := (slot s j)\<lparr>data := v\<rparr>)"
  unfolding links_upd_buf slot_def by (cases "bufs s j") simp

lemma slot_refcnt: "slot (upd_buf j (\<lambda>x. x\<lparr>refcnt := f (refcnt x)\<rparr>) s) = (slot s)(j := (slot s j)\<lparr>refcnt := f (refcnt (slot s j))\<rparr>)"
  unfolding links_upd_buf slot_def by (cases "bufs s j") simp

lemma slotD:
  assumes "slot s k = x"
  shows "dev (bufs s k) = dev x" "blockno (bufs s k) = blockno x" "refcnt (bufs s k) = refcnt x"
    "blk (bufs s k) = blk x" "valid (bufs s k) = valid x" "data (bufs s k) = data x"
  using assms by (metis slot_fields)+

lemma held_slot: "held d n i s j \<Longrightarrow> slot s' j = slot s j \<Longrightarrow> touch s s' \<Longrightarrow> held d n i s' j"
  using slotD [of s' j "slot s j"] touch_pid(1) [of s s' i] by (simp add: held_def locked_by_def)

section \<open>binit\<close>

lemma initlock_calm: "calm c s \<Longrightarrow> initlock lk s = s"
  by (simp add: initlock_def calm_def free_lock_def fun_upd_idem)

lemma unlocked_eq: "l\<lparr>slocked := 0, spid := 0\<rparr> = \<lparr>slocked = 0, spid = 0\<rparr>"
  by (cases l) simp

lemma binit_loop_effect:
  assumes "calm c s"
  shows "touch s (binit_loop bs s) \<and> disk (binit_loop bs s) = disk s \<and> disk_writes (binit_loop bs s) = disk_writes s \<and>
    slot (binit_loop bs s) = (\<lambda>k. if k \<in> set bs then (slot s k)\<lparr>blk := \<lparr>slocked = 0, spid = 0\<rparr>\<rparr> else slot s k)"
  using assms
proof (induction bs arbitrary: s)
  case (Cons b bs)
  define s1 where "s1 = upd_buf b (\<lambda>x. x\<lparr>bnext := bnext (bufs s NBUF), bprev := NBUF\<rparr>) s"
  define s2 where "s2 = initsleeplock (Lk_buf b) (upd_blk b) s1"
  define s3 where "s3 = upd_buf NBUF (\<lambda>x. x\<lparr>bnext := b\<rparr>) (upd_buf (bnext (bufs s2 NBUF)) (\<lambda>x. x\<lparr>bprev := b\<rparr>) s2)"
  have t1: "touch s s1" unfolding s1_def by (rule touch_upd_buf)
  have "initlock (Lk_buf b) s1 = s1" by (rule initlock_calm [OF touch_calm [OF t1 Cons.prems]])
  then have s2: "s2 = upd_buf b (\<lambda>x. x\<lparr>blk := \<lparr>slocked = 0, spid = 0\<rparr>\<rparr>) s1"
    by (simp add: s2_def initsleeplock_def upd_blk_def unlocked_eq)
  have t3: "touch s s3"
    unfolding s3_def s2 by (rule touch_trans [OF touch_trans [OF touch_trans [OF t1 touch_upd_buf] touch_upd_buf] touch_upd_buf])
  have d3: "disk s3 = disk s" "disk_writes s3 = disk_writes s" by (simp_all add: s3_def s2 s1_def)
  have sl: "slot s3 = (slot s)(b := (slot s b)\<lparr>blk := \<lparr>slocked = 0, spid = 0\<rparr>\<rparr>)"
  proof -
    have "slot s1 = slot s" by (simp add: s1_def links_upd_buf slot_fold fun_upd_idem)
    moreover have "slot s2 = (slot s1)(b := (slot s1 b)\<lparr>blk := \<lparr>slocked = 0, spid = 0\<rparr>\<rparr>)"
      unfolding s2 links_upd_buf by (cases "bufs s1 b") (simp add: slot_def)
    moreover have "slot s3 = slot s2" by (simp add: s3_def links_upd_buf slot_fold fun_upd_idem)
    ultimately show ?thesis by simp
  qed
  have "binit_loop (b # bs) s = binit_loop bs s3" by (simp add: Let_def s1_def s2_def s3_def)
  then show ?case using Cons.IH [OF touch_calm [OF t3 Cons.prems]] touch_trans [OF t3] d3 by (auto simp: sl)
qed simp

lemma binit_effect:
  assumes calm: "calm c s"
  shows "touch s (binit s)" "disk (binit s) = disk s" "disk_writes (binit s) = disk_writes s"
    "k < NBUF \<Longrightarrow> slot (binit s) k = (slot s k)\<lparr>blk := \<lparr>slocked = 0, spid = 0\<rparr>\<rparr>"
proof -
  define s1 where "s1 = upd_buf NBUF (\<lambda>x. x\<lparr>bprev := NBUF, bnext := NBUF\<rparr>) s"
  have t: "touch s s1" unfolding s1_def by (rule touch_upd_buf)
  have b: "binit s = binit_loop [0..<NBUF] s1" by (simp add: binit_def initlock_calm [OF calm] s1_def)
  note e = binit_loop_effect [OF touch_calm [OF t calm], of "[0..<NBUF]", folded b]
  show "touch s (binit s)" using touch_trans [OF t] e by blast
  show "disk (binit s) = disk s" "disk_writes (binit s) = disk_writes s" using e by (simp_all add: s1_def)
  show "slot (binit s) k = (slot s k)\<lparr>blk := \<lparr>slocked = 0, spid = 0\<rparr>\<rparr>" if "k < NBUF"
    using e that by (simp add: s1_def slot_def upd_buf_def)
qed

section \<open>A machine with an empty cache\<close>

definition boot_bio :: kbio where
  "boot_bio = \<lparr>pmem = (\<lambda>_. 0), freelist = 0, kend = 0, kernel_pagetable = 0, etext = 0, trampoline = 0,
     satp = 0, locks = (\<lambda>_. \<lparr>locked = 0, cpu = None\<rparr>),
     cpus = (\<lambda>_. \<lparr>proc = None, noff = 0, intena = True, intr = True\<rparr>),
     procs = (\<lambda>_. idle_proc), initproc = None, nextpid = 1, forkret_addr = 0,
     bufs = (\<lambda>_. \<lparr>valid = False, bdisk = False, dev = 0, blockno = 0, blk = \<lparr>slocked = 0, spid = 0\<rparr>, refcnt = 0,
       bprev = 0, bnext = 0, data = replicate BSIZE 0\<rparr>),
     disk = (\<lambda>_. replicate BSIZE 3), disk_writes = []\<rparr>"

lemma boot_bio_calm: "calm c boot_bio"
  by (simp add: calm_def free_lock_def boot_bio_def)

lemma boot_bio_fields:
  assumes "k < NBUF"
  shows "dev (bufs (binit boot_bio) k) = 0" "refcnt (bufs (binit boot_bio) k) = 0"
    "slocked (blk (bufs (binit boot_bio) k)) = 0" "valid (bufs (binit boot_bio) k) = False"
  using slotD [OF binit_effect(4) [OF boot_bio_calm assms]] by (simp_all add: slot_def boot_bio_def)

lemma boot_bio_inv: "bio_inv 1 (binit boot_bio)"
proof -
  have "\<not> cached 1 n (slot (binit boot_bio)) k" for n k using boot_bio_fields(1) [of k] by (auto simp: cached_def)
  then have "cache_ok 1 (slot (binit boot_bio)) (disk (binit boot_bio))"
    using boot_bio_fields by (simp add: cache_ok_def binit_effect(2) [OF boot_bio_calm]) (simp add: boot_bio_def)
  then show ?thesis using binit_lru by (auto simp: bio_inv_def)
qed

lemma boot_bio_available: "available 1 n (binit boot_bio)"
  using boot_bio_fields(1,2) by (auto simp: available_def cached_def intro!: exI [of _ 0])

section \<open>Properties\<close>

text \<open>
  C9. \<open>bread\<close> returns the only buffer of the block, locked by the caller and with the
  current content of the block: the last one given to it in the cache, or the one on
  the disk. The content of no block changes, nor does any other buffer.
\<close>

theorem bread_current_content:
  assumes "calm c s" and "bio_inv d s" and "available d n s"
  shows "\<exists>j s'. bread c i d n s = Ok (j, s') \<and> bio_inv d s' \<and> bview d s' = bview d s \<and> disk s' = disk s \<and>
    data (bufs s' j) = bview d s n \<and> locked_by s' i j \<and> (\<forall>k. cached d n (bufs s') k \<longleftrightarrow> k = j) \<and>
    (\<forall>k. k \<noteq> j \<longrightarrow> slot s' k = slot s k)"
proof -
  obtain j s' where s': "bread c i d n s = Ok (j, s')" "j < NBUF" "bio_inv d s'" "disk s' = disk s" "bview d s' = bview d s"
    "\<And>k. k \<noteq> j \<Longrightarrow> slot s' k = slot s k" "dev (bufs s' j) = d" "blockno (bufs s' j) = n"
    "data (bufs s' j) = bview d s n" "locked_by s' i j"
    by (rule bread_step [OF assms, of i]) blast
  have ok: "cache_ok d (slot s') (disk s')" using s'(3) by (simp add: bio_inv_def)
  have j: "cached d n (slot s') j" using s' by (simp add: cached_def)
  have u: "k = j" if "cached d n (slot s') k" for k by (rule cache_okD(1) [OF ok that j])
  have e: "cached d n (bufs s') k = cached d n (slot s') k" for k by (simp add: cached_def)
  have "\<forall>k. cached d n (bufs s') k \<longleftrightarrow> k = j" unfolding e using u j by blast
  then show ?thesis using s' by blast
qed

theorem bread_current_content_witness:
  "\<exists>j s'. bread 0 0 1 7 (binit boot_bio) = Ok (j, s') \<and> data (bufs s' j) = bview 1 (binit boot_bio) 7"
  using bread_current_content [OF touch_calm [OF binit_effect(1) [OF boot_bio_calm] boot_bio_calm] boot_bio_inv boot_bio_available [of 7], of 0 0]
  by blast

text \<open>
  C10. The doubly linked list is the list of buffers by time of last release: \<open>bget\<close>
  looks for the block along it, recycles the last unreferenced buffer, and panics
  when there is none; \<open>brelse\<close> of the last reference moves the buffer to the front
  and otherwise keeps the order. No walk along the list runs on for ever.
\<close>

theorem buffer_list_is_lru:
  assumes "lru s xs" and "calm c s" and "j < NBUF" and "locked_by s i j"
  shows "bget_slot d n s =
      (case find (\<lambda>b. dev (bufs s b) = d \<and> blockno (bufs s b) = n) xs of
         Some b \<Rightarrow> Ok (b, upd_buf b (\<lambda>x. x\<lparr>refcnt := refcnt x + 1\<rparr>) s)
       | None \<Rightarrow> (case find (\<lambda>b. refcnt (bufs s b) = 0) (rev xs) of
           Some b \<Rightarrow> Ok (b, upd_buf b (\<lambda>x. x\<lparr>dev := d, blockno := n, valid := False, refcnt := 1\<rparr>) s)
         | None \<Rightarrow> Panic ''bget: no buffers'')) \<and>
    (\<exists>s'. brelse c i j s = Ok s' \<and> lru s' (if refcnt (bufs s j) = 1 then j # remove1 j xs else xs))"
proof -
  obtain s' where "brelse c i j s = Ok s'" "lru s' (if refcnt (bufs s j) = 1 then j # remove1 j xs else xs)"
    by (rule brelse_slots [OF assms(2,3,4,1)])
  then show ?thesis using bget_slot_lru [OF assms(1)] by blast
qed

theorem buffer_list_is_lru_witness:
  "\<exists>j s s' xs. bread 0 0 1 7 (binit boot_bio) = Ok (j, s) \<and> brelse 0 0 j s = Ok s' \<and>
     lru s' (if refcnt (bufs s j) = 1 then j # remove1 j xs else xs)"
proof -
  have c: "calm 0 (binit boot_bio)" by (rule touch_calm [OF binit_effect(1) [OF boot_bio_calm] boot_bio_calm])
  obtain j s where s: "bread 0 0 1 7 (binit boot_bio) = Ok (j, s)" "j < NBUF" "touch (binit boot_bio) s" "bio_inv 1 s"
    "locked_by s 0 j"
    by (rule bread_step [OF c boot_bio_inv boot_bio_available [of 7], of 0]) blast
  then obtain xs where "lru s xs" by (auto simp: bio_inv_def)
  then show ?thesis using buffer_list_is_lru [OF _ touch_calm [OF s(3) c] s(2,5)] s(1) by blast
qed

end
