(* ===== verification/Log.thy ===== *)
theory Log
  imports Bio_Cache
begin

text \<open>
  kernel/log.c: the write-ahead log. The definitions follow the functions of the
  file; a thread that has to sleep in \<open>begin_op\<close> has the outcome \<open>Sleep Chan_log\<close>.
  The on-disk header is the structure \<open>logheader\<close> overlaid on the first log block.
\<close>

section \<open>The log (struct logheader, struct log)\<close>

abbreviation MAXOPBLOCKS :: nat where "MAXOPBLOCKS \<equiv> 10"
abbreviation LOGSIZE :: nat where "LOGSIZE \<equiv> 30"

record klog = kbio +
  log_start :: int
  log_size :: int
  outstanding :: int
  committing :: bool
  log_dev :: u32
  lh_n :: int
  lh_block :: "u32 list"

text \<open>Block \<open>tail\<close> of the log, after its header.\<close>

definition log_bno :: "int \<Rightarrow> nat \<Rightarrow> u32" where
  "log_bno start tail = word_of_int (start + int tail + 1)"

section \<open>The operations of log.c\<close>

text \<open>\<open>memmove(to->data, from->data, BSIZE)\<close> between two buffers.\<close>

definition copy_buf :: "nat \<Rightarrow> nat \<Rightarrow> 'a kbio_scheme \<Rightarrow> 'a kbio_scheme" where
  "copy_buf to from s = upd_buf to (\<lambda>x. x\<lparr>data := data (bufs s from)\<rparr>) s"

fun install_trans_loop :: "nat \<Rightarrow> nat \<Rightarrow> nat list \<Rightarrow> 'a klog_scheme \<Rightarrow> 'a klog_scheme res" where
  "install_trans_loop c i [] s = Ok s"
| "install_trans_loop c i (tail # ts) s =
     bindp (bread c i (log_dev s) (log_bno (log_start s) tail) s) (\<lambda>lbuf s1.
       bindp (bread c i (log_dev s1) (lh_block s1 ! tail) s1) (\<lambda>dbuf s2.
         bindr (bwrite c i dbuf (copy_buf dbuf lbuf s2)) (\<lambda>s3.
           bindr (bunpin c dbuf s3) (\<lambda>s4.
             bindr (brelse c i lbuf s4) (\<lambda>s5.
               bindr (brelse c i dbuf s5) (\<lambda>s6. install_trans_loop c i ts s6))))))"

definition install_trans :: "nat \<Rightarrow> nat \<Rightarrow> 'a klog_scheme \<Rightarrow> 'a klog_scheme res" where
  "install_trans c i s = install_trans_loop c i [0..<nat (lh_n s)] s"

text \<open>
  The in-memory header has \<open>LOGSIZE\<close> entries. A header on the disk that claims more
  is undefined behaviour of the C code; the model drops the excess entries.
\<close>

definition read_head :: "nat \<Rightarrow> nat \<Rightarrow> 'a klog_scheme \<Rightarrow> 'a klog_scheme res" where
  "read_head c i s =
     bindp (bread c i (log_dev s) (word_of_int (log_start s)) s) (\<lambda>b s1.
       let d = data (bufs s1 b); n = sint (get32 d 0);
           blocks = fold (\<lambda>k bs. bs[k := get32 d (4 + 4 * k)]) [0..<nat n] (lh_block s1)
       in brelse c i b (s1\<lparr>lh_n := n, lh_block := blocks\<rparr>))"

definition header_bytes :: "int \<Rightarrow> u32 list \<Rightarrow> u8 list \<Rightarrow> u8 list" where
  "header_bytes n blocks d =
     fold (\<lambda>k d. put32 d (4 + 4 * k) (blocks ! k)) [0..<nat n] (put32 d 0 (word_of_int n))"

definition write_head :: "nat \<Rightarrow> nat \<Rightarrow> 'a klog_scheme \<Rightarrow> 'a klog_scheme res" where
  "write_head c i s =
     bindp (bread c i (log_dev s) (word_of_int (log_start s)) s) (\<lambda>b s1.
       bindr (bwrite c i b (upd_buf b (\<lambda>x. x\<lparr>data := header_bytes (lh_n s1) (lh_block s1) (data x)\<rparr>) s1)) (\<lambda>s2.
         brelse c i b s2))"

definition recover_from_log :: "nat \<Rightarrow> nat \<Rightarrow> 'a klog_scheme \<Rightarrow> 'a klog_scheme res" where
  "recover_from_log c i s =
     bindr (read_head c i s) (\<lambda>s1. bindr (install_trans c i s1) (\<lambda>s2. write_head c i (s2\<lparr>lh_n := 0\<rparr>)))"

text \<open>
  The size check of \<open>initlog\<close> compares constants: \<open>sizeof(struct logheader)\<close> is
  \<open>4 + 4 * LOGSIZE\<close>.
\<close>

definition initlog :: "nat \<Rightarrow> nat \<Rightarrow> u32 \<Rightarrow> u32 \<Rightarrow> u32 \<Rightarrow> 'a klog_scheme \<Rightarrow> 'a klog_scheme res" where
  "initlog c i d logstart nlog s =
     (if 4 + 4 * LOGSIZE \<ge> BSIZE then Panic ''initlog: too big logheader''
      else recover_from_log c i ((initlock Lk_log s)\<lparr>log_start := sint logstart, log_size := sint nlog, log_dev := d\<rparr>))"

definition begin_op :: "nat \<Rightarrow> nat \<Rightarrow> 'a klog_scheme \<Rightarrow> 'a klog_scheme res" where
  "begin_op c i s =
     bindp (critical c Lk_log (\<lambda>s1.
       if committing s1 then sleep_on c i Chan_log Lk_log s1
       else if lh_n s1 + (outstanding s1 + 1) * int MAXOPBLOCKS > int LOGSIZE then sleep_on c i Chan_log Lk_log s1
       else Ok ((), s1\<lparr>outstanding := outstanding s1 + 1\<rparr>)) s) (\<lambda>_ s2. Ok s2)"

fun write_log_loop :: "nat \<Rightarrow> nat \<Rightarrow> nat list \<Rightarrow> 'a klog_scheme \<Rightarrow> 'a klog_scheme res" where
  "write_log_loop c i [] s = Ok s"
| "write_log_loop c i (tail # ts) s =
     bindp (bread c i (log_dev s) (log_bno (log_start s) tail) s) (\<lambda>to s1.
       bindp (bread c i (log_dev s1) (lh_block s1 ! tail) s1) (\<lambda>from s2.
         bindr (bwrite c i to (copy_buf to from s2)) (\<lambda>s3.
           bindr (brelse c i from s3) (\<lambda>s4.
             bindr (brelse c i to s4) (\<lambda>s5. write_log_loop c i ts s5)))))"

definition write_log :: "nat \<Rightarrow> nat \<Rightarrow> 'a klog_scheme \<Rightarrow> 'a klog_scheme res" where
  "write_log c i s = write_log_loop c i [0..<nat (lh_n s)] s"

definition commit :: "nat \<Rightarrow> nat \<Rightarrow> 'a klog_scheme \<Rightarrow> 'a klog_scheme res" where
  "commit c i s =
     (if lh_n s > 0 then
        bindr (write_log c i s) (\<lambda>s1.
          bindr (write_head c i s1) (\<lambda>s2.
            bindr (install_trans c i s2) (\<lambda>s3. write_head c i (s3\<lparr>lh_n := 0\<rparr>))))
      else Ok s)"

definition end_op :: "nat \<Rightarrow> nat \<Rightarrow> 'a klog_scheme \<Rightarrow> 'a klog_scheme res" where
  "end_op c i s =
     bindp (critical c Lk_log (\<lambda>s1.
       let s2 = s1\<lparr>outstanding := outstanding s1 - 1\<rparr>
       in if committing s2 then Panic ''log.committing''
          else if outstanding s2 = 0 then Ok (True, s2\<lparr>committing := True\<rparr>)
          else bindr (wakeup c Chan_log s2) (\<lambda>s3. Ok (False, s3))) s) (\<lambda>do_commit s4.
       if do_commit then
         bindr (commit c i s4) (\<lambda>s5.
           bindp (critical c Lk_log (\<lambda>s6.
             bindr (wakeup c Chan_log (s6\<lparr>committing := False\<rparr>)) (\<lambda>s7. Ok ((), s7))) s5) (\<lambda>_ s8. Ok s8))
       else Ok s4)"

text \<open>The first entry of the header with the block number, or the first unused one.\<close>

fun log_index :: "u32 list \<Rightarrow> u32 \<Rightarrow> nat" where
  "log_index [] n = 0"
| "log_index (b # bs) n = (if b = n then 0 else Suc (log_index bs n))"

definition log_write :: "nat \<Rightarrow> nat \<Rightarrow> 'a klog_scheme \<Rightarrow> 'a klog_scheme res" where
  "log_write c b s =
     (if lh_n s \<ge> int LOGSIZE \<or> lh_n s \<ge> log_size s - 1 then Panic ''too big a transaction''
      else if outstanding s < 1 then Panic ''log_write outside of trans''
      else bindp (critical c Lk_log (\<lambda>s1.
        let k = log_index (take (nat (lh_n s1)) (lh_block s1)) (blockno (bufs s1 b));
            s2 = s1\<lparr>lh_block := (lh_block s1)[k := blockno (bufs s1 b)]\<rparr>
        in if int k = lh_n s2
           then bindr (bpin c b s2) (\<lambda>s3. Ok ((), s3\<lparr>lh_n := lh_n s3 + 1\<rparr>))
           else Ok ((), s2)) s) (\<lambda>_ s4. Ok s4))"

end
