(* ===== verification/Fs.thy ===== *)
theory Fs
  imports Log
begin

text \<open>
  kernel/fs.c: block allocation, inodes, file contents, directories and path
  names, on top of the log. An inode pointer is an index into the inode cache. C
  structures on the disk are read and written at their byte offsets.
\<close>

section \<open>Superblock and inodes (kernel/fs.h, kernel/file.h)\<close>

abbreviation NINODE :: nat where "NINODE \<equiv> 50"
abbreviation NDIRECT :: nat where "NDIRECT \<equiv> 12"
abbreviation NINDIRECT :: nat where "NINDIRECT \<equiv> BSIZE div 4"
abbreviation MAXFILE :: nat where "MAXFILE \<equiv> NDIRECT + NINDIRECT"
abbreviation IPB :: nat where "IPB \<equiv> BSIZE div 64"
abbreviation BPB :: nat where "BPB \<equiv> BSIZE * 8"
abbreviation DIRSIZ :: nat where "DIRSIZ \<equiv> 14"
abbreviation ROOTINO :: u32 where "ROOTINO \<equiv> 1"
abbreviation ROOTDEV :: u32 where "ROOTDEV \<equiv> 1"
abbreviation FSMAGIC :: u32 where "FSMAGIC \<equiv> 0x10203040"
abbreviation T_DIR :: u16 where "T_DIR \<equiv> 1"
abbreviation T_FILE :: u16 where "T_FILE \<equiv> 2"
abbreviation T_DEVICE :: u16 where "T_DEVICE \<equiv> 3"

record superblock =
  sb_magic :: u32
  sb_size :: u32
  sb_nblocks :: u32
  sb_ninodes :: u32
  sb_nlog :: u32
  sb_logstart :: u32
  sb_inodestart :: u32
  sb_bmapstart :: u32

record inode =
  idev :: u32
  inum :: u32
  iref :: int
  ilk :: sleeplock
  ivalid :: bool
  itype :: u16
  imajor :: u16
  iminor :: u16
  inlink :: u16
  isize :: u32
  iaddrs :: "u32 list"

record kfs = klog +
  sb :: superblock
  inodes :: "nat \<Rightarrow> inode"

definition upd_inode :: "nat \<Rightarrow> (inode \<Rightarrow> inode) \<Rightarrow> 'a kfs_scheme \<Rightarrow> 'a kfs_scheme" where
  "upd_inode k f s = s\<lparr>inodes := (inodes s)(k := f (inodes s k))\<rparr>"

definition upd_ilk :: "nat \<Rightarrow> (sleeplock \<Rightarrow> sleeplock) \<Rightarrow> 'a kfs_scheme \<Rightarrow> 'a kfs_scheme" where
  "upd_ilk k f s = upd_inode k (\<lambda>x. x\<lparr>ilk := f (ilk x)\<rparr>) s"

text \<open>\<open>IBLOCK(i, sb)\<close> and \<open>BBLOCK(b, sb)\<close>.\<close>

definition IBLOCK :: "u32 \<Rightarrow> superblock \<Rightarrow> u32" where
  "IBLOCK k b = k div of_nat IPB + sb_inodestart b"

definition BBLOCK :: "u32 \<Rightarrow> superblock \<Rightarrow> u32" where
  "BBLOCK k b = k div of_nat BPB + sb_bmapstart b"

section \<open>Superblock\<close>

definition decode_sb :: "u8 list \<Rightarrow> superblock" where
  "decode_sb d = \<lparr>sb_magic = get32 d 0, sb_size = get32 d 4, sb_nblocks = get32 d 8, sb_ninodes = get32 d 12,
     sb_nlog = get32 d 16, sb_logstart = get32 d 20, sb_inodestart = get32 d 24, sb_bmapstart = get32 d 28\<rparr>"

definition readsb :: "nat \<Rightarrow> nat \<Rightarrow> u32 \<Rightarrow> 'a kfs_scheme \<Rightarrow> 'a kfs_scheme res" where
  "readsb c i d s =
     bindp (bread c i d 1 s) (\<lambda>bp s1. brelse c i bp (s1\<lparr>sb := decode_sb (data (bufs s1 bp))\<rparr>))"

definition fsinit :: "nat \<Rightarrow> nat \<Rightarrow> u32 \<Rightarrow> 'a kfs_scheme \<Rightarrow> 'a kfs_scheme res" where
  "fsinit c i d s =
     bindr (readsb c i d s) (\<lambda>s1.
       if sb_magic (sb s1) \<noteq> FSMAGIC then Panic ''invalid file system''
       else initlog c i d (sb_logstart (sb s1)) (sb_nlog (sb s1)) s1)"

section \<open>Blocks\<close>

definition bzero :: "nat \<Rightarrow> nat \<Rightarrow> u32 \<Rightarrow> u32 \<Rightarrow> 'a kfs_scheme \<Rightarrow> 'a kfs_scheme res" where
  "bzero c i d bno s =
     bindp (bread c i d bno s) (\<lambda>bp s1.
       bindr (log_write c bp (upd_buf bp (\<lambda>x. x\<lparr>data := replicate BSIZE 0\<rparr>) s1)) (\<lambda>s2. brelse c i bp s2))"

text \<open>Bit \<open>bi\<close> of a bitmap block.\<close>

definition bm_mask :: "nat \<Rightarrow> u8" where
  "bm_mask bi = push_bit (bi mod 8) 1"

definition bm_used :: "u8 list \<Rightarrow> nat \<Rightarrow> bool" where
  "bm_used d bi \<longleftrightarrow> d ! (bi div 8) AND bm_mask bi \<noteq> 0"

definition bm_set :: "u8 list \<Rightarrow> nat \<Rightarrow> u8 list" where
  "bm_set d bi = d[bi div 8 := d ! (bi div 8) OR bm_mask bi]"

definition bm_clear :: "u8 list \<Rightarrow> nat \<Rightarrow> u8 list" where
  "bm_clear d bi = d[bi div 8 := d ! (bi div 8) AND NOT (bm_mask bi)]"

text \<open>
  The loop of \<open>balloc\<close> over the bitmap blocks; \<open>b\<close> runs through the multiples of \<open>BPB\<close>
  below \<open>sb.size\<close>, and the inner loop looks for the first free bit of a block. In the C
  code \<open>b\<close> is an \<open>int\<close>, so the two agree for file systems of less than 2^31 blocks.
\<close>

fun balloc_loop :: "nat \<Rightarrow> nat \<Rightarrow> u32 \<Rightarrow> nat list \<Rightarrow> 'a kfs_scheme \<Rightarrow> (u32 \<times> 'a kfs_scheme) res" where
  "balloc_loop c i d [] s = Panic ''balloc: out of blocks''"
| "balloc_loop c i d (b # bs) s =
     bindp (bread c i d (BBLOCK (of_nat b) (sb s)) s) (\<lambda>bp s1.
       case find (\<lambda>bi. \<not> bm_used (data (bufs s1 bp)) bi) [0..<min BPB (unat (sb_size (sb s1)) - b)] of
         Some bi \<Rightarrow>
           bindr (log_write c bp (upd_buf bp (\<lambda>x. x\<lparr>data := bm_set (data x) bi\<rparr>) s1)) (\<lambda>s2.
             bindr (brelse c i bp s2) (\<lambda>s3.
               bindr (bzero c i d (of_nat (b + bi)) s3) (\<lambda>s4. Ok (of_nat (b + bi), s4))))
       | None \<Rightarrow> bindr (brelse c i bp s1) (\<lambda>s2. balloc_loop c i d bs s2))"

definition balloc :: "nat \<Rightarrow> nat \<Rightarrow> u32 \<Rightarrow> 'a kfs_scheme \<Rightarrow> (u32 \<times> 'a kfs_scheme) res" where
  "balloc c i d s =
     balloc_loop c i d (map (\<lambda>k. BPB * k) [0..<(unat (sb_size (sb s)) + BPB - 1) div BPB]) s"

definition bfree :: "nat \<Rightarrow> nat \<Rightarrow> u32 \<Rightarrow> u32 \<Rightarrow> 'a kfs_scheme \<Rightarrow> 'a kfs_scheme res" where
  "bfree c i d b s =
     bindp (bread c i d (BBLOCK b (sb s)) s) (\<lambda>bp s1.
       let bi = unat b mod BPB
       in if \<not> bm_used (data (bufs s1 bp)) bi then Panic ''freeing free block''
          else bindr (log_write c bp (upd_buf bp (\<lambda>x. x\<lparr>data := bm_clear (data x) bi\<rparr>) s1)) (\<lambda>s2.
            brelse c i bp s2))"

section \<open>Inodes\<close>

fun iinit_loop :: "nat list \<Rightarrow> 'a kfs_scheme \<Rightarrow> 'a kfs_scheme" where
  "iinit_loop [] s = s"
| "iinit_loop (k # ks) s = iinit_loop ks (initsleeplock (Lk_inode k) (upd_ilk k) s)"

definition iinit :: "'a kfs_scheme \<Rightarrow> 'a kfs_scheme" where
  "iinit s = iinit_loop [0..<NINODE] (initlock Lk_icache s)"

text \<open>The offset of inode \<open>n\<close> in its block; a \<open>struct dinode\<close> has 64 bytes.\<close>

definition dinode_off :: "u32 \<Rightarrow> nat" where
  "dinode_off n = (unat n mod IPB) * 64"

definition iget_hit :: "u32 \<Rightarrow> u32 \<Rightarrow> inode \<Rightarrow> bool" where
  "iget_hit d n x \<longleftrightarrow> iref x > 0 \<and> idev x = d \<and> inum x = n"

fun iget_scan :: "u32 \<Rightarrow> u32 \<Rightarrow> (nat \<Rightarrow> inode) \<Rightarrow> nat list \<Rightarrow> nat option \<Rightarrow> nat option \<times> nat option" where
  "iget_scan d n I [] em = (None, em)"
| "iget_scan d n I (k # ks) em =
     (if iget_hit d n (I k) then (Some k, em)
      else iget_scan d n I ks (if em = None \<and> iref (I k) = 0 then Some k else em))"

definition iget :: "nat \<Rightarrow> u32 \<Rightarrow> u32 \<Rightarrow> 'a kfs_scheme \<Rightarrow> (nat \<times> 'a kfs_scheme) res" where
  "iget c d n s =
     critical c Lk_icache (\<lambda>s1.
       case iget_scan d n (inodes s1) [0..<NINODE] None of
         (Some k, _) \<Rightarrow> Ok (k, upd_inode k (\<lambda>x. x\<lparr>iref := iref x + 1\<rparr>) s1)
       | (None, None) \<Rightarrow> Panic ''iget: no inodes''
       | (None, Some k) \<Rightarrow>
           Ok (k, upd_inode k (\<lambda>x. x\<lparr>idev := d, inum := n, iref := 1, ivalid := False\<rparr>) s1)) s"

fun ialloc_loop :: "nat \<Rightarrow> nat \<Rightarrow> u32 \<Rightarrow> u16 \<Rightarrow> nat list \<Rightarrow> 'a kfs_scheme \<Rightarrow> (nat \<times> 'a kfs_scheme) res" where
  "ialloc_loop c i d ty [] s = Panic ''ialloc: no inodes''"
| "ialloc_loop c i d ty (n # ns) s =
     bindp (bread c i d (IBLOCK (of_nat n) (sb s)) s) (\<lambda>bp s1.
       let off = dinode_off (of_nat n)
       in if get16 (data (bufs s1 bp)) off = 0 then
            bindr (log_write c bp (upd_buf bp (\<lambda>x. x\<lparr>data :=
              put16 (take off (data x) @ replicate 64 0 @ drop (off + 64) (data x)) off ty\<rparr>) s1)) (\<lambda>s2.
              bindr (brelse c i bp s2) (\<lambda>s3. iget c d (of_nat n) s3))
          else bindr (brelse c i bp s1) (\<lambda>s2. ialloc_loop c i d ty ns s2))"

definition ialloc :: "nat \<Rightarrow> nat \<Rightarrow> u32 \<Rightarrow> u16 \<Rightarrow> 'a kfs_scheme \<Rightarrow> (nat \<times> 'a kfs_scheme) res" where
  "ialloc c i d ty s = ialloc_loop c i d ty [1..<unat (sb_ninodes (sb s))] s"

text \<open>The fields of a \<open>struct dinode\<close>, written into and read from a block.\<close>

definition put_addrs :: "nat \<Rightarrow> u32 list \<Rightarrow> u8 list \<Rightarrow> u8 list" where
  "put_addrs off as d = fold (\<lambda>k d. put32 d (off + 4 * k) (as ! k)) [0..<Suc NDIRECT] d"

definition encode_dinode :: "inode \<Rightarrow> nat \<Rightarrow> u8 list \<Rightarrow> u8 list" where
  "encode_dinode x off d =
     put_addrs (off + 12) (iaddrs x)
       (put32 (put16 (put16 (put16 (put16 d off (itype x)) (off + 2) (imajor x)) (off + 4) (iminor x))
         (off + 6) (inlink x)) (off + 8) (isize x))"

definition decode_dinode :: "u8 list \<Rightarrow> nat \<Rightarrow> inode \<Rightarrow> inode" where
  "decode_dinode d off x = x\<lparr>itype := get16 d off, imajor := get16 d (off + 2), iminor := get16 d (off + 4),
     inlink := get16 d (off + 6), isize := get32 d (off + 8),
     iaddrs := map (\<lambda>k. get32 d (off + 12 + 4 * k)) [0..<Suc NDIRECT]\<rparr>"

definition iupdate :: "nat \<Rightarrow> nat \<Rightarrow> nat \<Rightarrow> 'a kfs_scheme \<Rightarrow> 'a kfs_scheme res" where
  "iupdate c i k s =
     bindp (bread c i (idev (inodes s k)) (IBLOCK (inum (inodes s k)) (sb s)) s) (\<lambda>bp s1.
       bindr (log_write c bp (upd_buf bp (\<lambda>x. x\<lparr>data :=
         encode_dinode (inodes s1 k) (dinode_off (inum (inodes s1 k))) (data x)\<rparr>) s1)) (\<lambda>s2. brelse c i bp s2))"

definition idup :: "nat \<Rightarrow> nat \<Rightarrow> 'a kfs_scheme \<Rightarrow> (nat \<times> 'a kfs_scheme) res" where
  "idup c k s = critical c Lk_icache (\<lambda>s1. Ok (k, upd_inode k (\<lambda>x. x\<lparr>iref := iref x + 1\<rparr>) s1)) s"

definition ilock :: "nat \<Rightarrow> nat \<Rightarrow> nat \<Rightarrow> 'a kfs_scheme \<Rightarrow> 'a kfs_scheme res" where
  "ilock c i k s =
     (if iref (inodes s k) < 1 then Panic ''ilock''
      else bindr (acquiresleep c i (Lk_inode k) (Chan_ilock k) (\<lambda>s. ilk (inodes s k)) (upd_ilk k) s) (\<lambda>s1.
        if ivalid (inodes s1 k) then Ok s1
        else bindp (bread c i (idev (inodes s1 k)) (IBLOCK (inum (inodes s1 k)) (sb s1)) s1) (\<lambda>bp s2.
          let s3 = upd_inode k (decode_dinode (data (bufs s2 bp)) (dinode_off (inum (inodes s2 k)))) s2
          in bindr (brelse c i bp s3) (\<lambda>s4.
            let s5 = upd_inode k (\<lambda>x. x\<lparr>ivalid := True\<rparr>) s4
            in if itype (inodes s5 k) = 0 then Panic ''ilock: no type'' else Ok s5))))"

definition iunlock :: "nat \<Rightarrow> nat \<Rightarrow> nat \<Rightarrow> 'a kfs_scheme \<Rightarrow> 'a kfs_scheme res" where
  "iunlock c i k s =
     bindp (holdingsleep c i (Lk_inode k) (\<lambda>s. ilk (inodes s k)) s) (\<lambda>h s1.
       if \<not> h \<or> iref (inodes s1 k) < 1 then Panic ''iunlock''
       else releasesleep c (Lk_inode k) (Chan_ilock k) (upd_ilk k) s1)"

fun itrunc_direct :: "nat \<Rightarrow> nat \<Rightarrow> nat \<Rightarrow> nat list \<Rightarrow> 'a kfs_scheme \<Rightarrow> 'a kfs_scheme res" where
  "itrunc_direct c i k [] s = Ok s"
| "itrunc_direct c i k (a # as) s =
     (if iaddrs (inodes s k) ! a \<noteq> 0
      then bindr (bfree c i (idev (inodes s k)) (iaddrs (inodes s k) ! a) s) (\<lambda>s1.
        itrunc_direct c i k as (upd_inode k (\<lambda>x. x\<lparr>iaddrs := (iaddrs x)[a := 0]\<rparr>) s1))
      else itrunc_direct c i k as s)"

fun itrunc_indirect :: "nat \<Rightarrow> nat \<Rightarrow> u32 \<Rightarrow> nat \<Rightarrow> nat list \<Rightarrow> 'a kfs_scheme \<Rightarrow> 'a kfs_scheme res" where
  "itrunc_indirect c i d bp [] s = Ok s"
| "itrunc_indirect c i d bp (j # js) s =
     (let a = get32 (data (bufs s bp)) (4 * j)
      in if a \<noteq> 0 then bindr (bfree c i d a s) (\<lambda>s1. itrunc_indirect c i d bp js s1)
         else itrunc_indirect c i d bp js s)"

definition itrunc :: "nat \<Rightarrow> nat \<Rightarrow> nat \<Rightarrow> 'a kfs_scheme \<Rightarrow> 'a kfs_scheme res" where
  "itrunc c i k s =
     bindr (itrunc_direct c i k [0..<NDIRECT] s) (\<lambda>s1.
       let a = iaddrs (inodes s1 k) ! NDIRECT; d = idev (inodes s1 k)
       in bindr (if a \<noteq> 0 then
                   bindp (bread c i d a s1) (\<lambda>bp s2.
                     bindr (itrunc_indirect c i d bp [0..<NINDIRECT] s2) (\<lambda>s3.
                       bindr (brelse c i bp s3) (\<lambda>s4.
                         bindr (bfree c i d a s4) (\<lambda>s5.
                           Ok (upd_inode k (\<lambda>x. x\<lparr>iaddrs := (iaddrs x)[NDIRECT := 0]\<rparr>) s5)))))
                 else Ok s1) (\<lambda>s6.
         iupdate c i k (upd_inode k (\<lambda>x. x\<lparr>isize := 0\<rparr>) s6)))"

definition iput :: "nat \<Rightarrow> nat \<Rightarrow> nat \<Rightarrow> 'a kfs_scheme \<Rightarrow> 'a kfs_scheme res" where
  "iput c i k s =
     bindr (acquire c Lk_icache s) (\<lambda>s1.
       bindr (if iref (inodes s1 k) = 1 \<and> ivalid (inodes s1 k) \<and> inlink (inodes s1 k) = 0 then
                bindr (acquiresleep c i (Lk_inode k) (Chan_ilock k) (\<lambda>s. ilk (inodes s k)) (upd_ilk k) s1) (\<lambda>s2.
                  bindr (release c Lk_icache s2) (\<lambda>s3.
                    bindr (itrunc c i k s3) (\<lambda>s4.
                      bindr (iupdate c i k (upd_inode k (\<lambda>x. x\<lparr>itype := 0\<rparr>) s4)) (\<lambda>s5.
                        bindr (releasesleep c (Lk_inode k) (Chan_ilock k) (upd_ilk k)
                                 (upd_inode k (\<lambda>x. x\<lparr>ivalid := False\<rparr>) s5)) (\<lambda>s6.
                          acquire c Lk_icache s6)))))
              else Ok s1) (\<lambda>s7. release c Lk_icache (upd_inode k (\<lambda>x. x\<lparr>iref := iref x - 1\<rparr>) s7)))"

definition iunlockput :: "nat \<Rightarrow> nat \<Rightarrow> nat \<Rightarrow> 'a kfs_scheme \<Rightarrow> 'a kfs_scheme res" where
  "iunlockput c i k s = bindr (iunlock c i k s) (\<lambda>s1. iput c i k s1)"

section \<open>The content of a file\<close>

definition bmap :: "nat \<Rightarrow> nat \<Rightarrow> nat \<Rightarrow> u32 \<Rightarrow> 'a kfs_scheme \<Rightarrow> (u32 \<times> 'a kfs_scheme) res" where
  "bmap c i k bn s =
     (let x = inodes s k
      in if unat bn < NDIRECT then
           (if iaddrs x ! unat bn = 0
            then bindp (balloc c i (idev x) s) (\<lambda>a s1.
              Ok (a, upd_inode k (\<lambda>x. x\<lparr>iaddrs := (iaddrs x)[unat bn := a]\<rparr>) s1))
            else Ok (iaddrs x ! unat bn, s))
         else let n = unat bn - NDIRECT
         in if n < NINDIRECT then
              bindp (if iaddrs x ! NDIRECT = 0
                     then bindp (balloc c i (idev x) s) (\<lambda>a s1.
                       Ok (a, upd_inode k (\<lambda>x. x\<lparr>iaddrs := (iaddrs x)[NDIRECT := a]\<rparr>) s1))
                     else Ok (iaddrs x ! NDIRECT, s)) (\<lambda>ind s1.
                bindp (bread c i (idev (inodes s1 k)) ind s1) (\<lambda>bp s2.
                  let a = get32 (data (bufs s2 bp)) (4 * n)
                  in bindp (if a = 0
                            then bindp (balloc c i (idev (inodes s2 k)) s2) (\<lambda>a' s3.
                              bindr (log_write c bp (upd_buf bp (\<lambda>x. x\<lparr>data := put32 (data x) (4 * n) a'\<rparr>) s3)) (\<lambda>s4.
                                Ok (a', s4)))
                            else Ok (a, s2)) (\<lambda>addr s5.
                    bindr (brelse c i bp s5) (\<lambda>s6. Ok (addr, s6)))))
            else Panic ''bmap: out of range'')"

record kstat =
  st_dev :: u32
  st_ino :: u32
  st_type :: u16
  st_nlink :: u16
  st_size :: u64

definition stati :: "inode \<Rightarrow> kstat" where
  "stati x = \<lparr>st_dev = idev x, st_ino = inum x, st_type = itype x, st_nlink = inlink x, st_size = ucast (isize x)\<rparr>"

text \<open>A copy that fails part way leaves the bytes it got in the buffer.\<close>

definition put_bytes :: "nat \<Rightarrow> u8 list \<Rightarrow> u8 list \<Rightarrow> u8 list" where
  "put_bytes off v d = take off d @ v @ drop (off + length v) d"

text \<open>
  The target of \<open>readi\<close>: a user address, an address of kernel memory, or a place in a
  local variable of the calling kernel function, given by its offset. The bytes \<open>loc\<close>
  of that variable are passed in and returned. The source of \<open>writei\<close> is likewise an
  address, or the bytes of a local variable from the place pointed to on.
\<close>

datatype kdst = DUser u64 | DKern u64 | DLocal nat
datatype ksrc = SUser u64 | SKern u64 | SLocal "u8 list"

fun put_dst :: "nat \<Rightarrow> kdst \<Rightarrow> u8 list \<Rightarrow> u8 list \<Rightarrow> 'a kproc_scheme \<Rightarrow> int \<times> u8 list \<times> 'a kproc_scheme" where
  "put_dst i (DUser a) v loc s = (let (r, s1) = either_copyout i True a v s in (r, loc, s1))"
| "put_dst i (DKern a) v loc s = (let (r, s1) = either_copyout i False a v s in (r, loc, s1))"
| "put_dst i (DLocal p) v loc s = (0, put_bytes p v loc, s)"

fun dst_add :: "kdst \<Rightarrow> nat \<Rightarrow> kdst" where
  "dst_add (DUser a) m = DUser (a + of_nat m)"
| "dst_add (DKern a) m = DKern (a + of_nat m)"
| "dst_add (DLocal p) m = DLocal (p + m)"

fun get_src :: "nat \<Rightarrow> ksrc \<Rightarrow> nat \<Rightarrow> 'a kproc_scheme \<Rightarrow> int \<times> u8 list" where
  "get_src i (SUser a) m s = either_copyin i True a m s"
| "get_src i (SKern a) m s = either_copyin i False a m s"
| "get_src i (SLocal v) m s = (0, take m v)"

fun src_add :: "ksrc \<Rightarrow> nat \<Rightarrow> ksrc" where
  "src_add (SUser a) m = SUser (a + of_nat m)"
| "src_add (SKern a) m = SKern (a + of_nat m)"
| "src_add (SLocal v) m = SLocal (drop m v)"

text \<open>
  The loops of \<open>readi\<close> and \<open>writei\<close>. The checks before them exclude overflow of the
  offset, so \<open>off\<close>, \<open>tot\<close> and \<open>n\<close> are natural numbers here. The result of the first is
  \<open>tot\<close> with the bytes of the local variable, that of the second the final offset.
\<close>

function readi_loop ::
  "nat \<Rightarrow> nat \<Rightarrow> nat \<Rightarrow> kdst \<Rightarrow> nat \<Rightarrow> nat \<Rightarrow> nat \<Rightarrow> u8 list \<Rightarrow> 'a kfs_scheme \<Rightarrow> ((nat \<times> u8 list) \<times> 'a kfs_scheme) res" where
  "readi_loop c i k dst off tot n loc s =
     (if tot < n then
        bindp (bmap c i k (of_nat (off div BSIZE)) s) (\<lambda>addr s1.
          bindp (bread c i (idev (inodes s1 k)) addr s1) (\<lambda>bp s2.
            let m = min (n - tot) (BSIZE - off mod BSIZE);
                (r, loc1, s3) = put_dst i dst (take m (drop (off mod BSIZE) (data (bufs s2 bp)))) loc s2
            in if r = -1 then bindr (brelse c i bp s3) (\<lambda>s4. Ok ((tot, loc1), s4))
               else bindr (brelse c i bp s3) (\<lambda>s4.
                 readi_loop c i k (dst_add dst m) (off + m) (tot + m) n loc1 s4)))
      else Ok ((tot, loc), s))"
  by pat_completeness auto
termination
  by (relation "measure (\<lambda>(c, i, k, dst, off, tot, n, loc, s). n - tot)") auto

declare readi_loop.simps [simp del]

definition readi ::
  "nat \<Rightarrow> nat \<Rightarrow> nat \<Rightarrow> kdst \<Rightarrow> u32 \<Rightarrow> u32 \<Rightarrow> u8 list \<Rightarrow> 'a kfs_scheme \<Rightarrow> ((nat \<times> u8 list) \<times> 'a kfs_scheme) res" where
  "readi c i k dst off n loc s =
     (let size = isize (inodes s k)
      in if off > size \<or> off + n < off then Ok ((0, loc), s)
         else readi_loop c i k dst (unat off) 0 (unat (if off + n > size then size - off else n)) loc s)"

function writei_loop ::
  "nat \<Rightarrow> nat \<Rightarrow> nat \<Rightarrow> ksrc \<Rightarrow> nat \<Rightarrow> nat \<Rightarrow> nat \<Rightarrow> 'a kfs_scheme \<Rightarrow> (nat \<times> 'a kfs_scheme) res" where
  "writei_loop c i k src off tot n s =
     (if tot < n then
        bindp (bmap c i k (of_nat (off div BSIZE)) s) (\<lambda>addr s1.
          bindp (bread c i (idev (inodes s1 k)) addr s1) (\<lambda>bp s2.
            let m = min (n - tot) (BSIZE - off mod BSIZE);
                (r, v) = get_src i src m s2;
                s3 = upd_buf bp (\<lambda>x. x\<lparr>data := put_bytes (off mod BSIZE) v (data x)\<rparr>) s2
            in if r = -1 then bindr (brelse c i bp s3) (\<lambda>s4. Ok (off, s4))
               else bindr (log_write c bp s3) (\<lambda>s4.
                 bindr (brelse c i bp s4) (\<lambda>s5.
                   writei_loop c i k (src_add src m) (off + m) (tot + m) n s5))))
      else Ok (off, s))"
  by pat_completeness auto
termination
  by (relation "measure (\<lambda>(c, i, k, src, off, tot, n, s). n - tot)") auto

declare writei_loop.simps [simp del]

definition writei ::
  "nat \<Rightarrow> nat \<Rightarrow> nat \<Rightarrow> ksrc \<Rightarrow> u32 \<Rightarrow> u32 \<Rightarrow> 'a kfs_scheme \<Rightarrow> (int \<times> 'a kfs_scheme) res" where
  "writei c i k src off n s =
     (if off > isize (inodes s k) \<or> off + n < off then Ok (-1, s)
      else if unat (off + n) > MAXFILE * BSIZE then Ok (-1, s)
      else bindp (writei_loop c i k src (unat off) 0 (unat n) s) (\<lambda>off' s1.
        if n > 0 then
          bindr (iupdate c i k (if off' > unat (isize (inodes s1 k))
                                then upd_inode k (\<lambda>x. x\<lparr>isize := of_nat off'\<rparr>) s1 else s1)) (\<lambda>s2. Ok (sint n, s2))
        else Ok (sint n, s1)))"

section \<open>Directories\<close>

text \<open>
  A name is a buffer of \<open>DIRSIZ\<close> bytes, NUL-terminated if shorter; what follows the
  NUL is never read and is 0 in the model.
\<close>

definition namecmp :: "u8 list \<Rightarrow> u8 list \<Rightarrow> int" where
  "namecmp a b = strncmp_bytes (take DIRSIZ a) (take DIRSIZ b)"

text \<open>
  A \<open>struct dirent\<close> on the stack before it is read. Its bytes are indeterminate, and read only
  after all sixteen have been filled.
\<close>

definition de0 :: "u8 list" where
  "de0 = replicate 16 0"

function dirlookup_loop ::
  "nat \<Rightarrow> nat \<Rightarrow> nat \<Rightarrow> u8 list \<Rightarrow> nat \<Rightarrow> nat \<Rightarrow> 'a kfs_scheme \<Rightarrow> ((nat \<times> nat) option \<times> 'a kfs_scheme) res" where
  "dirlookup_loop c i k name off len s =
     (if off < len then
        bindp (readi c i k (DLocal 0) (of_nat off) 16 de0 s) (\<lambda>(r, de) s1.
          if r \<noteq> 16 then Panic ''dirlookup read''
          else if get16 de 0 = 0 then dirlookup_loop c i k name (off + 16) len s1
          else if namecmp name (drop 2 de) = 0 then
            bindp (iget c (idev (inodes s1 k)) (ucast (get16 de 0)) s1) (\<lambda>ip s2. Ok (Some (ip, off), s2))
          else dirlookup_loop c i k name (off + 16) len s1)
      else Ok (None, s))"
  by pat_completeness auto
termination
  by (relation "measure (\<lambda>(c, i, k, name, off, len, s). len - off)") auto

declare dirlookup_loop.simps [simp del]

definition dirlookup ::
  "nat \<Rightarrow> nat \<Rightarrow> nat \<Rightarrow> u8 list \<Rightarrow> 'a kfs_scheme \<Rightarrow> ((nat \<times> nat) option \<times> 'a kfs_scheme) res" where
  "dirlookup c i k name s =
     (if itype (inodes s k) \<noteq> T_DIR then Panic ''dirlookup not DIR''
      else dirlookup_loop c i k name 0 (unat (isize (inodes s k))) s)"

function dirlink_slot :: "nat \<Rightarrow> nat \<Rightarrow> nat \<Rightarrow> nat \<Rightarrow> nat \<Rightarrow> 'a kfs_scheme \<Rightarrow> (nat \<times> 'a kfs_scheme) res" where
  "dirlink_slot c i k off len s =
     (if off < len then
        bindp (readi c i k (DLocal 0) (of_nat off) 16 de0 s) (\<lambda>(r, de) s1.
          if r \<noteq> 16 then Panic ''dirlink read''
          else if get16 de 0 = 0 then Ok (off, s1)
          else dirlink_slot c i k (off + 16) len s1)
      else Ok (off, s))"
  by pat_completeness auto
termination
  by (relation "measure (\<lambda>(c, i, k, off, len, s). len - off)") auto

declare dirlink_slot.simps [simp del]

text \<open>A directory entry: \<open>ushort inum\<close>, then the name.\<close>

definition dirent_bytes :: "u16 \<Rightarrow> u8 list \<Rightarrow> u8 list" where
  "dirent_bytes n name = word_bytes 2 n @ strncpy_bytes (take DIRSIZ (name @ replicate DIRSIZ 0))"

definition dirlink :: "nat \<Rightarrow> nat \<Rightarrow> nat \<Rightarrow> u8 list \<Rightarrow> u32 \<Rightarrow> 'a kfs_scheme \<Rightarrow> (int \<times> 'a kfs_scheme) res" where
  "dirlink c i k name n s =
     bindp (dirlookup c i k name s) (\<lambda>r s1.
       case r of
         Some (ip, _) \<Rightarrow> bindr (iput c i ip s1) (\<lambda>s2. Ok (-1, s2))
       | None \<Rightarrow>
           bindp (dirlink_slot c i k 0 (unat (isize (inodes s1 k))) s1) (\<lambda>off s2.
             bindp (writei c i k (SLocal (dirent_bytes (ucast n) name)) (of_nat off) 16 s2) (\<lambda>w s3.
               if w \<noteq> 16 then Panic ''dirlink'' else Ok (0, s3))))"

section \<open>Path names\<close>

abbreviation slash :: u8 where "slash \<equiv> 47"

text \<open>
  Paths are strings without their NUL. The element is cut to \<open>DIRSIZ\<close> bytes.
\<close>

definition skipelem :: "u8 list \<Rightarrow> (u8 list \<times> u8 list) option" where
  "skipelem path =
     (let p = dropWhile (\<lambda>b. b = slash) path
      in if p = [] then None
         else let s = takeWhile (\<lambda>b. b \<noteq> slash) p; rest = dropWhile (\<lambda>b. b \<noteq> slash) p
              in Some (dropWhile (\<lambda>b. b = slash) rest, take DIRSIZ s))"

lemma skipelem_shorter: "skipelem path = Some (rest, name) \<Longrightarrow> length rest < length path"
proof -
  assume *: "skipelem path = Some (rest, name)"
  define p where "p = dropWhile (\<lambda>b. b = slash) path"
  have p: "p \<noteq> []" "rest = dropWhile (\<lambda>b. b = slash) (dropWhile (\<lambda>b. b \<noteq> slash) p)"
    using * by (auto simp: skipelem_def p_def Let_def split: if_splits)
  have "hd p \<noteq> slash" using p(1) hd_dropWhile unfolding p_def by blast
  then have "length (dropWhile (\<lambda>b. b \<noteq> slash) p) < length p"
    using p(1) by (cases p) (auto simp: le_imp_less_Suc length_dropWhile_le)
  moreover have "length rest \<le> length (dropWhile (\<lambda>b. b \<noteq> slash) p)" unfolding p(2) by (rule length_dropWhile_le)
  moreover have "length p \<le> length path" unfolding p_def by (rule length_dropWhile_le)
  ultimately show ?thesis by linarith
qed

text \<open>A name in its buffer of \<open>DIRSIZ\<close> bytes.\<close>

definition name_buf :: "u8 list \<Rightarrow> u8 list" where
  "name_buf name = take DIRSIZ (name @ replicate DIRSIZ 0)"

function namex_loop ::
  "nat \<Rightarrow> nat \<Rightarrow> bool \<Rightarrow> u8 list \<Rightarrow> u8 list \<Rightarrow> nat \<Rightarrow> 'a kfs_scheme \<Rightarrow> ((nat option \<times> u8 list) \<times> 'a kfs_scheme) res" where
  "namex_loop c i want_parent path name ip s =
     (case skipelem path of
        Some (path', name') \<Rightarrow>
          bindr (ilock c i ip s) (\<lambda>s1.
            if itype (inodes s1 ip) \<noteq> T_DIR then bindr (iunlockput c i ip s1) (\<lambda>s2. Ok ((None, name'), s2))
            else if want_parent \<and> path' = [] then bindr (iunlock c i ip s1) (\<lambda>s2. Ok ((Some ip, name'), s2))
            else bindp (dirlookup c i ip (name_buf name') s1) (\<lambda>r s2.
              case r of
                None \<Rightarrow> bindr (iunlockput c i ip s2) (\<lambda>s3. Ok ((None, name'), s3))
              | Some (next_ip, _) \<Rightarrow>
                  bindr (iunlockput c i ip s2) (\<lambda>s3. namex_loop c i want_parent path' name' next_ip s3)))
      | None \<Rightarrow>
          if want_parent then bindr (iput c i ip s) (\<lambda>s1. Ok ((None, name), s1))
          else Ok ((Some ip, name), s))"
  by pat_completeness auto
termination
  by (relation "measure (\<lambda>(c, i, w, path, name, ip, s). length path)") (auto intro: skipelem_shorter)

declare namex_loop.simps [simp del]

text \<open>A process without a current directory would fault on the null pointer.\<close>

definition namex ::
  "nat \<Rightarrow> nat \<Rightarrow> u8 list \<Rightarrow> bool \<Rightarrow> 'a kfs_scheme \<Rightarrow> ((nat option \<times> u8 list) \<times> 'a kfs_scheme) res" where
  "namex c i path want_parent s =
     bindp (if path \<noteq> [] \<and> hd path = slash then iget c ROOTDEV ROOTINO s
            else case cwd (procs s i) of None \<Rightarrow> Panic ''kerneltrap'' | Some k \<Rightarrow> idup c k s) (\<lambda>ip s1.
       namex_loop c i want_parent path [] ip s1)"

definition namei :: "nat \<Rightarrow> nat \<Rightarrow> u8 list \<Rightarrow> 'a kfs_scheme \<Rightarrow> (nat option \<times> 'a kfs_scheme) res" where
  "namei c i path s = bindp (namex c i path False s) (\<lambda>(ip, _) s1. Ok (ip, s1))"

definition nameiparent ::
  "nat \<Rightarrow> nat \<Rightarrow> u8 list \<Rightarrow> 'a kfs_scheme \<Rightarrow> ((nat option \<times> u8 list) \<times> 'a kfs_scheme) res" where
  "nameiparent c i path s = namex c i path True s"

end
