(* ===== verification/Log_Rounds.thy ===== *)
theory Log_Rounds
  imports Log
begin

text \<open>
  The rounds of the loops of log.c as steps of the buffer cache. Between the rounds the
  cache is at rest: no buffer is locked. Each round is a write of one block, with
  the references to every block but at most one as before.
\<close>

section \<open>The cache at rest\<close>

definition rest :: "nat \<Rightarrow> u32 \<Rightarrow> 'a kbio_scheme \<Rightarrow> bool" where
  "rest c d s \<longleftrightarrow> calm c s \<and> bio_inv d s \<and> (\<forall>k < NBUF. slocked (blk (bufs s k)) = 0)"

lemma restD: "rest c d s \<Longrightarrow> calm c s" "rest c d s \<Longrightarrow> bio_inv d s"
  by (simp_all add: rest_def)

lemma heldD: "held d n i s j \<Longrightarrow> j < NBUF" "held d n i s j \<Longrightarrow> locked_by s i j"
  by (simp_all add: held_def)

text \<open>The number of buffers \<open>bget\<close> may recycle, and the references to a block.\<close>

definition spares :: "'a kbio_scheme \<Rightarrow> nat" where
  "spares s = card {k. k < NBUF \<and> refcnt (bufs s k) = 0}"

definition refs :: "u32 \<Rightarrow> 'a kbio_scheme \<Rightarrow> u32 \<Rightarrow> u32" where
  "refs d s n = (case find (cached d n (bufs s)) [0..<NBUF] of Some k \<Rightarrow> refcnt (bufs s k) | None \<Rightarrow> 0)"

lemma cached_bufs: "cached d n (bufs s) k = cached d n (slot s) k"
  by (simp add: cached_def)

lemma refs_uncached: "(\<And>k. \<not> cached d n (bufs s) k) \<Longrightarrow> refs d s n = 0"
  unfolding refs_def by (metis find_None_iff option.simps(4))

lemma refs_cached:
  assumes "bio_inv d s" and "cached d n (bufs s) k"
  shows "refs d s n = refcnt (bufs s k)"
proof -
  have ok: "cache_ok d (slot s) (disk s)" using assms(1) by (simp add: bio_inv_def)
  have "find (cached d n (bufs s)) [0..<NBUF] \<noteq> None"
    using assms(2) by (auto simp: find_None_iff cached_def)
  then obtain j where f: "find (cached d n (bufs s)) [0..<NBUF] = Some j" by blast
  have "cached d n (bufs s) j" using find_SomeD [OF f] by simp
  then have "j = k" using assms(2) unfolding cached_bufs by (rule cache_okD(1) [OF ok])
  then show ?thesis using f by (simp add: refs_def)
qed

lemma refs_cases:
  assumes "bio_inv d s"
  obtains (hit) k where "cached d n (bufs s) k" "refs d s n = refcnt (bufs s k)"
  | (miss) "\<And>k. \<not> cached d n (bufs s) k" "refs d s n = 0"
  using refs_cached [OF assms] refs_uncached by blast

lemma spare_other:
  assumes "1 < spares s"
  obtains k where "k < NBUF" "refcnt (bufs s k) = 0" "k \<noteq> a"
proof -
  have "0 < card ({k. k < NBUF \<and> refcnt (bufs s k) = 0} - {a})"
    using assms card_Diff_singleton_if [of "{k. k < NBUF \<and> refcnt (bufs s k) = 0}" a]
    by (simp add: spares_def)
  then show thesis using that by (auto simp: card_gt_0_iff)
qed

lemma spare_some: "0 < spares s \<Longrightarrow> \<exists>k < NBUF. refcnt (bufs s k) = 0"
  by (auto simp: spares_def card_gt_0_iff)

text \<open>\<open>bread\<close> of the block does not have to wait, nor does it run out of buffers.\<close>

lemma available_refs:
  assumes rest: "rest c d s" and "refs d s n \<noteq> - 1" and "refs d s n \<noteq> 0 \<or> 0 < spares s"
  shows "available d n s"
  using restD(2) [OF rest]
proof (cases rule: refs_cases [where n = n])
  case (hit k)
  then have "k < NBUF" by (simp add: cached_def)
  then show ?thesis using hit rest assms(2) unfolding available_def rest_def by auto
next
  case miss
  then show ?thesis using assms(3) spare_some unfolding available_def by auto
qed

text \<open>
  What a round of the log does to the references: the counts of all buffers but \<open>b\<close>
  are as before, and so is the block of every buffer in use.
\<close>

lemma refs_round:
  assumes inv: "bio_inv d s" "bio_inv d s'"
    and keep: "\<And>k. k < NBUF \<Longrightarrow> k \<noteq> b \<Longrightarrow> refcnt (bufs s' k) = refcnt (bufs s k)"
      "\<And>k. k < NBUF \<Longrightarrow> k \<noteq> b \<Longrightarrow> refcnt (bufs s k) \<noteq> 0 \<Longrightarrow>
        dev (bufs s' k) = dev (bufs s k) \<and> blockno (bufs s' k) = blockno (bufs s k)"
    and b: "cached d m (bufs s') b" "refcnt (bufs s' b) = refcnt (bufs s b) + e"
      "cached d m (bufs s) b \<or> refcnt (bufs s b) = 0 \<and> refs d s m = 0"
  shows "refs d s' = (refs d s)(m := refs d s m + e)"
proof (rule ext)
  fix x
  show "refs d s' x = ((refs d s)(m := refs d s m + e)) x"
  proof (cases "x = m")
    case True
    have "refs d s m = refcnt (bufs s b)" using b(3) refs_cached [OF inv(1), of m b] by auto
    then show ?thesis using True refs_cached [OF inv(2) b(1)] b(2) by simp
  next
    case False
    have "refs d s' x = refs d s x"
    proof (cases "refs d s x = 0")
      case False
      then obtain k where k: "cached d x (bufs s) k" "refcnt (bufs s k) \<noteq> 0" "refs d s x = refcnt (bufs s k)"
        using refs_cases [OF inv(1), of x] by metis
      have "k \<noteq> b" using k(1,2) b(3) \<open>x \<noteq> m\<close> by (auto simp: cached_def)
      then show ?thesis
        using k keep(1,2) [of k] refs_cached [OF inv(2), of x k] by (simp add: cached_def)
    next
      case True
      show ?thesis
        using inv(2)
      proof (cases rule: refs_cases [where n = x])
        case (hit k)
        have "k \<noteq> b" using hit(1) b(1) \<open>x \<noteq> m\<close> by (auto simp: cached_def)
        then show ?thesis
          using True hit keep(1,2) [of k] refs_cached [OF inv(1), of x k]
          by (cases "refcnt (bufs s k) = 0") (auto simp: cached_def)
      qed (simp add: True)
    qed
    then show ?thesis using False by simp
  qed
qed

lemma spares_round:
  assumes "\<And>k. k < NBUF \<Longrightarrow> k \<noteq> b \<Longrightarrow> refcnt (bufs s' k) = refcnt (bufs s k)"
  shows "spares s \<le> spares s' + 1" and "refcnt (bufs s b) \<noteq> 0 \<Longrightarrow> spares s \<le> spares s'"
proof -
  let ?F = "\<lambda>s. {k. k < NBUF \<and> refcnt (bufs s k) = 0}"
  have "?F s \<subseteq> insert b (?F s')" using assms by auto
  then have "card (?F s) \<le> card (insert b (?F s'))" by (rule card_mono [rotated]) simp
  also have "\<dots> \<le> card (?F s') + 1" by (simp add: card_insert_if)
  finally show "spares s \<le> spares s' + 1" by (simp add: spares_def)
  assume "refcnt (bufs s b) \<noteq> 0"
  then have "?F s \<subseteq> ?F s'" using assms by (metis (mono_tags, lifting) mem_Collect_eq subsetI)
  then show "spares s \<le> spares s'" unfolding spares_def by (rule card_mono [rotated]) simp
qed

text \<open>A block without a reference has its disk content.\<close>

lemma bview_unreferenced:
  assumes "bio_inv d s" and "refs d s n = 0"
  shows "bview d s n = disk s n"
proof -
  have ok: "cache_ok d (slot s) (disk s)" using assms(1) by (simp add: bio_inv_def)
  then show ?thesis
  proof (cases rule: content_cases [where n = n])
    case (hit k)
    have "cached d n (bufs s) k" unfolding cached_bufs by (rule hit(1))
    then have "refcnt (slot s k) = 0" using refs_cached [OF assms(1)] assms(2) by simp
    then show ?thesis using hit(1,2) cache_okD(3) [OF ok, of k] unfolding hit(3) cached_def by blast
  qed
qed

lemma round_end:
  assumes rest: "rest c d s" and calm: "calm c s'" and inv: "bio_inv d s'"
    and keep: "\<And>k. k < NBUF \<Longrightarrow> k \<noteq> b \<Longrightarrow> slocked (blk (bufs s' k)) = 0"
      "\<And>k. k < NBUF \<Longrightarrow> k \<noteq> b \<Longrightarrow> refcnt (bufs s' k) = refcnt (bufs s k)"
      "\<And>k. k < NBUF \<Longrightarrow> k \<noteq> b \<Longrightarrow> refcnt (bufs s k) \<noteq> 0 \<Longrightarrow>
        dev (bufs s' k) = dev (bufs s k) \<and> blockno (bufs s' k) = blockno (bufs s k)"
    and b: "cached d m (bufs s') b" "refcnt (bufs s' b) = refcnt (bufs s b) + e" "slocked (blk (bufs s' b)) = 0"
      "cached d m (bufs s) b \<or> refcnt (bufs s b) = 0 \<and> refs d s m = 0"
  shows "rest c d s'" and "refs d s' = (refs d s)(m := refs d s m + e)" and "spares s \<le> spares s' + 1"
    and "refs d s m \<noteq> 0 \<or> e = 0 \<Longrightarrow> spares s \<le> spares s'"
proof -
  note inv0 = restD(2) [OF rest]
  show "rest c d s'"
    unfolding rest_def using calm inv keep(1) b(3) by blast
  show "refs d s' = (refs d s)(m := refs d s m + e)" by (rule refs_round [OF inv0 inv keep(2,3) b(1,2,4)])
  show "spares s \<le> spares s' + 1" by (rule spares_round(1) [OF keep(2)])
  show "spares s \<le> spares s'" if "refs d s m \<noteq> 0 \<or> e = 0"
  proof (cases "refcnt (bufs s b) = 0")
    case False
    then show ?thesis using spares_round(2) [OF keep(2)] by blast
  next
    case True
    then have "refs d s m = 0" using b(4) refs_cached [OF inv0, of m b] by auto
    then have "refcnt (bufs s' k) = refcnt (bufs s k)" if "k < NBUF" for k
      using that \<open>refs d s m \<noteq> 0 \<or> e = 0\<close> keep(2) [OF that] b(2) by (cases "k = b") auto
    then show ?thesis unfolding spares_def by (intro card_mono) auto
  qed
qed

section \<open>Reading two blocks and copying one to the other\<close>

lemma read_two:
  assumes rest: "rest c d s" and nm: "n \<noteq> m" and r: "refs d s n \<noteq> - 1" "refs d s m \<noteq> - 1"
    and sp: "0 < spares s" "refs d s m \<noteq> 0 \<or> 1 < spares s"
  obtains a s1 b s2 where "bread c i d n s = Ok (a, s1)" "bread c i d m s1 = Ok (b, s2)"
    and "touch s s1" "touch s s2" "bio_inv d s2" "a \<noteq> b" "held d n i s2 a" "held d m i s2 b"
    and "data (bufs s2 a) = bview d s n" "data (bufs s2 b) = bview d s m"
    and "disk s2 = disk s" "disk_writes s2 = disk_writes s" "bview d s2 = bview d s"
    and "\<forall>k. k \<noteq> a \<longrightarrow> k \<noteq> b \<longrightarrow> slot s2 k = slot s k"
    and "refcnt (bufs s2 a) = refcnt (bufs s a) + 1" "refcnt (bufs s2 b) = refcnt (bufs s b) + 1"
    and "cached d n (bufs s) a \<or> refcnt (bufs s a) = 0 \<and> refs d s n = 0"
    and "cached d m (bufs s) b \<or> refcnt (bufs s b) = 0 \<and> refs d s m = 0"
proof -
  note calm = restD(1) [OF rest] and inv = restD(2) [OF rest]
  have av: "available d n s" using available_refs [OF rest r(1)] sp(1) by simp
  obtain a s1 where b1: "bread c i d n s = Ok (a, s1)" "a < NBUF" "touch s s1" "bio_inv d s1"
    "disk s1 = disk s" "disk_writes s1 = disk_writes s" "bview d s1 = bview d s"
    and o1: "\<And>k. k \<noteq> a \<Longrightarrow> slot s1 k = slot s k"
    and x1: "dev (bufs s1 a) = d" "blockno (bufs s1 a) = n" "valid (bufs s1 a)" "data (bufs s1 a) = bview d s n"
      "locked_by s1 i a" "refcnt (bufs s1 a) = refcnt (bufs s a) + 1" "refcnt (bufs s1 a) \<noteq> 0"
    and f1: "cached d n (bufs s) a \<or> refcnt (bufs s a) = 0 \<and> (\<forall>k. \<not> cached d n (bufs s) k)"
    using bread_step [OF calm inv av] by metis
  note k1 = slotD [OF o1]
  have k1': "k \<noteq> a" "cached d m (bufs s) k" if "cached d m (bufs s1) k" for k
    using that x1(2) nm k1(1,2) [of k] by (cases "k = a"; auto simp: cached_def)+
  have m1: "refs d s m = 0" if "\<forall>k. \<not> cached d m (bufs s1) k"
    using inv
  proof (cases rule: refs_cases [where n = m])
    case (hit k)
    have "k = a" using that hit(1) k1(1,2) [of k] by (auto simp: cached_def)
    then show ?thesis using hit f1 nm by (auto simp: cached_def)
  qed
  have av1: "available d m s1"
    using b1(4)
  proof (cases rule: refs_cases [where n = m])
    case (hit k)
    have "slot s1 k = slot s k" using o1 k1'(1) [OF hit(1)] by simp
    moreover have "refs d s m = refcnt (bufs s k)" using refs_cached [OF inv k1'(2) [OF hit(1)]] .
    ultimately show ?thesis
      using hit(1) rest r(2) slotD(3,4) [of s1 k "slot s k"] unfolding available_def rest_def cached_def by auto
  next
    case miss
    then have "1 < spares s" using m1 sp(2) by blast
    then obtain k where k: "k < NBUF" "refcnt (bufs s k) = 0" "k \<noteq> a" by (rule spare_other)
    then show ?thesis using miss(1) k1(3) [OF k(3)] unfolding available_def by auto
  qed
  obtain b s2 where b2: "bread c i d m s1 = Ok (b, s2)" "b < NBUF" "touch s1 s2" "bio_inv d s2"
    "disk s2 = disk s1" "disk_writes s2 = disk_writes s1" "bview d s2 = bview d s1"
    and o2: "\<And>k. k \<noteq> b \<Longrightarrow> slot s2 k = slot s1 k"
    and x2: "dev (bufs s2 b) = d" "blockno (bufs s2 b) = m" "valid (bufs s2 b)"
      "data (bufs s2 b) = bview d s1 m" "locked_by s2 i b"
      "refcnt (bufs s2 b) = refcnt (bufs s1 b) + 1" "refcnt (bufs s2 b) \<noteq> 0"
    and f2: "cached d m (bufs s1) b \<or> refcnt (bufs s1 b) = 0 \<and> (\<forall>k. \<not> cached d m (bufs s1) k)"
    using bread_step [OF touch_calm [OF b1(3) calm] b1(4) av1] by metis
  have ab: "b \<noteq> a" using f2 k1'(1) x1(7) by auto
  note a2 = slotD [OF o2 [OF ab [symmetric]], unfolded slot_fields] and b1' = k1 [OF ab, unfolded slot_fields]
  have ha: "held d n i s1 a" using x1 b1(2) by (simp add: held_def)
  show thesis
  proof (rule that [OF b1(1) b2(1) b1(3) touch_trans [OF b1(3) b2(3)] b2(4) ab [symmetric]])
    show "held d n i s2 a" using held_slot [OF ha o2 [OF ab [symmetric]] b2(3)] .
    show "held d m i s2 b" using x2 b2(2) by (simp add: held_def)
    show "cached d m (bufs s) b \<or> refcnt (bufs s b) = 0 \<and> refs d s m = 0"
      using f2 m1 k1'(2) b1'(3) by auto
    show "cached d n (bufs s) a \<or> refcnt (bufs s a) = 0 \<and> refs d s n = 0"
      using f1 refs_uncached [of d n s] by auto
    show "\<forall>k. k \<noteq> a \<longrightarrow> k \<noteq> b \<longrightarrow> slot s2 k = slot s k" using o1 o2 by simp
  qed (use a2 b1' x1 x2 b1 b2 in simp_all)
qed

lemma data_write:
  assumes calm: "calm c s" and inv: "bio_inv d s" and h: "held d n i s j" and v: "length v = BSIZE"
    and t: "t = upd_buf j (\<lambda>x. x\<lparr>data := v\<rparr>) s"
  obtains s' where "bwrite c i j t = Ok s'" "touch s s'" "bio_inv d s'"
    and "bview d s' = (bview d s)(n := v)" "disk s' = (disk s)(n := v)" "disk_writes s' = disk_writes s @ [(n, v)]"
    and "slot s' = (slot s)(j := (slot s j)\<lparr>data := v\<rparr>)"
proof -
  have h': "j < NBUF" "dev (bufs s j) = d" "blockno (bufs s j) = n" "valid (bufs s j)" "refcnt (bufs s j) \<noteq> 0" "locked_by s i j"
    using h by (simp_all add: held_def)
  note m = modify_step [OF inv h'(1,2,4,5) v, folded t]
  have w: "dev (bufs t j) = d" "valid (bufs t j)" using h' by (simp_all add: t)
  note w3 = write_step [OF m(1) h'(1) w]
  have l: "locked_by t i j" using h'(6) by (simp add: t locked_by_def)
  have "slot (disk_rw j True t) = slot t" by (rule ext) (simp only: slot_def w3(5))
  moreover have "touch s (disk_rw j True t)" unfolding t using touch_trans [OF touch_upd_buf touch_disk_rw] .
  moreover have "bwrite c i j t = Ok (disk_rw j True t)"
    unfolding t using bwrite_value [OF touch_calm [OF touch_upd_buf calm], of i j] l by (simp add: t)
  ultimately show thesis using that [of "disk_rw j True t"] m w3 h' by (simp add: t slot_data)
qed

lemma copy_write:
  assumes calm: "calm c s" and inv: "bio_inv d s" and h: "held d n i s j"
    and v: "v = data (bufs s l)" "length v = BSIZE"
  obtains s' where "bwrite c i j (copy_buf j l s) = Ok s'" "touch s s'" "bio_inv d s'"
    and "bview d s' = (bview d s)(n := v)" "disk s' = (disk s)(n := v)" "disk_writes s' = disk_writes s @ [(n, v)]"
    and "slot s' = (slot s)(j := (slot s j)\<lparr>data := v\<rparr>)"
  by (rule data_write [OF calm inv h v(2), of "copy_buf j l s"]) (simp_all add: copy_buf_def v)

section \<open>What was written\<close>

definition apply_writes :: "(u32 \<times> u8 list) list \<Rightarrow> (u32 \<Rightarrow> u8 list) \<Rightarrow> u32 \<Rightarrow> u8 list" where
  "apply_writes ws D = fold (\<lambda>(b, v) D. D(b := v)) ws D"

lemma apply_writes_simps [simp]:
  "apply_writes [] D = D"
  "apply_writes (w # ws) D = apply_writes ws (D(fst w := snd w))"
  "apply_writes (ws @ vs) D = apply_writes vs (apply_writes ws D)"
  by (simp_all add: apply_writes_def split: prod.split)

definition wrote :: "u32 \<Rightarrow> (u32 \<times> u8 list) list \<Rightarrow> 'a kbio_scheme \<Rightarrow> 'a kbio_scheme \<Rightarrow> bool" where
  "wrote d ws s s' \<longleftrightarrow> touch s s' \<and> disk s' = apply_writes ws (disk s) \<and>
     disk_writes s' = disk_writes s @ ws \<and> bview d s' = apply_writes ws (bview d s)"

lemma wrote_refl [simp]: "wrote d [] s s"
  by (simp add: wrote_def)

lemma wroteD:
  assumes "wrote d ws s s'"
  shows "touch s s'" and "disk s' = apply_writes ws (disk s)" and "disk_writes s' = disk_writes s @ ws"
    and "bview d s' = apply_writes ws (bview d s)"
  using assms unfolding wrote_def by blast+

lemma wrote_one: "wrote d [(n, v)] s s' \<Longrightarrow> bview d s' = (bview d s)(n := v)"
  by (drule wroteD(4)) (unfold apply_writes_simps fst_conv snd_conv)

lemma wrote_trans: "wrote d ws s s1 \<Longrightarrow> wrote d vs s1 s2 \<Longrightarrow> wrote d (ws @ vs) s s2"
  using touch_trans by (auto simp: wrote_def)

section \<open>One round of write\_log\<close>

text \<open>The block \<open>m\<close>, which is pinned, is copied to the log block \<open>n\<close>.\<close>

lemma write_log_round:
  assumes rest: "rest c d s" and nm: "n \<noteq> m" and r: "refs d s n \<noteq> - 1" "refs d s m \<noteq> - 1"
    and sp: "0 < spares s" and pin: "refs d s m \<noteq> 0"
  obtains to s1 fr s2 s3 s4 s5 where
    "bread c i d n s = Ok (to, s1)" "bread c i d m s1 = Ok (fr, s2)"
    "bwrite c i to (copy_buf to fr s2) = Ok s3" "brelse c i fr s3 = Ok s4" "brelse c i to s4 = Ok s5"
    and "touch s s1" "wrote d [(n, bview d s m)] s s5" "rest c d s5" "refs d s5 = refs d s" "spares s \<le> spares s5"
proof -
  note calm = restD(1) [OF rest] and inv = restD(2) [OF rest]
  obtain a s1 b s2 where rd: "bread c i d n s = Ok (a, s1)" "bread c i d m s1 = Ok (b, s2)"
    "touch s s1" "touch s s2" "bio_inv d s2" "a \<noteq> b" "held d n i s2 a" "held d m i s2 b"
    "data (bufs s2 a) = bview d s n" "data (bufs s2 b) = bview d s m"
    "disk s2 = disk s" "disk_writes s2 = disk_writes s" "bview d s2 = bview d s"
    and o2: "\<forall>k. k \<noteq> a \<longrightarrow> k \<noteq> b \<longrightarrow> slot s2 k = slot s k"
    and rc: "refcnt (bufs s2 a) = refcnt (bufs s a) + 1" "refcnt (bufs s2 b) = refcnt (bufs s b) + 1"
    and src: "cached d n (bufs s) a \<or> refcnt (bufs s a) = 0 \<and> refs d s n = 0"
      "cached d m (bufs s) b \<or> refcnt (bufs s b) = 0 \<and> refs d s m = 0"
    by (rule read_two [where i = i, OF rest nm r sp disjI1 [OF pin]])
  define v where "v = bview d s m"
  have v: "v = data (bufs s2 b)" "length v = BSIZE" using rd(10) bview_length [OF inv] by (simp_all add: v_def)
  obtain s3 where w: "bwrite c i a (copy_buf a b s2) = Ok s3" "touch s2 s3" "bio_inv d s3"
    "bview d s3 = (bview d s2)(n := v)" "disk s3 = (disk s2)(n := v)" "disk_writes s3 = disk_writes s2 @ [(n, v)]"
    "slot s3 = (slot s2)(a := (slot s2 a)\<lparr>data := v\<rparr>)"
    by (rule copy_write [OF touch_calm [OF rd(4) calm] rd(5,7) v])
  have ha: "a < NBUF" "b < NBUF" using rd(7,8) by (simp_all add: held_def)
  have hb: "held d m i s3 b" using held_slot [OF rd(8) _ w(2)] w(7) rd(6) by simp
  have "refcnt (bufs s b) \<noteq> 0" using pin src(2) refs_cached [OF inv, of m b] by auto
  then have cb: "refcnt (bufs s3 b) \<noteq> 1 \<or> data (bufs s3 b) = disk s3 (blockno (bufs s3 b))"
    using rc(2) slotD(3) [of s3 b "slot s2 b"] w(7) rd(6) by simp
  have t3: "touch s s3" using touch_trans [OF rd(4) w(2)] .
  obtain s4 where r4: "brelse c i b s3 = Ok s4" "touch s3 s4" "bio_inv d s4" "disk s4 = disk s3"
    "disk_writes s4 = disk_writes s3" "bview d s4 = bview d s3" "slot s4 = (slot s3)(b := drop_ref (slot s3 b))"
    by (rule brelse_step [OF touch_calm [OF t3 calm] w(3) heldD(1,2) [OF hb] cb])
  have t4: "touch s s4" using touch_trans [OF t3 r4(2)] .
  have sa: "slot s4 a = (slot s2 a)\<lparr>data := v\<rparr>" using rd(6) by (simp add: r4(7) w(7))
  have la: "locked_by s4 i a"
    using rd(7) slotD(4) [OF sa] touch_pid(1) [OF t4] touch_pid(1) [OF rd(4)] by (simp add: held_def locked_by_def)
  have ca: "refcnt (bufs s4 a) \<noteq> 1 \<or> data (bufs s4 a) = disk s4 (blockno (bufs s4 a))"
    using slotD(2,6) [OF sa] rd(7) by (simp add: r4(4) w(5) held_def)
  obtain s5 where r5: "brelse c i a s4 = Ok s5" "touch s4 s5" "bio_inv d s5" "disk s5 = disk s4"
    "disk_writes s5 = disk_writes s4" "bview d s5 = bview d s4" "slot s5 = (slot s4)(a := drop_ref (slot s4 a))"
    by (rule brelse_step [OF touch_calm [OF t4 calm] r4(3) ha(1) la ca])
  have t5: "touch s s5" using touch_trans [OF t4 r5(2)] .
  have e: "slot s5 a = drop_ref ((slot s2 a)\<lparr>data := v\<rparr>)" "slot s5 b = drop_ref (slot s2 b)"
    "\<And>k. k \<noteq> a \<Longrightarrow> k \<noteq> b \<Longrightarrow> slot s5 k = slot s k"
    using rd(6) o2 by (simp_all add: r5(7) sa r4(7) w(7))
  note ea = slotD [OF e(1)] and eb = slotD [OF e(2)] and eo = slotD [OF e(3)]
  have keep: "slocked (blk (bufs s5 k)) = 0" "refcnt (bufs s5 k) = refcnt (bufs s k)"
    "refcnt (bufs s k) \<noteq> 0 \<Longrightarrow> dev (bufs s5 k) = dev (bufs s k) \<and> blockno (bufs s5 k) = blockno (bufs s k)"
    if "k < NBUF" "k \<noteq> b" for k
    using that ea eo [of k] rest rc(1) src(1) rd(7) by (cases "k = a"; auto simp: rest_def cached_def held_def)+
  have bb: "cached d m (bufs s5) b" "refcnt (bufs s5 b) = refcnt (bufs s b) + 0" "slocked (blk (bufs s5 b)) = 0"
    using eb rd(8) rc(2) by (simp_all add: cached_def held_def)
  note fin = round_end [OF rest touch_calm [OF t5 calm] r5(3) keep bb src(2)]
  show thesis
  proof (rule that [OF rd(1,2) w(1) r4(1) r5(1) rd(3) _ fin(1)])
    show "wrote d [(n, bview d s m)] s s5"
      using t5 r5 r4 w rd by (simp add: wrote_def v_def)
  qed (use fin in simp_all)
qed

section \<open>One round of install\_trans\<close>

text \<open>
  The log block \<open>n\<close> is copied to its home \<open>m\<close>, and one reference to \<open>m\<close> is dropped,
  whether or not the block was pinned.
\<close>

lemma install_round:
  assumes rest: "rest c d s" and nm: "n \<noteq> m" and r: "refs d s n \<noteq> - 1" "refs d s m \<noteq> - 1"
    and sp: "0 < spares s" "refs d s m \<noteq> 0 \<or> 1 < spares s"
  obtains l s1 h s2 s3 s4 s5 s6 where
    "bread c i d n s = Ok (l, s1)" "bread c i d m s1 = Ok (h, s2)"
    "bwrite c i h (copy_buf h l s2) = Ok s3" "bunpin c h s3 = Ok s4" "brelse c i l s4 = Ok s5" "brelse c i h s5 = Ok s6"
    and "touch s s1" "wrote d [(m, bview d s n)] s s6" "rest c d s6" "refs d s6 = (refs d s)(m := refs d s m - 1)"
    and "spares s \<le> spares s6 + 1" "refs d s m \<noteq> 0 \<longrightarrow> spares s \<le> spares s6"
proof -
  note calm = restD(1) [OF rest] and inv = restD(2) [OF rest]
  obtain a s1 b s2 where rd: "bread c i d n s = Ok (a, s1)" "bread c i d m s1 = Ok (b, s2)"
    "touch s s1" "touch s s2" "bio_inv d s2" "a \<noteq> b" "held d n i s2 a" "held d m i s2 b"
    "data (bufs s2 a) = bview d s n" "data (bufs s2 b) = bview d s m"
    "disk s2 = disk s" "disk_writes s2 = disk_writes s" "bview d s2 = bview d s"
    and o2: "\<forall>k. k \<noteq> a \<longrightarrow> k \<noteq> b \<longrightarrow> slot s2 k = slot s k"
    and rc: "refcnt (bufs s2 a) = refcnt (bufs s a) + 1" "refcnt (bufs s2 b) = refcnt (bufs s b) + 1"
    and src: "cached d n (bufs s) a \<or> refcnt (bufs s a) = 0 \<and> refs d s n = 0"
      "cached d m (bufs s) b \<or> refcnt (bufs s b) = 0 \<and> refs d s m = 0"
    by (rule read_two [where i = i, OF rest nm r sp])
  define v where "v = bview d s n"
  have v: "v = data (bufs s2 a)" "length v = BSIZE" using rd(9) bview_length [OF inv] by (simp_all add: v_def)
  obtain s3 where w: "bwrite c i b (copy_buf b a s2) = Ok s3" "touch s2 s3" "bio_inv d s3"
    "bview d s3 = (bview d s2)(m := v)" "disk s3 = (disk s2)(m := v)" "disk_writes s3 = disk_writes s2 @ [(m, v)]"
    "slot s3 = (slot s2)(b := (slot s2 b)\<lparr>data := v\<rparr>)"
    by (rule copy_write [OF touch_calm [OF rd(4) calm] rd(5,8) v])
  note ha = heldD [OF rd(7)] and hb = heldD [OF rd(8)]
  have t3: "touch s s3" using touch_trans [OF rd(4) w(2)] .
  define s4 where "s4 = upd_buf b (\<lambda>x. x\<lparr>refcnt := refcnt x - 1\<rparr>) s3"
  have u: "bunpin c b s3 = Ok s4" using bunpin_value [OF touch_calm [OF t3 calm]] by (simp add: s4_def)
  have t4: "touch s s4" unfolding s4_def using touch_trans [OF t3 touch_upd_buf] .
  obtain xs where xs3: "lru s3 xs" and ok3: "cache_ok d (slot s3) (disk s3)" using w(3) by (auto simp: bio_inv_def)
  have xs: "lru s4 xs" unfolding s4_def by (rule lru_upd_buf [OF xs3]) simp_all
  have sl4: "slot s4 = (slot s3)(b := (slot s3 b)\<lparr>refcnt := refcnt (slot s3 b) - 1\<rparr>)"
    unfolding s4_def by (rule slot_refcnt)
  have la: "locked_by s4 i a"
    using ha(2) slotD(4) [of s4 a "slot s2 a"] touch_pid(1) [OF t4] touch_pid(1) [OF rd(4)] rd(6) sl4 w(7)
    by (simp add: locked_by_def)
  obtain s5 where r5: "brelse c i a s4 = Ok s5" "touch s4 s5" "lru s5 (if refcnt (bufs s4 a) = 1 then a # remove1 a xs else xs)" "disk s5 = disk s4"
    "disk_writes s5 = disk_writes s4" "slot s5 = (slot s4)(a := drop_ref (slot s4 a))"
    by (rule brelse_slots [OF touch_calm [OF t4 calm] ha(1) la xs])
  have t5: "touch s s5" using touch_trans [OF t4 r5(2)] .
  have sb5: "slot s5 b = (slot s2 b)\<lparr>data := v, refcnt := refcnt (slot s2 b) - 1\<rparr>"
    using rd(6) by (simp add: r5(6) sl4 w(7))
  have lb: "locked_by s5 i b"
    using hb(2) slotD(4) [OF sb5] touch_pid(1) [OF t5] touch_pid(1) [OF rd(4)] by (simp add: locked_by_def)
  obtain s6 zs where r6: "brelse c i b s5 = Ok s6" "touch s5 s6" "lru s6 zs" "disk s6 = disk s5"
    "disk_writes s6 = disk_writes s5" "slot s6 = (slot s5)(b := drop_ref (slot s5 b))"
    by (rule brelse_slots [OF touch_calm [OF t5 calm] hb(1) lb r5(3)]) blast
  have t6: "touch s s6" using touch_trans [OF t5 r6(2)] .
  have d6: "disk s6 = disk s3" "disk_writes s6 = disk_writes s3" using r6 r5 by (simp_all add: s4_def)
  have e: "slot s6 a = drop_ref (slot s2 a)"
    "slot s6 b = drop_ref ((slot s2 b)\<lparr>data := v, refcnt := refcnt (slot s2 b) - 1\<rparr>)"
    "\<And>k. k \<noteq> a \<Longrightarrow> k \<noteq> b \<Longrightarrow> slot s6 k = slot s k"
    using rd(6) o2 by (simp_all add: r6(6) sb5) (simp_all add: r5(6) sl4 w(7))
  note ea = slotD [OF e(1)] and eb = slotD [OF e(2)] and eo = slotD [OF e(3)]
  have same: "same_block (slot s6 k) (slot s3 k)" for k
    using rd(6) o2 by (cases "k = a"; cases "k = b") (simp_all add: same_block_def r6(6) r5(6) sl4)
  have "refcnt (bufs s a) = 0 \<longrightarrow> v = disk s n"
    unfolding v_def using src(1) refs_cached [OF inv, of n a] bview_unreferenced [OF inv, of n] by auto
  then have free: "slocked (blk (slot s6 k)) = 0 \<and>
      (dev (slot s3 k) = d \<and> valid (slot s3 k) \<longrightarrow> data (slot s3 k) = disk s3 (blockno (slot s3 k)))"
    if "k < NBUF" "refcnt (slot s6 k) = 0" for k
  proof -
    consider "k = a" | "k = b" | "k \<noteq> a" "k \<noteq> b" by blast
    then show ?thesis
    proof cases
      case 1
      then show ?thesis
        using that \<open>refcnt (bufs s a) = 0 \<longrightarrow> v = disk s n\<close> ea rc(1) rd(6,7,11) nm v(1) by (simp add: w(5,7) held_def)
    next
      case 2
      then show ?thesis using eb rd(8) by (simp add: w(5,7) held_def)
    next
      case 3
      then have "slot s6 k = slot s3 k" using rd(6) by (simp add: r6(6) r5(6) sl4)
      then show ?thesis using that cache_okD(2,3) [OF ok3, of k] by auto
    qed
  qed
  note ci = counts_inv [OF w(3) r6(3) d6(1) same free]
  have keep: "slocked (blk (bufs s6 k)) = 0" "refcnt (bufs s6 k) = refcnt (bufs s k)"
    "refcnt (bufs s k) \<noteq> 0 \<Longrightarrow> dev (bufs s6 k) = dev (bufs s k) \<and> blockno (bufs s6 k) = blockno (bufs s k)"
    if "k < NBUF" "k \<noteq> b" for k
    using that ea eo [of k] rest rc(1) src(1) rd(7) by (cases "k = a"; auto simp: rest_def cached_def held_def)+
  have bb: "cached d m (bufs s6) b" "refcnt (bufs s6 b) = refcnt (bufs s b) + - 1" "slocked (blk (bufs s6 b)) = 0"
    using eb rd(8) rc(2) by (simp_all add: cached_def held_def)
  note fin = round_end [OF rest touch_calm [OF t6 calm] ci(1) keep bb src(2)]
  show thesis
  proof (rule that [OF rd(1,2) w(1) u r5(1) r6(1) rd(3) _ fin(1) _ fin(3)])
    show "wrote d [(m, bview d s n)] s s6"
      using t6 d6 ci(2) w rd by (simp add: wrote_def v_def)
  qed (use fin in simp_all)
qed

section \<open>Reading and updating one block\<close>

lemma read_one:
  assumes rest: "rest c d s" and r: "refs d s n \<noteq> - 1" "refs d s n \<noteq> 0 \<or> 0 < spares s"
  obtains b s1 where "bread c i d n s = Ok (b, s1)" "touch s s1" "bio_inv d s1" "held d n i s1 b"
    and "data (bufs s1 b) = bview d s n" "disk s1 = disk s" "disk_writes s1 = disk_writes s" "bview d s1 = bview d s"
    and "\<forall>k. k \<noteq> b \<longrightarrow> slot s1 k = slot s k" "refcnt (bufs s1 b) = refcnt (bufs s b) + 1"
    and "cached d n (bufs s) b \<or> refcnt (bufs s b) = 0 \<and> refs d s n = 0"
proof -
  obtain b s1 where b: "bread c i d n s = Ok (b, s1)" "b < NBUF" "touch s s1" "bio_inv d s1"
    "disk s1 = disk s" "disk_writes s1 = disk_writes s" "bview d s1 = bview d s"
    and o: "\<And>k. k \<noteq> b \<Longrightarrow> slot s1 k = slot s k"
    and x: "dev (bufs s1 b) = d" "blockno (bufs s1 b) = n" "valid (bufs s1 b)" "data (bufs s1 b) = bview d s n"
      "locked_by s1 i b" "refcnt (bufs s1 b) = refcnt (bufs s b) + 1" "refcnt (bufs s1 b) \<noteq> 0"
    and f: "cached d n (bufs s) b \<or> refcnt (bufs s b) = 0 \<and> (\<forall>k. \<not> cached d n (bufs s) k)"
    using bread_step [OF restD(1,2) [OF rest] available_refs [OF rest r]] by metis
  have h: "held d n i s1 b" using b x by (simp add: held_def)
  have f': "cached d n (bufs s) b \<or> refcnt (bufs s b) = 0 \<and> refs d s n = 0" using f refs_uncached by metis
  have o': "\<forall>k. k \<noteq> b \<longrightarrow> slot s1 k = slot s k" using o by blast
  show thesis by (rule that [OF b(1,3,4) h x(4) b(5,6,7) o' x(6) f'])
qed

text \<open>Releasing the buffer ends the visit: the references are as before.\<close>

lemma release_one:
  assumes rest: "rest c d s" and t: "touch s s1" and inv: "bio_inv d s1" and h: "held d n i s1 b"
    and o: "\<forall>k. k \<noteq> b \<longrightarrow> slot s1 k = slot s k" and rc: "refcnt (bufs s1 b) = refcnt (bufs s b) + 1"
    and src: "cached d n (bufs s) b \<or> refcnt (bufs s b) = 0 \<and> refs d s n = 0"
    and clean: "refcnt (bufs s b) = 0 \<longrightarrow> data (bufs s1 b) = disk s1 n"
  obtains s2 where "brelse c i b s1 = Ok s2" "touch s s2" "disk s2 = disk s1" "disk_writes s2 = disk_writes s1"
    and "bview d s2 = bview d s1" "rest c d s2" "refs d s2 = refs d s" "spares s \<le> spares s2"
proof -
  have cl: "refcnt (bufs s1 b) \<noteq> 1 \<or> data (bufs s1 b) = disk s1 (blockno (bufs s1 b))"
    using clean h rc by (auto simp: held_def)
  obtain s2 where b: "brelse c i b s1 = Ok s2" "touch s1 s2" "bio_inv d s2" "disk s2 = disk s1"
    "disk_writes s2 = disk_writes s1" "bview d s2 = bview d s1" "slot s2 = (slot s1)(b := drop_ref (slot s1 b))"
    by (rule brelse_step [OF touch_calm [OF t restD(1) [OF rest]] inv heldD [OF h] cl])
  have t2: "touch s s2" using touch_trans [OF t b(2)] .
  have e: "slot s2 b = drop_ref (slot s1 b)" "\<And>k. k \<noteq> b \<Longrightarrow> slot s2 k = slot s k"
    using o by (simp_all add: b(7))
  note eb = slotD [OF e(1)] and eo = slotD [OF e(2)]
  have keep: "slocked (blk (bufs s2 k)) = 0" "refcnt (bufs s2 k) = refcnt (bufs s k)"
    "refcnt (bufs s k) \<noteq> 0 \<Longrightarrow> dev (bufs s2 k) = dev (bufs s k) \<and> blockno (bufs s2 k) = blockno (bufs s k)"
    if "k < NBUF" "k \<noteq> b" for k
    using that eo [of k] rest by (simp_all add: rest_def)
  have bb: "cached d n (bufs s2) b" "refcnt (bufs s2 b) = refcnt (bufs s b) + 0" "slocked (blk (bufs s2 b)) = 0"
    using eb h rc by (simp_all add: cached_def held_def)
  note fin = round_end [OF rest touch_calm [OF t2 restD(1) [OF rest]] b(3) keep bb src]
  show thesis by (rule that [OF b(1) t2 b(4,5,6) fin(1)]) (use fin(2,4) in simp_all)
qed

lemma update_round:
  assumes rest: "rest c d s" and r: "refs d s n \<noteq> - 1" "refs d s n \<noteq> 0 \<or> 0 < spares s"
    and f: "\<And>x. length x = BSIZE \<Longrightarrow> length (f x) = BSIZE"
  obtains b s1 s2 s3 where "bread c i d n s = Ok (b, s1)"
    "bwrite c i b (upd_buf b (\<lambda>x. x\<lparr>data := f (data x)\<rparr>) s1) = Ok s2" "brelse c i b s2 = Ok s3"
    and "touch s s1" "wrote d [(n, f (bview d s n))] s s3" "rest c d s3" "refs d s3 = refs d s" "spares s \<le> spares s3"
proof -
  note calm = restD(1) [OF rest] and inv = restD(2) [OF rest]
  obtain b s1 where b: "bread c i d n s = Ok (b, s1)" "touch s s1" "bio_inv d s1" "held d n i s1 b"
    "data (bufs s1 b) = bview d s n" "disk s1 = disk s" "disk_writes s1 = disk_writes s" "bview d s1 = bview d s"
    "\<forall>k. k \<noteq> b \<longrightarrow> slot s1 k = slot s k" "refcnt (bufs s1 b) = refcnt (bufs s b) + 1"
    "cached d n (bufs s) b \<or> refcnt (bufs s b) = 0 \<and> refs d s n = 0"
    by (rule read_one [OF rest r])
  define v where "v = f (bview d s n)"
  have v: "length v = BSIZE" unfolding v_def by (rule f) (rule bview_length [OF inv])
  have u: "upd_buf b (\<lambda>x. x\<lparr>data := f (data x)\<rparr>) s1 = upd_buf b (\<lambda>x. x\<lparr>data := v\<rparr>) s1"
    using b(5) by (simp add: upd_buf_def v_def)
  obtain s2 where w: "bwrite c i b (upd_buf b (\<lambda>x. x\<lparr>data := f (data x)\<rparr>) s1) = Ok s2" "touch s1 s2" "bio_inv d s2"
    "bview d s2 = (bview d s1)(n := v)" "disk s2 = (disk s1)(n := v)" "disk_writes s2 = disk_writes s1 @ [(n, v)]"
    "slot s2 = (slot s1)(b := (slot s1 b)\<lparr>data := v\<rparr>)"
    by (rule data_write [OF touch_calm [OF b(2) calm] b(3,4) v u])
  have t2: "touch s s2" using touch_trans [OF b(2) w(2)] .
  have "slot s2 b = (slot s1 b)\<lparr>data := v\<rparr>" by (simp add: w(7))
  note sb = slotD [OF this]
  have h: "held d n i s2 b"
    using b(4) sb touch_pid(1) [OF w(2)] by (simp add: held_def locked_by_def)
  have x: "\<forall>k. k \<noteq> b \<longrightarrow> slot s2 k = slot s k" "refcnt (bufs s2 b) = refcnt (bufs s b) + 1"
    "refcnt (bufs s b) = 0 \<longrightarrow> data (bufs s2 b) = disk s2 n"
    using b(9,10) sb by (simp_all add: w(5,7))
  obtain s3 where r: "brelse c i b s2 = Ok s3" "touch s s3" "disk s3 = disk s2" "disk_writes s3 = disk_writes s2"
    "bview d s3 = bview d s2" "rest c d s3" "refs d s3 = refs d s" "spares s \<le> spares s3"
    by (rule release_one [OF rest t2 w(3) h x(1,2) b(11) x(3)])
  have "wrote d [(n, f (bview d s n))] s s3" using r b w by (simp add: wrote_def v_def)
  then show thesis by (rule that [OF b(1) w(1) r(1) b(2) _ r(6,7,8)])
qed

end
