(* ===== verification/Log_Commit.thy ===== *)
theory Log_Commit
  imports Log_Rounds
begin

text \<open>
  What \<open>commit\<close> does to the disk: the blocks of the transaction go to the log, then
  the header, then the blocks to their homes, then the empty header.
\<close>

section \<open>The loops of write\_log and install\_trans\<close>

lemma touch_log:
  assumes "touch s s'"
  shows "log_dev s' = log_dev s" "log_start s' = log_start s" "log_size s' = log_size s"
    "lh_n s' = lh_n s" "lh_block s' = lh_block s" "outstanding s' = outstanding s" "committing s' = committing s"
  using assms unfolding touch_def by auto

text \<open>The cache does not depend on the in-memory header.\<close>

lemma slot_cong: "bufs s' = bufs s \<Longrightarrow> slot s' = slot s"
  by (rule ext) (simp add: slot_def)

lemma rest_cong:
  assumes "locks s' = locks s" "cpus s' = cpus s" "bufs s' = bufs s" "disk s' = disk s"
  shows "rest c d s' = rest c d s"
proof -
  have "lru s' xs = lru s xs" for xs using assms(3) by (simp add: lru_def nexts_def [abs_def] prevs_def [abs_def])
  then show ?thesis
    using assms slot_cong [OF assms(3)] by (simp add: rest_def bio_inv_def calm_def free_lock_def)
qed

lemma slot_head [simp]: "slot (s\<lparr>lh_n := n\<rparr>) = slot s" "slot (s\<lparr>lh_block := bs\<rparr>) = slot s"
  by (rule slot_cong, simp)+

lemma rest_head [simp]: "rest c d (s\<lparr>lh_n := n\<rparr>) = rest c d s" "rest c d (s\<lparr>lh_block := bs\<rparr>) = rest c d s"
  by (rule rest_cong; simp)+

lemma counts_head [simp]:
  "refs d (s\<lparr>lh_n := n\<rparr>) = refs d s" "spares (s\<lparr>lh_n := n\<rparr>) = spares s" "held d b i (s\<lparr>lh_n := n\<rparr>) k = held d b i s k"
  "refs d (s\<lparr>lh_block := bs\<rparr>) = refs d s" "spares (s\<lparr>lh_block := bs\<rparr>) = spares s"
  "held d b i (s\<lparr>lh_block := bs\<rparr>) k = held d b i s k"
  by (simp_all add: refs_def [abs_def] spares_def held_def locked_by_def cong: option.case_cong)

lemma bio_inv_head [simp]: "bio_inv d (s\<lparr>lh_n := n\<rparr>) = bio_inv d s" "bio_inv d (s\<lparr>lh_block := bs\<rparr>) = bio_inv d s"
  by (simp_all add: bio_inv_def lru_def nexts_def [abs_def] prevs_def [abs_def])

lemma touch_head: "touch s s' \<Longrightarrow> touch (s\<lparr>lh_n := n, lh_block := bs\<rparr>) (s'\<lparr>lh_n := n, lh_block := bs\<rparr>)"
proof -
  assume "touch s s'"
  then obtain P B D W where s': "s' = s\<lparr>procs := P, bufs := B, disk := D, disk_writes := W\<rparr>"
    and p: "same_procs P (procs s)"
    unfolding touch_def by blast
  show ?thesis
    by (rule touchI [where P = P and B = B and D = D and W = W]) (use p in \<open>simp_all add: s'\<close>)
qed

text \<open>The writes of the two loops: to the log blocks, and to the homes.\<close>

definition log_writes :: "int \<Rightarrow> u32 list \<Rightarrow> (u32 \<Rightarrow> u8 list) \<Rightarrow> nat list \<Rightarrow> (u32 \<times> u8 list) list" where
  "log_writes st H V ts = map (\<lambda>t. (log_bno st t, V (H ! t))) ts"

definition home_writes :: "int \<Rightarrow> u32 list \<Rightarrow> (u32 \<Rightarrow> u8 list) \<Rightarrow> nat list \<Rightarrow> (u32 \<times> u8 list) list" where
  "home_writes st H V ts = map (\<lambda>t. (H ! t, V (log_bno st t))) ts"

lemma writes_simps [simp]:
  "log_writes st H V [] = []" "log_writes st H V (t # ts) = (log_bno st t, V (H ! t)) # log_writes st H V ts"
  "home_writes st H V [] = []" "home_writes st H V (t # ts) = (H ! t, V (log_bno st t)) # home_writes st H V ts"
  by (simp_all add: log_writes_def home_writes_def)

definition apart :: "int \<Rightarrow> u32 list \<Rightarrow> nat list \<Rightarrow> bool" where
  "apart st H ts \<longleftrightarrow> (\<forall>t \<in> set ts. \<forall>t' \<in> set ts. log_bno st t \<noteq> H ! t')"

lemma write_log_loop_effect:
  assumes "rest c d s" "log_dev s = d" "0 < spares s" "\<forall>x. refs d s x \<noteq> - 1"
    and "\<forall>t \<in> set ts. refs d s (lh_block s ! t) \<noteq> 0" "apart (log_start s) (lh_block s) ts"
  shows "\<exists>s'. write_log_loop c i ts s = Ok s' \<and> rest c d s' \<and> refs d s' = refs d s \<and> 0 < spares s' \<and>
    wrote d (log_writes (log_start s) (lh_block s) (bview d s) ts) s s'"
  using assms
proof (induction ts arbitrary: s)
  case Nil
  then show ?case by (simp add: log_writes_def)
next
  case (Cons t ts)
  let ?n = "log_bno (log_start s) t" and ?m = "lh_block s ! t"
  have nm: "?n \<noteq> ?m" "?n \<noteq> lh_block s ! t'" if "t' \<in> set ts" for t'
    using Cons.prems(6) that by (auto simp: apart_def)
  have nm0: "?n \<noteq> ?m" using Cons.prems(6) by (auto simp: apart_def)
  obtain to s1 fr s2 s3 s4 s5 where r: "bread c i d ?n s = Ok (to, s1)" "bread c i d ?m s1 = Ok (fr, s2)"
    "bwrite c i to (copy_buf to fr s2) = Ok s3" "brelse c i fr s3 = Ok s4" "brelse c i to s4 = Ok s5"
    "touch s s1" "wrote d [(?n, bview d s ?m)] s s5" "rest c d s5" "refs d s5 = refs d s" "spares s \<le> spares s5"
    by (rule write_log_round [where i = i, OF Cons.prems(1) nm0]) (use Cons.prems in auto)
  have t5: "touch s s5" "bview d s5 = (bview d s)(?n := bview d s ?m)"
    by (rule wroteD(1) [OF r(7)], rule wrote_one [OF r(7)])
  note l1 = touch_log [OF r(6)] and l5 = touch_log [OF t5(1)]
  obtain s' where s': "write_log_loop c i ts s5 = Ok s'" "rest c d s'" "refs d s' = refs d s5" "0 < spares s'"
    "wrote d (log_writes (log_start s5) (lh_block s5) (bview d s5) ts) s5 s'"
    using Cons.IH [OF r(8)] Cons.prems r(9,10) l5 by (auto simp: apart_def)
  have "log_writes (log_start s5) (lh_block s5) (bview d s5) ts = log_writes (log_start s) (lh_block s) (bview d s) ts"
    using not_sym [OF nm(2)] by (auto simp: log_writes_def t5(2) l5)
  then have "wrote d (log_writes (log_start s) (lh_block s) (bview d s) (t # ts)) s s'"
    using wrote_trans [OF r(7) s'(5)] by simp
  moreover have "write_log_loop c i (t # ts) s = Ok s'"
    using r(1-5) s'(1) Cons.prems(2) l1 by simp
  ultimately show ?case using s' r(9) by auto
qed

text \<open>
  \<open>install_trans\<close> drops a reference to each home. In \<open>commit\<close> the homes are pinned; in
  the recovery at boot they are not, and each round uses up one of the spare buffers.
\<close>

lemma install_loop_effect:
  assumes "rest c d s" "log_dev s = d"
    and "0 < spares s \<and> (\<forall>t \<in> set ts. refs d s (lh_block s ! t) \<noteq> 0) \<or> length ts < spares s"
    and "\<forall>t \<in> set ts. refs d s (lh_block s ! t) \<noteq> - 1 \<and> refs d s (log_bno (log_start s) t) \<noteq> - 1"
    and "apart (log_start s) (lh_block s) ts" "distinct (map (\<lambda>t. lh_block s ! t) ts)"
  shows "\<exists>s'. install_trans_loop c i ts s = Ok s' \<and> rest c d s' \<and>
    refs d s' = (\<lambda>x. if x \<in> (!) (lh_block s) ` set ts then refs d s x - 1 else refs d s x) \<and>
    spares s \<le> spares s' + length ts \<and> ((\<forall>t \<in> set ts. refs d s (lh_block s ! t) \<noteq> 0) \<longrightarrow> spares s \<le> spares s') \<and>
    wrote d (home_writes (log_start s) (lh_block s) (bview d s) ts) s s'"
  using assms
proof (induction ts arbitrary: s)
  case Nil
  then show ?case by (simp add: home_writes_def)
next
  case (Cons t ts)
  let ?n = "log_bno (log_start s) t" and ?m = "lh_block s ! t"
  have nm: "?n \<noteq> ?m" using Cons.prems(5) by (auto simp: apart_def)
  have ne: "lh_block s ! t' \<noteq> ?m" "log_bno (log_start s) t' \<noteq> ?m" if "t' \<in> set ts" for t'
    using that Cons.prems(5,6) by (auto simp: apart_def) (metis imageI)
  obtain l s1 h s2 s3 s4 s5 s6 where r: "bread c i d ?n s = Ok (l, s1)" "bread c i d ?m s1 = Ok (h, s2)"
    "bwrite c i h (copy_buf h l s2) = Ok s3" "bunpin c h s3 = Ok s4" "brelse c i l s4 = Ok s5" "brelse c i h s5 = Ok s6"
    "touch s s1" "wrote d [(?m, bview d s ?n)] s s6" "rest c d s6" "refs d s6 = (refs d s)(?m := refs d s ?m - 1)"
    "spares s \<le> spares s6 + 1" "refs d s ?m \<noteq> 0 \<longrightarrow> spares s \<le> spares s6"
    by (rule install_round [where i = i, OF Cons.prems(1) nm]) (use Cons.prems in auto)
  have t6: "touch s s6" "bview d s6 = (bview d s)(?m := bview d s ?n)"
    by (rule wroteD(1) [OF r(8)], rule wrote_one [OF r(8)])
  note l1 = touch_log [OF r(7)] and l6 = touch_log [OF t6(1)]
  have same: "refs d s6 (lh_block s ! t') = refs d s (lh_block s ! t')"
    "refs d s6 (log_bno (log_start s) t') = refs d s (log_bno (log_start s) t')" if "t' \<in> set ts" for t'
    using ne [OF that] by (simp_all add: r(10))
  have p: "log_dev s6 = d" "0 < spares s6 \<and> (\<forall>t \<in> set ts. refs d s6 (lh_block s6 ! t) \<noteq> 0) \<or> length ts < spares s6"
    "\<forall>t \<in> set ts. refs d s6 (lh_block s6 ! t) \<noteq> - 1 \<and> refs d s6 (log_bno (log_start s6) t) \<noteq> - 1"
    "apart (log_start s6) (lh_block s6) ts" "distinct (map (\<lambda>t. lh_block s6 ! t) ts)"
    using Cons.prems(2-6) r(11,12) same by (auto simp: apart_def l6)
  obtain s' where s': "install_trans_loop c i ts s6 = Ok s'" "rest c d s'"
    "refs d s' = (\<lambda>x. if x \<in> (!) (lh_block s6) ` set ts then refs d s6 x - 1 else refs d s6 x)"
    "spares s6 \<le> spares s' + length ts"
    "(\<forall>t \<in> set ts. refs d s6 (lh_block s6 ! t) \<noteq> 0) \<longrightarrow> spares s6 \<le> spares s'"
    "wrote d (home_writes (log_start s6) (lh_block s6) (bview d s6) ts) s6 s'"
    using Cons.IH [OF r(9) p] by blast
  have "home_writes (log_start s6) (lh_block s6) (bview d s6) ts = home_writes (log_start s) (lh_block s) (bview d s) ts"
    using ne(2) by (auto simp: home_writes_def t6(2) l6)
  then have w: "wrote d (home_writes (log_start s) (lh_block s) (bview d s) (t # ts)) s s'"
    using wrote_trans [OF r(8) s'(6)] by simp
  have refs: "refs d s' = (\<lambda>x. if x \<in> (!) (lh_block s) ` set (t # ts) then refs d s x - 1 else refs d s x)"
    using ne(1) by (auto simp: s'(3) l6 r(10) fun_eq_iff) blast
  have "install_trans_loop c i (t # ts) s = Ok s'"
    using r(1-6) s'(1) Cons.prems(2) l1 by simp
  then show ?case
    using s'(2,4,5) w refs r(11,12) same(1) l6(5) by auto
qed

section \<open>The header block\<close>

lemma header_fold:
  assumes "length d = BSIZE" and "n \<le> LOGSIZE"
  shows "length (fold (\<lambda>k d. put32 d (4 + 4 * k) (H ! k)) [0..<n] d) = BSIZE"
    and "get32 (fold (\<lambda>k d. put32 d (4 + 4 * k) (H ! k)) [0..<n] d) 0 = get32 d 0"
    and "t < n \<Longrightarrow> get32 (fold (\<lambda>k d. put32 d (4 + 4 * k) (H ! k)) [0..<n] d) (4 + 4 * t) = H ! t"
  using assms(2)
proof (induction n)
  case 0
  { case 1 then show ?case using assms(1) by simp }
  { case 2 then show ?case by simp }
  { case 3 then show ?case by simp }
next
  case (Suc n)
  let ?d = "fold (\<lambda>k d. put32 d (4 + 4 * k) (H ! k)) [0..<n] d"
  { case 1 then show ?case using Suc(1) by simp }
  { case 2 then show ?case using Suc(1,2) by (simp add: get_put_other) }
  { case 3
    then show ?case
      using Suc(1,3) by (cases "t = n") (simp_all add: get_put_same get_put_other) }
qed

lemma header_bytes_facts:
  assumes "length d = BSIZE" and "0 \<le> n" "n \<le> int LOGSIZE"
  shows "length (header_bytes n H d) = BSIZE" and "sint (get32 (header_bytes n H d) 0) = n"
    and "int t < n \<Longrightarrow> get32 (header_bytes n H d) (4 + 4 * t) = H ! t"
proof -
  let ?d = "put32 d 0 (word_of_int n)"
  have l: "length ?d = BSIZE" and k: "nat n \<le> LOGSIZE" using assms by simp_all
  note f = header_fold [OF l k, where H = H]
  show "length (header_bytes n H d) = BSIZE" using f(1) by (simp add: header_bytes_def)
  have "get32 (header_bytes n H d) 0 = word_of_int n"
    using f(2) assms(1) by (simp add: header_bytes_def get_put_same)
  then show "sint (get32 (header_bytes n H d) 0) = n"
    using assms(2,3) by (simp add: int_word_sint)
  show "get32 (header_bytes n H d) (4 + 4 * t) = H ! t" if "int t < n"
    using f(3) [where t = t] that by (simp add: header_bytes_def)
qed

text \<open>What \<open>read_head\<close> puts into the in-memory header.\<close>

lemma read_blocks:
  assumes "n \<le> length bs"
  shows "length (fold (\<lambda>k bs. bs[k := f k]) [0..<n] bs) = length bs"
    and "t < n \<Longrightarrow> fold (\<lambda>k bs. bs[k := f k]) [0..<n] bs ! t = f t"
  using assms
proof (induction n)
  case (Suc n)
  { case 1 then show ?case using Suc(1) by simp }
  { case 2 then show ?case using Suc by (cases "t = n") (simp_all add: nth_list_update) }
qed simp_all

abbreviation head_bno :: "'a klog_scheme \<Rightarrow> u32" where
  "head_bno s \<equiv> word_of_int (log_start s)"

lemma write_head_effect:
  assumes rest: "rest c d s" and dv: "log_dev s = d" and r: "refs d s (head_bno s) \<noteq> - 1" and sp: "0 < spares s"
    and n: "0 \<le> lh_n s" "lh_n s \<le> int LOGSIZE"
  obtains s' where "write_head c i s = Ok s'" "rest c d s'" "refs d s' = refs d s" "0 < spares s'"
    and "wrote d [(head_bno s, header_bytes (lh_n s) (lh_block s) (bview d s (head_bno s)))] s s'"
proof -
  let ?f = "header_bytes (lh_n s) (lh_block s)"
  obtain b s1 s2 s3 where u: "bread c i d (head_bno s) s = Ok (b, s1)"
    "bwrite c i b (upd_buf b (\<lambda>x. x\<lparr>data := ?f (data x)\<rparr>) s1) = Ok s2" "brelse c i b s2 = Ok s3"
    "touch s s1" "wrote d [(head_bno s, ?f (bview d s (head_bno s)))] s s3" "rest c d s3" "refs d s3 = refs d s"
    "spares s \<le> spares s3"
    by (rule update_round [OF rest r, of ?f]) (use sp header_bytes_facts(1) n in auto)
  note l = touch_log [OF u(4)]
  have "write_head c i s = Ok s3" using u(1-3) dv by (simp add: write_head_def l)
  then show thesis using that u sp by simp
qed

text \<open>What \<open>read_head\<close> puts into the in-memory header, given the header block.\<close>

definition load_head :: "u8 list \<Rightarrow> 'a klog_scheme \<Rightarrow> 'a klog_scheme" where
  "load_head v s = s\<lparr>lh_n := sint (get32 v 0),
     lh_block := fold (\<lambda>k bs. bs[k := get32 v (4 + 4 * k)]) [0..<nat (sint (get32 v 0))] (lh_block s)\<rparr>"

lemma read_head_effect:
  assumes rest: "rest c d s" and dv: "log_dev s = d" and r: "refs d s (head_bno s) \<noteq> - 1" and sp: "0 < spares s"
  obtains s' where "read_head c i s = Ok s'" "rest c d s'" "refs d s' = refs d s" "spares s \<le> spares s'"
    and "wrote d [] (load_head (bview d s (head_bno s)) s) s'"
proof -
  let ?v = "bview d s (head_bno s)"
  obtain b s1 where b: "bread c i d (head_bno s) s = Ok (b, s1)" "touch s s1" "bio_inv d s1" "held d (head_bno s) i s1 b"
    "data (bufs s1 b) = ?v" "disk s1 = disk s" "disk_writes s1 = disk_writes s" "bview d s1 = bview d s"
    "\<forall>k. k \<noteq> b \<longrightarrow> slot s1 k = slot s k" "refcnt (bufs s1 b) = refcnt (bufs s b) + 1"
    "cached d (head_bno s) (bufs s) b \<or> refcnt (bufs s b) = 0 \<and> refs d s (head_bno s) = 0"
    by (rule read_one [OF rest r disjI2 [OF sp]])
  define s0 t where "s0 = load_head ?v s" and "t = load_head ?v s1"
  have s0: "rest c d s0" "bufs s0 = bufs s" "disk s0 = disk s" "disk_writes s0 = disk_writes s"
    "slot s0 = slot s" "refs d s0 = refs d s" "spares s0 = spares s"
    using rest by (simp_all add: s0_def load_head_def)
  have t0: "touch s0 t"
    unfolding s0_def t_def load_head_def touch_log(5) [OF b(2)] by (rule touch_head [OF b(2)])
  have t: "bio_inv d t" "held d (head_bno s) i t b" "bufs t = bufs s1" "disk t = disk s1" "disk_writes t = disk_writes s1" "slot t = slot s1"
    using b(3,4) by (simp_all add: t_def load_head_def)
  have clean: "refcnt (bufs s0 b) = 0 \<longrightarrow> data (bufs t b) = disk t (head_bno s)"
    using b(5,6,11) bview_unreferenced [OF restD(2) [OF rest]] refs_cached [OF restD(2) [OF rest], of "head_bno s" b]
    unfolding s0 t by auto
  have x: "\<forall>k. k \<noteq> b \<longrightarrow> slot t k = slot s0 k" "refcnt (bufs t b) = refcnt (bufs s0 b) + 1"
    "cached d (head_bno s) (bufs s0) b \<or> refcnt (bufs s0 b) = 0 \<and> refs d s0 (head_bno s) = 0"
    using b(9,10,11) unfolding s0 t by blast+
  obtain s2 where s2: "brelse c i b t = Ok s2" "touch s0 s2" "disk s2 = disk t" "disk_writes s2 = disk_writes t"
    "bview d s2 = bview d t" "rest c d s2" "refs d s2 = refs d s0" "spares s0 \<le> spares s2"
    by (rule release_one [OF s0(1) t0 t(1,2) x clean])
  have "read_head c i s = Ok s2"
    using b(1,5) s2(1) dv by (simp add: read_head_def t_def load_head_def Let_def)
  moreover have "wrote d [] s0 s2"
    unfolding wrote_def using s2(2-5) b(6,7,8) s0 t by simp
  ultimately show thesis using that s2(6-8) s0 unfolding s0_def by metis
qed

section \<open>The blocks of the log\<close>

lemma word_of_int_inj:
  assumes "(word_of_int a :: u32) = word_of_int b" and "\<bar>a - b\<bar> < 2 ^ 32"
  shows "a = b"
proof -
  have "a mod 2 ^ 32 = b mod 2 ^ 32"
    using arg_cong [OF assms(1), of uint] by (simp add: uint_word_of_int)
  then have "2 ^ 32 dvd \<bar>a - b\<bar>" by (simp add: mod_eq_dvd_iff)
  then show ?thesis using assms(2) zdvd_imp_le [of "2 ^ 32" "\<bar>a - b\<bar>"] by force
qed

lemma log_bno_inj:
  assumes "t < LOGSIZE" and "t' < LOGSIZE"
  shows "log_bno st t = log_bno st t' \<longleftrightarrow> t = t'"
proof
  assume "log_bno st t = log_bno st t'"
  then have "st + int t + 1 = st + int t' + 1"
    unfolding log_bno_def by (rule word_of_int_inj) (use assms in simp)
  then show "t = t'" by simp
qed simp

lemma log_bno_head:
  assumes "t < LOGSIZE"
  shows "log_bno st t \<noteq> word_of_int st"
proof
  assume "log_bno st t = word_of_int st"
  then have "st + int t + 1 = st"
    unfolding log_bno_def by (rule word_of_int_inj) (use assms in simp)
  then show False by simp
qed

text \<open>The blocks of the log: the header and one block for each of the entries \<open>log_write\<close> allows.\<close>

definition log_area :: "int \<Rightarrow> u32 set" where
  "log_area st = insert (word_of_int st) (log_bno st ` {t. Suc t < LOGSIZE})"

lemma log_area_bno: "Suc t < LOGSIZE \<Longrightarrow> log_bno st t \<in> log_area st"
  by (simp add: log_area_def)

lemma after_log_area:
  assumes "st + int LOGSIZE \<le> b" and "b < st + 2 ^ 32"
  shows "word_of_int b \<notin> log_area st"
proof
  assume "word_of_int b \<in> log_area st"
  then consider "(word_of_int b :: u32) = word_of_int st"
    | t where "Suc t < LOGSIZE" "(word_of_int b :: u32) = word_of_int (st + int t + 1)"
    unfolding log_area_def log_bno_def by blast
  then show False
  proof cases
    case 1
    then have "b = st" by (rule word_of_int_inj) (use assms in simp)
    then show False using assms by simp
  next
    case 2
    have "b = st + int t + 1" by (rule word_of_int_inj [OF 2(2)]) (use assms 2(1) in simp)
    then show False using assms 2(1) by simp
  qed
qed

lemma apply_writes_other: "x \<notin> fst ` set ws \<Longrightarrow> apply_writes ws D x = D x"
  by (induction ws arbitrary: D) auto

lemma apply_writes_mem: "distinct (map fst ws) \<Longrightarrow> (b, v) \<in> set ws \<Longrightarrow> apply_writes ws D b = v"
  by (induction ws arbitrary: D) (auto simp: apply_writes_other)

lemma log_writes_apply:
  assumes "n < LOGSIZE"
  shows "t < n \<Longrightarrow> apply_writes (log_writes st H V [0..<n]) D (log_bno st t) = V (H ! t)"
    and "x \<notin> log_area st \<Longrightarrow> apply_writes (log_writes st H V [0..<n]) D x = D x"
    and "apply_writes (log_writes st H V [0..<n]) D (word_of_int st) = D (word_of_int st)"
proof -
  have f: "map fst (log_writes st H V [0..<n]) = map (log_bno st) [0..<n]" by (simp add: log_writes_def)
  then have s: "fst ` set (log_writes st H V [0..<n]) = log_bno st ` {..<n}"
    by (metis atLeast_upt image_set)
  have "inj_on (log_bno st) (set [0..<n])" using assms by (auto intro!: inj_onI simp: log_bno_inj)
  then have d: "distinct (map fst (log_writes st H V [0..<n]))" unfolding f by (simp add: distinct_map)
  show "apply_writes (log_writes st H V [0..<n]) D (log_bno st t) = V (H ! t)" if "t < n"
    by (rule apply_writes_mem [OF d]) (use that in \<open>auto simp: log_writes_def\<close>)
  show "apply_writes (log_writes st H V [0..<n]) D x = D x" if "x \<notin> log_area st"
    by (rule apply_writes_other) (use assms that in \<open>auto simp: s log_area_def\<close>)
  show "apply_writes (log_writes st H V [0..<n]) D (word_of_int st) = D (word_of_int st)"
  proof (rule apply_writes_other)
    show "word_of_int st \<notin> fst ` set (log_writes st H V [0..<n])"
      unfolding s using log_bno_head [of _ st] assms by (metis imageE lessThan_iff less_trans)
  qed
qed

section \<open>commit\<close>

text \<open>The blocks of the transaction in the in-memory header.\<close>

definition logged :: "'a klog_scheme \<Rightarrow> u32 list" where
  "logged s = take (nat (lh_n s)) (lh_block s)"

text \<open>
  A transaction ready to commit: no operation is under way, every block in the header
  is pinned and outside of the log, and \<open>log_write\<close> has kept the header short of
  \<open>LOGSIZE\<close> entries.
\<close>

definition transaction :: "nat \<Rightarrow> u32 \<Rightarrow> 'a klog_scheme \<Rightarrow> bool" where
  "transaction c d s \<longleftrightarrow> rest c d s \<and> log_dev s = d \<and> (\<forall>x. refs d s x \<noteq> - 1) \<and> 0 < spares s \<and>
     0 \<le> lh_n s \<and> lh_n s < int LOGSIZE \<and> length (lh_block s) = LOGSIZE \<and> distinct (logged s) \<and>
     (\<forall>h \<in> set (logged s). refs d s h \<noteq> 0 \<and> h \<notin> log_area (log_start s))"

definition commit_writes :: "u32 \<Rightarrow> 'a klog_scheme \<Rightarrow> (u32 \<times> u8 list) list" where
  "commit_writes d s =
     (let n = nat (lh_n s); V = bview d s; h = header_bytes (lh_n s) (lh_block s) (V (head_bno s))
      in log_writes (log_start s) (lh_block s) V [0..<n] @ [(head_bno s, h)] @
         map (\<lambda>x. (x, V x)) (logged s) @ [(head_bno s, header_bytes 0 (lh_block s) h)])"

lemma transactionD:
  assumes "transaction c d s"
  shows "rest c d s" "log_dev s = d" "refs d s x \<noteq> - 1" "0 < spares s" "0 \<le> lh_n s" "nat (lh_n s) < LOGSIZE"
    "lh_n s \<le> int LOGSIZE" "length (lh_block s) = LOGSIZE" "distinct (logged s)"
    "h \<in> set (logged s) \<Longrightarrow> refs d s h \<noteq> 0" "h \<in> set (logged s) \<Longrightarrow> h \<notin> log_area (log_start s)"
  using assms by (auto simp: transaction_def)

lemma logged_nth:
  assumes "transaction c d s" and "t < nat (lh_n s)"
  shows "lh_block s ! t \<in> set (logged s)"
proof -
  have "t < length (logged s)" using assms(2) transactionD(6,8) [OF assms(1)] by (simp add: logged_def)
  then have "logged s ! t \<in> set (logged s)" by (rule nth_mem)
  then show ?thesis using assms(2) by (simp add: logged_def)
qed

lemma logged_map:
  assumes "transaction c d s"
  shows "map (\<lambda>t. lh_block s ! t) [0..<nat (lh_n s)] = logged s"
proof -
  have "nat (lh_n s) \<le> length (lh_block s)" using transactionD(6,8) [OF assms] by linarith
  then show ?thesis unfolding logged_def by (intro nth_equalityI) simp_all
qed

lemma transaction_apart:
  assumes tr: "transaction c d s"
  shows "apart (log_start s) (lh_block s) [0..<nat (lh_n s)]"
  unfolding apart_def
proof (intro ballI)
  fix t t' assume t: "t \<in> set [0..<nat (lh_n s)]" "t' \<in> set [0..<nat (lh_n s)]"
  have "lh_block s ! t' \<notin> log_area (log_start s)"
    using transactionD(11) [OF tr] logged_nth [OF tr, of t'] t(2) by simp
  moreover have "Suc t < LOGSIZE" using transactionD(6) [OF tr] t(1) by (fastforce simp only: set_upt atLeastLessThan_iff)
  ultimately show "log_bno (log_start s) t \<noteq> lh_block s ! t'" using log_area_bno by metis
qed

lemma wrote_head: "wrote d ws s s' \<Longrightarrow> wrote d ws (s\<lparr>lh_n := n\<rparr>) (s'\<lparr>lh_n := n\<rparr>)"
proof -
  assume w: "wrote d ws s s'"
  have "s\<lparr>lh_n := n\<rparr> = s\<lparr>lh_n := n, lh_block := lh_block s\<rparr>" "s'\<lparr>lh_n := n\<rparr> = s'\<lparr>lh_n := n, lh_block := lh_block s\<rparr>"
    using touch_log(5) [OF wroteD(1) [OF w]] by simp_all
  then have "touch (s\<lparr>lh_n := n\<rparr>) (s'\<lparr>lh_n := n\<rparr>)" using touch_head [OF wroteD(1) [OF w]] by metis
  then show ?thesis using wroteD(2,3) [OF w] wroteD(4) [OF w, unfolded wroteD(2) [OF w]] by (simp add: wrote_def)
qed

lemma commit_effect:
  assumes tr: "transaction c d s" and pos: "0 < lh_n s"
  obtains s' where "commit c i s = Ok s'" "rest c d s'" "lh_n s' = 0" "wrote d (commit_writes d s) (s\<lparr>lh_n := 0\<rparr>) s'"
    and "refs d s' = (\<lambda>x. if x \<in> set (logged s) then refs d s x - 1 else refs d s x)"
proof -
  let ?ts = "[0..<nat (lh_n s)]" and ?st = "log_start s" and ?H = "lh_block s" and ?V = "bview d s"
  note T = transactionD [OF tr]
  have nl: "nat (lh_n s) < LOGSIZE" using T(6) by simp
  have pin: "refs d s (?H ! t) \<noteq> 0" if "t \<in> set ?ts" for t
    using T(10) logged_nth [OF tr] that by simp
  obtain s1 where s1: "write_log_loop c i ?ts s = Ok s1" "rest c d s1" "refs d s1 = refs d s" "0 < spares s1"
    "wrote d (log_writes ?st ?H ?V ?ts) s s1"
    using write_log_loop_effect [OF T(1,2,4) _ _ transaction_apart [OF tr]] T(3) pin by blast
  note l1 = touch_log [OF wroteD(1) [OF s1(5)]]
  have V1: "bview d s1 (head_bno s) = ?V (head_bno s)" "\<And>t. t < nat (lh_n s) \<Longrightarrow> bview d s1 (log_bno ?st t) = ?V (?H ! t)"
    unfolding wroteD(4) [OF s1(5)] using log_writes_apply [OF nl] by simp_all
  obtain s2 where s2: "write_head c i s1 = Ok s2" "rest c d s2" "refs d s2 = refs d s1" "0 < spares s2"
    "wrote d [(head_bno s1, header_bytes (lh_n s1) (lh_block s1) (bview d s1 (head_bno s1)))] s1 s2"
    by (rule write_head_effect [OF s1(2) _ _ s1(4)]) (use T in \<open>simp_all add: l1 s1(3)\<close>)
  note l2 = touch_log [OF wroteD(1) [OF s2(5)]]
  define h where "h = header_bytes (lh_n s) ?H (?V (head_bno s))"
  have V2: "bview d s2 = (bview d s1)(head_bno s := h)"
    using wrote_one [OF s2(5)] V1(1) unfolding l1 h_def by simp
  have V2': "bview d s2 (log_bno ?st t) = ?V (?H ! t)" if "t < nat (lh_n s)" for t
    using V1(2) [OF that] log_bno_head [of t ?st] T(6) that unfolding V2 by simp
  have ap: "apart (log_start s2) (lh_block s2) ?ts" "distinct (map (\<lambda>t. lh_block s2 ! t) ?ts)"
    using transaction_apart [OF tr] T(9) logged_map [OF tr] by (simp_all only: l1 l2)
  obtain s3 where s3: "install_trans_loop c i ?ts s2 = Ok s3" "rest c d s3"
    "refs d s3 = (\<lambda>x. if x \<in> (!) (lh_block s2) ` set ?ts then refs d s2 x - 1 else refs d s2 x)"
    "(\<forall>t \<in> set ?ts. refs d s2 (lh_block s2 ! t) \<noteq> 0) \<longrightarrow> spares s2 \<le> spares s3"
    "wrote d (home_writes (log_start s2) (lh_block s2) (bview d s2) ?ts) s2 s3"
    using install_loop_effect [OF s2(2) _ _ _ ap] s2(3,4) s1(3) pin T(2,3) l1 l2 by (metis (no_types, lifting))
  have img: "(!) (lh_block s2) ` set ?ts = set (logged s)"
    unfolding l2 l1 logged_map [OF tr, symmetric] by simp
  have hw: "home_writes (log_start s2) (lh_block s2) (bview d s2) ?ts = map (\<lambda>x. (x, ?V x)) (logged s)"
    using V2' unfolding logged_map [OF tr, symmetric] l2 l1 home_writes_def by simp
  have hb: "head_bno s \<notin> set (logged s)" using T(11) by (auto simp: log_area_def)
  note l3 = touch_log [OF wroteD(1) [OF s3(5)]]
  have V3: "bview d s3 (head_bno s) = h"
    unfolding wroteD(4) [OF s3(5)] hw using hb by (subst apply_writes_other) (auto simp: V2)
  have r3: "refs d s3 = (\<lambda>x. if x \<in> set (logged s) then refs d s x - 1 else refs d s x)"
    unfolding s3(3) img s2(3) s1(3) ..
  have sp3: "0 < spares s3" using s3(4) s2(3,4) s1(3) pin l1 l2 by auto
  obtain s4 where s4: "write_head c i (s3\<lparr>lh_n := 0\<rparr>) = Ok s4" "rest c d s4" "refs d s4 = refs d (s3\<lparr>lh_n := 0\<rparr>)"
    "wrote d [(head_bno s, header_bytes 0 ?H h)] (s3\<lparr>lh_n := 0\<rparr>) s4"
    by (rule write_head_effect [of c d "s3\<lparr>lh_n := 0\<rparr>" i])
      (use s3(2) sp3 T(2,3) hb V3 in \<open>simp_all add: l3 l2 l1 r3\<close>)
  have w: "wrote d (commit_writes d s) (s\<lparr>lh_n := 0\<rparr>) s4"
    using wrote_trans [OF wrote_head [OF wrote_trans [OF s1(5) wrote_trans [OF s2(5) s3(5)]]] s4(4)] V1(1)
    unfolding commit_writes_def Let_def hw h_def by (simp add: l1)
  have "commit c i s = Ok s4"
    using pos s1(1) s2(1) s3(1) s4(1) by (simp add: commit_def write_log_def install_trans_def l2 l1)
  moreover have "lh_n s4 = 0" using touch_log(4) [OF wroteD(1) [OF w]] by simp
  ultimately show thesis using that s4(2,3) w r3 by simp
qed

end
