(* ===== verification/Log_Crash.thy ===== *)
theory Log_Crash
  imports Log_Commit
begin

text \<open>
  Recovery at boot, and what a crash leaves. The disk after a crash is the old disk
  with a prefix of the writes of \<open>commit\<close>; a crash of the recovery adds a prefix of
  its writes. Whatever the prefixes are, the blocks outside of the log are in the
  end those before or those after the transaction.
\<close>

section \<open>Recovery of a disk\<close>

definition disk_n :: "int \<Rightarrow> (u32 \<Rightarrow> u8 list) \<Rightarrow> int" where
  "disk_n st D = sint (get32 (D (word_of_int st)) 0)"

definition disk_blocks :: "int \<Rightarrow> (u32 \<Rightarrow> u8 list) \<Rightarrow> u32 list" where
  "disk_blocks st D = map (\<lambda>t. get32 (D (word_of_int st)) (4 + 4 * t)) [0..<nat (disk_n st D)]"

definition log_valid :: "int \<Rightarrow> (u32 \<Rightarrow> u8 list) \<Rightarrow> bool" where
  "log_valid st D \<longleftrightarrow> 0 \<le> disk_n st D \<and> disk_n st D < int LOGSIZE \<and> distinct (disk_blocks st D) \<and>
     set (disk_blocks st D) \<inter> log_area st = {} \<and> (\<forall>b. length (D b) = BSIZE)"

definition install_writes :: "int \<Rightarrow> (u32 \<Rightarrow> u8 list) \<Rightarrow> (u32 \<times> u8 list) list" where
  "install_writes st D = home_writes st (disk_blocks st D) D [0..<nat (disk_n st D)]"

definition recovery_writes :: "int \<Rightarrow> (u32 \<Rightarrow> u8 list) \<Rightarrow> (u32 \<times> u8 list) list" where
  "recovery_writes st D = install_writes st D @ [(word_of_int st, put32 (D (word_of_int st)) 0 0)]"

text \<open>The disk a complete recovery leads to, outside of the log.\<close>

definition recovered :: "int \<Rightarrow> (u32 \<Rightarrow> u8 list) \<Rightarrow> u32 \<Rightarrow> u8 list" where
  "recovered st D = apply_writes (install_writes st D) D"

text \<open>A machine at boot: the cache is empty.\<close>

definition powered_up :: "nat \<Rightarrow> u32 \<Rightarrow> 'a klog_scheme \<Rightarrow> bool" where
  "powered_up c d s \<longleftrightarrow> rest c d s \<and> (\<forall>x. refs d s x = 0) \<and> spares s = NBUF \<and> length (lh_block s) = LOGSIZE"

text \<open>After \<open>binit\<close>, from the zeroed data segment, the machine is in such a state.\<close>

lemma binit_powered_up:
  assumes calm: "calm c s" and z: "\<forall>k < NBUF. dev (bufs s k) = 0 \<and> refcnt (bufs s k) = 0"
    and d: "d \<noteq> 0" "\<forall>b. length (disk s b) = BSIZE" and l: "length (lh_block s) = LOGSIZE"
  shows "powered_up c d (binit s)"
proof -
  note e = binit_effect [OF calm]
  have f: "dev (bufs (binit s) k) = 0" "refcnt (bufs (binit s) k) = 0" "slocked (blk (bufs (binit s) k)) = 0" if "k < NBUF" for k
    using slotD [OF e(4) [OF that]] z that by simp_all
  have nc: "\<not> cached d n (bufs (binit s)) k" for n k using f(1) d(1) by (auto simp: cached_def)
  have nc': "\<not> cached d n (slot (binit s)) k" for n k using nc by (simp add: cached_def)
  have "cache_ok d (slot (binit s)) (disk (binit s))"
    using f nc' d by (simp add: cache_ok_def e(2))
  then have "rest c d (binit s)"
    using touch_calm [OF e(1) calm] binit_lru [of s] f(3) by (auto simp: rest_def bio_inv_def)
  moreover have "spares (binit s) = NBUF" using f(2) by (simp add: spares_def cong: conj_cong)
  ultimately show ?thesis
    using refs_uncached [OF nc] touch_log(5) [OF e(1)] l by (simp add: powered_up_def)
qed

lemma fst_install_writes: "map fst (install_writes st D) = disk_blocks st D"
  by (simp add: install_writes_def home_writes_def disk_blocks_def)

lemma set_install_writes: "fst ` set (install_writes st D) = set (disk_blocks st D)"
  unfolding fst_install_writes [symmetric] by simp

lemma log_validD:
  assumes "log_valid st D"
  shows "0 \<le> disk_n st D" "nat (disk_n st D) < LOGSIZE" "distinct (disk_blocks st D)"
    "word_of_int st \<notin> set (disk_blocks st D)" "Suc t < LOGSIZE \<Longrightarrow> log_bno st t \<notin> set (disk_blocks st D)"
    "length (D b) = BSIZE"
  using assms unfolding log_valid_def log_area_def by auto

lemma header_zero: "header_bytes 0 H v = put32 v 0 0"
  by (simp add: header_bytes_def)

lemma load_head_facts:
  assumes "log_valid (log_start s) D" and "length (lh_block s) = LOGSIZE" and "v = D (head_bno s)"
  shows "lh_n (load_head v s) = disk_n (log_start s) D"
    and "t < nat (disk_n (log_start s) D) \<Longrightarrow> lh_block (load_head v s) ! t = disk_blocks (log_start s) D ! t"
proof -
  let ?n = "nat (disk_n (log_start s) D)"
  have n: "nat (sint (get32 v 0)) = ?n" by (simp add: disk_n_def assms(3))
  show "lh_n (load_head v s) = disk_n (log_start s) D" by (simp add: load_head_def disk_n_def assms(3))
  have l: "?n \<le> length (lh_block s)" using log_validD(2) [OF assms(1)] assms(2) by simp
  show "lh_block (load_head v s) ! t = disk_blocks (log_start s) D ! t" if "t < ?n"
    using read_blocks(2) [OF l that, of "\<lambda>k. get32 v (4 + 4 * k)"] that
    by (simp add: load_head_def n [unfolded assms(3)] disk_blocks_def assms(3))
qed

text \<open>
  \<open>install_trans\<close> calls \<open>bunpin\<close> also in the recovery, where nothing was pinned: the
  reference count of every installed block wraps around.
\<close>

lemma recover_effect:
  assumes p: "powered_up c d s" and dv: "log_dev s = d" and lv: "log_valid (log_start s) (disk s)"
  obtains s' where "recover_from_log c i s = Ok s'" "rest c d s'" "lh_n s' = 0"
    and "disk s' = apply_writes (recovery_writes (log_start s) (disk s)) (disk s)"
    and "disk_writes s' = disk_writes s @ recovery_writes (log_start s) (disk s)"
    and "refs d s' = (\<lambda>x. if x \<in> set (disk_blocks (log_start s) (disk s)) then - 1 else 0)"
proof -
  let ?st = "log_start s" and ?D = "disk s"
  let ?n = "nat (disk_n ?st ?D)" and ?B = "disk_blocks ?st ?D"
  have rest: "rest c d s" and r0: "refs d s = (\<lambda>x. 0)" and sp: "spares s = NBUF" and ll: "length (lh_block s) = LOGSIZE"
    using p by (auto simp: powered_up_def)
  have V: "bview d s = ?D" by (rule ext, rule bview_unreferenced [OF restD(2) [OF rest]]) (simp add: r0)
  note L = log_validD [OF lv]
  obtain s1 where s1: "read_head c i s = Ok s1" "rest c d s1" "refs d s1 = refs d s" "spares s \<le> spares s1"
    "wrote d [] (load_head (bview d s (head_bno s)) s) s1"
    by (rule read_head_effect [OF rest dv]) (simp_all add: r0 sp)
  define h where "h = load_head (?D (head_bno s)) s"
  have w1: "wrote d [] h s1" using s1(5) unfolding h_def V .
  note l1 = touch_log [OF wroteD(1) [OF w1]]
  have h: "log_dev h = d" "log_start h = ?st" "disk h = ?D" "disk_writes h = disk_writes s" "bview d h = ?D"
    using dv V by (simp_all add: h_def load_head_def)
  note lh = load_head_facts [OF lv ll refl, folded h_def]
  have B: "map (\<lambda>t. lh_block s1 ! t) [0..<?n] = ?B"
    using lh(2) by (intro nth_equalityI) (simp_all add: l1 disk_blocks_def)
  have V1: "bview d s1 = ?D" using trans [OF wroteD(4) [OF w1, unfolded apply_writes_simps] h(5)] .
  have hw: "home_writes (log_start s1) (lh_block s1) (bview d s1) [0..<?n] = install_writes ?st ?D"
    using lh(2) V1 by (simp add: home_writes_def install_writes_def l1 h)
  have ap: "apart (log_start s1) (lh_block s1) [0..<?n]" "distinct (map (\<lambda>t. lh_block s1 ! t) [0..<?n])"
  proof -
    have "lh_block s1 ! t' \<in> set ?B" if "t' < ?n" for t' using that unfolding B [symmetric] by simp
    moreover have "log_bno ?st t \<notin> set ?B" if "t < ?n" for t by (rule L(5)) (use that L(2) in linarith)
    ultimately show "apart (log_start s1) (lh_block s1) [0..<?n]"
      unfolding apart_def l1 h by (metis set_upt atLeastLessThan_iff)
  qed (simp only: B L(3))
  obtain s2 where s2: "install_trans_loop c i [0..<?n] s1 = Ok s2" "rest c d s2"
    "refs d s2 = (\<lambda>x. if x \<in> (!) (lh_block s1) ` set [0..<?n] then refs d s1 x - 1 else refs d s1 x)"
    "spares s1 \<le> spares s2 + length [0..<?n]"
    "wrote d (install_writes ?st ?D) s1 s2"
    using install_loop_effect [OF s1(2) _ _ _ ap] L(2) s1(3,4) sp r0 l1(1) h(1) unfolding hw by auto
  note l2 = touch_log [OF wroteD(1) [OF s2(5)]]
  have r2: "refs d s2 = (\<lambda>x. if x \<in> set ?B then - 1 else 0)"
    using arg_cong [OF B, of set] unfolding s2(3) s1(3) r0 by (simp cong: if_cong)
  have sp2: "0 < spares s2" using s2(4) s1(4) sp L(2) by simp
  have V2: "bview d s2 (head_bno s) = ?D (head_bno s)"
    unfolding wroteD(4) [OF s2(5)] V1 by (rule apply_writes_other) (simp add: set_install_writes L(4))
  obtain s3 where s3: "write_head c i (s2\<lparr>lh_n := 0\<rparr>) = Ok s3" "rest c d s3" "refs d s3 = refs d (s2\<lparr>lh_n := 0\<rparr>)"
    "wrote d [(head_bno s, put32 (?D (head_bno s)) 0 0)] (s2\<lparr>lh_n := 0\<rparr>) s3"
    by (rule write_head_effect [of c d "s2\<lparr>lh_n := 0\<rparr>" i])
      (use s2(2) sp2 L(4) V2 in \<open>simp_all add: l2 l1 h r2 header_zero\<close>)
  have w: "wrote d (recovery_writes ?st ?D) (h\<lparr>lh_n := 0\<rparr>) s3"
    using wrote_trans [OF wrote_head [OF wrote_trans [OF w1 s2(5)]] s3(4)] by (simp add: recovery_writes_def)
  have "recover_from_log c i s = Ok s3"
    using s1(1) s2(1) s3(1) lh(1) by (simp add: recover_from_log_def install_trans_def l1)
  moreover have "lh_n s3 = 0" using touch_log(4) [OF wroteD(1) [OF w]] by simp
  ultimately show thesis using that s3(2,3) wroteD(2,3) [OF w] r2 h by simp
qed

section \<open>The disk after a crash\<close>

lemma apply_writes_take:
  assumes "distinct (map fst ws)"
  shows "apply_writes ws (apply_writes (take j ws) D) = apply_writes ws D"
proof (rule ext)
  fix x
  show "apply_writes ws (apply_writes (take j ws) D) x = apply_writes ws D x"
  proof (cases "x \<in> fst ` set ws")
    case True
    then obtain v where "(x, v) \<in> set ws" by auto
    then show ?thesis using apply_writes_mem [OF assms] by metis
  next
    case False
    then have "x \<notin> fst ` set (take j ws)" by (auto dest: in_set_takeD)
    then show ?thesis using False by (simp add: apply_writes_other)
  qed
qed

lemma apply_writes_length:
  "(\<forall>w \<in> set ws. length (snd w) = n) \<Longrightarrow> (\<forall>b. length (D b) = n) \<Longrightarrow> length (apply_writes ws D b) = n"
  by (induction ws arbitrary: D) auto

text \<open>Recovery takes the disk to \<open>E\<close>, outside of the log.\<close>

definition recovers :: "int \<Rightarrow> (u32 \<Rightarrow> u8 list) \<Rightarrow> (u32 \<Rightarrow> u8 list) \<Rightarrow> bool" where
  "recovers st D E \<longleftrightarrow> log_valid st D \<and> (\<forall>x. x \<notin> log_area st \<longrightarrow> recovered st D x = E x)"

lemma recovers_empty:
  assumes "disk_n st D = 0" and "\<forall>b. length (D b) = BSIZE" and "\<And>x. x \<notin> log_area st \<Longrightarrow> D x = E x"
  shows "recovers st D E"
  using assms by (simp add: recovers_def log_valid_def recovered_def install_writes_def disk_blocks_def)

lemma disk_head_cong:
  assumes "D' (word_of_int st) = D (word_of_int st)"
  shows "disk_n st D' = disk_n st D" "disk_blocks st D' = disk_blocks st D"
  using assms by (simp_all add: disk_n_def disk_blocks_def)

lemma disk_n_zero:
  assumes "D (word_of_int st) = put32 v 0 0" and "length v = BSIZE"
  shows "disk_n st D = 0"
  using assms by (simp add: disk_n_def get_put_same)

text \<open>A disk whose header lists the homes of \<open>ws\<close>, with their new content in the log.\<close>

lemma recovers_writes:
  assumes lv: "log_valid st D" and ws: "install_writes st D = ws" and D': "D' = apply_writes (take j ws) D"
  shows "log_valid st D'" and "recovered st D' = recovered st D"
proof -
  note L = log_validD [OF lv]
  have s: "fst ` set (take j ws) \<subseteq> set (disk_blocks st D)"
    unfolding ws [symmetric] using set_install_writes [of st D] by (auto dest: in_set_takeD)
  have o: "D' x = D x" if "x \<notin> set (disk_blocks st D)" for x
    unfolding D' by (rule apply_writes_other) (use s that in blast)
  note hd = disk_head_cong [of D' st D, OF o [OF L(4)]]
  have len: "\<forall>w \<in> set (take j ws). length (snd w) = BSIZE"
    unfolding ws [symmetric] by (auto dest!: in_set_takeD simp: install_writes_def home_writes_def L(6))
  have "length (D' b) = BSIZE" for b unfolding D' by (rule apply_writes_length [OF len]) (simp add: L(6))
  then show "log_valid st D'" using lv by (simp add: log_valid_def hd)
  have "D' (log_bno st t) = D (log_bno st t)" if "t < nat (disk_n st D)" for t
    by (intro o L(5)) (use that L(2) in linarith)
  then have "install_writes st D' = ws"
    unfolding ws [symmetric] by (simp add: install_writes_def home_writes_def hd)
  moreover have "distinct (map fst ws)" unfolding ws [symmetric] fst_install_writes by (rule L(3))
  ultimately show "recovered st D' = recovered st D"
    using apply_writes_take [of ws j D] ws unfolding recovered_def D' by simp
qed

lemma crash_in_recovery:
  assumes r: "recovers st D E"
  shows "recovers st (apply_writes (take k (recovery_writes st D)) D) E"
proof -
  have lv: "log_valid st D" and E: "\<And>x. x \<notin> log_area st \<Longrightarrow> recovered st D x = E x"
    using r by (auto simp: recovers_def)
  let ?iw = "install_writes st D"
  show ?thesis
  proof (cases "k \<le> length ?iw")
    case True
    then have "take k (recovery_writes st D) = take k ?iw" by (simp add: recovery_writes_def)
    then show ?thesis using recovers_writes [OF lv refl refl, of k] E by (simp add: recovers_def)
  next
    case False
    define D' where "D' = apply_writes (recovery_writes st D) D"
    have k: "take k (recovery_writes st D) = recovery_writes st D" using False by (simp add: recovery_writes_def)
    have d: "D' = (recovered st D)(word_of_int st := put32 (D (word_of_int st)) 0 0)"
      by (simp add: D'_def recovery_writes_def recovered_def)
    have len: "length (recovered st D b) = BSIZE" for b
      unfolding recovered_def
      by (rule apply_writes_length) (auto simp: install_writes_def home_writes_def log_validD(6) [OF lv])
    have "recovers st D' E"
    proof (rule recovers_empty)
      show "disk_n st D' = 0" by (rule disk_n_zero [of _ _ "D (word_of_int st)"]) (simp_all add: d log_validD(6) [OF lv])
      show "\<forall>b. length (D' b) = BSIZE" using len log_validD(6) [OF lv] by (simp add: d)
      show "D' x = E x" if "x \<notin> log_area st" for x using E [OF that] that by (auto simp: d log_area_def)
    qed
    then show ?thesis by (simp only: k D'_def)
  qed
qed

text \<open>The disk with the transaction.\<close>

definition new_disk :: "u32 \<Rightarrow> 'a klog_scheme \<Rightarrow> u32 \<Rightarrow> u8 list" where
  "new_disk d s x = (if x \<in> set (logged s) then bview d s x else disk s x)"

lemma disk_length: "bio_inv d s \<Longrightarrow> length (disk s b) = BSIZE"
  using cache_okD(5) by (auto simp: bio_inv_def)

lemma crash_before_header:
  assumes tr: "transaction c d s" and old: "disk_n (log_start s) (disk s) = 0" and k: "k \<le> nat (lh_n s)"
  shows "recovers (log_start s) (apply_writes (take k (commit_writes d s)) (disk s)) (disk s)"
proof -
  let ?st = "log_start s"
  note T = transactionD [OF tr] and inv = restD(2) [OF transactionD(1) [OF tr]]
  have tk: "take k (commit_writes d s) = log_writes ?st (lh_block s) (bview d s) [0..<k]"
    using k by (simp add: commit_writes_def Let_def log_writes_def take_map)
  note la = log_writes_apply [where n = k and st = ?st and H = "lh_block s" and V = "bview d s" and D = "disk s"]
  have kl: "k < LOGSIZE" using k T(6) by linarith
  show ?thesis
    unfolding tk
  proof (rule recovers_empty)
    show "disk_n ?st (apply_writes (log_writes ?st (lh_block s) (bview d s) [0..<k]) (disk s)) = 0"
      using old la(3) [OF kl] by (simp add: disk_n_def)
    show "\<forall>b. length (apply_writes (log_writes ?st (lh_block s) (bview d s) [0..<k]) (disk s) b) = BSIZE"
      by (intro allI apply_writes_length) (auto simp: log_writes_def bview_length [OF inv] disk_length [OF inv])
  qed (rule la(2) [OF kl])
qed

text \<open>The disk once the header is written.\<close>

lemma disk_with_header:
  assumes tr: "transaction c d s"
    and D: "D = (apply_writes (log_writes (log_start s) (lh_block s) (bview d s) [0..<nat (lh_n s)]) (disk s))
      (head_bno s := header_bytes (lh_n s) (lh_block s) (bview d s (head_bno s)))"
  shows "log_valid (log_start s) D" and "install_writes (log_start s) D = map (\<lambda>x. (x, bview d s x)) (logged s)"
    and "recovers (log_start s) D (new_disk d s)"
proof -
  let ?st = "log_start s" and ?H = "lh_block s" and ?V = "bview d s" and ?n = "nat (lh_n s)"
  note T = transactionD [OF tr] and inv = restD(2) [OF transactionD(1) [OF tr]]
  note hb = header_bytes_facts [OF bview_length [OF inv] T(5,7), where H = ?H]
  have nl: "?n < LOGSIZE" using T(6) by linarith
  note la = log_writes_apply [OF nl, where st = ?st and H = ?H and V = ?V and D = "disk s"]
  have n: "disk_n ?st D = lh_n s" by (simp add: disk_n_def D hb(2))
  have b: "disk_blocks ?st D = logged s"
    using hb(3) unfolding disk_blocks_def n logged_map [OF tr, symmetric] by (simp add: D)
  have len: "length (D b) = BSIZE" for b
    unfolding D using hb(1)
    by (auto intro!: apply_writes_length simp: log_writes_def bview_length [OF inv] disk_length [OF inv])
  show lv: "log_valid ?st D" unfolding log_valid_def n b using T len by (auto simp: nat_less_iff)
  have v: "D (log_bno ?st t) = ?V (?H ! t)" if "t < ?n" for t
    using la(1) [OF that] log_bno_head [of t ?st] that T(6) by (simp add: D)
  have nth: "logged s ! t = ?H ! t" if "t < ?n" for t using that by (simp add: logged_def)
  have eq: "map (\<lambda>x. (x, ?V x)) (logged s) = map (\<lambda>t. (?H ! t, ?V (?H ! t))) [0..<?n]"
    using arg_cong [OF logged_map [OF tr], of "map (\<lambda>x. (x, ?V x))"] by (simp add: comp_def)
  show iw: "install_writes ?st D = map (\<lambda>x. (x, ?V x)) (logged s)"
    unfolding install_writes_def n b home_writes_def eq using v nth by simp
  have "recovered ?st D x = new_disk d s x" if x: "x \<notin> log_area ?st" for x
  proof (cases "x \<in> set (logged s)")
    case True
    then show ?thesis
      unfolding recovered_def iw using T(9)
      by (subst apply_writes_mem [where v = "?V x"]) (auto simp: new_disk_def comp_def)
  next
    case False
    moreover have "D x = disk s x" using la(2) [OF x] x by (auto simp: D log_area_def)
    ultimately show ?thesis
      unfolding recovered_def iw by (subst apply_writes_other) (auto simp: new_disk_def)
  qed
  then show "recovers ?st D (new_disk d s)" using lv by (simp add: recovers_def)
qed

lemma crash_after_header:
  assumes tr: "transaction c d s" and k: "nat (lh_n s) < k"
  shows "recovers (log_start s) (apply_writes (take k (commit_writes d s)) (disk s)) (new_disk d s)"
proof -
  let ?st = "log_start s" and ?n = "nat (lh_n s)" and ?HW = "map (\<lambda>x. (x, bview d s x)) (logged s)"
  let ?h = "header_bytes (lh_n s) (lh_block s) (bview d s (head_bno s))"
  note T = transactionD [OF tr] and inv = restD(2) [OF transactionD(1) [OF tr]]
  define LW where "LW = log_writes ?st (lh_block s) (bview d s) [0..<?n]"
  define D1 where "D1 = (apply_writes LW (disk s))(head_bno s := ?h)"
  note d1 = disk_with_header [OF tr D1_def [unfolded LW_def]]
  have ws: "commit_writes d s = LW @ [(head_bno s, ?h)] @ ?HW @ [(head_bno s, put32 ?h 0 0)]"
    by (simp add: commit_writes_def Let_def LW_def header_zero)
  have [simp]: "length LW = ?n" by (simp add: LW_def log_writes_def)
  define j where "j = k - ?n - 1"
  have kj: "k = Suc (?n + j)" using k by (simp add: j_def)
  have D: "apply_writes (take k (commit_writes d s)) (disk s) =
      apply_writes (take j (?HW @ [(head_bno s, put32 ?h 0 0)])) D1"
    unfolding ws kj by (simp add: D1_def)
  show ?thesis
  proof (cases "j \<le> length ?HW")
    case True
    then show ?thesis
      using recovers_writes [OF d1(1,2) refl, of j] d1(3) unfolding D recovers_def by simp
  next
    case False
    then have all: "take j (?HW @ [(head_bno s, put32 ?h 0 0)]) = recovery_writes ?st D1"
      using d1(2) by (simp add: recovery_writes_def D1_def)
    show ?thesis
      using crash_in_recovery [OF d1(3), of "length (recovery_writes ?st D1)"] unfolding D all by simp
  qed
qed

lemma initlog_effect:
  assumes p: "powered_up c d s" and r: "recovers (sint start) (disk s) E"
  obtains s' where "initlog c i d start nlog s = Ok s'" "rest c d s'" "lh_n s' = 0" "disk_n (sint start) (disk s') = 0"
    and "\<And>x. x \<notin> log_area (sint start) \<Longrightarrow> disk s' x = E x"
    and "disk_writes s' = disk_writes s @ recovery_writes (sint start) (disk s)"
    and "refs d s' = (\<lambda>x. if x \<in> set (disk_blocks (sint start) (disk s)) then - 1 else 0)"
proof -
  let ?s = "s\<lparr>log_start := sint start, log_size := sint nlog, log_dev := d\<rparr>"
  have rest: "rest c d s" using p by (simp add: powered_up_def)
  have "rest c d ?s" by (subst rest_cong [of ?s s]) (use rest in simp_all)
  then have p': "powered_up c d ?s"
    using p by (simp add: powered_up_def refs_def spares_def cong: option.case_cong)
  have lv: "log_valid (sint start) (disk s)" and E: "\<And>x. x \<notin> log_area (sint start) \<Longrightarrow> recovered (sint start) (disk s) x = E x"
    using r by (auto simp: recovers_def)
  obtain s' where s': "recover_from_log c i ?s = Ok s'" "rest c d s'" "lh_n s' = 0"
    "disk s' = apply_writes (recovery_writes (sint start) (disk s)) (disk s)"
    "disk_writes s' = disk_writes s @ recovery_writes (sint start) (disk s)"
    "refs d s' = (\<lambda>x. if x \<in> set (disk_blocks (sint start) (disk s)) then - 1 else 0)"
    using recover_effect [OF p', of i] lv by auto
  have d': "disk s' = (recovered (sint start) (disk s))(word_of_int (sint start) := put32 (disk s (word_of_int (sint start))) 0 0)"
    by (simp add: s'(4) recovery_writes_def recovered_def)
  show thesis
  proof (rule that [OF _ s'(2,3) _ _ s'(5,6)])
    show "initlog c i d start nlog s = Ok s'"
      using s'(1) initlock_calm [OF restD(1) [OF rest]] by (simp add: initlog_def)
    show "disk_n (sint start) (disk s') = 0"
      by (rule disk_n_zero [of _ _ "disk s (word_of_int (sint start))"]) (simp_all add: d' log_validD(6) [OF lv])
    show "disk s' x = E x" if "x \<notin> log_area (sint start)" for x
      using E [OF that] that by (auto simp: d' log_area_def)
  qed
qed

text \<open>
  The disks that crashes of the recovery can leave: a boot from such a disk that
  stops after the first \<open>k\<close> writes of \<open>initlog\<close> leaves another.
\<close>

inductive reboots :: "u32 \<Rightarrow> u32 \<Rightarrow> (u32 \<Rightarrow> u8 list) \<Rightarrow> (u32 \<Rightarrow> u8 list) \<Rightarrow> bool" for d start D where
  reboots_none: "reboots d start D D"
| reboots_crash: "reboots d start D (disk t) \<Longrightarrow> powered_up c d (t :: klog) \<Longrightarrow> initlog c i d start nlog t = Ok t' \<Longrightarrow>
    disk_writes t' = disk_writes t @ ws \<Longrightarrow> reboots d start D (apply_writes (take k ws) (disk t))"

lemma reboots_recovers:
  assumes "reboots d start D D'" and "recovers (sint start) D E"
  shows "recovers (sint start) D' E"
  using assms
proof (induction rule: reboots.induct)
  case (reboots_crash t c i nlog t' ws k)
  have r: "recovers (sint start) (disk t) E" using reboots_crash by blast
  obtain u where u: "initlog c i d start nlog t = Ok u" "disk_writes u = disk_writes t @ recovery_writes (sint start) (disk t)"
    by (rule initlog_effect [OF reboots_crash(2) r]) blast
  then have "ws = recovery_writes (sint start) (disk t)" using reboots_crash(3,4) by simp
  then show ?case using crash_in_recovery [OF r] by simp
qed

end
