(* ===== verification/Log_Properties.thy ===== *)
theory Log_Properties
  imports Log_Crash
begin

text \<open>
  The contract of log.c: the last \<open>end_op\<close> of a transaction moves it to the disk as a
  whole, whatever the moment of a crash.
\<close>

section \<open>end\_op\<close>

lemma transaction_cong:
  assumes "locks s' = locks s" "cpus s' = cpus s" "bufs s' = bufs s" "disk s' = disk s" "log_dev s' = log_dev s"
    "lh_n s' = lh_n s" "lh_block s' = lh_block s" "log_start s' = log_start s"
  shows "transaction c d s' = transaction c d s" and "commit_writes d s' = commit_writes d s"
    and "logged s' = logged s" and "bview d s' = bview d s" and "refs d s' = refs d s"
proof -
  show l: "logged s' = logged s" by (simp add: logged_def assms)
  show r: "refs d s' = refs d s" by (rule ext) (simp only: refs_def assms)
  show v: "bview d s' = bview d s" by (simp only: slot_cong [OF assms(3)] assms(4))
  have "spares s' = spares s" by (simp only: spares_def assms)
  then show "transaction c d s' = transaction c d s"
    unfolding transaction_def l r by (simp only: assms rest_cong [of s' s, OF assms(1-4)])
  show "commit_writes d s' = commit_writes d s"
    unfolding commit_writes_def l v by (simp only: assms)
qed

text \<open>What the disk holds after all the writes of \<open>commit\<close>.\<close>

lemma commit_disk:
  assumes tr: "transaction c d s"
  shows "x \<notin> log_area (log_start s) \<Longrightarrow> apply_writes (commit_writes d s) (disk s) x = new_disk d s x"
    and "x \<notin> log_area (log_start s) \<Longrightarrow> apply_writes (commit_writes d s) (bview d s) x = bview d s x"
    and "disk_n (log_start s) (apply_writes (commit_writes d s) (disk s)) = 0"
proof -
  let ?st = "log_start s" and ?HW = "map (\<lambda>x. (x, bview d s x)) (logged s)"
  let ?h = "header_bytes (lh_n s) (lh_block s) (bview d s (head_bno s))"
  let ?LW = "log_writes ?st (lh_block s) (bview d s) [0..<nat (lh_n s)]"
  note T = transactionD [OF tr] and inv = restD(2) [OF transactionD(1) [OF tr]]
  have nl: "nat (lh_n s) < LOGSIZE" using T(6) by linarith
  have ws: "commit_writes d s = ?LW @ [(head_bno s, ?h)] @ ?HW @ [(head_bno s, put32 ?h 0 0)]"
    by (simp add: commit_writes_def Let_def header_zero)
  define D1 where "D1 = (apply_writes ?LW (disk s))(head_bno s := ?h)"
  note d1 = disk_with_header [OF tr D1_def]
  have D: "apply_writes (commit_writes d s) (disk s) = (recovered ?st D1)(head_bno s := put32 ?h 0 0)"
    unfolding ws recovered_def d1(2) by (simp add: D1_def)
  show "apply_writes (commit_writes d s) (disk s) x = new_disk d s x" if "x \<notin> log_area ?st"
    using that d1(3) by (auto simp: D recovers_def log_area_def)
  show "disk_n ?st (apply_writes (commit_writes d s) (disk s)) = 0"
    by (rule disk_n_zero [of _ _ ?h]) (simp add: D, rule header_bytes_facts(1) [OF bview_length [OF inv] T(5,7)])
  show "apply_writes (commit_writes d s) (bview d s) x = bview d s x" if x: "x \<notin> log_area ?st"
  proof -
    have x': "x \<noteq> head_bno s" using x by (simp add: log_area_def)
    define V1 where "V1 = (apply_writes ?LW (bview d s))(head_bno s := ?h)"
    have V1: "V1 x = bview d s x" unfolding V1_def using log_writes_apply(2) [OF nl x] x' by simp
    have "apply_writes (commit_writes d s) (bview d s) x = apply_writes ?HW V1 x"
      unfolding ws V1_def using x' by simp
    also have "\<dots> = bview d s x"
    proof (cases "x \<in> set (logged s)")
      case True
      then show ?thesis using T(9) by (subst apply_writes_mem [where v = "bview d s x"]) (auto simp: comp_def)
    next
      case False
      then show ?thesis using V1 by (subst apply_writes_other) auto
    qed
    finally show ?thesis .
  qed
qed

lemma end_op_effect:
  assumes tr: "transaction c d s" and n: "0 < lh_n s" and o: "outstanding s = 1" "\<not> committing s"
  obtains s' where "end_op c i s = Ok s'" "outstanding s' = 0" "\<not> committing s'" "lh_n s' = 0" "calm c s'"
    and "disk s' = apply_writes (commit_writes d s) (disk s)" "disk_writes s' = disk_writes s @ commit_writes d s"
    and "bview d s' = apply_writes (commit_writes d s) (bview d s)"
    and "refs d s' = (\<lambda>x. if x \<in> set (logged s) then refs d s x - 1 else refs d s x)"
proof -
  define s1 where "s1 = s\<lparr>outstanding := 0, committing := True\<rparr>"
  have calm: "calm c s" using restD(1) [OF transactionD(1) [OF tr]] .
  have c1: "calm c s1" by (rule calm_same [OF calm]) (simp_all add: s1_def)
  have cong: "transaction c d s1 = transaction c d s" "commit_writes d s1 = commit_writes d s" "logged s1 = logged s"
    "bview d s1 = bview d s" "refs d s1 = refs d s"
    by (rule transaction_cong; simp add: s1_def)+
  have tr1: "transaction c d s1" using tr cong(1) by simp
  obtain s2 where s2: "commit c i s1 = Ok s2" "rest c d s2" "lh_n s2 = 0" "wrote d (commit_writes d s1) (s1\<lparr>lh_n := 0\<rparr>) s2"
    "refs d s2 = (\<lambda>x. if x \<in> set (logged s1) then refs d s1 x - 1 else refs d s1 x)"
    by (rule commit_effect [OF tr1, of i]) (use n in \<open>simp add: s1_def\<close>)
  define s3 where "s3 = woken Chan_log (s2\<lparr>committing := False\<rparr>)"
  have c2: "calm c s2" using restD(1) [OF s2(2)] .
  have c2': "calm c (s2\<lparr>committing := False\<rparr>)" by (rule calm_same [OF c2]) simp_all
  have crit1: "critical c Lk_log (\<lambda>s1.
       let s2 = s1\<lparr>outstanding := outstanding s1 - 1\<rparr>
       in if committing s2 then Panic ''log.committing''
          else if outstanding s2 = 0 then Ok (True, s2\<lparr>committing := True\<rparr>)
          else bindr (wakeup c Chan_log s2) (\<lambda>s3. Ok (False, s3))) s = Ok (True, s1)"
    by (rule critical_calm [OF calm c1]) (use o in \<open>simp add: locked_state_def lock_defs s1_def Let_def\<close>)
  have up: "(locked_state c Lk_log s2)\<lparr>committing := False\<rparr> = locked_state c Lk_log (s2\<lparr>committing := False\<rparr>)"
    by (simp add: locked_state_def lock_defs)
  have crit2: "critical c Lk_log (\<lambda>s6. bindr (wakeup c Chan_log (s6\<lparr>committing := False\<rparr>)) (\<lambda>s7. Ok ((), s7))) s2 = Ok ((), s3)"
    by (rule critical_calm [OF c2]) (simp_all add: up wakeup_locked [OF c2'] s3_def calm_woken c2')
  have e: "end_op c i s = Ok s3" unfolding end_op_def crit1 by (simp add: s2(1) crit2)
  note w = wroteD [OF s2(4)] and l = touch_log [OF wroteD(1) [OF s2(4)]]
  have b3: "bufs s3 = bufs s2" "disk s3 = disk s2" "disk_writes s3 = disk_writes s2" by (simp_all add: s3_def)
  have r3: "refs d s3 = refs d s2" by (rule ext) (simp only: refs_def b3)
  have v3: "bview d s3 = apply_writes (commit_writes d s1) (bview d s1)"
    unfolding b3 slot_cong [OF b3(1)] using w(4) by simp
  show thesis
  proof (rule that [OF e])
    show "outstanding s3 = 0" "\<not> committing s3" "lh_n s3 = 0"
      using l(6) s2(3) by (simp_all add: s3_def woken_def s1_def)
    show "calm c s3" unfolding s3_def by (rule calm_woken [OF c2'])
    show "disk s3 = apply_writes (commit_writes d s) (disk s)" "disk_writes s3 = disk_writes s @ commit_writes d s"
      using w(2,3) unfolding b3 cong by (simp_all add: s1_def)
    show "bview d s3 = apply_writes (commit_writes d s) (bview d s)" using v3 unfolding cong .
    show "refs d s3 = (\<lambda>x. if x \<in> set (logged s) then refs d s x - 1 else refs d s x)"
      unfolding r3 s2(5) cong ..
  qed
qed

section \<open>log\_write\<close>

lemma log_index_in: "x \<in> set bs \<Longrightarrow> log_index bs x < length bs \<and> bs ! log_index bs x = x"
  by (induction bs) auto

lemma log_index_new: "x \<notin> set bs \<Longrightarrow> log_index bs x = length bs"
  by (induction bs) auto

text \<open>A critical section inside another.\<close>

lemma critical_nested:
  assumes "calm c s" and "calm c s'" and "lk \<noteq> lk'"
    and "body (locked_state c lk (locked_state c lk' s)) = Ok (x, locked_state c lk (locked_state c lk' s'))"
  shows "critical c lk body (locked_state c lk' s) = Ok (x, locked_state c lk' s')"
proof -
  have f: "free_lock lk (locked_state c lk' t)" if "calm c t" for t
    using that assms(3) by (simp add: free_lock_def locked_state_fields calm_def)
  show ?thesis
    using assms(4) acquire_free [OF f [OF assms(1)]]
      release_locked_state [OF f [OF assms(2)] locked_state_quiet(1) [OF assms(2)]] locked_state_quiet(2) [OF assms(2)]
    by (simp add: critical_def)
qed

lemma bpin_nested:
  assumes "calm c s"
  shows "bpin c b (locked_state c Lk_log s) = Ok (locked_state c Lk_log (upd_buf b (\<lambda>x. x\<lparr>refcnt := refcnt x + 1\<rparr>) s))"
  unfolding bpin_def
  by (subst critical_nested [OF assms touch_calm [OF touch_upd_buf assms]]) (simp_all add: locked_state_upd_buf)

definition log_open :: "'a klog_scheme \<Rightarrow> bool" where
  "log_open s \<longleftrightarrow> 0 \<le> lh_n s \<and> lh_n s < int LOGSIZE \<and> lh_n s < log_size s - 1 \<and> outstanding s \<ge> 1 \<and>
     length (lh_block s) = LOGSIZE"

lemma log_write_old:
  assumes calm: "calm c s" and op: "log_open s" and x: "blockno (bufs s b) \<in> set (logged s)"
  shows "log_write c b s = Ok s"
proof -
  let ?k = "log_index (logged s) (blockno (bufs s b))"
  have k: "?k < nat (lh_n s)" "lh_block s ! ?k = blockno (bufs s b)" "int ?k \<noteq> lh_n s"
    using log_index_in [OF x] by (auto simp: logged_def)
  have u: "(lh_block s)[?k := blockno (bufs s b)] = lh_block s" using k(2) by (metis list_update_id)
  have "critical c Lk_log (\<lambda>s1.
        let k = log_index (take (nat (lh_n s1)) (lh_block s1)) (blockno (bufs s1 b));
            s2 = s1\<lparr>lh_block := (lh_block s1)[k := blockno (bufs s1 b)]\<rparr>
        in if int k = lh_n s2
           then bindr (bpin c b s2) (\<lambda>s3. Ok ((), s3\<lparr>lh_n := lh_n s3 + 1\<rparr>))
           else Ok ((), s2)) s = Ok ((), s)"
    by (rule critical_calm [OF calm calm])
      (use k(3) u in \<open>simp add: locked_state_def lock_defs Let_def logged_def [symmetric]\<close>)
  then show ?thesis using op by (simp add: log_write_def log_open_def)
qed

lemma log_write_new:
  assumes calm: "calm c s" and op: "log_open s" and x: "blockno (bufs s b) \<notin> set (logged s)"
    and s': "s' = (upd_buf b (\<lambda>x. x\<lparr>refcnt := refcnt x + 1\<rparr>) s)
      \<lparr>lh_n := lh_n s + 1, lh_block := (lh_block s)[nat (lh_n s) := blockno (bufs s b)]\<rparr>"
  shows "log_write c b s = Ok s'" and "logged s' = logged s @ [blockno (bufs s b)]"
proof -
  let ?l = "\<lambda>s. locked_state c Lk_log s" and ?x = "blockno (bufs s b)"
  have n: "0 \<le> lh_n s" "nat (lh_n s) < length (lh_block s)" using op by (simp_all add: log_open_def nat_less_iff)
  then have k: "log_index (logged s) ?x = nat (lh_n s)" using log_index_new [OF x] by (simp add: logged_def)
  define s2 where "s2 = s\<lparr>lh_block := (lh_block s)[nat (lh_n s) := ?x]\<rparr>"
  have c2: "calm c s2" by (rule calm_same [OF calm]) (simp_all add: s2_def)
  have l2: "(?l s)\<lparr>lh_block := (lh_block s)[nat (lh_n s) := ?x]\<rparr> = ?l s2"
    by (simp add: locked_state_def lock_defs s2_def)
  have fs: "lh_n (?l s) = lh_n s" "lh_block (?l s) = lh_block s" "bufs (?l s) = bufs s" "lh_n (?l s2) = lh_n s"
    by (simp_all add: locked_state_def lock_defs s2_def)
  have s3: "(?l (upd_buf b (\<lambda>x. x\<lparr>refcnt := refcnt x + 1\<rparr>) s2))\<lparr>lh_n := lh_n s + 1\<rparr> = ?l s'"
    "lh_n (?l (upd_buf b (\<lambda>x. x\<lparr>refcnt := refcnt x + 1\<rparr>) s2)) = lh_n s"
    by (simp_all add: locked_state_def lock_defs s2_def s' upd_buf_def)
  have c': "calm c s'" by (rule calm_same [OF touch_calm [OF touch_upd_buf calm]]) (simp_all add: s')
  have "critical c Lk_log (\<lambda>s1.
        let k = log_index (take (nat (lh_n s1)) (lh_block s1)) (blockno (bufs s1 b));
            s2 = s1\<lparr>lh_block := (lh_block s1)[k := blockno (bufs s1 b)]\<rparr>
        in if int k = lh_n s2
           then bindr (bpin c b s2) (\<lambda>s3. Ok ((), s3\<lparr>lh_n := lh_n s3 + 1\<rparr>))
           else Ok ((), s2)) s = Ok ((), s')"
    by (rule critical_calm [OF calm c'])
      (simp add: Let_def fs logged_def [symmetric] k l2 n bpin_nested [OF c2] s3)
  then show "log_write c b s = Ok s'" using op by (simp add: log_write_def log_open_def)
  show "logged s' = logged s @ [?x]"
    using n by (simp add: logged_def s' nat_add_distrib take_Suc_conv_app_nth)
qed

section \<open>A machine with one logged block\<close>

definition zero_buf :: buf where
  "zero_buf = \<lparr>valid = False, bdisk = False, dev = 0, blockno = 0, blk = \<lparr>slocked = 0, spid = 0\<rparr>, refcnt = 0,
     bprev = 0, bnext = 0, data = replicate BSIZE 0\<rparr>"

definition boot_log :: klog where
  "boot_log = \<lparr>pmem = (\<lambda>_. 0), freelist = 0, kend = 0, kernel_pagetable = 0, etext = 0, trampoline = 0,
     satp = 0, locks = (\<lambda>_. \<lparr>locked = 0, cpu = None\<rparr>),
     cpus = (\<lambda>_. \<lparr>proc = None, noff = 0, intena = True, intr = True\<rparr>),
     procs = (\<lambda>_. idle_proc), initproc = None, nextpid = 1, forkret_addr = 0,
     bufs = (\<lambda>_. zero_buf), disk = (\<lambda>_. replicate BSIZE 0), disk_writes = [],
     log_start = 2, log_size = 30, outstanding = 1, committing = False, log_dev = 1, lh_n = 0,
     lh_block = replicate LOGSIZE 0\<rparr>"

definition new_block :: "u8 list" where
  "new_block = replicate BSIZE 7"

lemma new_block_length: "length new_block = BSIZE"
  by (simp add: new_block_def)

definition one_logged :: klog where
  "one_logged = (upd_buf 0 (\<lambda>x. x\<lparr>dev := 1, blockno := 50, valid := True, refcnt := 1, data := new_block\<rparr>)
     (binit boot_log))\<lparr>lh_n := 1, lh_block := 50 # replicate 29 0\<rparr>"

lemma boot_log_calm: "calm c boot_log"
  by (simp add: calm_def free_lock_def boot_log_def)

lemma boot_log_powered_up: "d \<noteq> 0 \<Longrightarrow> (\<forall>b. length (D b) = BSIZE) \<Longrightarrow> powered_up c d (binit (boot_log\<lparr>disk := D\<rparr>))"
proof (rule binit_powered_up)
  show "calm c (boot_log\<lparr>disk := D\<rparr>)" by (rule calm_same [OF boot_log_calm]) simp_all
qed (simp_all add: boot_log_def zero_buf_def)

lemma binit_boot_fields:
  "log_start (binit boot_log) = 2" "log_dev (binit boot_log) = 1" "outstanding (binit boot_log) = 1"
  "committing (binit boot_log) = False" "disk (binit boot_log) = (\<lambda>_. replicate BSIZE 0)" "disk_writes (binit boot_log) = []"
  using touch_log [OF binit_effect(1) [OF boot_log_calm]] binit_effect(2,3) [OF boot_log_calm]
  by (simp_all add: boot_log_def)

lemma one_logged_area: "(50 :: u32) \<notin> log_area 2"
  using after_log_area [of 2 50] by simp

lemma one_logged_fields:
  "lh_n one_logged = 1" "log_start one_logged = 2" "log_dev one_logged = 1" "outstanding one_logged = 1"
  "\<not> committing one_logged" "disk one_logged = (\<lambda>_. replicate BSIZE 0)" "logged one_logged = [50]"
  by (simp_all add: one_logged_def upd_buf_def binit_boot_fields logged_def)

lemma one_logged_bufs:
  "dev (bufs one_logged 0) = 1" "blockno (bufs one_logged 0) = 50" "refcnt (bufs one_logged 0) = 1"
  "valid (bufs one_logged 0)" "data (bufs one_logged 0) = new_block"
  "0 < k \<Longrightarrow> k < NBUF \<Longrightarrow> dev (bufs one_logged k) = 0"
  "0 < k \<Longrightarrow> k < NBUF \<Longrightarrow> refcnt (bufs one_logged k) = 0"
  "k < NBUF \<Longrightarrow> slocked (blk (bufs one_logged k)) = 0"
proof -
  have f: "dev (bufs (binit boot_log) k) = 0" "refcnt (bufs (binit boot_log) k) = 0" "slocked (blk (bufs (binit boot_log) k)) = 0"
    if "k < NBUF" for k
    using slotD [OF binit_effect(4) [OF boot_log_calm that]] by (simp_all add: slot_def boot_log_def zero_buf_def)
  show "dev (bufs one_logged 0) = 1" "blockno (bufs one_logged 0) = 50" "refcnt (bufs one_logged 0) = 1"
    "valid (bufs one_logged 0)" "data (bufs one_logged 0) = new_block"
    by (simp_all add: one_logged_def upd_buf_def)
  show "0 < k \<Longrightarrow> k < NBUF \<Longrightarrow> dev (bufs one_logged k) = 0"
    "0 < k \<Longrightarrow> k < NBUF \<Longrightarrow> refcnt (bufs one_logged k) = 0"
    "k < NBUF \<Longrightarrow> slocked (blk (bufs one_logged k)) = 0"
    using f [of k] by (cases "k = 0"; simp add: one_logged_def upd_buf_def)+
qed

lemma one_logged_cached: "cached 1 n (bufs one_logged) k \<longleftrightarrow> k = 0 \<and> n = 50"
  using one_logged_bufs(1,2) one_logged_bufs(6) [of k] by (cases "k = 0") (auto simp: cached_def)

lemma one_logged_rest: "rest 0 1 one_logged"
proof -
  let ?b = "upd_buf 0 (\<lambda>x. x\<lparr>dev := 1, blockno := 50, valid := True, refcnt := 1, data := new_block\<rparr>) (binit boot_log)"
  have calm: "calm 0 one_logged"
    by (rule calm_same [OF touch_calm [OF touch_trans [OF binit_effect(1) [OF boot_log_calm] touch_upd_buf] boot_log_calm]])
      (simp_all add: one_logged_def)
  have "lru ?b (rev [0..<NBUF])" by (rule lru_upd_buf [OF binit_lru]) simp_all
  then have l: "lru one_logged (rev [0..<NBUF])" by (simp add: lru_def one_logged_def nexts_def [abs_def] prevs_def [abs_def])
  have "cached 1 n (slot one_logged) k \<longleftrightarrow> k = 0 \<and> n = 50" for n k using one_logged_cached [of n k] by (simp add: cached_def)
  moreover have k0: "k = 0" if "k < NBUF" "dev (bufs one_logged k) = 1" for k
    using one_logged_bufs(6) [of k] that by (cases "k = 0") auto
  ultimately have "cache_ok 1 (slot one_logged) (disk one_logged)"
    unfolding cache_ok_def slot_fields one_logged_fields(6)
    using one_logged_bufs(3,5,8) new_block_length length_replicate by (metis zero_neq_one)
  then show ?thesis using calm l one_logged_bufs(8) by (auto simp: rest_def bio_inv_def)
qed

lemma one_logged_refs: "refs 1 one_logged n = (if n = 50 then 1 else 0)"
proof (cases "n = 50")
  case True
  have "refs 1 one_logged 50 = refcnt (bufs one_logged 0)"
    by (rule refs_cached [OF restD(2) [OF one_logged_rest]]) (simp only: one_logged_cached)
  then show ?thesis using True one_logged_bufs(3) by simp
next
  case False
  then have "refs 1 one_logged n = 0" by (intro refs_uncached) (simp add: one_logged_cached)
  then show ?thesis using False by simp
qed

lemma one_logged_transaction: "transaction 0 1 one_logged"
proof -
  have "(1::nat) \<in> {k. k < NBUF \<and> refcnt (bufs one_logged k) = 0}" using one_logged_bufs(7) [of 1] by simp
  then have "0 < spares one_logged" unfolding spares_def by (intro card_gt_0_iff [THEN iffD2] conjI) (blast, simp)
  then show ?thesis
    using one_logged_rest one_logged_area
    unfolding transaction_def one_logged_fields one_logged_refs by (simp add: one_logged_def)
qed

text \<open>The machine that stops after the header is written, and boots.\<close>

definition crashed_log :: klog where
  "crashed_log = binit (boot_log\<lparr>disk := apply_writes (take 2 (commit_writes 1 one_logged)) (disk one_logged)\<rparr>)"

lemma crashed_log_facts:
  "powered_up 0 1 crashed_log" "disk crashed_log = apply_writes (take 2 (commit_writes 1 one_logged)) (disk one_logged)"
  "log_valid 2 (disk crashed_log)" "disk_blocks 2 (disk crashed_log) = [50]"
proof -
  let ?D = "apply_writes (take 2 (commit_writes 1 one_logged)) (disk one_logged)"
  show d: "disk crashed_log = ?D"
    unfolding crashed_log_def by (subst binit_effect(2) [of 0]) (rule calm_same [OF boot_log_calm], simp_all)
  have D: "?D = (apply_writes (log_writes (log_start one_logged) (lh_block one_logged) (bview 1 one_logged)
      [0..<nat (lh_n one_logged)]) (disk one_logged))
      (head_bno one_logged := header_bytes (lh_n one_logged) (lh_block one_logged) (bview 1 one_logged (head_bno one_logged)))"
    by (simp add: commit_writes_def one_logged_fields Let_def numeral_2_eq_2)
  note h = disk_with_header [OF one_logged_transaction D]
  show lv: "log_valid 2 (disk crashed_log)" using h(1) by (simp add: d one_logged_fields)
  show "disk_blocks 2 (disk crashed_log) = [50]"
    using arg_cong [OF h(2), of "map fst"] unfolding fst_install_writes d by (simp add: one_logged_fields)
  show "powered_up 0 1 crashed_log"
    unfolding crashed_log_def by (rule boot_log_powered_up) (use log_validD(6) [OF lv] in \<open>simp_all add: d\<close>)
qed

lemma crash_then_boot:
  assumes "transaction c d s" and "disk_n (log_start s) (disk s) = 0" and st: "sint start = log_start s"
    and "reboots d start (apply_writes (take k (commit_writes d s)) (disk s)) (disk t)" and "powered_up c' d t"
  shows "\<exists>t'. initlog c' i' d start nlog t = Ok t' \<and> disk_n (log_start s) (disk t') = 0 \<and>
    (\<forall>x. x \<notin> log_area (log_start s) \<longrightarrow>
       disk t' x = (if nat (lh_n s) < k \<and> x \<in> set (logged s) then bview d s x else disk s x))"
proof -
  define E where "E = (if nat (lh_n s) < k then new_disk d s else disk s)"
  have "recovers (log_start s) (apply_writes (take k (commit_writes d s)) (disk s)) E"
    using crash_after_header [OF assms(1)] crash_before_header [OF assms(1,2)] by (simp add: E_def)
  then have r: "recovers (sint start) (disk t) E" using reboots_recovers [OF assms(4)] st by simp
  obtain t' where "initlog c' i' d start nlog t = Ok t'" "disk_n (sint start) (disk t') = 0"
    "\<And>x. x \<notin> log_area (sint start) \<Longrightarrow> disk t' x = E x"
    by (rule initlog_effect [OF assms(5) r]) blast
  then show ?thesis using st by (auto simp: E_def new_disk_def)
qed

section \<open>Properties\<close>

text \<open>
  C2. The \<open>end_op\<close> of the last outstanding operation commits: every block of the
  transaction is on the disk with its content in the cache, no other block outside of
  the log has changed, neither on the disk nor as the file system sees it, the log on the disk
  is empty again and every pin is released. The disk sees the log blocks, the
  header, the homes and the empty header in this order.
\<close>

theorem end_op_commits:
  assumes "transaction c d s" and "0 < lh_n s" and "outstanding s = 1" and "\<not> committing s"
  shows "\<exists>s'. end_op c i s = Ok s' \<and> outstanding s' = 0 \<and> \<not> committing s' \<and> lh_n s' = 0 \<and>
    disk_writes s' = disk_writes s @ commit_writes d s \<and> disk_n (log_start s) (disk s') = 0 \<and>
    (\<forall>x. x \<notin> log_area (log_start s) \<longrightarrow> bview d s' x = bview d s x \<and>
       disk s' x = (if x \<in> set (logged s) then bview d s x else disk s x)) \<and>
    refs d s' = (\<lambda>x. if x \<in> set (logged s) then refs d s x - 1 else refs d s x)"
proof -
  obtain s' where s': "end_op c i s = Ok s'" "outstanding s' = 0" "\<not> committing s'" "lh_n s' = 0" "calm c s'"
    "disk s' = apply_writes (commit_writes d s) (disk s)" "disk_writes s' = disk_writes s @ commit_writes d s"
    "bview d s' = apply_writes (commit_writes d s) (bview d s)"
    "refs d s' = (\<lambda>x. if x \<in> set (logged s) then refs d s x - 1 else refs d s x)"
    by (rule end_op_effect [OF assms])
  have "bview d s' x = bview d s x \<and> disk s' x = (if x \<in> set (logged s) then bview d s x else disk s x)"
    if "x \<notin> log_area (log_start s)" for x
    unfolding s'(8) using commit_disk(1,2) [OF assms(1) that] by (simp add: s'(6) new_disk_def)
  then show ?thesis using s' commit_disk(3) [OF assms(1)] by auto
qed

theorem end_op_commits_witness:
  "\<exists>s'. end_op 0 0 one_logged = Ok s' \<and> lh_n s' = 0 \<and> disk s' 50 = bview 1 one_logged 50 \<and> refs 1 s' 50 = 0"
proof -
  have "logged one_logged = [50]" "log_start one_logged = 2" by (simp_all add: one_logged_fields)
  then show ?thesis
    using end_op_commits [OF one_logged_transaction, of 0] one_logged_area one_logged_refs
    by (auto simp: one_logged_fields)
qed

text \<open>
  C1. Crash safety. The machine stops after any number \<open>k\<close> of the disk writes of the
  committing \<open>end_op\<close>, restarts, possibly stops again any number of times during the
  recovery, and at last boots: \<open>initlog\<close> then leaves the blocks outside of the log all as
  before the transaction, or, once the header was written, all as after it, and an
  empty log.
\<close>

theorem log_crash_safe:
  assumes "transaction c d s" and "0 < lh_n s" and "outstanding s = 1" and "\<not> committing s"
    and "disk_n (log_start s) (disk s) = 0" and "sint start = log_start s"
    and "end_op c i s = Ok s'" and "disk_writes s' = disk_writes s @ ws"
    and "reboots d start (apply_writes (take k ws) (disk s)) (disk t)" and "powered_up c' d t"
  shows "\<exists>t'. initlog c' i' d start nlog t = Ok t' \<and> disk_n (log_start s) (disk t') = 0 \<and>
    (\<forall>x. x \<notin> log_area (log_start s) \<longrightarrow>
       disk t' x = (if nat (lh_n s) < k \<and> x \<in> set (logged s) then bview d s x else disk s x))"
proof -
  obtain u where "end_op c i s = Ok u" "disk_writes u = disk_writes s @ commit_writes d s"
    by (rule end_op_effect [OF assms(1-4)]) blast
  then have ws: "ws = commit_writes d s" using assms(7,8) by simp
  show ?thesis
    by (rule crash_then_boot [OF assms(1,5,6) assms(9) [unfolded ws] assms(10)])
qed

theorem log_crash_safe_witness:
  "\<exists>t'. initlog 0 0 1 2 30 crashed_log = Ok t' \<and> disk t' 50 = bview 1 one_logged 50"
proof -
  have n: "disk_n (log_start one_logged) (disk one_logged) = 0"
    by (simp add: disk_n_def one_logged_fields get_field_def take_replicate eval_nat_numeral min_def)
  obtain s' where s': "end_op 0 0 one_logged = Ok s'" "disk_writes s' = disk_writes one_logged @ commit_writes 1 one_logged"
    by (rule end_op_effect [OF one_logged_transaction, of 0]) (auto simp: one_logged_fields)
  have "reboots 1 2 (apply_writes (take 2 (commit_writes 1 one_logged)) (disk one_logged)) (disk crashed_log)"
    unfolding crashed_log_facts(2) by (rule reboots_none)
  then show ?thesis
    using log_crash_safe [OF one_logged_transaction _ _ _ n _ s' _ crashed_log_facts(1), of 2 2 0 30] one_logged_area
    by (auto simp: one_logged_fields)
qed

text \<open>
  C29. The recovery unpins buffers nobody pinned: after a boot that installs a
  committed transaction, the reference count of the buffer of every installed block
  has wrapped around to \<open>2^32 - 1\<close>, and the cache can never recycle it.
\<close>

theorem recovery_wraps_refcnt:
  assumes "powered_up c d t" and "log_valid (sint start) (disk t)" and "b \<in> set (disk_blocks (sint start) (disk t))"
  shows "\<exists>t'. initlog c i d start nlog t = Ok t' \<and> refs d t' b = 2 ^ 32 - 1"
proof -
  have "recovers (sint start) (disk t) (recovered (sint start) (disk t))" using assms(2) by (simp add: recovers_def)
  then obtain t' where "initlog c i d start nlog t = Ok t'"
    "refs d t' = (\<lambda>x. if x \<in> set (disk_blocks (sint start) (disk t)) then - 1 else 0)"
    by (rule initlog_effect [OF assms(1)]) blast
  then show ?thesis using assms(3) by auto
qed

theorem recovery_wraps_refcnt_witness:
  "\<exists>t'. initlog 0 0 1 2 30 crashed_log = Ok t' \<and> refs 1 t' 50 = 2 ^ 32 - 1"
  using recovery_wraps_refcnt [of 0 1 crashed_log 2 50 0 30] crashed_log_facts by simp

text \<open>
  C28. \<open>log_write\<close> records a block in the in-memory header once, however often it is
  written (log absorption), and pins its buffer exactly when it is new; nothing
  goes to the disk before the commit.
\<close>

theorem log_write_records:
  assumes "calm c s" and "log_open s"
  shows "\<exists>s'. log_write c b s = Ok s' \<and> disk s' = disk s \<and> disk_writes s' = disk_writes s \<and>
    (if blockno (bufs s b) \<in> set (logged s)
     then logged s' = logged s \<and> bufs s' = bufs s
     else logged s' = logged s @ [blockno (bufs s b)] \<and>
       bufs s' = (bufs s)(b := (bufs s b)\<lparr>refcnt := refcnt (bufs s b) + 1\<rparr>))"
proof (cases "blockno (bufs s b) \<in> set (logged s)")
  case True
  then show ?thesis using log_write_old [OF assms] by simp
next
  case False
  show ?thesis using log_write_new [OF assms False refl] False by (auto simp: upd_buf_def)
qed

theorem log_write_records_witness:
  "\<exists>s'. log_write 0 0 one_logged = Ok s' \<and> logged s' = [50]"
proof -
  have "log_open one_logged"
    using touch_log(3) [OF binit_effect(1) [OF boot_log_calm]]
    by (simp add: log_open_def one_logged_fields) (simp add: one_logged_def upd_buf_def boot_log_def)
  then show ?thesis
    using log_write_records [OF restD(1) [OF one_logged_rest], of 0] by (auto simp: one_logged_fields one_logged_bufs)
qed

end
