(* ===== verification/Fs_Ops.thy ===== *)
theory Fs_Ops
  imports Fs Log_Properties
begin

text \<open>
  The operations of fs.c inside a transaction, as changes of the current content of
  the blocks (\<open>bview\<close>). Between the operations no buffer is locked and the only
  references to buffers are the pins of the logged blocks.
\<close>

section \<open>Inside a transaction\<close>

definition tx :: "nat \<Rightarrow> u32 \<Rightarrow> 'a klog_scheme \<Rightarrow> bool" where
  "tx c d s \<longleftrightarrow> rest c d s \<and> log_dev s = d \<and> refs d s = (\<lambda>x. if x \<in> set (logged s) then 1 else 0) \<and>
     NBUF \<le> spares s + length (logged s) \<and> distinct (logged s) \<and> length (lh_block s) = LOGSIZE \<and>
     0 \<le> lh_n s \<and> lh_n s < int LOGSIZE \<and> outstanding s \<ge> 1"

text \<open>The log has room for \<open>n\<close> more blocks.\<close>

definition room :: "nat \<Rightarrow> 'a klog_scheme \<Rightarrow> bool" where
  "room n s \<longleftrightarrow> lh_n s + int n < int LOGSIZE \<and> lh_n s + int n < log_size s"

text \<open>What the operations leave alone: all but the process table, the buffers and the header.\<close>

definition tx_frame :: "'a klog_scheme \<Rightarrow> 'a klog_scheme \<Rightarrow> bool" where
  "tx_frame s s' \<longleftrightarrow> (\<exists>P B n bs. s' = s\<lparr>procs := P, bufs := B, lh_n := n, lh_block := bs\<rparr> \<and> same_procs P (procs s))"

lemma tx_frameI:
  assumes "s' = s\<lparr>procs := P, bufs := B, lh_n := n, lh_block := bs\<rparr>" and "same_procs P (procs s)"
  shows "tx_frame s s'"
  using assms unfolding tx_frame_def by blast

lemma tx_frame_refl [simp]: "tx_frame s s"
  by (rule tx_frameI [where P = "procs s" and B = "bufs s" and n = "lh_n s" and bs = "lh_block s"]) simp_all

lemma tx_frame_trans:
  assumes "tx_frame s s1" and "tx_frame s1 s2"
  shows "tx_frame s s2"
proof -
  obtain P B n bs where 1: "s1 = s\<lparr>procs := P, bufs := B, lh_n := n, lh_block := bs\<rparr>" "same_procs P (procs s)"
    using assms(1) unfolding tx_frame_def by blast
  obtain P' B' n' bs' where 2: "s2 = s1\<lparr>procs := P', bufs := B', lh_n := n', lh_block := bs'\<rparr>" "same_procs P' (procs s1)"
    using assms(2) unfolding tx_frame_def by blast
  show ?thesis
    by (rule tx_frameI [where P = P' and B = B' and n = n' and bs = bs'])
      (use 1 2 in \<open>simp_all add: same_procs_def\<close>)
qed

lemma tx_frame_touch:
  assumes "touch s s'" and "disk s' = disk s" and "disk_writes s' = disk_writes s"
  shows "tx_frame s s'"
proof -
  obtain P B D W where s': "s' = s\<lparr>procs := P, bufs := B, disk := D, disk_writes := W\<rparr>" and p: "same_procs P (procs s)"
    using assms(1) unfolding touch_def by blast
  show ?thesis
    by (rule tx_frameI [where P = P and B = B and n = "lh_n s" and bs = "lh_block s"]) (use s' p assms(2,3) in simp_all)
qed

lemma tx_frameD:
  assumes "tx_frame s s'"
  shows "disk s' = disk s" "disk_writes s' = disk_writes s" "log_dev s' = log_dev s" "log_start s' = log_start s"
    "log_size s' = log_size s" "outstanding s' = outstanding s" "committing s' = committing s" "pmem s' = pmem s"
    "pid (procs s' k) = pid (procs s k)" "pagetable (procs s' k) = pagetable (procs s k)"
    "locks s' = locks s" "cpus s' = cpus s"
  using assms unfolding tx_frame_def same_procs_def by auto

lemma tx_frame_fs:
  assumes "tx_frame s s'"
  shows "sb s' = sb s" "inodes s' = inodes s"
  using assms unfolding tx_frame_def by auto

text \<open>A logged update of a block: \<open>bread\<close>, a change of the data, \<open>log_write\<close>, \<open>brelse\<close>.\<close>

definition log_add :: "u32 \<Rightarrow> u32 list \<Rightarrow> u32 list" where
  "log_add n L = (if n \<in> set L then L else L @ [n])"

lemma log_write_effect:
  assumes calm: "calm c s" and inv: "bio_inv d s" and op: "log_open s" and h: "held d n i s b"
    and r: "refcnt (bufs s b) + 1 \<noteq> 0"
  obtains s' where "log_write c b s = Ok s'" "calm c s'" "bio_inv d s'" "bview d s' = bview d s" "tx_frame s s'"
    and "logged s' = log_add n (logged s)" "length (lh_block s') = length (lh_block s)"
    and "lh_n s' = lh_n s + (if n \<in> set (logged s) then 0 else 1)"
    and "slot s' = (slot s)(b := (slot s b)\<lparr>refcnt := refcnt (bufs s b) + (if n \<in> set (logged s) then 0 else 1)\<rparr>)"
proof -
  have bn: "blockno (bufs s b) = n" using h by (simp add: held_def)
  show thesis
  proof (cases "n \<in> set (logged s)")
    case True
    then have "log_write c b s = Ok s" using log_write_old [OF calm op] bn by simp
    moreover have "slot s = (slot s)(b := (slot s b)\<lparr>refcnt := refcnt (bufs s b)\<rparr>)"
      by (rule ext) (cases "bufs s b", simp add: slot_def)
    ultimately show ?thesis using that [of s] True calm inv by (simp add: log_add_def)
  next
    case False
    let ?u = "upd_buf b (\<lambda>x. x\<lparr>refcnt := refcnt x + 1\<rparr>) s"
    define s' where "s' = ?u\<lparr>lh_n := lh_n s + 1, lh_block := (lh_block s)[nat (lh_n s) := blockno (bufs s b)]\<rparr>"
    note lw = log_write_new [OF calm op _ s'_def] and sl = slot_refcnt [of b "\<lambda>x. x + 1" s]
    obtain xs where xs: "lru s xs" and ok: "cache_ok d (slot s) (disk s)" using inv by (auto simp: bio_inv_def)
    have l: "lru ?u xs" by (rule lru_upd_buf [OF xs]) simp_all
    have same: "same_block (slot ?u k) (slot s k)" for k by (simp add: sl same_block_def)
    have free: "slocked (blk (slot ?u k)) = 0 \<and> (dev (slot s k) = d \<and> valid (slot s k) \<longrightarrow> data (slot s k) = disk s (blockno (slot s k)))"
      if "k < NBUF" "refcnt (slot ?u k) = 0" for k
      using that r cache_okD(2,3) [OF ok, of k] by (auto simp: sl split: if_splits)
    have d: "disk ?u = disk s" by simp
    note ci = counts_inv [OF inv l d same free]
    have b': "bio_inv d s'" "bview d s' = bview d s" using ci unfolding s'_def by simp_all
    have c': "calm c s'" by (rule calm_same [OF touch_calm [OF touch_upd_buf calm]]) (simp_all add: s'_def)
    have f: "tx_frame s s'"
      by (rule tx_frameI [where P = "procs s" and B = "bufs ?u" and n = "lh_n s + 1"
            and bs = "(lh_block s)[nat (lh_n s) := blockno (bufs s b)]"])
        (simp_all add: s'_def upd_buf_def)
    show ?thesis
      using that [of s'] lw False bn c' b' f by (simp add: log_add_def s'_def sl)
  qed
qed

lemma txD:
  assumes "tx c d s"
  shows "rest c d s" "calm c s" "bio_inv d s" "log_dev s = d" "refs d s x = (if x \<in> set (logged s) then 1 else 0)"
    "length (logged s) = nat (lh_n s)" "0 \<le> lh_n s" "0 < spares s" "distinct (logged s)" "length (lh_block s) = LOGSIZE"
proof -
  show "rest c d s" "log_dev s = d" "refs d s x = (if x \<in> set (logged s) then 1 else 0)" "0 \<le> lh_n s"
    "distinct (logged s)" "length (lh_block s) = LOGSIZE"
    using assms by (simp_all add: tx_def)
  then show "calm c s" "bio_inv d s" by (simp_all add: restD)
  have n: "nat (lh_n s) < LOGSIZE" using assms by (simp add: tx_def nat_less_iff)
  then show l: "length (logged s) = nat (lh_n s)" using assms by (simp add: tx_def logged_def)
  show "0 < spares s" using assms n by (simp add: tx_def l)
qed

lemma tx_log_open: "tx c d s \<Longrightarrow> room (Suc 0) s \<Longrightarrow> log_open s"
  by (simp add: tx_def room_def log_open_def)

lemma room_mono: "room n s \<Longrightarrow> m \<le> n \<Longrightarrow> room m s"
  by (simp add: room_def)

lemma tx_update:
  assumes tx: "tx c d s" and room: "room (Suc 0) s" and f: "\<And>x. length x = BSIZE \<Longrightarrow> length (f x) = BSIZE"
  obtains b s1 s2 s3 where "bread c i d n s = Ok (b, s1)"
    "log_write c b (upd_buf b (\<lambda>x. x\<lparr>data := f (data x)\<rparr>) s1) = Ok s2" "brelse c i b s2 = Ok s3"
    and "tx_frame s s1" "data (bufs s1 b) = bview d s n"
    and "tx c d s3" "tx_frame s s3" "bview d s3 = (bview d s)(n := f (bview d s n))"
    and "logged s3 = log_add n (logged s)" "lh_n s3 = lh_n s + (if n \<in> set (logged s) then 0 else 1)"
proof -
  note T = txD [OF tx]
  let ?old = "n \<in> set (logged s)"
  have r: "refs d s n \<noteq> - 1" using T(5) [of n] by simp
  obtain b s1 where b: "bread c i d n s = Ok (b, s1)" "touch s s1" "bio_inv d s1" "held d n i s1 b"
    "data (bufs s1 b) = bview d s n" "disk s1 = disk s" "disk_writes s1 = disk_writes s" "bview d s1 = bview d s"
    and o: "\<forall>k. k \<noteq> b \<longrightarrow> slot s1 k = slot s k" and rc: "refcnt (bufs s1 b) = refcnt (bufs s b) + 1"
    and src: "cached d n (bufs s) b \<or> refcnt (bufs s b) = 0 \<and> refs d s n = 0"
    by (rule read_one [OF T(1) r disjI2 [OF T(8)], of i])
  have rb: "refcnt (bufs s b) = (if ?old then 1 else 0)" using src refs_cached [OF T(3), of n b] T(5) [of n] by auto
  define v where "v = f (bview d s n)"
  have v: "length v = BSIZE" unfolding v_def by (rule f) (rule bview_length [OF T(3)])
  define u where "u = upd_buf b (\<lambda>x. x\<lparr>data := v\<rparr>) s1"
  have u: "upd_buf b (\<lambda>x. x\<lparr>data := f (data x)\<rparr>) s1 = u" using b(5) by (simp add: u_def upd_buf_def v_def)
  have hb: "b < NBUF" "dev (bufs s1 b) = d" "blockno (bufs s1 b) = n" "valid (bufs s1 b)" "refcnt (bufs s1 b) \<noteq> 0"
    using b(4) by (simp_all add: held_def)
  note m = modify_step [OF b(3) hb(1,2,4,5) v, folded u_def]
  have tu: "touch s u" unfolding u_def by (rule touch_trans [OF b(2) touch_upd_buf])
  have hu: "held d n i u b" using b(4) by (simp add: held_def locked_by_def u_def)
  have lo: "log_open u" using tx_log_open [OF tx room] touch_log [OF tu] by (simp add: log_open_def)
  have lg: "logged u = logged s" using touch_log(4,5) [OF tu] by (simp add: logged_def)
  have ru: "refcnt (bufs u b) = (if ?old then 2 else 1)" using rc rb by (simp add: u_def)
  have ru1: "refcnt (bufs u b) + 1 \<noteq> 0" using ru by simp
  obtain s2 where w: "log_write c b u = Ok s2" "calm c s2" "bio_inv d s2" "bview d s2 = bview d u" "tx_frame u s2"
    "logged s2 = log_add n (logged u)" "length (lh_block s2) = length (lh_block u)"
    "lh_n s2 = lh_n u + (if n \<in> set (logged u) then 0 else 1)"
    "slot s2 = (slot u)(b := (slot u b)\<lparr>refcnt := refcnt (bufs u b) + (if n \<in> set (logged u) then 0 else 1)\<rparr>)"
    by (rule log_write_effect [OF touch_calm [OF tu T(2)] m(1) lo hu ru1])
  have sb: "slot s2 b = (slot u b)\<lparr>refcnt := 2\<rparr>" using ru by (simp add: w(9) lg)
  note fb = slotD [OF sb]
  have lk: "locked_by s2 i b" using hu fb(4) tx_frameD(9) [OF w(5)] by (simp add: held_def locked_by_def)
  have cl: "refcnt (bufs s2 b) \<noteq> 1 \<or> data (bufs s2 b) = disk s2 (blockno (bufs s2 b))" using fb(3) by simp
  obtain s3 where s3: "brelse c i b s2 = Ok s3" "touch s2 s3" "bio_inv d s3" "disk s3 = disk s2"
    "disk_writes s3 = disk_writes s2" "bview d s3 = bview d s2" "slot s3 = (slot s2)(b := drop_ref (slot s2 b))"
    by (rule brelse_step [OF w(2,3) hb(1) lk cl])
  have du: "disk u = disk s" "disk_writes u = disk_writes s" using b(6,7) by (simp_all add: u_def)
  have fr: "tx_frame s s3"
    by (rule tx_frame_trans [OF tx_frame_trans [OF tx_frame_touch [OF tu du] w(5)] tx_frame_touch [OF s3(2,4,5)]])
  have e3: "slot s3 b = drop_ref ((slot u b)\<lparr>refcnt := 2\<rparr>)" "\<And>k. k \<noteq> b \<Longrightarrow> slot s3 k = slot s k"
    using o sb by (simp_all add: s3(7)) (simp add: w(9) u_def slot_data)
  note eb = slotD [OF e3(1)] and eo = slotD [OF e3(2)]
  have keep: "slocked (blk (bufs s3 k)) = 0" "refcnt (bufs s3 k) = refcnt (bufs s k)"
    "refcnt (bufs s k) \<noteq> 0 \<Longrightarrow> dev (bufs s3 k) = dev (bufs s k) \<and> blockno (bufs s3 k) = blockno (bufs s k)"
    if "k < NBUF" "k \<noteq> b" for k
    using that eo [of k] T(1) by (simp_all add: rest_def)
  have bb: "cached d n (bufs s3) b" "refcnt (bufs s3 b) = refcnt (bufs s b) + (if ?old then 0 else 1)" "slocked (blk (bufs s3 b)) = 0"
    using eb hb rb by (simp_all add: cached_def u_def)
  note fin = round_end [OF T(1) touch_calm [OF s3(2) w(2)] s3(3) keep bb src]
  note l3 = touch_log [OF s3(2)] and lu = touch_log [OF tu]
  have lg3: "logged s3 = log_add n (logged s)" using w(6) lg l3(4,5) by (simp add: logged_def)
  have n3: "lh_n s3 = lh_n s + (if ?old then 0 else 1)" using l3(4) w(8) lu(4) lg by simp
  have "tx c d s3"
    unfolding tx_def
  proof (intro conjI)
    show "rest c d s3" by (rule fin(1))
    show "log_dev s3 = d" using tx_frameD(3) [OF fr] T(4) by simp
    show "refs d s3 = (\<lambda>x. if x \<in> set (logged s3) then 1 else 0)"
    proof (rule ext)
      fix x
      show "refs d s3 x = (if x \<in> set (logged s3) then 1 else 0)"
        using fun_cong [OF fin(2), of x] T(5) [of x] T(5) [of n] by (auto simp: lg3 log_add_def)
    qed
    show "NBUF \<le> spares s3 + length (logged s3)"
      using tx fin(3,4) unfolding lg3 by (auto simp: tx_def log_add_def)
    show "distinct (logged s3)" using T(9) by (simp add: lg3 log_add_def)
    show "length (lh_block s3) = LOGSIZE" using l3(5) w(7) lu(5) T(10) by simp
    show "0 \<le> lh_n s3" "lh_n s3 < int LOGSIZE" using n3 T(7) room tx by (auto simp: room_def tx_def)
    show "outstanding s3 \<ge> 1" using tx_frameD(6) [OF fr] tx by (simp add: tx_def)
  qed
  moreover have "bview d s3 = (bview d s)(n := f (bview d s n))"
    using s3(6) w(4) m(2) b(8) hb(3) by (simp add: v_def)
  ultimately show thesis
    using that [OF b(1) _ s3(1) tx_frame_touch [OF b(2,6,7)] b(5)] w(1) fr lg3 n3 unfolding u by blast
qed

lemma tx_read:
  assumes tx: "tx c d s"
  obtains b s1 s2 where "bread c i d n s = Ok (b, s1)" "brelse c i b s1 = Ok s2"
    and "tx_frame s s1" "data (bufs s1 b) = bview d s n" "bview d s1 = bview d s"
    and "tx c d s2" "tx_frame s s2" "bview d s2 = bview d s" "logged s2 = logged s" "lh_n s2 = lh_n s"
proof -
  note T = txD [OF tx]
  have r: "refs d s n \<noteq> - 1" using T(5) [of n] by simp
  obtain b s1 where b: "bread c i d n s = Ok (b, s1)" "touch s s1" "bio_inv d s1" "held d n i s1 b"
    "data (bufs s1 b) = bview d s n" "disk s1 = disk s" "disk_writes s1 = disk_writes s" "bview d s1 = bview d s"
    "\<forall>k. k \<noteq> b \<longrightarrow> slot s1 k = slot s k" "refcnt (bufs s1 b) = refcnt (bufs s b) + 1"
    "cached d n (bufs s) b \<or> refcnt (bufs s b) = 0 \<and> refs d s n = 0"
    by (rule read_one [OF T(1) r disjI2 [OF T(8)], of i])
  have cl: "refcnt (bufs s b) = 0 \<longrightarrow> data (bufs s1 b) = disk s1 n"
    using b(5,6,11) bview_unreferenced [OF T(3), of n] refs_cached [OF T(3), of n b] by auto
  obtain s2 where s2: "brelse c i b s1 = Ok s2" "touch s s2" "disk s2 = disk s1" "disk_writes s2 = disk_writes s1"
    "bview d s2 = bview d s1" "rest c d s2" "refs d s2 = refs d s" "spares s \<le> spares s2"
    by (rule release_one [OF T(1) b(2,3,4,9,10,11) cl])
  note l = touch_log [OF s2(2)]
  have lg: "logged s2 = logged s" using l(4,5) by (simp add: logged_def)
  have "tx c d s2" using tx s2(6,7,8) l lg by (simp add: tx_def)
  then show thesis
    using that [OF b(1) s2(1) tx_frame_touch [OF b(2,6,7)] b(5,8)] tx_frame_touch [OF s2(2)] s2(3,4,5) b(6,7,8) lg l(4) by simp
qed

section \<open>Blocks\<close>

lemma bzero_effect:
  assumes tx: "tx c d s" and room: "room (Suc 0) s"
  obtains s' where "bzero c i d n s = Ok s'" "tx c d s'" "tx_frame s s'" "bview d s' = (bview d s)(n := replicate BSIZE 0)"
    and "logged s' = log_add n (logged s)" "lh_n s' \<le> lh_n s + 1"
proof -
  obtain b s1 s2 s3 where u: "bread c i d n s = Ok (b, s1)"
    "log_write c b (upd_buf b (\<lambda>x. x\<lparr>data := replicate BSIZE 0\<rparr>) s1) = Ok s2" "brelse c i b s2 = Ok s3"
    "tx c d s3" "tx_frame s s3" "bview d s3 = (bview d s)(n := replicate BSIZE 0)" "logged s3 = log_add n (logged s)"
    "lh_n s3 = lh_n s + (if n \<in> set (logged s) then 0 else 1)"
    by (rule tx_update [OF tx room, of "\<lambda>_. replicate BSIZE 0" i n]) auto
  then show thesis using that [of s3] by (simp add: bzero_def)
qed

lemma bm_length [simp]: "length (bm_set d k) = length d" "length (bm_clear d k) = length d"
  by (simp_all add: bm_set_def bm_clear_def)

lemma bfree_effect:
  assumes tx: "tx c d s" and room: "room (Suc 0) s" and n: "n = BBLOCK b (sb s)" and bi: "bi = unat b mod BPB"
  shows "\<not> bm_used (bview d s n) bi \<Longrightarrow> bfree c i d b s = Panic ''freeing free block''"
    and "bm_used (bview d s n) bi \<Longrightarrow> \<exists>s'. bfree c i d b s = Ok s' \<and> tx c d s' \<and> tx_frame s s' \<and>
      bview d s' = (bview d s)(n := bm_clear (bview d s n) bi) \<and> lh_n s' \<le> lh_n s + 1"
proof -
  obtain bp s1 s2 s3 where u: "bread c i d n s = Ok (bp, s1)"
    "log_write c bp (upd_buf bp (\<lambda>x. x\<lparr>data := bm_clear (data x) bi\<rparr>) s1) = Ok s2" "brelse c i bp s2 = Ok s3"
    "data (bufs s1 bp) = bview d s n" "tx c d s3" "tx_frame s s3"
    "bview d s3 = (bview d s)(n := bm_clear (bview d s n) bi)" "lh_n s3 = lh_n s + (if n \<in> set (logged s) then 0 else 1)"
    by (rule tx_update [OF tx room, of "\<lambda>x. bm_clear x bi" i n]) auto
  then show "\<not> bm_used (bview d s n) bi \<Longrightarrow> bfree c i d b s = Panic ''freeing free block''"
    unfolding bfree_def n [symmetric] bi [symmetric] Let_def by simp
  show "\<exists>s'. bfree c i d b s = Ok s' \<and> tx c d s' \<and> tx_frame s s' \<and>
      bview d s' = (bview d s)(n := bm_clear (bview d s n) bi) \<and> lh_n s' \<le> lh_n s + 1" if "bm_used (bview d s n) bi"
  proof (intro exI conjI)
    show "bfree c i d b s = Ok s3" unfolding bfree_def n [symmetric] bi [symmetric] Let_def using u that by simp
  qed (use u in simp_all)
qed

text \<open>The bits of a bitmap block.\<close>

lemma bm_used_bit: "bm_used d k \<longleftrightarrow> bit (d ! (k div 8)) (k mod 8)"
  by (simp add: bm_used_def bm_mask_def push_bit_eq_mult and_exp_eq_0_iff_not_bit)

lemma bm_mask_bit: "k < 8 \<Longrightarrow> bit (bm_mask bi) k \<longleftrightarrow> k = bi mod 8"
  by (auto simp: bm_mask_def push_bit_eq_mult bit_exp_iff possible_bit_def)

lemma bm_used_set:
  assumes "bi < 8 * length d"
  shows "bm_used (bm_set d bi) k \<longleftrightarrow> k = bi \<or> bm_used d k"
proof -
  have l: "bi div 8 < length d" using assms by auto
  have m: "k mod 8 < 8" "bi mod 8 < 8" by simp_all
  show ?thesis
  proof (cases "k div 8 = bi div 8")
    case True
    then have "k = bi \<longleftrightarrow> k mod 8 = bi mod 8" by (metis div_mult_mod_eq)
    then show ?thesis
      using True l by (auto simp: bm_used_bit bm_set_def bm_mask_bit bit_or_iff)
  next
    case False
    then show ?thesis using l by (auto simp: bm_used_bit bm_set_def nth_list_update)
  qed
qed

lemma bm_used_clear:
  assumes "bi < 8 * length d"
  shows "bm_used (bm_clear d bi) k \<longleftrightarrow> k \<noteq> bi \<and> bm_used d k"
proof -
  have l: "bi div 8 < length d" using assms by auto
  show ?thesis
  proof (cases "k div 8 = bi div 8")
    case True
    then have "k = bi \<longleftrightarrow> k mod 8 = bi mod 8" by (metis div_mult_mod_eq)
    then show ?thesis
      using True l
      by (auto simp: bm_used_bit bm_clear_def bm_mask_bit bit_and_iff bit_not_iff)
  next
    case False
    then show ?thesis using l by (auto simp: bm_used_bit bm_clear_def nth_list_update)
  qed
qed

definition free_bit :: "u32 \<Rightarrow> 'a kfs_scheme \<Rightarrow> nat \<Rightarrow> nat \<Rightarrow> bool" where
  "free_bit d s b bi \<longleftrightarrow> bi < min BPB (unat (sb_size (sb s)) - b) \<and> \<not> bm_used (bview d s (BBLOCK (of_nat b) (sb s))) bi"

text \<open>What \<open>balloc\<close> does when it takes bit \<open>bi\<close> of the bitmap block for \<open>b\<close>.\<close>

definition allocated :: "nat \<Rightarrow> u32 \<Rightarrow> nat \<Rightarrow> nat \<Rightarrow> 'a kfs_scheme \<Rightarrow> 'a kfs_scheme \<Rightarrow> bool" where
  "allocated c d b bi s s' \<longleftrightarrow> tx c d s' \<and> tx_frame s s' \<and> lh_n s' \<le> lh_n s + 2 \<and>
     bview d s' = ((bview d s)(BBLOCK (of_nat b) (sb s) := bm_set (bview d s (BBLOCK (of_nat b) (sb s))) bi))
       (of_nat (b + bi) := replicate BSIZE 0)"

lemma balloc_loop_effect:
  assumes "tx c d s" and "room 2 s"
  shows "(\<exists>b bi s'. b \<in> set bs \<and> free_bit d s b bi \<and> balloc_loop c i d bs s = Ok (of_nat (b + bi), s') \<and> allocated c d b bi s s') \<or>
    (\<forall>b \<in> set bs. \<forall>bi. \<not> free_bit d s b bi) \<and> balloc_loop c i d bs s = Panic ''balloc: out of blocks''"
  using assms
proof (induction bs arbitrary: s)
  case (Cons b bs)
  let ?n = "BBLOCK (of_nat b) (sb s)" and ?m = "min BPB (unat (sb_size (sb s)) - b)"
  have r1: "room (Suc 0) s" using room_mono [OF Cons.prems(2)] by simp
  show ?case
  proof (cases "find (\<lambda>bi. \<not> bm_used (bview d s ?n) bi) [0..<?m]")
    case (Some bi)
    have bi: "free_bit d s b bi" using find_SomeD [OF Some] by (simp add: free_bit_def)
    obtain bp s1 s2 s3 where u: "bread c i d ?n s = Ok (bp, s1)"
      "log_write c bp (upd_buf bp (\<lambda>x. x\<lparr>data := bm_set (data x) bi\<rparr>) s1) = Ok s2" "brelse c i bp s2 = Ok s3"
      "tx_frame s s1" "data (bufs s1 bp) = bview d s ?n" "tx c d s3" "tx_frame s s3"
      "bview d s3 = (bview d s)(?n := bm_set (bview d s ?n) bi)"
      "logged s3 = log_add ?n (logged s)" "lh_n s3 = lh_n s + (if ?n \<in> set (logged s) then 0 else 1)"
      by (rule tx_update [OF Cons.prems(1) r1, of "\<lambda>x. bm_set x bi" i ?n]) auto
    have r3: "room (Suc 0) s3" using Cons.prems(2) u(10) tx_frameD(5) [OF u(7)] by (auto simp: room_def)
    obtain s4 where z: "bzero c i d (of_nat (b + bi)) s3 = Ok s4" "tx c d s4" "tx_frame s3 s4"
      "bview d s4 = (bview d s3)(of_nat (b + bi) := replicate BSIZE 0)" "lh_n s4 \<le> lh_n s3 + 1"
      by (rule bzero_effect [OF u(6) r3])
    have "balloc_loop c i d (b # bs) s = Ok (of_nat (b + bi), s4)"
      using u(1-3,5) z(1) Some tx_frame_fs(1) [OF u(4)] by simp
    moreover have "lh_n s4 \<le> lh_n s + 2" using z(5) u(10) by (simp split: if_splits)
    moreover have "bview d s4 = ((bview d s)(?n := bm_set (bview d s ?n) bi))(of_nat (b + bi) := replicate BSIZE 0)"
      using z(4) u(8) by simp
    ultimately have "balloc_loop c i d (b # bs) s = Ok (of_nat (b + bi), s4) \<and> allocated c d b bi s s4"
      using z(2) tx_frame_trans [OF u(7) z(3)] unfolding allocated_def by blast
    then show ?thesis
      using bi by (intro disjI1) (rule exI [of _ b], rule exI [of _ bi], rule exI [of _ s4], simp)
  next
    case None
    have no: "\<not> free_bit d s b bi" for bi using None by (auto simp: find_None_iff free_bit_def)
    obtain bp s1 s2 where u: "bread c i d ?n s = Ok (bp, s1)" "brelse c i bp s1 = Ok s2" "tx_frame s s1"
      "data (bufs s1 bp) = bview d s ?n" "tx c d s2" "tx_frame s s2" "bview d s2 = bview d s" "lh_n s2 = lh_n s"
      by (rule tx_read [OF Cons.prems(1), of i ?n]) blast
    have e: "balloc_loop c i d (b # bs) s = balloc_loop c i d bs s2"
      using u(1,2,4) None tx_frame_fs(1) [OF u(3)] by simp
    have r2: "room 2 s2" using Cons.prems(2) u(8) tx_frameD(5) [OF u(6)] by (simp add: room_def)
    have f: "free_bit d s2 = free_bit d s" by (intro ext) (simp only: free_bit_def u(7) tx_frame_fs(1) [OF u(6)])
    have a: "allocated c d b bi s2 s' \<Longrightarrow> allocated c d b bi s s'" for b bi s'
      using tx_frame_trans [OF u(6)] unfolding allocated_def u(7,8) tx_frame_fs(1) [OF u(6)] by blast
    show ?thesis
      using Cons.IH [OF u(5) r2, unfolded f]
    proof (elim disjE exE conjE, goal_cases)
      case (1 b' bi s')
      then show ?thesis
        using a [OF 1(4)] unfolding e
        by (intro disjI1) (rule exI [of _ b'], rule exI [of _ bi], rule exI [of _ s'], simp)
    next
      case 2
      then show ?thesis using no unfolding e by simp
    qed
  qed
qed simp

end
