(* ===== verification/Fs_Blocks.thy ===== *)
theory Fs_Blocks
  imports Fs_Ops
begin

text \<open>
  The block allocator of \<open>kernel/fs.c\<close>, \<open>balloc\<close> and \<open>bfree\<close>, against the bitmap on the disk
  as a set of blocks in use.
\<close>

text \<open>The bitmap as the set of the blocks in use.\<close>

definition block_used :: "u32 \<Rightarrow> 'a kfs_scheme \<Rightarrow> u32 \<Rightarrow> bool" where
  "block_used d s x \<longleftrightarrow> bm_used (bview d s (BBLOCK x (sb s))) (unat x mod BPB)"

text \<open>The blocks of the bitmap lie on the disk and are marked as used, as in a new file system.\<close>

definition bitmap_ok :: "u32 \<Rightarrow> 'a kfs_scheme \<Rightarrow> bool" where
  "bitmap_ok d s \<longleftrightarrow> (\<forall>x. unat x < unat (sb_size (sb s)) \<longrightarrow>
     unat (BBLOCK x (sb s)) < unat (sb_size (sb s)) \<and> block_used d s (BBLOCK x (sb s)))"

lemma BBLOCK_iff: "BBLOCK x b = BBLOCK y b \<longleftrightarrow> unat x div BPB = unat y div BPB"
proof -
  have "(x div 8192 = y div 8192) = (unat (x div 8192) = unat (y div 8192))"
    by (simp only: word_unat_eq_iff)
  thus ?thesis
    by (simp add: BBLOCK_def unat_div_distrib)
qed

lemma block_bit: "unat x = BPB * (unat x div BPB) + unat x mod BPB"
  by simp

lemma unat_of_nat_below: "n \<le> unat y \<Longrightarrow> unat (of_nat n :: u32) = n" for y :: u32
  using unsigned_less [where 'a = nat, of y] by (simp only: unat_of_nat) simp

lemma BBLOCK_base: "BBLOCK (of_nat (BPB * (unat x div BPB))) b = BBLOCK x b"
proof -
  have "unat (of_nat (BPB * (unat x div BPB)) :: u32) = BPB * (unat x div BPB)"
    by (rule unat_of_nat_below [of _ x]) simp
  thus ?thesis
    by (subst BBLOCK_iff) simp
qed

lemma unat_eq_split: "x = y \<longleftrightarrow> unat x div BPB = unat y div BPB \<and> unat x mod BPB = unat y mod BPB" for x y :: u32
  by (metis block_bit word_unat_eq_iff)

lemma free_bit_block:
  "free_bit d s (BPB * (unat x div BPB)) (unat x mod BPB) \<longleftrightarrow> unat x < unat (sb_size (sb s)) \<and> \<not> block_used d s x"
  unfolding free_bit_def block_used_def BBLOCK_base by (auto simp: less_diff_conv)

lemma free_bit_word:
  assumes "free_bit d s b bi" and b: "b = BPB * k"
  shows "unat (of_nat (b + bi) :: u32) = b + bi" "unat (of_nat (b + bi) :: u32) div BPB = k" "unat (of_nat (b + bi) :: u32) mod BPB = bi"
proof -
  have "b + bi < unat (sb_size (sb s))" "bi < BPB" using assms(1) by (auto simp: free_bit_def)
  then show e: "unat (of_nat (b + bi) :: u32) = b + bi"
    by (intro unat_of_nat_below [of _ "sb_size (sb s)"]) simp
  show "unat (of_nat (b + bi) :: u32) div BPB = k" "unat (of_nat (b + bi) :: u32) mod BPB = bi"
    unfolding e using b \<open>bi < BPB\<close> by auto
qed

lemma balloc_effect:
  assumes "tx c d s" and "room 2 s"
  shows "(\<exists>r s'. balloc c i d s = Ok (r, s') \<and> unat r < unat (sb_size (sb s)) \<and> \<not> block_used d s r \<and>
      allocated c d (BPB * (unat r div BPB)) (unat r mod BPB) s s') \<or>
    (\<forall>x. unat x < unat (sb_size (sb s)) \<longrightarrow> block_used d s x) \<and> balloc c i d s = Panic ''balloc: out of blocks''"
proof -
  let ?bs = "map (\<lambda>k. BPB * k) [0..<(unat (sb_size (sb s)) + BPB - 1) div BPB]"
  from balloc_loop_effect [OF assms, of ?bs i] show ?thesis
  proof (elim disjE exE conjE)
    fix b bi s'
    assume a: "b \<in> set ?bs" "free_bit d s b bi" "balloc_loop c i d ?bs s = Ok (of_nat (b + bi), s')" "allocated c d b bi s s'"
    then obtain k where k: "b = BPB * k" by auto
    note w = free_bit_word [OF a(2) k]
    have "free_bit d s (BPB * (unat (of_nat (b + bi) :: u32) div BPB)) (unat (of_nat (b + bi) :: u32) mod BPB)"
      using a(2) unfolding w(2,3) k [symmetric] .
    then have "unat (of_nat (b + bi) :: u32) < unat (sb_size (sb s)) \<and> \<not> block_used d s (of_nat (b + bi))"
      unfolding free_bit_block .
    moreover have "allocated c d (BPB * (unat (of_nat (b + bi) :: u32) div BPB)) (unat (of_nat (b + bi) :: u32) mod BPB) s s'"
      using a(4) unfolding w(2,3) k [symmetric] .
    ultimately show ?thesis using a(3) unfolding balloc_def by blast
  next
    assume a: "\<forall>b\<in>set ?bs. \<forall>bi. \<not> free_bit d s b bi" "balloc_loop c i d ?bs s = Panic ''balloc: out of blocks''"
    have "block_used d s x" if x: "unat x < unat (sb_size (sb s))" for x
    proof -
      have "unat x div BPB < (unat (sb_size (sb s)) + BPB - 1) div BPB" using x by (simp add: less_eq_div_iff_mult_less_eq Suc_le_eq [symmetric])
      then have "\<not> free_bit d s (BPB * (unat x div BPB)) (unat x mod BPB)" using a(1) by simp
      then show ?thesis using x unfolding free_bit_block by blast
    qed
    then show ?thesis using a(2) unfolding balloc_def by blast
  qed
qed

text \<open>The set of the blocks in use after a change of one bit.\<close>

lemma allocated_used:
  assumes "tx c d s" and "bitmap_ok d s" and r: "unat r < unat (sb_size (sb s))" "\<not> block_used d s r"
    and a: "allocated c d (BPB * (unat r div BPB)) (unat r mod BPB) s s'" and x: "unat x < unat (sb_size (sb s))"
  shows "block_used d s' x \<longleftrightarrow> x = r \<or> block_used d s x"
proof -
  let ?n = "BBLOCK r (sb s)" and ?m = "BBLOCK x (sb s)"
  have ne: "?m \<noteq> r" using assms(2) x r(2) unfolding bitmap_ok_def by blast
  have f: "sb s' = sb s" using a by (simp add: allocated_def tx_frame_fs)
  have "of_nat (BPB * (unat r div BPB) + unat r mod BPB) = r" by simp
  then have v: "bview d s' = ((bview d s)(?n := bm_set (bview d s ?n) (unat r mod BPB)))(r := replicate BSIZE 0)"
    using a unfolding allocated_def BBLOCK_base by simp
  have "unat r mod BPB < 8 * length (bview d s ?n)" using bview_length [OF txD(3) [OF assms(1)]] by simp
  then show ?thesis
    using ne BBLOCK_iff [of x "sb s" r] unfolding block_used_def f v
    by (cases "?m = ?n") (auto simp: bm_used_set unat_eq_split [of x r])
qed

lemma cleared_used:
  assumes "tx c d s" and v: "bview d s' = (bview d s)(BBLOCK b (sb s) := bm_clear (bview d s (BBLOCK b (sb s))) (unat b mod BPB))"
    and f: "sb s' = sb s"
  shows "block_used d s' x \<longleftrightarrow> x \<noteq> b \<and> block_used d s x"
proof -
  have "unat b mod BPB < 8 * length (bview d s (BBLOCK b (sb s)))" using bview_length [OF txD(3) [OF assms(1)]] by simp
  then show ?thesis
    using BBLOCK_iff [of x "sb s" b] unfolding block_used_def f v
    by (cases "BBLOCK x (sb s) = BBLOCK b (sb s)") (auto simp: bm_used_clear unat_eq_split [of x b])
qed

section \<open>A small file system\<close>

text \<open>The layout \<open>mkfs\<close> gives a disk of 1000 blocks: 46 blocks of metadata, all else free.\<close>

definition small_sb :: superblock where
  "small_sb = \<lparr>sb_magic = 0x10203040, sb_size = 1000, sb_nblocks = 954, sb_ninodes = 200, sb_nlog = 30,
     sb_logstart = 2, sb_inodestart = 32, sb_bmapstart = 45\<rparr>"

definition small_bitmap :: "u8 list" where
  "small_bitmap = replicate 5 255 @ 63 # replicate (BSIZE - 6) 0"

definition no_inode :: inode where
  "no_inode = \<lparr>idev = 0, inum = 0, iref = 0, ilk = \<lparr>slocked = 0, spid = 0\<rparr>, ivalid = False, itype = 0, imajor = 0,
     iminor = 0, inlink = 0, isize = 0, iaddrs = replicate 13 0\<rparr>"

definition small_disk :: "u32 \<Rightarrow> u8 list" where
  "small_disk = (\<lambda>b. if b = 45 then small_bitmap else replicate BSIZE 0)"

definition small_boot :: kfs where
  "small_boot = klog.extend (boot_log\<lparr>disk := small_disk\<rparr>) (kfs.fields small_sb (\<lambda>_. no_inode))"

text \<open>The machine started on a disk \<open>D\<close>, in its first transaction.\<close>

definition fs_on :: "(u32 \<Rightarrow> u8 list) \<Rightarrow> kfs" where
  "fs_on D = binit (small_boot\<lparr>disk := D\<rparr>)"

definition small_fs :: kfs where
  "small_fs = fs_on small_disk"

lemma small_disk_length: "length (small_disk b) = BSIZE"
  by (simp add: small_disk_def small_bitmap_def)

lemma boot_on_calm: "calm c (small_boot\<lparr>disk := D\<rparr>)"
  by (simp add: calm_def free_lock_def small_boot_def boot_log_def klog.defs)

lemma fs_on_powered_up: "\<forall>b. length (D b) = BSIZE \<Longrightarrow> powered_up c 1 (fs_on D)"
  unfolding fs_on_def
  by (rule binit_powered_up [OF boot_on_calm]) (simp_all add: small_boot_def boot_log_def klog.defs zero_buf_def)

lemma fs_on_fields:
  "sb (fs_on D) = small_sb" "lh_n (fs_on D) = 0" "log_dev (fs_on D) = 1" "log_size (fs_on D) = 30" "outstanding (fs_on D) = 1"
  "disk (fs_on D) = D" "inodes (fs_on D) = (\<lambda>_. no_inode)" "log_start (fs_on D) = 2" "\<not> committing (fs_on D)"
  "pid (procs (fs_on D) i) = 0"
proof -
  obtain P B E W where s: "fs_on D = small_boot\<lparr>procs := P, bufs := B, disk := E, disk_writes := W\<rparr>"
    and P: "same_procs P (procs small_boot)"
    using binit_effect(1) [OF boot_on_calm, of D] unfolding touch_def fs_on_def by auto
  show "sb (fs_on D) = small_sb" "lh_n (fs_on D) = 0" "log_dev (fs_on D) = 1" "log_size (fs_on D) = 30" "outstanding (fs_on D) = 1"
    "inodes (fs_on D) = (\<lambda>_. no_inode)" "log_start (fs_on D) = 2" "\<not> committing (fs_on D)"
    by (simp_all add: s small_boot_def boot_log_def klog.defs kfs.defs)
  show "disk (fs_on D) = D" using binit_effect(2) [OF boot_on_calm, of D] by (simp add: fs_on_def)
  show "pid (procs (fs_on D) i) = 0"
    using P by (simp add: s same_procs_def small_boot_def boot_log_def klog.defs idle_proc_def)
qed

lemma fs_on_tx:
  assumes "\<forall>b. length (D b) = BSIZE"
  shows "tx c 1 (fs_on D)" "bview 1 (fs_on D) = D"
proof -
  show t: "tx c 1 (fs_on D)" for c
    using fs_on_powered_up [OF assms, of c] by (auto simp: powered_up_def tx_def fs_on_fields logged_def fun_eq_iff)
  show "bview 1 (fs_on D) = D"
    using bview_unreferenced [OF txD(3) [OF t]] fs_on_powered_up [OF assms, of 0] by (auto simp: powered_up_def fs_on_fields)
qed

lemma fs_on_room: "room n (fs_on D) \<longleftrightarrow> n < LOGSIZE"
  by (auto simp: room_def fs_on_fields)

lemma small_fs_tx: "tx c 1 small_fs" "room n small_fs \<longleftrightarrow> n < LOGSIZE" "sb small_fs = small_sb" "bview 1 small_fs = small_disk"
  using fs_on_tx [of small_disk] by (simp_all add: small_fs_def small_disk_length fs_on_room fs_on_fields)

lemma small_BBLOCK: "unat x < 1000 \<Longrightarrow> BBLOCK x small_sb = 45"
  using BBLOCK_iff [of x small_sb 0] by (simp add: BBLOCK_def small_sb_def)

lemma small_sb_size: "unat (sb_size small_sb) = 1000"
  by (simp add: small_sb_def)

lemma small_bitmap_used: "bm_used small_bitmap 45" "\<not> bm_used small_bitmap 46"
  by (simp_all add: bm_used_def bm_mask_def small_bitmap_def nth_append)

lemma small_fs_bitmap: "bitmap_ok 1 small_fs" "\<not> block_used 1 small_fs 46" "block_used 1 small_fs 45"
  using small_bitmap_used
  by (simp_all add: bitmap_ok_def block_used_def small_fs_tx small_disk_def small_BBLOCK small_sb_size)

section \<open>Allocation and release of blocks\<close>

text \<open>
  C6. In a transaction with room for two blocks, on a bitmap that marks its own blocks as used, \<open>balloc\<close>
  returns a block below the size of the file system that was free. That block is zeroed, it is
  now in use, every other block is in use as before, and no block but it and
  its bitmap block changes. When no block is free, and only then, \<open>balloc\<close> panics.
\<close>

theorem balloc_takes_free_block:
  assumes "tx c d s" and "room 2 s" and "bitmap_ok d s"
  shows "case balloc c i d s of
      Ok (b, s') \<Rightarrow> unat b < unat (sb_size (sb s)) \<and> \<not> block_used d s b \<and> bview d s' b = replicate BSIZE 0 \<and>
        (\<forall>x. unat x < unat (sb_size (sb s)) \<longrightarrow> (block_used d s' x \<longleftrightarrow> x = b \<or> block_used d s x)) \<and>
        (\<forall>x. x \<noteq> b \<and> x \<noteq> BBLOCK b (sb s) \<longrightarrow> bview d s' x = bview d s x) \<and> tx c d s' \<and> bitmap_ok d s'
    | r \<Rightarrow> r = Panic ''balloc: out of blocks'' \<and> (\<forall>x. unat x < unat (sb_size (sb s)) \<longrightarrow> block_used d s x)"
  using balloc_effect [OF assms(1,2), of i]
proof (elim disjE exE conjE)
  fix b s'
  assume r: "balloc c i d s = Ok (b, s')" "unat b < unat (sb_size (sb s))" "\<not> block_used d s b"
    and a: "allocated c d (BPB * (unat b div BPB)) (unat b mod BPB) s s'"
  note used = allocated_used [OF assms(1,3) r(2,3) a]
  have f: "sb s' = sb s" "tx c d s'" using a by (simp_all add: allocated_def tx_frame_fs)
  have "of_nat (BPB * (unat b div BPB) + unat b mod BPB) = b" by simp
  then have v: "bview d s' = ((bview d s)(BBLOCK b (sb s) := bm_set (bview d s (BBLOCK b (sb s))) (unat b mod BPB)))(b := replicate BSIZE 0)"
    using a unfolding allocated_def BBLOCK_base by simp
  have "bitmap_ok d s'" using assms(3) used unfolding bitmap_ok_def f(1) by blast
  then show ?thesis using r used f(2) by (simp add: v)
qed simp

theorem balloc_takes_free_block_witness:
  "\<exists>b s'. balloc 0 0 1 small_fs = Ok (b, s') \<and> unat b < 1000 \<and> \<not> block_used 1 small_fs b \<and> block_used 1 s' b"
  using balloc_takes_free_block [OF small_fs_tx(1) _ small_fs_bitmap(1), of 0 0] small_fs_bitmap(2)
  by (auto simp: small_fs_tx(2,3) small_sb_size split: res.splits)

text \<open>
  C7. In a transaction with room for one block, \<open>bfree\<close> of a block in use clears its mark and no other:
  the blocks in use are those before, without it, and only its bitmap block changes. Freeing
  a block that is not in use panics.
\<close>

theorem bfree_releases_block:
  assumes "tx c d s" and "room 1 s"
  shows "case bfree c i d b s of
      Ok s' \<Rightarrow> block_used d s b \<and> (\<forall>x. block_used d s' x \<longleftrightarrow> x \<noteq> b \<and> block_used d s x) \<and>
        (\<forall>x. x \<noteq> BBLOCK b (sb s) \<longrightarrow> bview d s' x = bview d s x) \<and> tx c d s'
    | r \<Rightarrow> r = Panic ''freeing free block'' \<and> \<not> block_used d s b"
proof (cases "block_used d s b")
  case True
  have room: "room (Suc 0) s" using assms(2) by simp
  obtain s' where f: "bfree c i d b s = Ok s'" "tx c d s'" "tx_frame s s'"
    "bview d s' = (bview d s)(BBLOCK b (sb s) := bm_clear (bview d s (BBLOCK b (sb s))) (unat b mod BPB))"
    using bfree_effect(2) [OF assms(1) room refl refl] True unfolding block_used_def by blast
  show ?thesis
    using f(1,2) True cleared_used [OF assms(1) f(4) tx_frame_fs(1) [OF f(3)]] by (simp add: f(4))
next
  case False
  then show ?thesis
    using bfree_effect(1) [OF assms(1) _ refl refl] assms(2) unfolding block_used_def by simp
qed

theorem bfree_releases_block_witness:
  "\<exists>s'. bfree 0 0 1 45 small_fs = Ok s' \<and> block_used 1 small_fs 45 \<and> \<not> block_used 1 s' 45"
  using bfree_releases_block [OF small_fs_tx(1), where c = 0 and i = 0 and b = 45] small_fs_bitmap(3)
  by (auto simp: small_fs_tx(2) split: res.splits)

end
