(* ===== verification/Fs_Inodes.thy ===== *)
theory Fs_Inodes
  imports Fs_Blocks
begin

text \<open>
  Inodes on the disk and in memory, \<open>iupdate\<close> and \<open>ilock\<close> of \<open>kernel/fs.c\<close>: the encoding of a
  \<open>struct dinode\<close> in its block, and that the one reads back what the other wrote.
\<close>

section \<open>The encoding of an inode\<close>

lemma put_addrs_fold:
  assumes "off + 4 * n \<le> length d"
  shows "length (fold (\<lambda>k d. put32 d (off + 4 * k) (as ! k)) [0..<n] d) = length d"
    and "t < n \<Longrightarrow> get32 (fold (\<lambda>k d. put32 d (off + 4 * k) (as ! k)) [0..<n] d) (off + 4 * t) = as ! t"
    and "off' + m \<le> off \<or> off + 4 * n \<le> off' \<Longrightarrow>
      get_field m (fold (\<lambda>k d. put32 d (off + 4 * k) (as ! k)) [0..<n] d) off' = (get_field m d off' :: 'b::len word)"
  using assms
proof (induction n)
  case 0
  { case 1 then show ?case by simp }
  { case 2 then show ?case by simp }
  { case 3 then show ?case by simp }
next
  case (Suc n)
  let ?d = "fold (\<lambda>k d. put32 d (off + 4 * k) (as ! k)) [0..<n] d"
  { case 1 then show ?case using Suc(1) by simp }
  { case 2 then show ?case using Suc(1,2) by (cases "t = n") (simp_all add: get_put_same get_put_other) }
  { case 3
    have l: "length ?d = length d" using 3 by (intro Suc.IH(1)) simp
    have "get_field m ?d off' = (get_field m d off' :: 'b word)" using 3 by (intro Suc.IH(3)) auto
    then show ?case using 3 l by (auto simp: get_put_other) }
qed

lemma put_addrs_facts:
  assumes "off + 52 \<le> length d"
  shows "length (put_addrs off as d) = length d" and "t < 13 \<Longrightarrow> get32 (put_addrs off as d) (off + 4 * t) = as ! t"
    and "off' + m \<le> off \<or> off + 52 \<le> off' \<Longrightarrow> get_field m (put_addrs off as d) off' = get_field m d off'"
  using put_addrs_fold [where n = 13 and as = as and d = d and off = off] assms unfolding put_addrs_def by simp_all

lemma encode_length: "off + 64 \<le> length d \<Longrightarrow> length (encode_dinode x off d) = length d"
  by (simp add: encode_dinode_def put_addrs_facts(1))

text \<open>The fields of \<open>y\<close> that are kept on the disk, with the rest of \<open>x\<close>.\<close>

definition with_dinode :: "inode \<Rightarrow> inode \<Rightarrow> inode" where
  "with_dinode y x = x\<lparr>itype := itype y, imajor := imajor y, iminor := iminor y, inlink := inlink y,
     isize := isize y, iaddrs := iaddrs y\<rparr>"

lemma decode_encode:
  assumes "off + 64 \<le> length d" and "length (iaddrs y) = Suc NDIRECT"
  shows "decode_dinode (encode_dinode y off d) off x = with_dinode y x"
proof -
  have "map (\<lambda>k. get32 (encode_dinode y off d) (off + 12 + 4 * k)) [0..<Suc NDIRECT] = iaddrs y"
    using assms by (intro nth_equalityI) (simp_all add: encode_dinode_def put_addrs_facts(2) del: upt_Suc)
  then show ?thesis
    using assms(1)
    by (simp add: decode_dinode_def with_dinode_def del: upt_Suc)
      (simp add: encode_dinode_def put_addrs_facts get_put_same get_put_other)
qed

lemma encode_keeps:
  assumes "off + 64 \<le> length d" and "off' + 64 \<le> off \<or> off + 64 \<le> off'" and "k + m \<le> 64"
  shows "get_field m (encode_dinode y off d) (off' + k) = get_field m d (off' + k)"
  using assms by (auto simp: encode_dinode_def put_addrs_facts get_put_other)

lemma decode_other:
  assumes "off + 64 \<le> length d" and "off' + 64 \<le> off \<or> off + 64 \<le> off'"
  shows "decode_dinode (encode_dinode y off d) off' x = decode_dinode d off' x"
proof -
  have "map (\<lambda>k. get32 (encode_dinode y off d) (off' + 12 + 4 * k)) [0..<Suc NDIRECT] =
      map (\<lambda>k. get32 d (off' + 12 + 4 * k)) [0..<Suc NDIRECT]"
    by (intro map_cong refl) (simp add: add.assoc encode_keeps [OF assms])
  then show ?thesis
    unfolding decode_dinode_def
    by (simp add: encode_keeps [OF assms] encode_keeps [OF assms, where k = 0, simplified]
      encode_keeps [OF assms, where k = 2, simplified] del: upt_Suc)
qed

lemma dinode_off_bound: "dinode_off n + 64 \<le> BSIZE"
proof -
  have "unat n mod 16 < 16" by simp
  then show ?thesis unfolding dinode_off_def by simp
qed

lemma dinode_apart:
  assumes "m \<noteq> n" and "IBLOCK m b = IBLOCK n b"
  shows "dinode_off m + 64 \<le> dinode_off n \<or> dinode_off n + 64 \<le> dinode_off m"
proof -
  have "unat (m div 16) = unat (n div 16)" using assms(2) by (simp add: IBLOCK_def)
  then have "unat m div 16 = unat n div 16" by (simp add: unat_div_distrib)
  then have "unat m mod 16 \<noteq> unat n mod 16"
    using assms(1) by (metis div_mult_mod_eq word_unat_eq_iff)
  then show ?thesis unfolding dinode_off_def by auto
qed

section \<open>Writing an inode\<close>

text \<open>The inode \<open>n\<close> as the disk, through the cache, has it, put into the in-memory inode \<open>x\<close>.\<close>

definition dinode_at :: "u32 \<Rightarrow> 'a kfs_scheme \<Rightarrow> u32 \<Rightarrow> inode \<Rightarrow> inode" where
  "dinode_at d s n x = decode_dinode (bview d s (IBLOCK n (sb s))) (dinode_off n) x"

lemma iupdate_effect:
  assumes tx: "tx c d s" and room: "room (Suc 0) s" and d: "idev (inodes s k) = d"
  obtains s' where "iupdate c i k s = Ok s'" "tx c d s'" "tx_frame s s'" "lh_n s' \<le> lh_n s + 1"
    "logged s' = log_add (IBLOCK (inum (inodes s k)) (sb s)) (logged s)"
    and "bview d s' = (bview d s)(IBLOCK (inum (inodes s k)) (sb s) :=
      encode_dinode (inodes s k) (dinode_off (inum (inodes s k))) (bview d s (IBLOCK (inum (inodes s k)) (sb s))))"
proof -
  let ?n = "IBLOCK (inum (inodes s k)) (sb s)" and ?f = "encode_dinode (inodes s k) (dinode_off (inum (inodes s k)))"
  have f: "length (?f x) = BSIZE" if "length x = BSIZE" for x
    using encode_length [of "dinode_off (inum (inodes s k))" x] dinode_off_bound that by simp
  obtain b s1 s2 s3 where u: "bread c i d ?n s = Ok (b, s1)"
    "log_write c b (upd_buf b (\<lambda>x. x\<lparr>data := ?f (data x)\<rparr>) s1) = Ok s2" "brelse c i b s2 = Ok s3"
    "tx_frame s s1" "tx c d s3" "tx_frame s s3" "bview d s3 = (bview d s)(?n := ?f (bview d s ?n))"
    "lh_n s3 = lh_n s + (if ?n \<in> set (logged s) then 0 else 1)" "logged s3 = log_add ?n (logged s)"
    by (rule tx_update [OF tx room, of ?f i ?n]) (use f in auto)
  have "iupdate c i k s = Ok s3"
    using u(1-3) tx_frame_fs(2) [OF u(4)] d by (simp add: iupdate_def)
  then show thesis using that u(5-9) by simp
qed

lemma iupdate_dinodes:
  assumes tx: "tx c d s" and f: "sb s' = sb s" and l: "length (iaddrs x) = Suc NDIRECT"
    and v: "bview d s' = (bview d s)(IBLOCK n (sb s) := encode_dinode x (dinode_off n) (bview d s (IBLOCK n (sb s))))"
  shows "dinode_at d s' m y = (if m = n then with_dinode x y else dinode_at d s m y)"
proof -
  have b: "dinode_off n + 64 \<le> length (bview d s (IBLOCK n (sb s)))"
    using bview_length [OF txD(3) [OF tx]] dinode_off_bound by simp
  show ?thesis
  proof (cases "IBLOCK m (sb s) = IBLOCK n (sb s)")
    case True
    then show ?thesis
      using decode_encode [OF b l] decode_other [OF b] dinode_apart [OF _ True] unfolding dinode_at_def f v by auto
  next
    case False
    then show ?thesis unfolding dinode_at_def f v by auto
  qed
qed

section \<open>Loading an inode\<close>

interpretation inodelock: sleeplock_at "Lk_inode k" "\<lambda>s. ilk (inodes s k)" "upd_ilk k" for k
  by unfold_locales (simp_all add: upd_ilk_def upd_inode_def locked_state_def woken_def lock_defs)

lemma tx_same:
  assumes "tx c d s" and "locks s' = locks s" "cpus s' = cpus s" "bufs s' = bufs s" "disk s' = disk s"
    and "log_dev s' = log_dev s" "lh_n s' = lh_n s" "lh_block s' = lh_block s" "outstanding s' = outstanding s"
  shows "tx c d s'" "bview d s' = bview d s"
proof -
  have "rest c d s' = rest c d s" by (rule rest_cong) (simp_all add: assms)
  moreover have "refs d s' = refs d s" "spares s' = spares s" "logged s' = logged s"
    by (simp_all add: assms refs_def [abs_def] spares_def logged_def cong: option.case_cong)
  ultimately show "tx c d s'" using assms by (simp add: tx_def)
  show "bview d s' = bview d s" unfolding slot_cong [OF assms(4)] assms(5) ..
qed

lemma tx_cong:
  assumes "tx c d s" and "s' = s\<lparr>inodes := I\<rparr>"
  shows "tx c d s'"
  by (rule tx_same(1) [OF assms(1)]) (simp_all add: assms(2))

text \<open>
  Reading a block, with a change of memory and of the in-memory inodes before the block is
  released.
\<close>

lemma tx_read_upd:
  assumes tx: "tx c d s"
  obtains b s1 where "bread c i d n s = Ok (b, s1)" "tx_frame s s1" "data (bufs s1 b) = bview d s n"
    and "\<forall>m I. \<exists>s2. brelse c i b (s1\<lparr>pmem := m, inodes := I\<rparr>) = Ok s2 \<and> tx c d s2 \<and> tx_frame (s\<lparr>pmem := m, inodes := I\<rparr>) s2 \<and>
      bview d s2 = bview d s"
proof -
  note T = txD [OF tx]
  have r: "refs d s n \<noteq> - 1" using T(5) [of n] by simp
  obtain b s1 where b: "bread c i d n s = Ok (b, s1)" "touch s s1" "bio_inv d s1" "held d n i s1 b"
    "data (bufs s1 b) = bview d s n" "disk s1 = disk s" "disk_writes s1 = disk_writes s" "bview d s1 = bview d s"
    "\<forall>k. k \<noteq> b \<longrightarrow> slot s1 k = slot s k" "refcnt (bufs s1 b) = refcnt (bufs s b) + 1"
    "cached d n (bufs s) b \<or> refcnt (bufs s b) = 0 \<and> refs d s n = 0"
    by (rule read_one [OF T(1) r disjI2 [OF T(8)], of i])
  have cl: "refcnt (bufs s b) = 0 \<longrightarrow> data (bufs s1 b) = disk s1 n"
    using b(5,6,11) bview_unreferenced [OF T(3), of n] refs_cached [OF T(3), of n b] by auto
  have "\<exists>s2. brelse c i b (s1\<lparr>pmem := m, inodes := I\<rparr>) = Ok s2 \<and> tx c d s2 \<and> tx_frame (s\<lparr>pmem := m, inodes := I\<rparr>) s2 \<and>
      bview d s2 = bview d s" for m I
  proof -
    let ?s = "s\<lparr>pmem := m, inodes := I\<rparr>" and ?s1 = "s1\<lparr>pmem := m, inodes := I\<rparr>"
    have tx': "tx c d ?s" by (rule tx_same(1) [OF tx]) simp_all
    obtain P B D W where s1: "s1 = s\<lparr>procs := P, bufs := B, disk := D, disk_writes := W\<rparr>" "same_procs P (procs s)"
      using b(2) unfolding touch_def by blast
    have t: "touch ?s ?s1"
      unfolding touch_def by (rule exI [of _ P], rule exI [of _ B], rule exI [of _ D], rule exI [of _ W]) (simp add: s1)
    have sl: "slot ?s1 = slot s1" "slot ?s = slot s" "refs d ?s = refs d s"
      by (simp_all add: slot_def [abs_def] refs_def [abs_def] cong: option.case_cong)
    have inv: "bio_inv d ?s1"
      using b(3) sl(1) by (simp add: bio_inv_def lru_def nexts_def [abs_def] prevs_def [abs_def])
    have h: "held d n i ?s1 b" using b(4) by (simp add: held_def locked_by_def)
    obtain s2 where s2: "brelse c i b ?s1 = Ok s2" "touch ?s s2" "disk s2 = disk ?s1" "disk_writes s2 = disk_writes ?s1"
      "bview d s2 = bview d ?s1" "rest c d s2" "refs d s2 = refs d ?s" "spares ?s \<le> spares s2"
      by (rule release_one [OF txD(1) [OF tx'] t inv h]) (use b(9-11) cl sl in simp_all)
    note l = touch_log [OF s2(2)]
    have "logged s2 = logged ?s" using l(4,5) by (simp add: logged_def)
    then have "tx c d s2" using tx' s2(6,7,8) l by (simp add: tx_def)
    moreover have "tx_frame ?s s2" using tx_frame_touch [OF s2(2)] s2(3,4) b(6,7) by simp
    ultimately show ?thesis using s2(1,5) b(8) sl(1) by (intro exI [of _ s2]) simp
  qed
  then show thesis using that b(1,5) tx_frame_touch [OF b(2,6,7)] by blast
qed

lemma ilock_effect:
  assumes tx: "tx c d s" and d: "idev (inodes s k) = d" and r: "1 \<le> iref (inodes s k)" and free: "slocked (ilk (inodes s k)) = 0"
    and nv: "\<not> ivalid (inodes s k)" and ty: "itype (dinode_at d s (inum (inodes s k)) (inodes s k)) \<noteq> 0"
  obtains s' where "ilock c i k s = Ok s'" "tx c d s'" "bview d s' = bview d s" "sb s' = sb s"
    and "inodes s' = (inodes s)(k := (dinode_at d s (inum (inodes s k))
      ((inodes s k)\<lparr>ilk := \<lparr>slocked = 1, spid = pid (procs s i)\<rparr>\<rparr>))\<lparr>ivalid := True\<rparr>)"
proof -
  define s1 where "s1 = upd_ilk k (\<lambda>l. l\<lparr>slocked := 1, spid := pid (procs s i)\<rparr>) s"
  have a: "acquiresleep c i (Lk_inode k) (Chan_ilock k) (\<lambda>s. ilk (inodes s k)) (upd_ilk k) s = Ok s1"
    using inodelock.acquiresleep_calm [OF txD(2) [OF tx], of i k] free by (simp add: s1_def)
  have i1: "s1 = s\<lparr>inodes := (inodes s)(k := (inodes s k)\<lparr>ilk := \<lparr>slocked = 1, spid = pid (procs s i)\<rparr>\<rparr>)\<rparr>"
    by (simp add: s1_def upd_ilk_def upd_inode_def sleeplock_set)
  have tx1: "tx c d s1" by (rule tx_cong [OF tx i1])
  let ?n = "IBLOCK (inum (inodes s k)) (sb s)"
  obtain b s2 where b: "bread c i d ?n s1 = Ok (b, s2)" "tx_frame s1 s2" "data (bufs s2 b) = bview d s1 ?n"
    and rel: "\<forall>m I. \<exists>s3. brelse c i b (s2\<lparr>pmem := m, inodes := I\<rparr>) = Ok s3 \<and> tx c d s3 \<and>
      tx_frame (s1\<lparr>pmem := m, inodes := I\<rparr>) s3 \<and> bview d s3 = bview d s1"
    by (rule tx_read_upd [OF tx1, of i ?n])
  have v: "bview d s1 = bview d s" by (simp add: i1 slot_def [abs_def])
  define I where "I = (inodes s1)(k := decode_dinode (bview d s ?n) (dinode_off (inum (inodes s k))) (inodes s1 k))"
  have pm: "s2\<lparr>pmem := pmem s1, inodes := I\<rparr> = s2\<lparr>inodes := I\<rparr>" using tx_frameD(8) [OF b(2)] by (simp flip: tx_frameD(8) [OF b(2)])
  obtain s3 where s3: "brelse c i b (s2\<lparr>inodes := I\<rparr>) = Ok s3" "tx c d s3" "tx_frame (s1\<lparr>inodes := I\<rparr>) s3" "bview d s3 = bview d s1"
    using rel [rule_format, of I "pmem s1"] unfolding pm by auto
  define s4 where "s4 = upd_inode k (\<lambda>x. x\<lparr>ivalid := True\<rparr>) s3"
  have f: "inodes s2 = inodes s1" "sb s1 = sb s" "inodes s3 = I" "sb s3 = sb s"
    using tx_frame_fs [OF b(2)] tx_frame_fs [OF s3(3)] by (simp_all add: i1)
  have e: "inodes s4 = (inodes s)(k := (dinode_at d s (inum (inodes s k))
      ((inodes s k)\<lparr>ilk := \<lparr>slocked = 1, spid = pid (procs s i)\<rparr>\<rparr>))\<lparr>ivalid := True\<rparr>)"
    by (simp add: s4_def upd_inode_def f I_def i1 dinode_at_def decode_dinode_def)
  have t: "itype (inodes s4 k) \<noteq> 0" using ty by (simp add: e dinode_at_def decode_dinode_def)
  have "ilock c i k s = Ok s4"
    using r a nv d b(1,3) s3(1) t f(1) v
    by (simp add: ilock_def i1 Let_def upd_inode_def [of k "decode_dinode _ _"] I_def s4_def)
  moreover have "tx c d s4" by (rule tx_cong [OF s3(2)]) (simp add: s4_def upd_inode_def)
  moreover have "bview d s4 = bview d s" using s3(4) v by (simp add: s4_def upd_inode_def slot_def [abs_def])
  moreover have "sb s4 = sb s" using f(4) by (simp add: s4_def upd_inode_def)
  ultimately show thesis using that e by blast
qed

section \<open>The inode cache\<close>

text \<open>No two entries in use stand for the same inode, and an entry not in use is not locked.\<close>

definition icache_ok :: "(nat \<Rightarrow> inode) \<Rightarrow> bool" where
  "icache_ok I \<longleftrightarrow> (\<forall>k < NINODE. 0 \<le> iref (I k) \<and> (iref (I k) = 0 \<longrightarrow> slocked (ilk (I k)) = 0)) \<and>
     (\<forall>j < NINODE. \<forall>k < NINODE. 0 < iref (I j) \<and> iget_hit (idev (I j)) (inum (I j)) (I k) \<longrightarrow> j = k)"

lemma icache_okD:
  assumes "icache_ok I" and "k < NINODE"
  shows "0 \<le> iref (I k)" "iref (I k) = 0 \<Longrightarrow> slocked (ilk (I k)) = 0"
    and "j < NINODE \<Longrightarrow> iget_hit d n (I j) \<Longrightarrow> iget_hit d n (I k) \<Longrightarrow> j = k"
  using assms unfolding icache_ok_def by (auto simp: iget_hit_def)

lemma iget_scan_find:
  "fst (iget_scan d n I ks em) = find (\<lambda>k. iget_hit d n (I k)) ks"
  "find (\<lambda>k. iget_hit d n (I k)) ks = None \<Longrightarrow>
    snd (iget_scan d n I ks em) = (case em of Some e \<Rightarrow> Some e | None \<Rightarrow> find (\<lambda>k. iref (I k) = 0) ks)"
  by (induction ks arbitrary: em) (auto split: option.split if_splits)

definition iget_fresh :: "u32 \<Rightarrow> u32 \<Rightarrow> inode \<Rightarrow> inode" where
  "iget_fresh d n x = x\<lparr>idev := d, inum := n, iref := 1, ivalid := False\<rparr>"

lemma iget_calm:
  assumes "calm c s"
  shows "iget c d n s = (case find (\<lambda>k. iget_hit d n (inodes s k)) [0..<NINODE] of
      Some k \<Rightarrow> Ok (k, upd_inode k (\<lambda>x. x\<lparr>iref := iref x + 1\<rparr>) s)
    | None \<Rightarrow> (case find (\<lambda>k. iref (inodes s k) = 0) [0..<NINODE] of
        Some k \<Rightarrow> Ok (k, upd_inode k (iget_fresh d n) s)
      | None \<Rightarrow> Panic ''iget: no inodes''))"
proof -
  have L: "inodes (locked_state c Lk_icache s) = inodes s"
    "upd_inode k f (locked_state c Lk_icache s) = locked_state c Lk_icache (upd_inode k f s)" for k f
    by (simp_all add: locked_state_def lock_defs upd_inode_def)
  have c: "calm c (upd_inode k f s)" for k f by (rule calm_same [OF assms]) (simp_all add: upd_inode_def)
  obtain h e where he: "iget_scan d n (inodes s) [0..<NINODE] None = (h, e)" by fastforce
  note F = iget_scan_find(2) [of d n "inodes s" "[0..<NINODE]" None, unfolded he]
  have fh: "find (\<lambda>k. iget_hit d n (inodes s k)) [0..<NINODE] = h"
    using iget_scan_find(1) [of d n "inodes s" "[0..<NINODE]" None] by (simp add: he)
  show ?thesis
  proof (cases h)
    case (Some k)
    have "iget c d n s = Ok (k, upd_inode k (\<lambda>x. x\<lparr>iref := iref x + 1\<rparr>) s)"
      unfolding iget_def by (rule critical_calm [OF assms c]) (simp add: L he Some)
    then show ?thesis by (simp add: fh Some)
  next
    case None
    note N = fh [unfolded None]
    have fe: "find (\<lambda>k. iref (inodes s k) = 0) [0..<NINODE] = e" using F [OF N] by simp
    show ?thesis
    proof (cases e)
      case (Some k)
      have "iget c d n s = Ok (k, upd_inode k (iget_fresh d n) s)"
        unfolding iget_def by (rule critical_calm [OF assms c]) (simp add: L he None Some iget_fresh_def [abs_def])
      then show ?thesis by (simp add: N fe Some)
    next
      case N2: None
      have "iget c d n s = Panic ''iget: no inodes''"
        unfolding iget_def by (rule critical_calm_Panic [OF assms]) (simp add: L he None N2)
      then show ?thesis by (simp add: N fe N2)
    qed
  qed
qed

lemma find_upt: "find P [0..<n] = Some k \<Longrightarrow> k < n \<and> P k" "find P [0..<n] = None \<longleftrightarrow> (\<forall>k < n. \<not> P k)"
  using find_SomeD [of P "[0..<n]" k] by (auto simp: find_None_iff)

lemma icache_ok_hit:
  assumes "icache_ok I" and "k < NINODE" and "0 < iref (I k)"
  shows "icache_ok (I(k := (I k)\<lparr>iref := iref (I k) + 1\<rparr>))"
  using assms unfolding icache_ok_def iget_hit_def by (auto split: if_splits)

lemma icache_ok_fresh:
  assumes ok: "icache_ok I" and no: "\<forall>j < NINODE. \<not> iget_hit d n (I j)"
  shows "icache_ok (I(k := iget_fresh d n (I k)))"
  unfolding icache_ok_def
proof (intro conjI allI impI)
  fix j assume "j < NINODE"
  then show "0 \<le> iref ((I(k := iget_fresh d n (I k))) j)" using icache_okD(1) [OF ok] by (simp add: iget_fresh_def)
  assume "iref ((I(k := iget_fresh d n (I k))) j) = 0"
  then show "slocked (ilk ((I(k := iget_fresh d n (I k))) j)) = 0"
    using icache_okD(2) [OF ok \<open>j < NINODE\<close>] by (auto simp: iget_fresh_def split: if_splits)
next
  fix i j assume "i < NINODE" "j < NINODE"
    and "0 < iref ((I(k := iget_fresh d n (I k))) i) \<and>
      iget_hit (idev ((I(k := iget_fresh d n (I k))) i)) (inum ((I(k := iget_fresh d n (I k))) i)) ((I(k := iget_fresh d n (I k))) j)"
  then show "i = j"
    using no icache_okD(3) [OF ok, of j i "idev (I i)" "inum (I i)"]
    by (auto simp: iget_fresh_def iget_hit_def split: if_splits)
qed

lemma iunlockput_effect:
  assumes calm: "calm c s" and l: "slocked (ilk (inodes s k)) \<noteq> 0" "spid (ilk (inodes s k)) = pid (procs s i)"
    and r: "1 \<le> iref (inodes s k)" and n: "inlink (inodes s k) \<noteq> 0"
  shows "iunlockput c i k s = Ok (woken (Chan_ilock k)
    (upd_inode k (\<lambda>x. x\<lparr>ilk := \<lparr>slocked = 0, spid = 0\<rparr>, iref := iref x - 1\<rparr>) s))"
proof -
  let ?u = "woken (Chan_ilock k) (upd_ilk k (\<lambda>l. l\<lparr>slocked := 0, spid := 0\<rparr>) s)"
  have u: "iunlock c i k s = Ok ?u"
    using l r inodelock.holdingsleep_calm [OF calm, of i k] inodelock.releasesleep_calm [OF calm, of k]
    by (simp add: iunlock_def)
  have cu: "calm c ?u" by (rule calm_woken) (rule inodelock.calm_upd [OF calm])
  have cf: "calm c (upd_inode k (\<lambda>x. x\<lparr>iref := iref x - 1\<rparr>) ?u)" by (rule calm_same [OF cu]) (simp_all add: upd_inode_def)
  have L: "inodes (locked_state c Lk_icache ?u) = inodes ?u"
    "upd_inode k f (locked_state c Lk_icache ?u) = locked_state c Lk_icache (upd_inode k f ?u)" for f
    by (simp_all add: locked_state_def lock_defs upd_inode_def)
  have "inlink (inodes ?u k) \<noteq> 0" using n by (simp add: woken_def upd_ilk_def upd_inode_def)
  then have "iput c i k ?u = Ok (upd_inode k (\<lambda>x. x\<lparr>iref := iref x - 1\<rparr>) ?u)"
    using calm_acquire [OF cu] calm_release [OF cf] by (simp add: iput_def L)
  then show ?thesis
    using u by (simp add: iunlockput_def woken_def upd_ilk_def upd_inode_def sleeplock_set)
qed

lemma iget_again:
  assumes "calm c s" and "icache_ok (inodes s)" and "k < NINODE" and "iget_hit d n (inodes s k)"
  shows "\<exists>s'. iget c d n s = Ok (k, s')"
proof -
  obtain j where j: "find (\<lambda>k. iget_hit d n (inodes s k)) [0..<NINODE] = Some j" using find_upt(2) assms(3,4) by fastforce
  then have "j = k" using find_upt(1) [OF j] icache_okD(3) [OF assms(2,3)] assms(4) by blast
  then show ?thesis using iget_calm [OF assms(1), of d n] j by simp
qed

text \<open>The last reference is dropped and the inode taken up again.\<close>

lemma iunlockput_iget:
  assumes t: "tx c d s" and ok: "icache_ok (inodes s)" and k: "k < NINODE" "iref (inodes s k) = 1"
      "slocked (ilk (inodes s k)) \<noteq> 0" "spid (ilk (inodes s k)) = pid (procs s i)"
    and x: "idev (inodes s k) = d" "inlink (inodes s k) \<noteq> 0"
  obtains s2 k' s3 where "iunlockput c i k s = Ok s2" "iget c d (inum (inodes s k)) s2 = Ok (k', s3)" "iref (inodes s2 k') = 0"
    "slocked (ilk (inodes s2 k')) = 0" "inodes s3 k' = iget_fresh d (inum (inodes s k)) (inodes s2 k')"
    "tx c d s3" "bview d s3 = bview d s" "sb s3 = sb s" "\<forall>j. pid (procs s3 j) = pid (procs s j)"
proof -
  let ?n = "inum (inodes s k)"
  define s2 where "s2 = woken (Chan_ilock k) (upd_inode k (\<lambda>x. x\<lparr>ilk := \<lparr>slocked = 0, spid = 0\<rparr>, iref := iref x - 1\<rparr>) s)"
  have r2: "iunlockput c i k s = Ok s2"
    unfolding s2_def by (rule iunlockput_effect [OF txD(2) [OF t]]) (use k x(2) in simp_all)
  have i2: "inodes s2 = (inodes s)(k := (inodes s k)\<lparr>ilk := \<lparr>slocked = 0, spid = 0\<rparr>, iref := 0\<rparr>)"
    using k(2) by (simp add: s2_def woken_def upd_inode_def)
  have e2: "locks s2 = locks s" "cpus s2 = cpus s" "bufs s2 = bufs s" "disk s2 = disk s" "log_dev s2 = log_dev s"
    "lh_n s2 = lh_n s" "lh_block s2 = lh_block s" "outstanding s2 = outstanding s" "sb s2 = sb s"
    by (simp_all add: s2_def woken_def upd_inode_def)
  note t2 = tx_same [OF t e2(1-8)]
  have no: "\<forall>j < NINODE. \<not> iget_hit d ?n (inodes s2 j)"
    using icache_okD(3) [OF ok k(1), where d = d and n = ?n] k(2) x(1) by (auto simp: i2 iget_hit_def)
  obtain k' where k': "find (\<lambda>k. iref (inodes s2 k) = 0) [0..<NINODE] = Some k'"
    using find_upt(2) [of "\<lambda>k. iref (inodes s2 k) = 0" NINODE] k(1) by (auto simp: i2)
  note K = find_upt(1) [OF k']
  define s3 where "s3 = upd_inode k' (iget_fresh d ?n) s2"
  have r3: "iget c d ?n s2 = Ok (k', s3)"
    using iget_calm [OF txD(2) [OF t2(1)], of d ?n] no k' find_upt(2) [of "\<lambda>k. iget_hit d ?n (inodes s2 k)" NINODE]
    by (simp add: s3_def)
  have i3: "inodes s3 k' = iget_fresh d ?n (inodes s2 k')" "sb s3 = sb s" by (simp_all add: s3_def upd_inode_def e2(9))
  have p: "\<forall>j. pid (procs s3 j) = pid (procs s j)" by (simp add: s3_def s2_def upd_inode_def)
  have t3: "tx c d s3" "bview d s3 = bview d s"
    using tx_same [OF t2(1), of s3] t2(2) by (simp_all add: s3_def upd_inode_def)
  have free: "slocked (ilk (inodes s2 k')) = 0" using K icache_okD(2) [OF ok, of k'] by (auto simp: i2 split: if_splits)
  show ?thesis using that [OF r2 r3 _ free i3(1) t3 i3(2) p] K by blast
qed

section \<open>The round trip of an inode\<close>

text \<open>
  A disk with inode 5, a file with the bytes 1 to 20 in block 50, and entry 2 of the inode cache for it, locked by
  process 0.
\<close>

definition inode5 :: inode where
  "inode5 = no_inode\<lparr>idev := 1, inum := 5, iref := 1, ilk := \<lparr>slocked = 1, spid = 0\<rparr>, ivalid := True, itype := 2, inlink := 1,
     isize := 20, iaddrs := [50, 0, 0, 0, 0, 0, 0, 0, 0, 0, 0, 0, 0]\<rparr>"

definition inode5_disk :: "u32 \<Rightarrow> u8 list" where
  "inode5_disk = small_disk(32 := encode_dinode inode5 (dinode_off 5) (small_disk 32), 50 := map of_nat [1..<21] @ replicate 1004 0)"

definition inode5_fs :: kfs where
  "inode5_fs = (fs_on inode5_disk)\<lparr>inodes := (\<lambda>_. no_inode)(2 := inode5)\<rparr>"

lemma inode5_disk_length: "length (inode5_disk b) = BSIZE"
  using encode_length [of "dinode_off 5" "small_disk 32" inode5] dinode_off_bound [of 5] by (simp add: inode5_disk_def small_disk_length)

lemma inode5_fs_tx: "tx c 1 inode5_fs" "bview 1 inode5_fs = inode5_disk" "room n inode5_fs \<longleftrightarrow> n < LOGSIZE"
proof -
  have l: "\<forall>b. length (inode5_disk b) = BSIZE" by (simp add: inode5_disk_length)
  show "tx c 1 inode5_fs" "bview 1 inode5_fs = inode5_disk"
    using tx_same [OF fs_on_tx(1) [OF l], of inode5_fs] fs_on_tx(2) [OF l] by (simp_all add: inode5_fs_def)
  show "room n inode5_fs \<longleftrightarrow> n < LOGSIZE" using fs_on_room by (simp add: inode5_fs_def room_def)
qed

lemma inode5_fs_entry:
  "inodes inode5_fs = (\<lambda>_. no_inode)(2 := inode5)" "icache_ok (inodes inode5_fs)" "pid (procs inode5_fs i) = 0" "sb inode5_fs = small_sb"
  by (simp_all add: inode5_fs_def fs_on_fields icache_ok_def iget_hit_def inode5_def no_inode_def)

text \<open>
  C14. \<open>iget\<close> keeps the entries of the inode cache unique: if there is an entry in use for the inode, that one
  gets a further reference and keeps what is in it; otherwise an unused entry becomes the inode's, with one reference and
  marked as not read. No other entry changes, and another \<open>iget\<close> of the inode gives the same entry. It panics only when
  all entries are in use for other inodes.
\<close>

theorem iget_one_entry:
  assumes "calm c s" and "icache_ok (inodes s)"
  shows "case iget c d n s of
      Ok (k, s') \<Rightarrow> k < NINODE \<and> iget_hit d n (inodes s' k) \<and> icache_ok (inodes s') \<and> calm c s' \<and>
        (if \<exists>j < NINODE. iget_hit d n (inodes s j)
         then iget_hit d n (inodes s k) \<and> inodes s' = (inodes s)(k := (inodes s k)\<lparr>iref := iref (inodes s k) + 1\<rparr>)
         else iref (inodes s k) = 0 \<and> inodes s' = (inodes s)(k := (inodes s k)\<lparr>idev := d, inum := n, iref := 1, ivalid := False\<rparr>)) \<and>
        (\<exists>s''. iget c d n s' = Ok (k, s''))
    | r \<Rightarrow> r = Panic ''iget: no inodes'' \<and> (\<forall>j < NINODE. 0 < iref (inodes s j) \<and> \<not> iget_hit d n (inodes s j))"
proof -
  note G = iget_calm [OF assms(1), of d n]
  have c: "calm c (upd_inode k f s)" for k f by (rule calm_same [OF assms(1)]) (simp_all add: upd_inode_def)
  show ?thesis
  proof (cases "find (\<lambda>k. iget_hit d n (inodes s k)) [0..<NINODE]")
    case (Some k)
    note k = find_upt(1) [OF Some]
    define s' where "s' = upd_inode k (\<lambda>x. x\<lparr>iref := iref x + 1\<rparr>) s"
    have ok: "icache_ok (inodes s')" using icache_ok_hit [OF assms(2), of k] k by (simp add: s'_def upd_inode_def iget_hit_def)
    have h: "iget_hit d n (inodes s' k)" using k by (simp add: s'_def upd_inode_def iget_hit_def)
    have c': "calm c s'" by (simp add: s'_def c)
    have i: "inodes s' = (inodes s)(k := (inodes s k)\<lparr>iref := iref (inodes s k) + 1\<rparr>)" by (simp add: s'_def upd_inode_def)
    have "iget c d n s = Ok (k, s')" using G Some by (simp add: s'_def)
    then show ?thesis using k ok iget_again [OF c' ok _ h] h c' i by auto
  next
    case None
    note no = None [unfolded find_upt(2)]
    show ?thesis
    proof (cases "find (\<lambda>k. iref (inodes s k) = 0) [0..<NINODE]")
      case (Some k)
      note k = find_upt(1) [OF Some]
      define s' where "s' = upd_inode k (iget_fresh d n) s"
      have ok: "icache_ok (inodes s')" using icache_ok_fresh [OF assms(2) no, of k] by (simp add: s'_def upd_inode_def)
      have h: "iget_hit d n (inodes s' k)" by (simp add: s'_def upd_inode_def iget_hit_def iget_fresh_def)
      have c': "calm c s'" by (simp add: s'_def c)
      have i: "inodes s' = (inodes s)(k := (inodes s k)\<lparr>idev := d, inum := n, iref := 1, ivalid := False\<rparr>)"
        by (simp add: s'_def upd_inode_def iget_fresh_def)
      have "iget c d n s = Ok (k, s')" using G None Some by (simp add: s'_def)
      then show ?thesis using k ok iget_again [OF c' ok _ h] h c' no i by auto
    next
      case N2: None
      have "0 < iref (inodes s j)" if "j < NINODE" for j
        using icache_okD(1) [OF assms(2) that] N2 [unfolded find_upt(2)] that by fastforce
      then show ?thesis using G None N2 no by simp
    qed
  qed
qed

theorem iget_one_entry_witness:
  "\<exists>s'. iget 0 1 5 inode5_fs = Ok (2, s') \<and> iref (inodes s' 2) = 2 \<and> ivalid (inodes s' 2)"
proof -
  have hit: "iget_hit 1 5 (inodes inode5_fs j) \<longleftrightarrow> j = 2" for j
    by (simp add: inode5_fs_entry(1) iget_hit_def inode5_def no_inode_def)
  have n2: "(2 :: nat) < NINODE" by simp
  obtain k s' where "iget 0 1 5 inode5_fs = Ok (k, s')" "iget_hit 1 5 (inodes inode5_fs k)"
    "inodes s' = (inodes inode5_fs)(k := (inodes inode5_fs k)\<lparr>iref := iref (inodes inode5_fs k) + 1\<rparr>)"
    using iget_one_entry [OF txD(2) [OF inode5_fs_tx(1)] inode5_fs_entry(2), where c = 0 and d = 1 and n = 5] n2
    unfolding hit by (auto split: res.splits if_splits dest: spec [of _ 2])
  then show ?thesis unfolding hit by (simp add: inode5_fs_entry(1)) (simp add: inode5_def)
qed

text \<open>
  C8. A process that has an inode locked, with the only reference to it, in a transaction with room for a block, calls
  \<open>iupdate\<close> and \<open>iunlockput\<close>. The inode's entry of the cache is then free. A later \<open>iget\<close> and \<open>ilock\<close> take a free entry, read the
  inode from its block, and find exactly the type, the device numbers, the link count, the size and the block addresses that
  \<open>iupdate\<close> wrote. The other inodes, also those in the same block, are on the disk as before, and no other block changes.
\<close>

theorem inode_round_trip:
  assumes "tx c d s" and "room 1 s" and "icache_ok (inodes s)" and k: "k < NINODE" "iref (inodes s k) = 1"
      "slocked (ilk (inodes s k)) \<noteq> 0" "spid (ilk (inodes s k)) = pid (procs s i)"
    and x: "idev (inodes s k) = d" "length (iaddrs (inodes s k)) = Suc NDIRECT" "itype (inodes s k) \<noteq> 0" "inlink (inodes s k) \<noteq> 0"
  shows "\<exists>s1 s2 k' s3 s4. iupdate c i k s = Ok s1 \<and> iunlockput c i k s1 = Ok s2 \<and> iget c d (inum (inodes s k)) s2 = Ok (k', s3) \<and>
    ilock c j k' s3 = Ok s4 \<and> tx c d s4 \<and> iref (inodes s2 k') = 0 \<and>
    inodes s4 k' = with_dinode (inodes s k) ((inodes s2 k')\<lparr>idev := d, inum := inum (inodes s k), iref := 1,
      ilk := \<lparr>slocked = 1, spid = pid (procs s j)\<rparr>, ivalid := True\<rparr>) \<and>
    (\<forall>m z. m \<noteq> inum (inodes s k) \<longrightarrow> dinode_at d s4 m z = dinode_at d s m z) \<and>
    (\<forall>b. b \<noteq> IBLOCK (inum (inodes s k)) (sb s) \<longrightarrow> bview d s4 b = bview d s b)"
proof -
  let ?n = "inum (inodes s k)"
  have room: "room (Suc 0) s" using assms(2) by simp
  obtain s1 where u: "iupdate c i k s = Ok s1" "tx c d s1" "tx_frame s s1"
    "bview d s1 = (bview d s)(IBLOCK ?n (sb s) :=
      encode_dinode (inodes s k) (dinode_off ?n) (bview d s (IBLOCK ?n (sb s))))"
    by (rule iupdate_effect [OF assms(1) room x(1), of i]) blast
  note f = tx_frame_fs [OF u(3)] and D = iupdate_dinodes [OF assms(1) tx_frame_fs(1) [OF u(3)] x(2) u(4)]
  have p1: "pid (procs s1 j) = pid (procs s j)" for j using tx_frameD(9) [OF u(3)] by simp
  obtain s2 k' s3 where r2: "iunlockput c i k s1 = Ok s2" and r3: "iget c d (inum (inodes s1 k)) s2 = Ok (k', s3)" and K: "iref (inodes s2 k') = 0"
    and free: "slocked (ilk (inodes s2 k')) = 0" and i3: "inodes s3 k' = iget_fresh d (inum (inodes s1 k)) (inodes s2 k')"
    and t3: "tx c d s3" "bview d s3 = bview d s1" "sb s3 = sb s1" and p3: "\<forall>j. pid (procs s3 j) = pid (procs s1 j)"
    by (rule iunlockput_iget [OF u(2), of k i]) (use assms(3) k x in \<open>simp_all add: f p1\<close>)
  note i3 = i3 [unfolded f(2)] and r3 = r3 [unfolded f(2)]
  have D3: "dinode_at d s3 m z = (if m = ?n then with_dinode (inodes s k) z else dinode_at d s m z)" for m z
    using D [of m z] by (simp add: dinode_at_def t3 f)
  obtain s4 where l: "ilock c j k' s3 = Ok s4" "tx c d s4" "bview d s4 = bview d s3" "sb s4 = sb s3"
    "inodes s4 = (inodes s3)(k' := (dinode_at d s3 (inum (inodes s3 k'))
      ((inodes s3 k')\<lparr>ilk := \<lparr>slocked = 1, spid = pid (procs s3 j)\<rparr>\<rparr>))\<lparr>ivalid := True\<rparr>)"
    by (rule ilock_effect [OF t3(1), of k' j])
      (use free x(3) in \<open>simp_all add: i3 iget_fresh_def D3\<close>, simp_all add: with_dinode_def)
  have p: "pid (procs s3 j) = pid (procs s j)" using p1 p3 by simp
  have "inodes s4 k' = with_dinode (inodes s k) ((inodes s2 k')\<lparr>idev := d, inum := ?n, iref := 1,
      ilk := \<lparr>slocked = 1, spid = pid (procs s j)\<rparr>, ivalid := True\<rparr>)"
    by (simp add: l(5) i3 iget_fresh_def D3 p) (simp add: with_dinode_def)
  moreover have "dinode_at d s4 m z = dinode_at d s m z" if "m \<noteq> ?n" for m z
    using D3 [of m z] that by (simp add: dinode_at_def l(3,4))
  moreover have "bview d s4 b = bview d s b" if "b \<noteq> IBLOCK ?n (sb s)" for b
    using that by (simp add: l(3) t3(2) u(4))
  ultimately show ?thesis using u(1) r2 r3 l(1,2) K by blast
qed

theorem inode_round_trip_witness:
  "\<exists>s1 s2 k s3 s4. iupdate 0 0 2 inode5_fs = Ok s1 \<and> iunlockput 0 0 2 s1 = Ok s2 \<and> iget 0 1 5 s2 = Ok (k, s3) \<and> ilock 0 0 k s3 = Ok s4 \<and>
    \<not> iref (inodes s2 k) > 0 \<and> isize (inodes s4 k) = 20 \<and> iaddrs (inodes s4 k) ! 0 = 50"
proof -
  have "room 1 inode5_fs" by (simp add: inode5_fs_tx(3))
  from inode_round_trip [OF inode5_fs_tx(1) this inode5_fs_entry(2), where k = 2 and i = 0 and j = 0 and c = 0]
  show ?thesis by (simp add: inode5_fs_entry(1,3)) (fastforce simp: inode5_def with_dinode_def no_inode_def)
qed

end
