(* ===== verification/Fs_Files.thy ===== *)
theory Fs_Files
  imports Fs_Inodes Usercopy
begin

text \<open>
  The content of a file, \<open>bmap\<close>, \<open>readi\<close> and \<open>writei\<close> of \<open>kernel/fs.c\<close>. The blocks of a file are
  found through the direct addresses of its inode and the indirect block; the file's
  bytes are those of its blocks one after the other.
\<close>

section \<open>The blocks of a file\<close>

definition faddr :: "u32 \<Rightarrow> 'a kfs_scheme \<Rightarrow> nat \<Rightarrow> nat \<Rightarrow> u32" where
  "faddr d s k n = (if n < NDIRECT then iaddrs (inodes s k) ! n
     else get32 (bview d s (iaddrs (inodes s k) ! NDIRECT)) (4 * (n - NDIRECT)))"

definition fbyte :: "u32 \<Rightarrow> 'a kfs_scheme \<Rightarrow> nat \<Rightarrow> nat \<Rightarrow> u8" where
  "fbyte d s k p = bview d s (faddr d s k (p div BSIZE)) ! (p mod BSIZE)"

text \<open>The first \<open>N\<close> blocks of the file are allocated, distinct, and apart from its indirect block.\<close>

definition file_ok :: "u32 \<Rightarrow> 'a kfs_scheme \<Rightarrow> nat \<Rightarrow> nat \<Rightarrow> bool" where
  "file_ok d s k N \<longleftrightarrow> N \<le> MAXFILE \<and> (\<forall>n < N. faddr d s k n \<noteq> 0) \<and> inj_on (faddr d s k) {..<N} \<and>
     (NDIRECT < N \<longrightarrow> iaddrs (inodes s k) ! NDIRECT \<noteq> 0 \<and> iaddrs (inodes s k) ! NDIRECT \<notin> faddr d s k ` {..<N})"

lemma faddr_cong:
  assumes "inodes s' = inodes s" and "bview d s' = bview d s"
  shows "faddr d s' k = faddr d s k" "fbyte d s' k = fbyte d s k" "file_ok d s' k N = file_ok d s k N"
proof -
  show e: "faddr d s' k = faddr d s k" unfolding faddr_def [abs_def] assms ..
  show "fbyte d s' k = fbyte d s k" "file_ok d s' k N = file_ok d s k N"
    unfolding fbyte_def [abs_def] file_ok_def e assms by simp_all
qed

lemma bmap_mapped:
  assumes tx: "tx c d s" and d: "idev (inodes s k) = d" and ok: "file_ok d s k N" and n: "n < N"
  obtains s' where "bmap c i k (of_nat n) s = Ok (faddr d s k n, s')" "tx c d s'" "tx_frame s s'"
    "bview d s' = bview d s" "lh_n s' = lh_n s" "logged s' = logged s"
proof -
  have nz: "faddr d s k n \<noteq> 0" and nm: "n < MAXFILE" using ok n by (auto simp: file_ok_def)
  have u: "unat (of_nat n :: u32) = n" using nm by simp
  show thesis
  proof (cases "n < NDIRECT")
    case True
    then have "bmap c i k (of_nat n) s = Ok (faddr d s k n, s)"
      using nz by (simp add: bmap_def u faddr_def)
    then show thesis using that tx by simp
  next
    case False
    let ?ind = "iaddrs (inodes s k) ! NDIRECT"
    have ind: "?ind \<noteq> 0" using False n ok by (auto simp: file_ok_def)
    obtain b s1 s2 where r: "bread c i d ?ind s = Ok (b, s1)" "brelse c i b s1 = Ok s2" "tx_frame s s1"
      "data (bufs s1 b) = bview d s ?ind" "tx c d s2" "tx_frame s s2" "bview d s2 = bview d s" "lh_n s2 = lh_n s" "logged s2 = logged s"
      by (rule tx_read [OF tx, of i ?ind]) blast
    have "bmap c i k (of_nat n) s = Ok (faddr d s k n, s2)"
      using False nm ind nz r(1,2,4) d by (simp add: bmap_def u faddr_def Let_def)
    then show thesis using that r(5-9) by blast
  qed
qed

section \<open>Reading\<close>

lemma div_mod_step:
  assumes "off mod B + j < (B :: nat)"
  shows "(off + j) div B = off div B" "(off + j) mod B = off mod B + j"
proof -
  have e: "off + j = (off mod B + j) + off div B * B" using div_mult_mod_eq [of off B] by simp
  have "(off + j) div B = off div B + (off mod B + j) div B"
    using div_mult_self1 [of B "off mod B + j" "off div B"] assms unfolding e [symmetric] by simp
  then show "(off + j) div B = off div B" using assms by simp
  have "(off + j) mod B = (off mod B + j) mod B" by (simp only: mod_add_left_eq)
  then show "(off + j) mod B = off mod B + j" using assms by simp
qed

lemma upt_split: "m \<le> l \<Longrightarrow> [a..<a + m] @ [a + m..<a + m + (l - m)] = [a..<a + l]"
  using upt_add_eq_append [of a "a + m" "l - m"] by simp

lemma chunk_bytes:
  assumes "m \<le> BSIZE - off mod BSIZE" and l: "length (bview d s (faddr d s k (off div BSIZE))) = BSIZE"
  shows "take m (drop (off mod BSIZE) (bview d s (faddr d s k (off div BSIZE)))) = map (fbyte d s k) [off..<off + m]"
proof (rule nth_equalityI)
  fix j
  assume "j < length (take m (drop (off mod BSIZE) (bview d s (faddr d s k (off div BSIZE)))))"
  then have j: "j < m" by simp
  then have "off mod BSIZE + j < BSIZE" using assms(1) by auto
  note e = div_mod_step [OF this]
  show "take m (drop (off mod BSIZE) (bview d s (faddr d s k (off div BSIZE)))) ! j = map (fbyte d s k) [off..<off + m] ! j"
    using j l e by (simp add: fbyte_def)
qed (use assms in auto)

text \<open>The target of a read has room for \<open>n\<close> bytes; \<open>ps\<close> are the free pages.\<close>

fun dst_ok :: "nat \<Rightarrow> u64 list \<Rightarrow> kdst \<Rightarrow> nat \<Rightarrow> u8 list \<Rightarrow> 'a kproc_scheme \<Rightarrow> bool" where
  "dst_ok i ps (DUser a) n loc s \<longleftrightarrow> user_wf s (pagetable (procs s i)) ps \<and> mapped (pmem s) (pagetable (procs s i)) a n"
| "dst_ok i ps (DKern a) n loc s \<longleftrightarrow> True"
| "dst_ok i ps (DLocal p) n loc s \<longleftrightarrow> p + n \<le> length loc"

text \<open>The bytes \<open>v\<close> have been delivered to the target: memory was \<open>m\<close> and is \<open>m'\<close>, the local variable was \<open>loc\<close> and is \<open>loc'\<close>.\<close>

fun dst_wrote :: "u64 \<Rightarrow> kdst \<Rightarrow> u8 list \<Rightarrow> mem \<Rightarrow> u8 list \<Rightarrow> mem \<Rightarrow> u8 list \<Rightarrow> bool" where
  "dst_wrote pt (DUser a) v m loc m' loc' \<longleftrightarrow> user_wrote m pt a v m' \<and> loc' = loc"
| "dst_wrote pt (DKern a) v m loc m' loc' \<longleftrightarrow> m' = write_bytes m a v \<and> loc' = loc"
| "dst_wrote pt (DLocal p) v m loc m' loc' \<longleftrightarrow> m' = m \<and> loc' = put_bytes p v loc"

lemma write_bytes_append: "write_bytes m a (v @ w) = write_bytes (write_bytes m a v) (a + of_nat (length v)) w"
  by (induction v arbitrary: m a) (simp_all add: add.assoc)

lemma put_bytes_length: "off + length v \<le> length x \<Longrightarrow> length (put_bytes off v x) = length x"
  by (simp add: put_bytes_def)

lemma put_bytes_nth:
  assumes "off + length v \<le> length x" and "j < length x"
  shows "put_bytes off v x ! j = (if off \<le> j \<and> j < off + length v then v ! (j - off) else x ! j)"
  using assms by (auto simp: put_bytes_def nth_append min_def)

lemma put_bytes_append:
  assumes "p + length v + length w \<le> length x"
  shows "put_bytes (p + length v) w (put_bytes p v x) = put_bytes p (v @ w) x"
  using assms by (intro nth_equalityI) (auto simp: put_bytes_nth put_bytes_length nth_append)

lemma dst_wrote_nil: "dst_wrote pt dst [] m loc m loc"
  by (cases dst) (simp_all add: user_wrote_def put_bytes_def)

lemma user_wf_cong:
  assumes "pmem s' = pmem s" "freelist s' = freelist s" "kend s' = kend s"
  shows "user_wf s' pt ps = user_wf s pt ps"
  using assms by (simp add: user_wf_def pt_inv_def free_pages_def is_page_def)

text \<open>One round of the loop delivers its chunk, and the target then has room for the rest.\<close>

lemma put_dst_chunk:
  assumes "dst_ok i ps dst (length v + n) loc s"
  obtains m loc' where "put_dst i dst v loc s = (0, loc', s\<lparr>pmem := m\<rparr>)"
    and "dst_wrote (pagetable (procs s i)) dst v (pmem s) loc m loc'"
    and "dst_ok i ps (dst_add dst (length v)) n loc' (s\<lparr>pmem := m\<rparr>)"
proof (cases dst)
  case (DUser a)
  let ?pt = "pagetable (procs s i)"
  have wf: "user_wf s ?pt ps" and mp: "mapped (pmem s) ?pt a (length v)" "mapped (pmem s) ?pt (a + of_nat (length v)) n"
    using assms DUser mapped_append by auto
  obtain m where m: "copyout ?pt a v s = (0, s\<lparr>pmem := m\<rparr>)" "user_wrote (pmem s) ?pt a v m" "user_wf (s\<lparr>pmem := m\<rparr>) ?pt ps"
    by (rule copyout_user_wrote [OF wf mp(1)])
  have "mapped m ?pt (a + of_nat (length v)) n"
    using mp(2) utrans_cong [of m ?pt "pmem s"] m(2) by (simp add: mapped_def user_wrote_def)
  then show thesis using that [of loc m] m DUser by (simp add: either_copyout_def)
next
  case (DKern a)
  then show thesis using that [of loc "write_bytes (pmem s) a v"] by (simp add: either_copyout_def)
next
  case (DLocal p)
  then show thesis using that [of "put_bytes p v loc" "pmem s"] assms by (simp add: put_bytes_length)
qed

lemma dst_wrote_append:
  assumes ok: "dst_ok i ps dst (length v + length w) loc s" and pt: "pt = pagetable (procs s i)"
    and v: "dst_wrote pt dst v (pmem s) loc m1 loc1" and w: "dst_wrote pt (dst_add dst (length v)) w m1 loc1 m2 loc2"
  shows "dst_wrote pt dst (v @ w) (pmem s) loc m2 loc2"
proof (cases dst)
  case (DUser a)
  then show ?thesis using user_wrote_append [of s pt ps a v w m1 m2] ok v w pt by simp
qed (use ok v w in \<open>auto simp: write_bytes_append put_bytes_append\<close>)

lemma tx_frame_mem:
  assumes "tx_frame s s'"
  shows "pmem s' = pmem s" "freelist s' = freelist s" "kend s' = kend s" "pagetable (procs s' i) = pagetable (procs s i)"
  using assms unfolding tx_frame_def same_procs_def by auto

lemma tx_frame_pmem:
  assumes "tx_frame s s'"
  shows "tx_frame (s\<lparr>pmem := m\<rparr>) (s'\<lparr>pmem := m\<rparr>)"
proof -
  obtain P B n bs where "s' = s\<lparr>procs := P, bufs := B, lh_n := n, lh_block := bs\<rparr>" "same_procs P (procs s)"
    using assms unfolding tx_frame_def by blast
  then show ?thesis by (intro tx_frameI [where P = P and B = B and n = n and bs = bs]) simp_all
qed

lemma dst_ok_cong:
  assumes "pmem s' = pmem s" "freelist s' = freelist s" "kend s' = kend s" "pagetable (procs s' i) = pagetable (procs s i)"
  shows "dst_ok i ps dst n loc s' = dst_ok i ps dst n loc s"
  using user_wf_cong [OF assms(1-3)] assms by (cases dst) simp_all

text \<open>One round of \<open>readi\<close>: the \<open>m\<close> bytes from \<open>off\<close> on, all in one block.\<close>

lemma readi_round:
  assumes tx: "tx c d s" and d: "idev (inodes s k) = d" and ok: "file_ok d s k N" and q: "off div BSIZE < N"
    and m: "m \<le> BSIZE - off mod BSIZE" and dst: "dst_ok i ps dst (m + r) loc s"
  obtains a s1 bp s2 mm loc1 s3 where "bmap c i k (of_nat (off div BSIZE)) s = Ok (a, s1)"
    and "bread c i (idev (inodes s1 k)) a s1 = Ok (bp, s2)"
    and "put_dst i dst (take m (drop (off mod BSIZE) (data (bufs s2 bp)))) loc s2 = (0, loc1, s2\<lparr>pmem := mm\<rparr>)"
    and "brelse c i bp (s2\<lparr>pmem := mm\<rparr>) = Ok s3" "tx c d s3" "tx_frame (s\<lparr>pmem := mm\<rparr>) s3" "bview d s3 = bview d s"
    and "dst_wrote (pagetable (procs s i)) dst (map (fbyte d s k) [off..<off + m]) (pmem s) loc mm loc1"
    and "dst_ok i ps (dst_add dst m) r loc1 s3"
proof -
  let ?a = "faddr d s k (off div BSIZE)" and ?v = "map (fbyte d s k) [off..<off + m]"
  obtain s1 where b: "bmap c i k (of_nat (off div BSIZE)) s = Ok (?a, s1)" "tx c d s1" "tx_frame s s1" "bview d s1 = bview d s"
    by (rule bmap_mapped [OF tx d ok q, of i]) blast
  obtain bp s2 where r: "bread c i d ?a s1 = Ok (bp, s2)" "tx_frame s1 s2" "data (bufs s2 bp) = bview d s1 ?a"
    and rel: "\<forall>m I. \<exists>s3. brelse c i bp (s2\<lparr>pmem := m, inodes := I\<rparr>) = Ok s3 \<and> tx c d s3 \<and>
      tx_frame (s1\<lparr>pmem := m, inodes := I\<rparr>) s3 \<and> bview d s3 = bview d s1"
    by (rule tx_read_upd [OF b(2), of i ?a])
  have ch: "take m (drop (off mod BSIZE) (data (bufs s2 bp))) = ?v"
    unfolding r(3) b(4) by (rule chunk_bytes [OF m bview_length [OF txD(3) [OF tx]]])
  note M = tx_frame_mem [OF tx_frame_trans [OF b(3) r(2)]]
  have "dst_ok i ps dst (length ?v + r) loc s2" using dst_ok_cong [OF M] dst by simp
  from put_dst_chunk [OF this] obtain mm loc1 where p: "put_dst i dst ?v loc s2 = (0, loc1, s2\<lparr>pmem := mm\<rparr>)"
    "dst_wrote (pagetable (procs s2 i)) dst ?v (pmem s2) loc mm loc1"
    "dst_ok i ps (dst_add dst (length ?v)) r loc1 (s2\<lparr>pmem := mm\<rparr>)" by blast
  have e: "s2\<lparr>pmem := mm, inodes := inodes s1\<rparr> = s2\<lparr>pmem := mm\<rparr>" "s1\<lparr>pmem := mm, inodes := inodes s1\<rparr> = s1\<lparr>pmem := mm\<rparr>"
    by (simp_all flip: tx_frame_fs(2) [OF r(2)])
  obtain s3 where s3: "brelse c i bp (s2\<lparr>pmem := mm\<rparr>) = Ok s3" "tx c d s3" "tx_frame (s1\<lparr>pmem := mm\<rparr>) s3" "bview d s3 = bview d s1"
    using rel [rule_format, of "inodes s1" mm] unfolding e by blast
  have fr: "tx_frame (s\<lparr>pmem := mm\<rparr>) s3" by (rule tx_frame_trans [OF tx_frame_pmem [OF b(3)] s3(3)])
  have "dst_ok i ps (dst_add dst m) r loc1 s3"
    using p(3) dst_ok_cong [of s3 "s2\<lparr>pmem := mm\<rparr>" i ps "dst_add dst m" r loc1] M tx_frame_mem [OF fr] by simp
  then show thesis
    using that [OF b(1) _ _ s3(1,2) fr] r(1) p(1,2) s3(4) b(4) M d tx_frame_fs(2) [OF b(3)] unfolding ch by simp
qed

lemma readi_loop_effect:
  assumes "tx c d s" and "idev (inodes s k) = d" and "file_ok d s k N" and "off + (n - tot) \<le> N * BSIZE" and "tot \<le> n"
    and "dst_ok i ps dst (n - tot) loc s"
  shows "\<exists>m loc' s'. readi_loop c i k dst off tot n loc s = Ok ((n, loc'), s') \<and>
    dst_wrote (pagetable (procs s i)) dst (map (fbyte d s k) [off..<off + (n - tot)]) (pmem s) loc m loc' \<and>
    tx c d s' \<and> tx_frame (s\<lparr>pmem := m\<rparr>) s' \<and> bview d s' = bview d s"
  using assms
proof (induction "n - tot" arbitrary: dst off tot loc s rule: less_induct)
  case less
  show ?case
  proof (cases "tot < n")
    case False
    then have "readi_loop c i k dst off tot n loc s = Ok ((n, loc), s)" using less.prems(5) by (subst readi_loop.simps) simp
    then show ?thesis using False less.prems(1) by (intro exI [of _ "pmem s"]) (simp add: dst_wrote_nil)
  next
    case True
    define m r where "m = min (n - tot) (BSIZE - off mod BSIZE)" and "r = n - (tot + m)"
    have m: "0 < m" "m \<le> n - tot" "m \<le> BSIZE - off mod BSIZE" using True by (auto simp: m_def)
    have n: "n - tot = m + r" using m(2) by (simp add: r_def)
    have q: "off div BSIZE < N" using less.prems(4) True by (simp add: less_mult_imp_div_less)
    obtain a s1 bp s2 mm loc1 s3 where R: "bmap c i k (of_nat (off div BSIZE)) s = Ok (a, s1)" "bread c i (idev (inodes s1 k)) a s1 = Ok (bp, s2)"
      "put_dst i dst (take m (drop (off mod BSIZE) (data (bufs s2 bp)))) loc s2 = (0, loc1, s2\<lparr>pmem := mm\<rparr>)"
      "brelse c i bp (s2\<lparr>pmem := mm\<rparr>) = Ok s3" "tx c d s3" "tx_frame (s\<lparr>pmem := mm\<rparr>) s3" "bview d s3 = bview d s"
      "dst_wrote (pagetable (procs s i)) dst (map (fbyte d s k) [off..<off + m]) (pmem s) loc mm loc1"
      "dst_ok i ps (dst_add dst m) r loc1 s3"
      by (rule readi_round [OF less.prems(1-3) q m(3) less.prems(6) [unfolded n]])
    have step: "readi_loop c i k dst off tot n loc s = readi_loop c i k (dst_add dst m) (off + m) (tot + m) n loc1 s3"
      using True R(1-4) by (subst readi_loop.simps) (simp add: Let_def flip: m_def)
    have f: "inodes s3 = inodes s" "pmem s3 = mm" "pagetable (procs s3 i) = pagetable (procs s i)"
      using tx_frame_fs(2) [OF R(6)] tx_frame_mem [OF R(6)] by simp_all
    note c3 = faddr_cong [OF f(1) R(7)]
    let ?w = "map (fbyte d s k) [off + m..<off + m + r]"
    have "\<exists>m2 loc2 s'. readi_loop c i k (dst_add dst m) (off + m) (tot + m) n loc1 s3 = Ok ((n, loc2), s') \<and>
        dst_wrote (pagetable (procs s3 i)) (dst_add dst m) (map (fbyte d s3 k) [off + m..<off + m + (n - (tot + m))]) (pmem s3) loc1 m2 loc2 \<and>
        tx c d s' \<and> tx_frame (s3\<lparr>pmem := m2\<rparr>) s' \<and> bview d s' = bview d s3"
    proof (rule less.hyps)
      show "n - (tot + m) < n - tot" "tot + m \<le> n" using m less.prems(5) by simp_all
      show "tx c d s3" "dst_ok i ps (dst_add dst m) (n - (tot + m)) loc1 s3" using R(5,9) by (simp_all add: r_def)
      show "idev (inodes s3 k) = d" "file_ok d s3 k N" unfolding f(1) c3(3) using less.prems(2,3) by simp_all
      show "off + m + (n - (tot + m)) \<le> N * BSIZE" using less.prems(4) n by (simp add: r_def)
    qed
    then obtain m2 loc2 s' where s': "readi_loop c i k (dst_add dst m) (off + m) (tot + m) n loc1 s3 = Ok ((n, loc2), s')"
      "dst_wrote (pagetable (procs s i)) (dst_add dst m) ?w mm loc1 m2 loc2"
      "tx c d s'" "tx_frame (s3\<lparr>pmem := m2\<rparr>) s'" "bview d s' = bview d s"
      unfolding c3(2) R(7) f(2,3) r_def [symmetric] by (elim exE conjE) simp
    have "dst_ok i ps dst (length (map (fbyte d s k) [off..<off + m]) + length ?w) loc s" using less.prems(6) n by simp
    from dst_wrote_append [OF this refl R(8)] s'(2)
    have "dst_wrote (pagetable (procs s i)) dst (map (fbyte d s k) ([off..<off + m] @ [off + m..<off + m + r])) (pmem s) loc m2 loc2" by simp
    moreover have "[off..<off + m] @ [off + m..<off + m + r] = [off..<off + (n - tot)]" using upt_split [of m "m + r" off] n by simp
    moreover have "tx_frame (s\<lparr>pmem := m2\<rparr>) s'" using tx_frame_trans [OF tx_frame_pmem [OF R(6), of m2] s'(4)] by simp
    ultimately show ?thesis
      unfolding step using s'(1,3,5) by (intro exI [of _ m2] exI [of _ loc2] exI [of _ s']) simp
  qed
qed

section \<open>Writing\<close>

text \<open>A change of one block of the file.\<close>

lemma update_faddr:
  assumes ok: "file_ok d s k N" and q: "q < N" and f: "inodes s' = inodes s"
    and v: "bview d s' = (bview d s)(faddr d s k q := w)"
  shows "n < N \<Longrightarrow> faddr d s' k n = faddr d s k n" "file_ok d s' k N"
proof -
  have e: "faddr d s' k n = faddr d s k n" if "n < N" for n
  proof (cases "n < NDIRECT")
    case False
    then have "iaddrs (inodes s k) ! NDIRECT \<noteq> faddr d s k q" using ok q that by (auto simp: file_ok_def)
    then show ?thesis using False by (simp add: faddr_def f v)
  qed (simp add: faddr_def f)
  then show "n < N \<Longrightarrow> faddr d s' k n = faddr d s k n" .
  have "inj_on (faddr d s' k) {..<N} = inj_on (faddr d s k) {..<N}" by (rule inj_on_cong) (simp add: e)
  moreover have "faddr d s' k ` {..<N} = faddr d s k ` {..<N}" by (rule image_cong) (simp_all add: e)
  ultimately show "file_ok d s' k N" using ok e unfolding file_ok_def f by simp
qed

lemma update_fbyte:
  assumes ok: "file_ok d s k N" and p: "p < N * BSIZE" and f: "inodes s' = inodes s" and m: "off mod BSIZE + length v \<le> BSIZE"
    and q: "off div BSIZE < N" and l: "length (bview d s (faddr d s k (off div BSIZE))) = BSIZE"
    and v: "bview d s' = (bview d s)(faddr d s k (off div BSIZE) := put_bytes (off mod BSIZE) v (bview d s (faddr d s k (off div BSIZE))))"
  shows "fbyte d s' k p = (if off \<le> p \<and> p < off + length v then v ! (p - off) else fbyte d s k p)"
proof -
  note e = update_faddr(1) [OF ok q f v]
  have pN: "p div BSIZE < N" using p by (simp add: less_mult_imp_div_less)
  note b = div_mult_mod_eq [of p BSIZE] div_mult_mod_eq [of off BSIZE]
  show ?thesis
  proof (cases "p div BSIZE = off div BSIZE")
    case True
    have "fbyte d s' k p = put_bytes (off mod BSIZE) v (bview d s (faddr d s k (off div BSIZE))) ! (p mod BSIZE)"
      using e [OF q] True by (simp add: fbyte_def v)
    also have "\<dots> = (if off mod BSIZE \<le> p mod BSIZE \<and> p mod BSIZE < off mod BSIZE + length v
        then v ! (p mod BSIZE - off mod BSIZE) else fbyte d s k p)"
      using True m l by (subst put_bytes_nth) (simp_all add: fbyte_def)
    also have "off mod BSIZE \<le> p mod BSIZE \<and> p mod BSIZE < off mod BSIZE + length v \<longleftrightarrow> off \<le> p \<and> p < off + length v"
      using b True by linarith
    also have "p mod BSIZE - off mod BSIZE = p - off" using b True by linarith
    finally show ?thesis .
  next
    case False
    then have "faddr d s k (p div BSIZE) \<noteq> faddr d s k (off div BSIZE)"
      using ok pN q by (auto simp: file_ok_def inj_on_def)
    moreover have "\<not> (off \<le> p \<and> p < off + length v)"
    proof
      assume a: "off \<le> p \<and> p < off + length v"
      then have "off mod BSIZE + (p - off) < BSIZE" using m by linarith
      from div_mod_step(1) [OF this] show False using a False by simp
    qed
    ultimately show ?thesis using e [OF pN] by (auto simp: fbyte_def v)
  qed
qed

text \<open>The bytes \<open>v\<close> have been written at \<open>off\<close>: the file's blocks are where they were, and all else is as before.\<close>

definition wrote_file :: "u32 \<Rightarrow> nat \<Rightarrow> nat \<Rightarrow> nat \<Rightarrow> u8 list \<Rightarrow> 'a kfs_scheme \<Rightarrow> 'a kfs_scheme \<Rightarrow> bool" where
  "wrote_file d k N off v s s' \<longleftrightarrow> file_ok d s' k N \<and> (\<forall>q < N. faddr d s' k q = faddr d s k q) \<and>
     (\<forall>p < N * BSIZE. fbyte d s' k p = (if off \<le> p \<and> p < off + length v then v ! (p - off) else fbyte d s k p)) \<and>
     (\<forall>b. b \<notin> faddr d s k ` {..<N} \<longrightarrow> bview d s' b = bview d s b)"

lemma wrote_file_nil: "file_ok d s k N \<Longrightarrow> wrote_file d k N off [] s s"
  by (auto simp: wrote_file_def)

lemma wrote_file_append:
  assumes "wrote_file d k N off v s s1" and "wrote_file d k N (off + length v) w s1 s2"
  shows "wrote_file d k N off (v @ w) s s2"
proof -
  have i: "faddr d s1 k ` {..<N} = faddr d s k ` {..<N}" using assms(1) by (intro image_cong) (simp_all add: wrote_file_def)
  have "fbyte d s2 k p = (if off \<le> p \<and> p < off + length (v @ w) then (v @ w) ! (p - off) else fbyte d s k p)" if "p < N * BSIZE" for p
  proof -
    have "fbyte d s2 k p = (if off + length v \<le> p \<and> p < off + length v + length w then w ! (p - (off + length v)) else fbyte d s1 k p)"
      "fbyte d s1 k p = (if off \<le> p \<and> p < off + length v then v ! (p - off) else fbyte d s k p)"
      using assms that by (simp_all add: wrote_file_def)
    then show ?thesis by (auto simp: nth_append)
  qed
  then show ?thesis using assms i by (simp add: wrote_file_def)
qed

lemma wrote_file_block:
  assumes ok: "file_ok d s k N" and f: "inodes s' = inodes s" and m: "off mod BSIZE + length v \<le> BSIZE" and inv: "bio_inv d s"
    and q: "off div BSIZE < N"
    and v: "bview d s' = (bview d s)(faddr d s k (off div BSIZE) := put_bytes (off mod BSIZE) v (bview d s (faddr d s k (off div BSIZE))))"
  shows "wrote_file d k N off v s s'"
  unfolding wrote_file_def
  using update_faddr [OF ok q f v] update_fbyte [OF ok _ f m q bview_length [OF inv] v] q by (auto simp: v)

text \<open>The number of blocks that hold \<open>m\<close> bytes from \<open>off\<close> on.\<close>

definition span :: "nat \<Rightarrow> nat \<Rightarrow> nat" where
  "span off m = (if m = 0 then 0 else (off mod BSIZE + m - 1) div BSIZE + 1)"

lemma span_step:
  assumes "0 < l" and "m = min l (BSIZE - off mod BSIZE)"
  shows "Suc (span (off + m) (l - m)) = span off l"
proof (cases "l \<le> BSIZE - off mod BSIZE")
  case True
  have "off mod BSIZE < BSIZE" by simp
  then have "off mod BSIZE + l - 1 < BSIZE" using True assms(1) by linarith
  then show ?thesis using True assms by (simp add: span_def)
next
  case False
  have lt: "off mod BSIZE < BSIZE" by simp
  have m: "m = BSIZE - off mod BSIZE" using False assms by simp
  have "m + off mod BSIZE = BSIZE" using m lt by linarith
  then have "off + m = off div BSIZE * BSIZE + BSIZE" using div_mult_mod_eq [of off BSIZE] by linarith
  then have z: "(off + m) mod BSIZE = 0" by simp
  have "off mod BSIZE + l - 1 = (l - m - 1) + BSIZE" using m False lt by linarith
  then have "(off mod BSIZE + l - 1) div BSIZE = (l - m - 1) div BSIZE + 1" by simp
  moreover have "0 < l - m" using False m by simp
  ultimately show ?thesis using assms(1) by (simp add: span_def z)
qed

text \<open>The source of a write holds the bytes \<open>v\<close>.\<close>

fun src_holds :: "nat \<Rightarrow> u64 list \<Rightarrow> ksrc \<Rightarrow> u8 list \<Rightarrow> 'a kproc_scheme \<Rightarrow> bool" where
  "src_holds i ps (SUser a) v s \<longleftrightarrow> user_wf s (pagetable (procs s i)) ps \<and> mapped (pmem s) (pagetable (procs s i)) a (length v) \<and>
     ubytes (pmem s) (pagetable (procs s i)) a (length v) = v"
| "src_holds i ps (SKern a) v s \<longleftrightarrow> read_bytes (pmem s) a (length v) = v"
| "src_holds i ps (SLocal w) v s \<longleftrightarrow> take (length v) w = v"

lemma src_holds_cong:
  assumes "pmem s' = pmem s" "freelist s' = freelist s" "kend s' = kend s" "pagetable (procs s' i) = pagetable (procs s i)"
  shows "src_holds i ps src v s' = src_holds i ps src v s"
  using user_wf_cong [OF assms(1-3)] assms by (cases src) simp_all

lemma get_src_chunk:
  assumes "src_holds i ps src (v @ w) s"
  shows "get_src i src (length v) s = (0, v)" "src_holds i ps (src_add src (length v)) w s"
proof (atomize (full), cases src)
  case (SUser a)
  let ?pt = "pagetable (procs s i)" and ?a = "a + of_nat (length v)"
  have u: "user_wf s ?pt ps" "mapped (pmem s) ?pt a (length v)" "mapped (pmem s) ?pt ?a (length w)"
    "ubytes (pmem s) ?pt a (length v) @ ubytes (pmem s) ?pt ?a (length w) = v @ w"
    using assms SUser by (simp_all add: mapped_append ubytes_append)
  then have "ubytes (pmem s) ?pt a (length v) = v" "ubytes (pmem s) ?pt ?a (length w) = w" by simp_all
  then show "get_src i src (length v) s = (0, v) \<and> src_holds i ps (src_add src (length v)) w s"
    using u copyin_correct [OF u(1), of a "length v"] by (simp add: SUser either_copyin_def prod_eq_iff)
next
  case (SKern a)
  then show "get_src i src (length v) s = (0, v) \<and> src_holds i ps (src_add src (length v)) w s"
    using assms by (simp add: either_copyin_def read_bytes_add length_read_bytes)
next
  case (SLocal x)
  then have "take (length v + length w) x = v @ w" using assms by simp
  then have "take (length v) x = v" "take (length w) (drop (length v) x) = w"
    by (metis append_eq_conv_conj take_add take_take min.absorb1 le_add1, metis append_eq_conv_conj drop_take diff_add_inverse)
  then show "get_src i src (length v) s = (0, v) \<and> src_holds i ps (src_add src (length v)) w s" using SLocal by simp
qed

lemma writei_loop_effect:
  assumes "tx c d s" and "idev (inodes s k) = d" and "file_ok d s k N" and "length v = n - tot" and "off + length v \<le> N * BSIZE"
    and "tot \<le> n" and "room (span off (length v)) s" and "src_holds i ps src v s"
  shows "\<exists>s'. writei_loop c i k src off tot n s = Ok (off + length v, s') \<and> tx c d s' \<and> tx_frame s s' \<and>
    lh_n s' \<le> lh_n s + int (span off (length v)) \<and> wrote_file d k N off v s s' \<and>
    set (logged s') \<subseteq> set (logged s) \<union> faddr d s k ` {..<N}"
  using assms
proof (induction "n - tot" arbitrary: src off tot v s rule: less_induct)
  case less
  note tx = less.prems(1) and d = less.prems(2) and ok = less.prems(3)
  show ?case
  proof (cases "tot < n")
    case False
    then show ?thesis using less.prems by (subst writei_loop.simps) (simp add: wrote_file_nil span_def)
  next
    case True
    let ?q = "off div BSIZE"
    define m where "m = min (n - tot) (BSIZE - off mod BSIZE)"
    have q: "?q < N" using less.prems(4,5) True by (simp add: less_mult_imp_div_less)
    have m: "0 < m" "m \<le> n - tot" "off mod BSIZE + m \<le> BSIZE" using True by (auto simp: m_def)
    have lv: "length (take m v) = m" "length (drop m v) = n - (tot + m)" using m(2) less.prems(4) by simp_all
    have sp: "Suc (span (off + m) (length (drop m v))) = span off (length v)"
      using span_step [of "n - tot" m off] True m_def less.prems(4) by simp
    obtain s1 where b: "bmap c i k (of_nat ?q) s = Ok (faddr d s k ?q, s1)" "tx c d s1" "tx_frame s s1" "bview d s1 = bview d s"
      "lh_n s1 = lh_n s" "logged s1 = logged s"
      by (rule bmap_mapped [OF tx d ok q, of i])
    let ?f = "put_bytes (off mod BSIZE) (take m v)"
    have r1: "room (Suc 0) s1"
      using less.prems(7) sp b(5) tx_frameD(5) [OF b(3)] unfolding room_def by linarith
    have fl: "length (?f x) = BSIZE" if "length x = BSIZE" for x using put_bytes_length [of "off mod BSIZE" "take m v" x] m(3) lv(1) that by simp
    obtain bp s2 s3 s4 where u: "bread c i d (faddr d s k ?q) s1 = Ok (bp, s2)"
      "log_write c bp (upd_buf bp (\<lambda>x. x\<lparr>data := ?f (data x)\<rparr>) s2) = Ok s3" "brelse c i bp s3 = Ok s4"
      "tx_frame s1 s2" "tx c d s4" "tx_frame s1 s4" "bview d s4 = (bview d s1)(faddr d s k ?q := ?f (bview d s1 (faddr d s k ?q)))"
      "lh_n s4 = lh_n s1 + (if faddr d s k ?q \<in> set (logged s1) then 0 else 1)" "logged s4 = log_add (faddr d s k ?q) (logged s1)"
      by (rule tx_update [where f = ?f and i = i and n = "faddr d s k ?q", OF b(2) r1 fl]) blast
    have fr: "tx_frame s s4" by (rule tx_frame_trans [OF b(3) u(6)])
    note f = tx_frame_fs(2) [OF fr]
    have "src_holds i ps src (take m v @ drop m v) s" using less.prems(8) by simp
    note G = get_src_chunk [OF this, unfolded lv(1)]
    have g2: "get_src i src m s2 = (0, take m v)"
      using get_src_chunk(1) [of i ps src "take m v" "drop m v" s2] less.prems(8) lv(1)
        src_holds_cong [OF tx_frame_mem [OF tx_frame_trans [OF b(3) u(4)]]] by simp
    have step: "writei_loop c i k src off tot n s = writei_loop c i k (src_add src m) (off + m) (tot + m) n s4"
      using True b(1) u(1-3) g2 d tx_frame_fs(2) [OF b(3)] by (subst writei_loop.simps) (simp add: Let_def flip: m_def)
    have w: "wrote_file d k N off (take m v) s s4"
      by (rule wrote_file_block [OF ok f _ txD(3) [OF tx] q]) (use m(3) lv(1) u(7) b(4) in simp_all)
    have lh: "lh_n s4 \<le> lh_n s + 1" using u(8) b(5) by simp
    have "\<exists>s'. writei_loop c i k (src_add src m) (off + m) (tot + m) n s4 = Ok (off + m + length (drop m v), s') \<and>
        tx c d s' \<and> tx_frame s4 s' \<and> lh_n s' \<le> lh_n s4 + int (span (off + m) (length (drop m v))) \<and>
        wrote_file d k N (off + m) (drop m v) s4 s' \<and> set (logged s') \<subseteq> set (logged s4) \<union> faddr d s4 k ` {..<N}"
    proof (rule less.hyps)
      show "room (span (off + m) (length (drop m v))) s4"
        using less.prems(7) sp lh tx_frameD(5) [OF fr] unfolding room_def by linarith
      show "file_ok d s4 k N" using w by (simp add: wrote_file_def)
      show "src_holds i ps (src_add src m) (drop m v) s4" using G(2) src_holds_cong [OF tx_frame_mem [OF fr]] by simp
    qed (use True m less.prems u(5) d f lv in auto)
    then obtain s' where s': "writei_loop c i k (src_add src m) (off + m) (tot + m) n s4 = Ok (off + m + length (drop m v), s')"
        "tx c d s'" "tx_frame s4 s'" "lh_n s' \<le> lh_n s4 + int (span (off + m) (length (drop m v)))"
        "wrote_file d k N (off + m) (drop m v) s4 s'" "set (logged s') \<subseteq> set (logged s4) \<union> faddr d s4 k ` {..<N}"
      by blast
    have "faddr d s4 k ` {..<N} = faddr d s k ` {..<N}" using w by (intro image_cong) (simp_all add: wrote_file_def)
    then have lg: "set (logged s') \<subseteq> set (logged s) \<union> faddr d s k ` {..<N}"
      using s'(6) u(9) b(6) q by (auto simp: log_add_def split: if_splits)
    have "wrote_file d k N off v s s'" using wrote_file_append [OF w, of "drop m v" s'] s'(5) lv(1) by simp
    moreover have "off + m + length (drop m v) = off + length v" using lv m(2) less.prems(4) by simp
    moreover have "lh_n s' \<le> lh_n s + int (span off (length v))" using s'(4) lh sp by linarith
    ultimately show ?thesis
      unfolding step using s'(1,2) lg tx_frame_trans [OF fr s'(3)] by simp
  qed
qed

text \<open>A change of a block outside the file, and of the inode's size.\<close>

lemma outside_file:
  assumes ok: "file_ok d s k N" and a: "iaddrs (inodes s' k) = iaddrs (inodes s k)" and v: "bview d s' = (bview d s)(b := w)"
    and b: "b \<notin> faddr d s k ` {..<N}" "NDIRECT < N \<Longrightarrow> b \<noteq> iaddrs (inodes s k) ! NDIRECT"
  shows "q < N \<Longrightarrow> faddr d s' k q = faddr d s k q" "p < N * BSIZE \<Longrightarrow> fbyte d s' k p = fbyte d s k p" "file_ok d s' k N"
proof -
  have e: "faddr d s' k q = faddr d s k q" if "q < N" for q
    using b(2) that by (auto simp: faddr_def a v)
  then show "q < N \<Longrightarrow> faddr d s' k q = faddr d s k q" .
  show "fbyte d s' k p = fbyte d s k p" if "p < N * BSIZE"
  proof -
    have "p div BSIZE < N" using that by (simp add: less_mult_imp_div_less)
    then show ?thesis using b(1) e by (auto simp: fbyte_def v)
  qed
  have "inj_on (faddr d s' k) {..<N} = inj_on (faddr d s k) {..<N}" by (rule inj_on_cong) (simp add: e)
  moreover have "faddr d s' k ` {..<N} = faddr d s k ` {..<N}" by (rule image_cong) (simp_all add: e)
  ultimately show "file_ok d s' k N" using ok e unfolding file_ok_def a by simp
qed

lemma outside_wrote:
  assumes w: "wrote_file d k N off v s s1" and a: "iaddrs (inodes s' k) = iaddrs (inodes s1 k)" and v: "bview d s' = (bview d s1)(b := w)"
    and b: "b \<notin> faddr d s k ` {..<N}" "NDIRECT < N \<Longrightarrow> b \<noteq> iaddrs (inodes s1 k) ! NDIRECT"
  shows "file_ok d s' k N" "q < N \<Longrightarrow> faddr d s' k q = faddr d s k q"
    "p < N * BSIZE \<Longrightarrow> fbyte d s' k p = (if off \<le> p \<and> p < off + length v then v ! (p - off) else fbyte d s k p)"
    "x \<notin> faddr d s k ` {..<N} \<Longrightarrow> x \<noteq> b \<Longrightarrow> bview d s' x = bview d s x"
proof -
  have ok: "file_ok d s1 k N" using w by (simp add: wrote_file_def)
  have i: "faddr d s1 k ` {..<N} = faddr d s k ` {..<N}" using w by (intro image_cong) (simp_all add: wrote_file_def)
  note o = outside_file [OF ok a v, unfolded i, OF b]
  show "file_ok d s' k N" by (rule o(3))
  show "q < N \<Longrightarrow> faddr d s' k q = faddr d s k q" using o(1) w by (simp add: wrote_file_def)
  show "p < N * BSIZE \<Longrightarrow> fbyte d s' k p = (if off \<le> p \<and> p < off + length v then v ! (p - off) else fbyte d s k p)"
    using o(2) w by (simp add: wrote_file_def)
  show "x \<notin> faddr d s k ` {..<N} \<Longrightarrow> x \<noteq> b \<Longrightarrow> bview d s' x = bview d s x"
    using w by (simp add: v wrote_file_def)
qed

text \<open>The metadata of inode \<open>k\<close> is apart from the first \<open>N\<close> blocks of its file.\<close>

definition inode_apart :: "u32 \<Rightarrow> 'a kfs_scheme \<Rightarrow> nat \<Rightarrow> nat \<Rightarrow> bool" where
  "inode_apart d s k N \<longleftrightarrow> IBLOCK (inum (inodes s k)) (sb s) \<notin> faddr d s k ` {..<N} \<and>
     (NDIRECT < N \<longrightarrow> IBLOCK (inum (inodes s k)) (sb s) \<noteq> iaddrs (inodes s k) ! NDIRECT)"

lemma tx_frame_inodes:
  assumes "tx_frame s s'"
  shows "tx_frame (s\<lparr>inodes := I\<rparr>) (s'\<lparr>inodes := I\<rparr>)"
proof -
  obtain P B n bs where "s' = s\<lparr>procs := P, bufs := B, lh_n := n, lh_block := bs\<rparr>" "same_procs P (procs s)"
    using assms unfolding tx_frame_def by blast
  then show ?thesis by (intro tx_frameI [where P = P and B = B and n = n and bs = bs]) simp_all
qed

lemma writei_effect:
  assumes tx: "tx c d s" and d: "idev (inodes s k) = d" and ok: "file_ok d s k N" and ap: "inode_apart d s k N"
    and off: "off \<le> isize (inodes s k)" and n: "n = of_nat (length v)" and l: "unat off + length v \<le> N * BSIZE" and v: "v \<noteq> []"
    and room: "room (Suc (span (unat off) (length v))) s" and src: "src_holds i ps src v s"
  obtains s' s1 where "writei c i k src off n s = Ok (int (length v), s')" "tx c d s'"
    and "wrote_file d k N (unat off) v s s1" "inodes s1 = inodes s"
    and "inodes s' = (inodes s)(k := (inodes s k)\<lparr>isize := max (isize (inodes s k)) (off + n)\<rparr>)"
    and "bview d s' = (bview d s1)(IBLOCK (inum (inodes s k)) (sb s) := encode_dinode (inodes s' k) (dinode_off (inum (inodes s k)))
      (bview d s1 (IBLOCK (inum (inodes s k)) (sb s))))" "lh_n s' \<le> lh_n s + int (Suc (span (unat off) (length v)))"
    "sb s' = sb s" "tx_frame (s\<lparr>inodes := inodes s'\<rparr>) s'"
    "set (logged s') \<subseteq> set (logged s) \<union> faddr d s k ` {..<N} \<union> {IBLOCK (inum (inodes s k)) (sb s)}" "0 < lh_n s'"
    and "length (iaddrs (inodes s k)) = Suc NDIRECT \<longrightarrow> dinode_at d s' (inum (inodes s k)) x = with_dinode (inodes s' k) x"
proof -
  have N: "N * BSIZE \<le> MAXFILE * BSIZE" using ok by (simp add: file_ok_def)
  then have lv: "length v < 2 ^ 31" and uo: "unat off + length v < 2 ^ 32" using l by simp_all
  have un: "unat n = length v" and sn: "sint n = int (length v)"
    using lv n by (simp_all add: sint_of_nat_u32)
  have on: "unat (off + n) = unat off + length v" using un uo by (simp add: unat_plus_if')
  have nz: "0 < n" using un v by (simp add: word_less_nat_alt)
  have no: "\<not> off + n < off" by (simp add: word_less_nat_alt on)
  obtain s1 where w: "writei_loop c i k src (unat off) 0 (length v) s = Ok (unat off + length v, s1)" "tx c d s1" "tx_frame s s1"
    "lh_n s1 \<le> lh_n s + int (span (unat off) (length v))" "wrote_file d k N (unat off) v s s1"
    "set (logged s1) \<subseteq> set (logged s) \<union> faddr d s k ` {..<N}"
    using writei_loop_effect [OF tx d ok, of v "length v" 0 "unat off" i ps src] l room room_mono [OF room] src by auto
  note f = tx_frame_fs [OF w(3)]
  define s2 where "s2 = s1\<lparr>inodes := (inodes s)(k := (inodes s k)\<lparr>isize := max (isize (inodes s k)) (off + n)\<rparr>)\<rparr>"
  have s2: "(if unat off + length v > unat (isize (inodes s1 k)) then upd_inode k (\<lambda>x. x\<lparr>isize := of_nat (unat off + length v)\<rparr>) s1 else s1) = s2"
  proof (cases "unat off + length v > unat (isize (inodes s k))")
    case True
    moreover have "max (isize (inodes s k)) (off + n) = off + n" using True by (simp add: max_def word_le_nat_alt on)
    moreover have "of_nat (unat off + length v) = off + n" using n by simp
    ultimately show ?thesis by (simp add: s2_def upd_inode_def f)
  next
    case False
    moreover have "max (isize (inodes s k)) (off + n) = isize (inodes s k)"
      by (rule max_absorb1) (use False in \<open>simp add: word_le_nat_alt on\<close>)
    ultimately show ?thesis by (simp add: s2_def f flip: f(2))
  qed
  have r2: "room (Suc 0) s2" using room w(4) tx_frameD(5) [OF w(3)] unfolding room_def s2_def by simp
  have d2: "idev (inodes s2 k) = d" using d by (simp add: s2_def)
  obtain s3 where u: "iupdate c i k s2 = Ok s3" "tx c d s3" "tx_frame s2 s3" "lh_n s3 \<le> lh_n s2 + 1"
    "logged s3 = log_add (IBLOCK (inum (inodes s2 k)) (sb s2)) (logged s2)"
    "bview d s3 = (bview d s2)(IBLOCK (inum (inodes s2 k)) (sb s2) :=
      encode_dinode (inodes s2 k) (dinode_off (inum (inodes s2 k))) (bview d s2 (IBLOCK (inum (inodes s2 k)) (sb s2))))"
    by (rule iupdate_effect [OF tx_cong [OF w(2) s2_def] r2 d2, of i])
  have b2: "bview d s2 = bview d s1" by (simp add: s2_def slot_def [abs_def])
  have "writei c i k src off n s = Ok (int (length v), s3)"
    using off no on l N nz w(1) u(1) s2 sn by (simp add: writei_def un not_less)
  moreover have "tx_frame (s\<lparr>inodes := inodes s3\<rparr>) s3"
  proof -
    have "tx_frame (s\<lparr>inodes := inodes s2\<rparr>) s2" using tx_frame_inodes [OF w(3)] by (simp add: s2_def)
    then show ?thesis using tx_frame_trans [OF _ u(3)] tx_frame_fs(2) [OF u(3)] by simp
  qed
  moreover have "0 < lh_n s3"
  proof -
    have "0 < length (logged s3)" unfolding u(5) log_add_def by (auto simp: length_pos_if_in_set)
    then show ?thesis using txD(6) [OF u(2)] by simp
  qed
  moreover have "length (iaddrs (inodes s k)) = Suc NDIRECT \<longrightarrow> dinode_at d s3 (inum (inodes s k)) x = with_dinode (inodes s3 k) x"
    using iupdate_dinodes [OF tx_cong [OF w(2) s2_def] tx_frame_fs(1) [OF u(3)] _ u(6), of "inum (inodes s k)" x] tx_frame_fs(2) [OF u(3)]
    by (simp add: s2_def)
  ultimately show thesis
    using that [of s3 s1] u(2,4,5,6) w(4,5,6) f b2 tx_frame_fs [OF u(3)]
    by (auto simp: s2_def log_add_def logged_def split: if_splits)
qed

end
