(* ===== verification/Fs_Properties.thy ===== *)
theory Fs_Properties
  imports Fs_Files
begin

text \<open>
  What the file system promises of the content of files: reads return the bytes of the file, writes change
  exactly the bytes written, and a write is on the disk after \<open>end_op\<close>, wholly or not at all when the machine
  crashes before.
\<close>

section \<open>Reads\<close>

lemma readi_effect:
  assumes tx: "tx c d s" and d: "idev (inodes s k) = d" and ok: "file_ok d s k N" and sz: "unat (isize (inodes s k)) \<le> N * BSIZE"
    and off: "off \<le> isize (inodes s k)" and nw: "off \<le> off + n"
    and bs: "bs = map (fbyte d s k) [unat off..<min (unat off + unat n) (unat (isize (inodes s k)))]" and dst: "dst_ok i ps dst (length bs) loc s"
  obtains m loc' s' where "readi c i k dst off n loc s = Ok ((length bs, loc'), s')"
    and "dst_wrote (pagetable (procs s i)) dst bs (pmem s) loc m loc'" "tx c d s'" "tx_frame (s\<lparr>pmem := m\<rparr>) s'" "bview d s' = bview d s"
proof -
  let ?size = "isize (inodes s k)"
  define l where "l = unat (if off + n > ?size then ?size - off else n)"
  have on: "unat (off + n) = unat off + unat n" using nw unsigned_less [where 'a = nat, of n] by (simp add: word_le_nat_alt unat_plus_if' split: if_splits)
  have so: "unat (?size - off) = unat ?size - unat off" using off by (simp add: unat_sub)
  have uo: "unat off \<le> unat ?size" using off by (simp add: word_le_nat_alt)
  have e: "unat off + l = min (unat off + unat n) (unat ?size)"
    using on so uo by (auto simp: l_def word_less_nat_alt)
  then have bl: "bs = map (fbyte d s k) [unat off..<unat off + l]" "length bs = l" by (simp_all add: bs flip: e)
  have N: "unat off + (l - 0) \<le> N * BSIZE" using e sz by simp
  have dl: "dst_ok i ps dst (l - 0) loc s" using dst bl(2) by simp
  have r: "readi c i k dst off n loc s = readi_loop c i k dst (unat off) 0 l loc s"
    using leD [OF off] leD [OF nw] unfolding readi_def Let_def l_def by simp
  show thesis
    using readi_loop_effect [OF tx d ok N _ dl] that unfolding r bl(2) diff_zero bl(1) [symmetric] by blast
qed

section \<open>Writes\<close>

text \<open>After \<open>writei\<close>: the file's new bytes, the inode with its new size, and all other blocks as before.\<close>

lemma writei_file:
  assumes tx: "tx c d s" and d: "idev (inodes s k) = d" and ok: "file_ok d s k N" and ap: "inode_apart d s k N"
    and off: "off \<le> isize (inodes s k)" and n: "n = of_nat (length v)" and l: "unat off + length v \<le> N * BSIZE" and v: "v \<noteq> []"
    and room: "room (Suc (span (unat off) (length v))) s" and src: "src_holds i ps src v s"
  obtains s' where "writei c i k src off n s = Ok (int (length v), s')" "tx c d s'"
    and "inodes s' = (inodes s)(k := (inodes s k)\<lparr>isize := max (isize (inodes s k)) (off + n)\<rparr>)" "sb s' = sb s"
    and "file_ok d s' k N" "\<forall>q < N. faddr d s' k q = faddr d s k q"
    and "\<forall>p < N * BSIZE. fbyte d s' k p = (if unat off \<le> p \<and> p < unat off + length v then v ! (p - unat off) else fbyte d s k p)"
    and "\<forall>b. b \<notin> faddr d s k ` {..<N} \<longrightarrow> b \<noteq> IBLOCK (inum (inodes s k)) (sb s) \<longrightarrow> bview d s' b = bview d s b"
    and "tx_frame (s\<lparr>inodes := inodes s'\<rparr>) s'" "0 < lh_n s'"
    and "set (logged s') \<subseteq> set (logged s) \<union> faddr d s k ` {..<N} \<union> {IBLOCK (inum (inodes s k)) (sb s)}"
    and "length (iaddrs (inodes s k)) = Suc NDIRECT \<longrightarrow> dinode_at d s' (inum (inodes s k)) x = with_dinode (inodes s' k) x"
proof -
  obtain s' s1 where w: "writei c i k src off n s = Ok (int (length v), s')" "tx c d s'"
    "wrote_file d k N (unat off) v s s1" "inodes s1 = inodes s"
    "inodes s' = (inodes s)(k := (inodes s k)\<lparr>isize := max (isize (inodes s k)) (off + n)\<rparr>)"
    "bview d s' = (bview d s1)(IBLOCK (inum (inodes s k)) (sb s) := encode_dinode (inodes s' k) (dinode_off (inum (inodes s k)))
      (bview d s1 (IBLOCK (inum (inodes s k)) (sb s))))"
    "sb s' = sb s" "tx_frame (s\<lparr>inodes := inodes s'\<rparr>) s'"
    "set (logged s') \<subseteq> set (logged s) \<union> faddr d s k ` {..<N} \<union> {IBLOCK (inum (inodes s k)) (sb s)}" "0 < lh_n s'"
    "length (iaddrs (inodes s k)) = Suc NDIRECT \<longrightarrow> dinode_at d s' (inum (inodes s k)) x = with_dinode (inodes s' k) x"
    by (rule writei_effect [OF tx d ok ap off n l v room src, where x = x]) blast
  have a: "iaddrs (inodes s' k) = iaddrs (inodes s1 k)" by (simp add: w(4,5))
  have b: "IBLOCK (inum (inodes s k)) (sb s) \<notin> faddr d s k ` {..<N}"
    "NDIRECT < N \<Longrightarrow> IBLOCK (inum (inodes s k)) (sb s) \<noteq> iaddrs (inodes s1 k) ! NDIRECT"
    using ap by (simp_all add: inode_apart_def w(4))
  note o = outside_wrote [OF w(3) a w(6) b]
  show thesis using that [OF w(1,2,5,7) o(1) _ _ _ w(8,10,9,11)] o(2,3,4) by blast
qed

section \<open>Transactions\<close>

lemma tx_transaction:
  assumes "tx c d s" and "set (logged s) \<inter> log_area (log_start s) = {}"
  shows "transaction c d s"
  using assms txD(8) [OF assms(1)] by (auto simp: tx_def transaction_def)

lemma tx_clean: "tx c d s \<Longrightarrow> x \<notin> set (logged s) \<Longrightarrow> bview d s x = disk s x"
  using bview_unreferenced [OF txD(3)] txD(5) by fastforce

text \<open>A file none of whose blocks, the indirect block and that of its inode among them, lies in the log.\<close>

definition off_log :: "u32 \<Rightarrow> 'a kfs_scheme \<Rightarrow> nat \<Rightarrow> nat \<Rightarrow> bool" where
  "off_log d s k N \<longleftrightarrow> faddr d s k ` {..<N} \<inter> log_area (log_start s) = {} \<and>
     IBLOCK (inum (inodes s k)) (sb s) \<notin> log_area (log_start s) \<and>
     (NDIRECT < N \<longrightarrow> iaddrs (inodes s k) ! NDIRECT \<notin> log_area (log_start s))"

text \<open>A transaction that has logged nothing yet, of the one operation under way.\<close>

definition fresh_tx :: "nat \<Rightarrow> u32 \<Rightarrow> 'a klog_scheme \<Rightarrow> bool" where
  "fresh_tx c d s \<longleftrightarrow> tx c d s \<and> logged s = [] \<and> outstanding s = 1 \<and> \<not> committing s"

lemma written_transaction:
  assumes f: "fresh_tx c d s" and ol: "off_log d s k N" and tx: "tx c d s'" and fr: "tx_frame (s\<lparr>inodes := I\<rparr>) s'"
    and lg: "set (logged s') \<subseteq> set (logged s) \<union> faddr d s k ` {..<N} \<union> {IBLOCK (inum (inodes s k)) (sb s)}"
  shows "transaction c d s'" "outstanding s' = 1" "\<not> committing s'" "log_start s' = log_start s" "disk s' = disk s"
proof -
  have F: "outstanding s' = 1" "\<not> committing s'" "log_start s' = log_start s" "disk s' = disk s"
    using f tx_frameD [OF fr] by (simp_all add: fresh_tx_def)
  then show "outstanding s' = 1" "\<not> committing s'" "log_start s' = log_start s" "disk s' = disk s" by blast+
  have "set (logged s') \<inter> log_area (log_start s') = {}"
    using lg f ol unfolding F(3) off_log_def fresh_tx_def by auto
  then show "transaction c d s'" by (rule tx_transaction [OF tx])
qed

section \<open>Files on the disk\<close>

text \<open>
  What a disk \<open>D\<close> with superblock \<open>b\<close> holds for inode \<open>n\<close>, without any help of memory: the inode in its block, the
  address of a block of the file, through the indirect block, and the bytes of the file, as many as the inode says.
\<close>

definition disk_inode :: "(u32 \<Rightarrow> u8 list) \<Rightarrow> superblock \<Rightarrow> u32 \<Rightarrow> inode" where
  "disk_inode D b n = decode_dinode (D (IBLOCK n b)) (dinode_off n) no_inode"

definition disk_addr :: "(u32 \<Rightarrow> u8 list) \<Rightarrow> inode \<Rightarrow> nat \<Rightarrow> u32" where
  "disk_addr D x q = (if q < NDIRECT then iaddrs x ! q else get32 (D (iaddrs x ! NDIRECT)) (4 * (q - NDIRECT)))"

definition disk_file :: "(u32 \<Rightarrow> u8 list) \<Rightarrow> superblock \<Rightarrow> u32 \<Rightarrow> u8 list" where
  "disk_file D b n = (let x = disk_inode D b n
     in map (\<lambda>p. D (disk_addr D x (p div BSIZE)) ! (p mod BSIZE)) [0..<unat (isize x)])"

text \<open>The entry \<open>k\<close> of the inode cache is what the disk has.\<close>

definition in_sync :: "(u32 \<Rightarrow> u8 list) \<Rightarrow> 'a kfs_scheme \<Rightarrow> nat \<Rightarrow> bool" where
  "in_sync D s k \<longleftrightarrow> disk_inode D (sb s) (inum (inodes s k)) = with_dinode (inodes s k) no_inode"

lemma in_sync_addrs: "in_sync D s k \<Longrightarrow> length (iaddrs (inodes s k)) = Suc NDIRECT"
proof -
  assume "in_sync D s k"
  from arg_cong [OF this [unfolded in_sync_def], of "\<lambda>x. length (iaddrs x)"] show ?thesis
    by (simp add: disk_inode_def decode_dinode_def with_dinode_def)
qed

lemma disk_file_cached:
  assumes "in_sync (bview d s) s k"
  shows "disk_file (bview d s) (sb s) (inum (inodes s k)) = map (fbyte d s k) [0..<unat (isize (inodes s k))]"
  using assms unfolding in_sync_def
  by (simp add: disk_file_def Let_def disk_addr_def with_dinode_def fbyte_def faddr_def)

text \<open>A disk that agrees with the cached content on the blocks of a file, its indirect block and its inode's holds the same file.\<close>

lemma disk_file_agree:
  assumes "in_sync (bview d s) s k" and "unat (isize (inodes s k)) \<le> N * BSIZE"
    and "D (IBLOCK (inum (inodes s k)) (sb s)) = bview d s (IBLOCK (inum (inodes s k)) (sb s))"
    and "\<forall>q < N. D (faddr d s k q) = bview d s (faddr d s k q)"
    and "NDIRECT < N \<Longrightarrow> D (iaddrs (inodes s k) ! NDIRECT) = bview d s (iaddrs (inodes s k) ! NDIRECT)"
  shows "disk_file D (sb s) (inum (inodes s k)) = map (fbyte d s k) [0..<unat (isize (inodes s k))]"
proof -
  have x: "disk_inode D (sb s) (inum (inodes s k)) = with_dinode (inodes s k) no_inode"
    using assms(1,3) by (simp add: in_sync_def disk_inode_def)
  have "D (disk_addr D (with_dinode (inodes s k) no_inode) (p div BSIZE)) ! (p mod BSIZE) = fbyte d s k p"
    if "p < unat (isize (inodes s k))" for p
  proof -
    have q: "p div BSIZE < N" using that assms(2) by (intro less_mult_imp_div_less) simp
    then have "disk_addr D (with_dinode (inodes s k) no_inode) (p div BSIZE) = faddr d s k (p div BSIZE)"
      using assms(5) by (simp add: disk_addr_def faddr_def with_dinode_def)
    then show ?thesis using assms(4) q by (simp add: fbyte_def)
  qed
  then show ?thesis by (simp add: disk_file_def x) (simp add: with_dinode_def)
qed

text \<open>The bytes of a file after a write at most at its end.\<close>

lemma spliced_bytes:
  assumes "off \<le> z" and "\<forall>p < max z (off + length v). g p = (if off \<le> p \<and> p < off + length v then v ! (p - off) else f p)"
  shows "map g [0..<max z (off + length v)] = put_bytes off v (map f [0..<z])"
proof (rule nth_equalityI)
  fix p assume "p < length (map g [0..<max z (off + length v)])"
  then have p: "p < max z (off + length v)" by simp
  then have "map g [0..<max z (off + length v)] ! p = (if off \<le> p \<and> p < off + length v then v ! (p - off) else f p)"
    using assms(2) by simp
  also have "\<dots> = put_bytes off v (map f [0..<z]) ! p"
    using p assms(1) by (auto simp: put_bytes_def nth_append min_def take_map drop_map)
  finally show "map g [0..<max z (off + length v)] ! p = put_bytes off v (map f [0..<z]) ! p" .
qed (use assms(1) in \<open>simp add: put_bytes_def\<close>)

text \<open>A disk that has the cached content outside the log holds the file; the same after a write.\<close>

lemma disk_file_off_log:
  assumes sync: "in_sync (bview d s) s k" and z: "unat (isize (inodes s k)) \<le> N * BSIZE" and out: "off_log d s k N"
    and D: "\<And>x. x \<notin> log_area (log_start s) \<Longrightarrow> D x = bview d s x"
  shows "disk_file D (sb s) (inum (inodes s k)) = map (fbyte d s k) [0..<unat (isize (inodes s k))]"
  by (rule disk_file_agree [OF sync z]) (use out in \<open>auto simp: off_log_def intro: D\<close>)

lemma disk_file_written:
  assumes sync: "in_sync (bview d s1) s1 k" and z: "unat (isize (inodes s k)) \<le> N * BSIZE" and out: "off_log d s k N"
    and off: "off \<le> isize (inodes s k)" and l: "unat off + length v \<le> N * BSIZE" "N \<le> MAXFILE"
    and i: "inodes s1 = (inodes s)(k := (inodes s k)\<lparr>isize := max (isize (inodes s k)) (off + of_nat (length v))\<rparr>)" "sb s1 = sb s"
      "\<forall>q < N. faddr d s1 k q = faddr d s k q" "log_start s1 = log_start s"
    and b: "\<forall>p < N * BSIZE. fbyte d s1 k p = (if unat off \<le> p \<and> p < unat off + length v then v ! (p - unat off) else fbyte d s k p)"
    and D: "\<And>x. x \<notin> log_area (log_start s) \<Longrightarrow> D x = bview d s1 x"
  shows "disk_file D (sb s) (inum (inodes s k)) = put_bytes (unat off) v (map (fbyte d s k) [0..<unat (isize (inodes s k))])"
proof -
  have "unat off + length v < 2 ^ 32" using l by simp
  then have "unat (off + of_nat (length v)) = unat off + length v" by (simp add: unat_plus_if')
  then have z1: "unat (isize (inodes s1 k)) = max (unat (isize (inodes s k))) (unat off + length v)"
    by (simp add: i(1) max_def word_le_nat_alt)
  have "faddr d s1 k ` {..<N} = faddr d s k ` {..<N}" using i(3) by (intro image_cong) simp_all
  then have "off_log d s1 k N" using out by (simp add: off_log_def i(1,2,4))
  from disk_file_off_log [OF sync _ this, of D] z l(1) z1 D i(4)
  have "disk_file D (sb s1) (inum (inodes s1 k)) = map (fbyte d s1 k) [0..<unat (isize (inodes s1 k))]" by simp
  moreover have "map (fbyte d s1 k) [0..<unat (isize (inodes s1 k))] = put_bytes (unat off) v (map (fbyte d s k) [0..<unat (isize (inodes s k))])"
    unfolding z1 by (rule spliced_bytes) (use b z off l(1) in \<open>auto simp: word_le_nat_alt\<close>)
  ultimately show ?thesis by (simp add: i(1,2))
qed

section \<open>A file of twenty bytes\<close>

lemma inode5_file:
  "idev (inodes inode5_fs 2) = 1" "isize (inodes inode5_fs 2) = 20" "faddr 1 inode5_fs 2 0 = 50" "file_ok 1 inode5_fs 2 1"
  "inode_apart 1 inode5_fs 2 1" "inum (inodes inode5_fs 2) = 5" "IBLOCK 5 small_sb = 32" "p < 20 \<Longrightarrow> fbyte 1 inode5_fs 2 p = of_nat (Suc p)"
proof -
  show "idev (inodes inode5_fs 2) = 1" "isize (inodes inode5_fs 2) = 20" "inum (inodes inode5_fs 2) = 5"
    by (simp_all add: inode5_fs_entry(1) inode5_def)
  show i: "IBLOCK 5 small_sb = 32" by (simp add: IBLOCK_def small_sb_def)
  show f: "faddr 1 inode5_fs 2 0 = 50" by (simp add: faddr_def inode5_fs_entry(1) inode5_def)
  show "file_ok 1 inode5_fs 2 1" using f by (simp add: file_ok_def lessThan_Suc)
  show "inode_apart 1 inode5_fs 2 1"
    using f i by (simp add: inode_apart_def lessThan_Suc inode5_fs_entry inode5_def)
  show "p < 20 \<Longrightarrow> fbyte 1 inode5_fs 2 p = of_nat (Suc p)"
    using f by (simp add: fbyte_def inode5_fs_tx(2) inode5_disk_def nth_append del: upt_rec_numeral)
qed

lemma inode5_sync: "in_sync (disk inode5_fs) inode5_fs 2"
proof -
  have "disk inode5_fs = inode5_disk" by (simp add: inode5_fs_def fs_on_fields)
  moreover have "length (iaddrs inode5) = Suc NDIRECT" by (simp add: inode5_def)
  moreover have "dinode_off 5 + 64 \<le> length (small_disk 32)" using dinode_off_bound [of 5] by (simp add: small_disk_length)
  ultimately show ?thesis
    unfolding in_sync_def disk_inode_def inode5_file(6,7) inode5_fs_entry(4)
    using decode_encode [of "dinode_off 5" "small_disk 32" inode5 no_inode] by (simp add: inode5_disk_def inode5_fs_entry(1))
qed

lemma inode5_content: "disk_file (disk inode5_fs) small_sb 5 = map of_nat [1..<21]"
proof -
  have d: "bview 1 inode5_fs = disk inode5_fs" unfolding inode5_fs_tx(2) by (simp add: inode5_fs_def fs_on_fields)
  have "in_sync (bview 1 inode5_fs) inode5_fs 2" unfolding d by (rule inode5_sync)
  from disk_file_cached [OF this]
  have "disk_file (disk inode5_fs) small_sb 5 = map (fbyte 1 inode5_fs 2) [0..<20]"
    unfolding d by (simp add: inode5_file(2,6) inode5_fs_entry(4))
  also have "\<dots> = map (of_nat \<circ> Suc) [0..<20]" using inode5_file(8) by (intro map_cong) simp_all
  also have "\<dots> = map of_nat [1..<21]" unfolding map_map [symmetric] map_Suc_upt by simp
  finally show ?thesis .
qed

lemma inode5_log: "log_start inode5_fs = 2" "\<not> committing inode5_fs" "logged inode5_fs = []" "outstanding inode5_fs = 1"
  "disk_n 2 (disk inode5_fs) = 0"
proof -
  show "log_start inode5_fs = 2" "\<not> committing inode5_fs" "logged inode5_fs = []" "outstanding inode5_fs = 1"
    by (simp_all add: inode5_fs_def fs_on_fields logged_def)
  have "disk inode5_fs 2 = replicate BSIZE 0" by (simp add: inode5_fs_def fs_on_fields inode5_disk_def small_disk_def)
  moreover have "(bytes_word (replicate 4 0) :: u32) = 0" by (simp add: eval_nat_numeral)
  ultimately show "disk_n 2 (disk inode5_fs) = 0" by (simp add: disk_n_def get_field_def)
qed

lemma inode5_fresh: "fresh_tx 0 1 inode5_fs" "off_log 1 inode5_fs 2 1"
proof -
  show "fresh_tx 0 1 inode5_fs" using inode5_fs_tx(1) by (simp add: fresh_tx_def inode5_log)
  have "(32 :: u32) \<notin> log_area 2" "(50 :: u32) \<notin> log_area 2"
    using after_log_area [of 2 32] after_log_area [of 2 50] by simp_all
  then show "off_log 1 inode5_fs 2 1"
    using inode5_file(3,6,7) by (simp add: off_log_def lessThan_Suc inode5_log inode5_fs_entry(4))
qed

section \<open>Properties\<close>

text \<open>
  C5. \<open>readi\<close> of a file all of whose blocks are allocated delivers the bytes of the file from the offset on, as many as asked
  for or up to the end of the file, and returns their number. In user memory they are then at consecutive addresses from the
  target on, and no other byte of memory has changed; in kernel memory, and in a local variable of the caller, they have been
  written from the target on. Neither the blocks nor the inodes change. An offset beyond the end, or a sum of
  offset and count that wraps, reads nothing.
\<close>

theorem readi_returns_bytes:
  assumes "tx c d s" and "idev (inodes s k) = d" and "file_ok d s k N" and "unat (isize (inodes s k)) \<le> N * BSIZE"
    and "bs = map (fbyte d s k) [unat off..<min (unat off + unat n) (unat (isize (inodes s k)))]" and "pt = pagetable (procs s i)"
  shows "if off > isize (inodes s k) \<or> off + n < off then readi c i k dst off n loc s = Ok ((0, loc), s)
    else case dst of
        DUser a \<Rightarrow> user_wf s pt ps \<and> mapped (pmem s) pt a (length bs) \<longrightarrow> (\<exists>s'. readi c i k dst off n loc s = Ok ((length bs, loc), s') \<and>
          ubytes (pmem s') pt a (length bs) = bs \<and>
          (\<forall>y. (\<forall>j < length bs. utrans (pmem s) pt (a + of_nat j) \<noteq> Some y) \<longrightarrow> pmem s' y = pmem s y) \<and>
          tx c d s' \<and> inodes s' = inodes s \<and> bview d s' = bview d s)
      | DKern a \<Rightarrow> \<exists>s'. readi c i k dst off n loc s = Ok ((length bs, loc), s') \<and> pmem s' = write_bytes (pmem s) a bs \<and>
          tx c d s' \<and> inodes s' = inodes s \<and> bview d s' = bview d s
      | DLocal p \<Rightarrow> p + length bs \<le> length loc \<longrightarrow> (\<exists>s'. readi c i k dst off n loc s = Ok ((length bs, put_bytes p bs loc), s') \<and>
          pmem s' = pmem s \<and> tx c d s' \<and> inodes s' = inodes s \<and> bview d s' = bview d s)"
proof (cases "off > isize (inodes s k) \<or> off + n < off")
  case True
  then show ?thesis by (simp add: readi_def)
next
  case False
  then have o: "off \<le> isize (inodes s k)" "off \<le> off + n" by auto
  have E: "\<exists>m loc' s'. readi c i k dst off n loc s = Ok ((length bs, loc'), s') \<and> dst_wrote pt dst bs (pmem s) loc m loc' \<and>
      pmem s' = m \<and> tx c d s' \<and> inodes s' = inodes s \<and> bview d s' = bview d s" if ok: "dst_ok i ps dst (length bs) loc s"
  proof -
    obtain m loc' s' where e: "readi c i k dst off n loc s = Ok ((length bs, loc'), s')"
      "dst_wrote (pagetable (procs s i)) dst bs (pmem s) loc m loc'" "tx c d s'" "tx_frame (s\<lparr>pmem := m\<rparr>) s'" "bview d s' = bview d s"
      by (rule readi_effect [OF assms(1-4) o assms(5) ok])
    have "pmem s' = m" "inodes s' = inodes s" using tx_frame_mem(1) [OF e(4)] tx_frame_fs(2) [OF e(4)] by simp_all
    then show ?thesis using e assms(6) by blast
  qed
  show ?thesis
  proof (cases dst)
    case (DUser a)
    have "user_wrote m pt a bs m' \<Longrightarrow> ubytes m' pt a (length bs) = bs \<and>
        (\<forall>y. (\<forall>j < length bs. utrans m pt (a + of_nat j) \<noteq> Some y) \<longrightarrow> m' y = m y)" for m m'
      using user_wrote_ubytes by (simp add: user_wrote_def)
    then show ?thesis using False E DUser assms(6) by auto
  next
    case (DKern a)
    then show ?thesis using False E by simp
  next
    case (DLocal p)
    then show ?thesis using False E by auto
  qed
qed

text \<open>The machine above, with process 0 running in an address space of one page.\<close>

lemma inode5_user_space:
  obtains u :: kfs and ps where "tx 0 1 u" "inodes u = inodes inode5_fs" "bview 1 u = bview 1 inode5_fs" "user_wf u (pagetable (procs u 0)) ps"
    and "mapped (pmem u) (pagetable (procs u 0)) 0x10 2"
proof -
  obtain m :: kmem and ps where m: "user_wf m 0x80001000 ps"
    "\<forall>n. user_page (pmem m) 0x80001000 n = (if n = 0 then Some 0x80005000 else None)"
    using demo_user by blast
  define u where "u = inode5_fs\<lparr>pmem := pmem m, freelist := freelist m, kend := kend m,
    procs := (procs inode5_fs)(0 := (procs inode5_fs 0)\<lparr>pagetable := 0x80001000\<rparr>)\<rparr>"
  have "tx 0 1 u" "bview 1 u = bview 1 inode5_fs" using tx_same [OF inode5_fs_tx(1), of u] by (simp_all add: u_def)
  moreover have "user_wf u 0x80001000 ps" using user_wf_cong [of u m] m(1) by (simp add: u_def)
  moreover have "mapped (pmem m) 0x80001000 16 2" using demo_mapped [OF m(2)] by (simp add: mapped_def)
  ultimately show thesis using that [of u ps] by (simp add: u_def)
qed

theorem readi_returns_bytes_witness:
  "\<exists>(u :: kfs) s'. readi 0 0 2 (DUser 0x10) 18 100 [] u = Ok ((2, []), s') \<and> ubytes (pmem s') (pagetable (procs u 0)) 0x10 2 = [19, 20]"
proof -
  obtain u :: kfs and ps where u: "tx 0 1 u" "inodes u = inodes inode5_fs" "bview 1 u = bview 1 inode5_fs"
    "user_wf u (pagetable (procs u 0)) ps" "mapped (pmem u) (pagetable (procs u 0)) 0x10 2"
    by (rule inode5_user_space)
  note c = faddr_cong [OF u(2,3)]
  have bs: "[19, 20] = map (fbyte 1 u 2) [unat (18 :: u32)..<min (unat (18 :: u32) + unat (100 :: u32)) (unat (isize (inodes u 2)))]"
    by (simp add: c(2) u(2) inode5_file(2) upt_rec inode5_file(8))
  have i: "idev (inodes u 2) = 1" "file_ok 1 u 2 1" "unat (isize (inodes u 2)) \<le> 1 * BSIZE" "isize (inodes u 2) = 20"
    using inode5_file(1,2,4) by (simp_all add: u(2) c(3))
  have l: "length ([19, 20] :: u8 list) = 2" by simp
  show ?thesis
    using readi_returns_bytes [OF u(1) i(1-3) bs refl, where i = 0 and dst = "DUser 0x10" and loc = "[]" and ps = ps] u(4,5)
    unfolding l i(4) by auto
qed

text \<open>
  C4. \<open>writei\<close> from user memory, kernel memory or a local variable, over allocated blocks of a file and starting at most at its
  end, writes all the bytes: \<open>readi\<close> at the same offset returns them, every other byte of the file is as before, the
  size grows to the end of the write when that is beyond it, and no block outside the file but that of its inode changes.
\<close>

theorem writei_then_readi:
  assumes "tx c d s" and "idev (inodes s k) = d" and "file_ok d s k N" and "inode_apart d s k N"
    and "unat (isize (inodes s k)) \<le> N * BSIZE" and "off \<le> isize (inodes s k)" and "unat off + length v \<le> N * BSIZE" and "v \<noteq> []"
    and "room (Suc (span (unat off) (length v))) s" and "src_holds i ps src v s" and "length loc = length v"
  shows "\<exists>s1 s2. writei c i k src off (of_nat (length v)) s = Ok (int (length v), s1) \<and>
    readi c i k (DLocal 0) off (of_nat (length v)) loc s1 = Ok ((length v, v), s2) \<and>
    unat (isize (inodes s2 k)) = max (unat (isize (inodes s k))) (unat off + length v) \<and>
    (\<forall>p < N * BSIZE. p < unat off \<or> unat off + length v \<le> p \<longrightarrow> fbyte d s2 k p = fbyte d s k p) \<and>
    (\<forall>b. b \<notin> faddr d s k ` {..<N} \<and> b \<noteq> IBLOCK (inum (inodes s k)) (sb s) \<longrightarrow> bview d s2 b = bview d s b)"
proof -
  define n :: u32 where "n = of_nat (length v)"
  obtain s1 where w: "writei c i k src off n s = Ok (int (length v), s1)" "tx c d s1"
    "inodes s1 = (inodes s)(k := (inodes s k)\<lparr>isize := max (isize (inodes s k)) (off + n)\<rparr>)" "file_ok d s1 k N"
    "\<forall>p < N * BSIZE. fbyte d s1 k p = (if unat off \<le> p \<and> p < unat off + length v then v ! (p - unat off) else fbyte d s k p)"
    "\<forall>b. b \<notin> faddr d s k ` {..<N} \<longrightarrow> b \<noteq> IBLOCK (inum (inodes s k)) (sb s) \<longrightarrow> bview d s1 b = bview d s b"
    by (rule writei_file [OF assms(1-4,6) n_def assms(7-10)]) blast
  have "N * BSIZE \<le> MAXFILE * BSIZE" using assms(3) by (simp add: file_ok_def)
  then have b: "unat n = length v" "unat off + length v < 2 ^ 32" using assms(7) by (simp_all add: n_def)
  then have on: "unat (off + n) = unat off + length v" by (simp add: unat_plus_if')
  have z: "unat (isize (inodes s1 k)) = max (unat (isize (inodes s k))) (unat off + length v)"
    by (simp add: w(3) max_def word_le_nat_alt on)
  have "map (fbyte d s1 k) [unat off..<unat off + length v] = v"
    using w(5) assms(7) by (intro nth_equalityI) simp_all
  then have bs: "v = map (fbyte d s1 k) [unat off..<min (unat off + unat n) (unat (isize (inodes s1 k)))]" using z b(1) by simp
  obtain m loc' s2 where r: "readi c i k (DLocal 0) off n loc s1 = Ok ((length v, loc'), s2)" "dst_wrote (pagetable (procs s1 i)) (DLocal 0) v (pmem s1) loc m loc'"
    "tx c d s2" "tx_frame (s1\<lparr>pmem := m\<rparr>) s2" "bview d s2 = bview d s1"
    by (rule readi_effect [OF w(2) _ w(4) _ _ _ bs, of i ps "DLocal 0" loc])
      (use assms z on in \<open>simp_all add: w(3) word_le_nat_alt\<close>)
  have "loc' = v" using r(2) assms(11) by (simp add: put_bytes_def)
  moreover have i2: "inodes s2 = inodes s1" using tx_frame_fs(2) [OF r(4)] by simp
  moreover have "fbyte d s2 k = fbyte d s1 k" using faddr_cong(2) [OF i2 r(5)] .
  ultimately show ?thesis
    using w(1,5,6) z r(1,5) unfolding n_def [symmetric] by (intro exI [of _ s1] exI [of _ s2]) auto
qed

theorem writei_then_readi_witness:
  "\<exists>s1 s2. writei 0 0 2 (SLocal [7, 8, 9]) 19 3 inode5_fs = Ok (3, s1) \<and> readi 0 0 2 (DLocal 0) 19 3 [0, 0, 0] s1 = Ok ((3, [7, 8, 9]), s2) \<and>
    unat (isize (inodes s2 2)) = 22"
  using writei_then_readi [OF inode5_fs_tx(1) inode5_file(1,4,5), where off = 19 and v = "[7, 8, 9]" and src = "SLocal [7, 8, 9]"
      and loc = "[0, 0, 0]" and i = 0 and c = 0]
  by (auto simp: inode5_file(2) inode5_fs_tx(3) span_def numeral_3_eq_3)

text \<open>
  C3. A file write is durable and atomic. A process alone in its transaction writes bytes, from user or kernel memory, to a file
  over allocated blocks outside the log, and \<open>end_op\<close> commits. The machine stops after any number \<open>m\<close> of the disk writes of the
  commit, and restarts any number of times. After the next boot has run the recovery, the file on the disk, its size and
  its bytes as the inode on the disk gives them, is the old file with the bytes written at the offset, and longer when
  they go beyond its end, if the header was written, and the old file otherwise. Blocks outside the log that are neither
  the file's nor the inode's are as before.
\<close>

theorem file_write_atomic:
  assumes "fresh_tx c d s" and "disk_n (log_start s) (disk s) = 0" and "sint start = log_start s"
    and "idev (inodes s k) = d" and "file_ok d s k N" and "inode_apart d s k N" and "off_log d s k N"
    and "in_sync (disk s) s k" and "unat (isize (inodes s k)) \<le> N * BSIZE"
    and "off \<le> isize (inodes s k)" and "unat off + length v \<le> N * BSIZE" and "v \<noteq> []"
    and "room (Suc (span (unat off) (length v))) s" and "src_holds i ps src v s"
    and "writei c i k src off (of_nat (length v)) s = Ok (r, s1)" and "end_op c i s1 = Ok s2"
    and "disk_writes s2 = disk_writes s1 @ ws"
    and "reboots d start (apply_writes (take m ws) (disk s1)) (disk t)" and "powered_up c' d t"
  shows "\<exists>t'. initlog c' i' d start nlog t = Ok t' \<and>
    disk_file (disk t') (sb s) (inum (inodes s k)) =
      (if nat (lh_n s1) < m then put_bytes (unat off) v (disk_file (disk s) (sb s) (inum (inodes s k)))
       else disk_file (disk s) (sb s) (inum (inodes s k))) \<and>
    (\<forall>b. b \<notin> log_area (log_start s) \<and> b \<notin> faddr d s k ` {..<N} \<and> b \<noteq> IBLOCK (inum (inodes s k)) (sb s) \<longrightarrow> disk t' b = disk s b)"
proof -
  let ?n = "inum (inodes s k)"
  have tx: "tx c d s" and l0: "logged s = []" using assms(1) by (simp_all add: fresh_tx_def)
  have v0: "bview d s = disk s" using tx_clean [OF tx] l0 by auto
  have sync: "in_sync (bview d s) s k" unfolding v0 by (rule assms(8))
  obtain s' where w: "writei c i k src off (of_nat (length v)) s = Ok (int (length v), s')" "tx c d s'"
    "inodes s' = (inodes s)(k := (inodes s k)\<lparr>isize := max (isize (inodes s k)) (off + of_nat (length v))\<rparr>)" "sb s' = sb s"
    "\<forall>q < N. faddr d s' k q = faddr d s k q"
    "\<forall>p < N * BSIZE. fbyte d s' k p = (if unat off \<le> p \<and> p < unat off + length v then v ! (p - unat off) else fbyte d s k p)"
    "\<forall>b. b \<notin> faddr d s k ` {..<N} \<longrightarrow> b \<noteq> IBLOCK ?n (sb s) \<longrightarrow> bview d s' b = bview d s b"
    "tx_frame (s\<lparr>inodes := inodes s'\<rparr>) s'" "0 < lh_n s'"
    "set (logged s') \<subseteq> set (logged s) \<union> faddr d s k ` {..<N} \<union> {IBLOCK ?n (sb s)}"
    "length (iaddrs (inodes s k)) = Suc NDIRECT \<longrightarrow> dinode_at d s' ?n no_inode = with_dinode (inodes s' k) no_inode"
    by (rule writei_file [OF tx assms(4-6,10) refl assms(11-14), of no_inode]) blast
  have s1: "s1 = s'" using w(1) assms(15) by simp
  note tr = written_transaction [OF assms(1,7) w(2,8,10), folded s1]
  obtain u where "end_op c i s1 = Ok u" "disk_writes u = disk_writes s1 @ commit_writes d s1"
    by (rule end_op_effect [OF tr(1) _ tr(2,3), of i]) (use w(9) s1 in auto)
  then have ws: "ws = commit_writes d s1" using assms(16,17) by simp
  obtain t' where t': "initlog c' i' d start nlog t = Ok t'"
    "\<forall>x. x \<notin> log_area (log_start s) \<longrightarrow>
       disk t' x = (if nat (lh_n s1) < m \<and> x \<in> set (logged s1) then bview d s1 x else disk s1 x)"
    using crash_then_boot [OF tr(1) _ _ assms(18) [unfolded ws] assms(19), of i' nlog] assms(2,3) tr(4,5) by auto
  have D: "disk t' x = (if nat (lh_n s1) < m then bview d s1 else bview d s) x" if "x \<notin> log_area (log_start s)" for x
    using t'(2) that tx_clean [OF w(2)] tr(5) v0 s1 by auto
  have "in_sync (bview d s1) s1 k"
    using w(11) in_sync_addrs [OF sync] by (simp add: in_sync_def s1 w(3,4) dinode_at_def disk_inode_def)
  from disk_file_written [OF this assms(9,7,10,11) _ _ _ _ tr(4)] w(3-6) assms(5)
  have new: "(\<And>x. x \<notin> log_area (log_start s) \<Longrightarrow> E x = bview d s1 x) \<Longrightarrow>
      disk_file E (sb s) ?n = put_bytes (unat off) v (map (fbyte d s k) [0..<unat (isize (inodes s k))])" for E
    by (simp add: s1 file_ok_def)
  note old = disk_file_off_log [OF sync assms(9,7)]
  have "disk_file (disk s) (sb s) ?n = map (fbyte d s k) [0..<unat (isize (inodes s k))]" by (rule old) (simp add: v0)
  then have "disk_file (disk t') (sb s) ?n = (if nat (lh_n s1) < m then put_bytes (unat off) v (disk_file (disk s) (sb s) ?n)
       else disk_file (disk s) (sb s) ?n)"
    using new [of "disk t'"] old [of "disk t'"] D by simp
  moreover have "disk t' b = disk s b" if "b \<notin> log_area (log_start s)" "b \<notin> faddr d s k ` {..<N}" "b \<noteq> IBLOCK ?n (sb s)" for b
    using D [OF that(1)] w(7) that(2,3) s1 v0 by (auto split: if_splits)
  ultimately show ?thesis using t'(1) by blast
qed

theorem file_write_atomic_witness:
  "\<exists>s1 s2 D t'. writei 0 0 2 (SLocal [7, 8, 9]) 19 3 inode5_fs = Ok (3, s1) \<and> end_op 0 0 s1 = Ok s2 \<and>
    initlog 0 0 1 2 30 (binit (boot_log\<lparr>disk := D\<rparr>)) = Ok t' \<and> disk_file (disk t') small_sb 5 = map of_nat [1..<20] @ [7, 8, 9]"
proof -
  let ?v = "[7, 8, 9] :: u8 list"
  have room: "room (Suc (span (unat (19 :: u32)) (length ?v))) inode5_fs" by (simp add: inode5_fs_tx(3) span_def)
  have src: "src_holds 0 [] (SLocal ?v) ?v inode5_fs" by simp
  have len: "unat (19 :: u32) + length ?v \<le> 1 * BSIZE" "(19 :: u32) \<le> isize (inodes inode5_fs 2)" "?v \<noteq> []"
    "unat (isize (inodes inode5_fs 2)) \<le> 1 * BSIZE" by (simp_all add: inode5_file(2))
  obtain s1 where w: "writei 0 0 2 (SLocal ?v) 19 (of_nat (length ?v)) inode5_fs = Ok (int (length ?v), s1)" "tx 0 1 s1"
    "tx_frame (inode5_fs\<lparr>inodes := inodes s1\<rparr>) s1" "0 < lh_n s1"
    "set (logged s1) \<subseteq> set (logged inode5_fs) \<union> faddr 1 inode5_fs 2 ` {..<1} \<union> {IBLOCK (inum (inodes inode5_fs 2)) (sb inode5_fs)}"
    by (rule writei_file [OF inode5_fs_tx(1) inode5_file(1,4,5) len(2) refl len(1,3) room src]) blast
  note tr = written_transaction [OF inode5_fresh w(2,3,5)]
  obtain s2 where e: "end_op 0 0 s1 = Ok s2" "disk_writes s2 = disk_writes s1 @ commit_writes 1 s1"
    by (rule end_op_effect [OF tr(1) w(4) tr(2,3), of 0]) auto
  define D where "D = apply_writes (take (Suc (nat (lh_n s1))) (commit_writes 1 s1)) (disk s1)"
  define t where "t = binit (boot_log\<lparr>disk := D\<rparr>)"
  have "\<forall>b. length (D b) = BSIZE"
    using crash_after_header [OF tr(1), of "Suc (nat (lh_n s1))"] log_validD(6) unfolding D_def recovers_def by blast
  then have p: "powered_up 0 1 t" unfolding t_def by (rule boot_log_powered_up [rotated]) simp
  have "calm 0 (boot_log\<lparr>disk := D\<rparr>)" by (rule calm_same [OF boot_log_calm]) simp_all
  from binit_effect(2) [OF this] have "disk t = D" by (simp add: t_def)
  then have r: "reboots 1 2 (apply_writes (take (Suc (nat (lh_n s1))) (commit_writes 1 s1)) (disk s1)) (disk t)"
    unfolding D_def by (simp add: reboots_none)
  have l: "disk_n (log_start inode5_fs) (disk inode5_fs) = 0" "sint (2 :: u32) = log_start inode5_fs" by (simp_all add: inode5_log)
  obtain t' where t': "initlog 0 0 1 2 30 t = Ok t'" "disk_file (disk t') small_sb 5 = put_bytes 19 ?v (disk_file (disk inode5_fs) small_sb 5)"
    using file_write_atomic [OF inode5_fresh(1) l inode5_file(1,4,5) inode5_fresh(2) inode5_sync len(4,2,1,3) room src w(1) e r p, of 0 30]
    by (auto simp: inode5_file(6) inode5_fs_entry(4))
  have "disk_file (disk t') small_sb 5 = map of_nat [1..<20] @ ?v" using t'(2) inode5_content by (simp add: put_bytes_def take_map)
  then show ?thesis using w(1) e(1) t'(1) unfolding t_def by auto
qed

end
