(* ===== verification/Console.thy ===== *)
theory Console
  imports Fs
begin

text \<open>
  kernel/uart.c, kernel/console.c, kernel/printf.c and \<open>procdump\<close> of kernel/proc.c.
  The UART device is part of the state: \<open>uart_in\<close> are the bytes that have arrived and
  wait in the receive register, \<open>uart_room\<close> is how many bytes the transmitter
  accepts before it is busy (the bit \<open>LSR_TX_IDLE\<close> is \<open>uart_room > 0\<close>), and \<open>uart_out\<close>
  are the bytes that were written to the transmit register. Within a call the transmitter does not send: its room
  only shrinks, so a wait for a busy transmitter that would end when it drains is the outcome \<open>Spin\<close>.
\<close>

section \<open>State\<close>

abbreviation UART_TX_BUF_SIZE :: nat where "UART_TX_BUF_SIZE \<equiv> 32"
abbreviation INPUT_BUF :: nat where "INPUT_BUF \<equiv> 128"
abbreviation NDEV :: nat where "NDEV \<equiv> 10"
abbreviation CONSOLE :: nat where "CONSOLE \<equiv> 1"
abbreviation BACKSPACE :: nat where "BACKSPACE \<equiv> 256"

datatype devops = Console_ops

record kdev = kfs +
  uart_in :: "u8 list"
  uart_room :: nat
  uart_out :: "u8 list"
  uart_tx_buf :: "u8 list"
  uart_tx_w :: nat
  uart_tx_r :: nat
  cons_buf :: "u8 list"
  cons_r :: u32
  cons_w :: u32
  cons_e :: u32
  pr_locking :: bool
  sys_panicked :: bool
  devsw :: "nat \<Rightarrow> devops option"

definition str :: "string \<Rightarrow> u8 list" where
  "str = map of_char"

section \<open>uart.c\<close>

text \<open>\<open>WriteReg(THR, c)\<close>: the transmitter takes the byte.\<close>

definition write_THR :: "u8 \<Rightarrow> 'a kdev_scheme \<Rightarrow> 'a kdev_scheme" where
  "write_THR b s = s\<lparr>uart_out := uart_out s @ [b], uart_room := uart_room s - 1\<rparr>"

text \<open>\<open>uartinit\<close> also writes the device's configuration registers, which the model does not have.\<close>

definition uartinit :: "'a kdev_scheme \<Rightarrow> 'a kdev_scheme" where
  "uartinit s = initlock Lk_uart s"

function uartstart :: "nat \<Rightarrow> 'a kdev_scheme \<Rightarrow> 'a kdev_scheme res" where
  "uartstart c s =
     (if uart_tx_w s = uart_tx_r s then Ok s
      else if uart_room s = 0 then Ok s
      else let b = uart_tx_buf s ! uart_tx_r s;
               s1 = s\<lparr>uart_tx_r := (uart_tx_r s + 1) mod UART_TX_BUF_SIZE\<rparr>
           in bindr (wakeup c Chan_uart s1) (\<lambda>s2. uartstart c (write_THR b s2)))"
  by pat_completeness auto
termination
  by (relation "measure (\<lambda>(c, s). uart_room s)")
    (auto simp: write_THR_def sched_only_def dest!: wakeup_sched_only)

declare uartstart.simps [simp del]

definition uartputc :: "nat \<Rightarrow> nat \<Rightarrow> u8 \<Rightarrow> 'a kdev_scheme \<Rightarrow> 'a kdev_scheme res" where
  "uartputc c i b s =
     bindp (critical c Lk_uart (\<lambda>s1.
       if sys_panicked s1 then Spin
       else if (uart_tx_w s1 + 1) mod UART_TX_BUF_SIZE = uart_tx_r s1 then sleep_on c i Chan_uart Lk_uart s1
       else bindr (uartstart c (s1\<lparr>uart_tx_buf := (uart_tx_buf s1)[uart_tx_w s1 := b],
                                   uart_tx_w := (uart_tx_w s1 + 1) mod UART_TX_BUF_SIZE\<rparr>)) (\<lambda>s2.
         Ok ((), s2))) s) (\<lambda>_ s3. Ok s3)"

definition uartputc_sync :: "nat \<Rightarrow> u8 \<Rightarrow> 'a kdev_scheme \<Rightarrow> 'a kdev_scheme res" where
  "uartputc_sync c b s =
     (let s1 = push_off c s
      in if sys_panicked s1 \<or> uart_room s1 = 0 then Spin else pop_off c (write_THR b s1))"

definition uartgetc :: "'a kdev_scheme \<Rightarrow> u8 option \<times> 'a kdev_scheme" where
  "uartgetc s = (case uart_in s of [] \<Rightarrow> (None, s) | b # bs \<Rightarrow> (Some b, s\<lparr>uart_in := bs\<rparr>))"

section \<open>printf.c\<close>

definition consputc :: "nat \<Rightarrow> nat \<Rightarrow> 'a kdev_scheme \<Rightarrow> 'a kdev_scheme res" where
  "consputc c ch s =
     (if ch = BACKSPACE
      then bindr (uartputc_sync c 8 s) (\<lambda>s1. bindr (uartputc_sync c 32 s1) (\<lambda>s2. uartputc_sync c 8 s2))
      else uartputc_sync c (of_nat ch) s)"

fun consputs :: "nat \<Rightarrow> u8 list \<Rightarrow> 'a kdev_scheme \<Rightarrow> 'a kdev_scheme res" where
  "consputs c [] s = Ok s"
| "consputs c (b # bs) s = bindr (consputc c (unat b) s) (\<lambda>s1. consputs c bs s1)"

definition digits :: "u8 list" where
  "digits = str ''0123456789abcdef''"

text \<open>The digits of \<open>x\<close>, least significant first, as the first loop of \<open>printint\<close> leaves them in \<open>buf\<close>.\<close>

function int_digits :: "nat \<Rightarrow> nat \<Rightarrow> u8 list" where
  "int_digits base x =
     (if base < 2 then [] else digits ! (x mod base) # (if x div base = 0 then [] else int_digits base (x div base)))"
  by pat_completeness auto
termination
  by (relation "measure (\<lambda>(base, x). x)") (auto simp: div_eq_0_iff)

declare int_digits.simps [simp del]

definition printint :: "u32 \<Rightarrow> nat \<Rightarrow> bool \<Rightarrow> u8 list" where
  "printint xx base sign =
     (let neg = sign \<and> sint xx < 0;
          x = (if neg then - xx else xx);
          buf = int_digits base (unat x) @ (if neg then str ''-'' else [])
      in rev buf)"

definition printptr :: "u64 \<Rightarrow> u8 list" where
  "printptr x = str ''0x'' @ map (\<lambda>k. digits ! unat (drop_bit 60 (push_bit (4 * k) x))) [0..<16]"

text \<open>
  The output of \<open>printf\<close> for a format and its arguments; an argument list that does
  not fit the format is undefined behaviour of the C code and has no output.
\<close>

datatype parg = AInt u32 | APtr u64 | AStr "u8 list option"

fun format :: "u8 list \<Rightarrow> parg list \<Rightarrow> u8 list option" where
  "format [] as = Some []"
| "format (f # fs) as =
     (if f \<noteq> of_char CHR ''%'' then map_option (\<lambda>o1. f # o1) (format fs as)
      else case fs of
        [] \<Rightarrow> Some []
      | k # fs' \<Rightarrow>
          if k = of_char CHR ''d'' then
            (case as of AInt x # as' \<Rightarrow> map_option ((@) (printint x 10 True)) (format fs' as') | _ \<Rightarrow> None)
          else if k = of_char CHR ''x'' then
            (case as of AInt x # as' \<Rightarrow> map_option ((@) (printint x 16 True)) (format fs' as') | _ \<Rightarrow> None)
          else if k = of_char CHR ''p'' then
            (case as of APtr x # as' \<Rightarrow> map_option ((@) (printptr x)) (format fs' as') | _ \<Rightarrow> None)
          else if k = of_char CHR ''s'' then
            (case as of AStr x # as' \<Rightarrow>
               map_option ((@) (case x of None \<Rightarrow> str ''(null)'' | Some bs \<Rightarrow> bs)) (format fs' as') | _ \<Rightarrow> None)
          else if k = of_char CHR ''%'' then map_option ((#) (of_char CHR ''%'')) (format fs' as)
          else map_option (\<lambda>o1. of_char CHR ''%'' # k # o1) (format fs' as))"

definition printf :: "nat \<Rightarrow> string \<Rightarrow> parg list \<Rightarrow> 'a kdev_scheme \<Rightarrow> 'a kdev_scheme res" where
  "printf c fmt as s =
     (case format (str fmt) as of
        None \<Rightarrow> Panic ''undefined''
      | Some out \<Rightarrow>
          if pr_locking s
          then bindp (critical c Lk_pr (\<lambda>s1. bindr (consputs c out s1) (\<lambda>s2. Ok ((), s2))) s) (\<lambda>_ s3. Ok s3)
          else consputs c out s)"

definition printfinit :: "'a kdev_scheme \<Rightarrow> 'a kdev_scheme" where
  "printfinit s = (initlock Lk_pr s)\<lparr>pr_locking := True\<rparr>"

section \<open>procdump (kernel/proc.c)\<close>

fun state_name :: "procstate \<Rightarrow> u8 list" where
  "state_name UNUSED = str ''unused''"
| "state_name SLEEPING = str ''sleep ''"
| "state_name RUNNABLE = str ''runble''"
| "state_name RUNNING = str ''run   ''"
| "state_name ZOMBIE = str ''zombie''"

fun procdump_loop :: "nat \<Rightarrow> nat list \<Rightarrow> 'a kdev_scheme \<Rightarrow> 'a kdev_scheme res" where
  "procdump_loop c [] s = Ok s"
| "procdump_loop c (i # is) s =
     (let p = procs s i
      in if state p = UNUSED then procdump_loop c is s
         else bindr (printf c ''%d %s %s''
                [AInt (word_of_int (pid p)), AStr (Some (state_name (state p))),
                 AStr (Some (takeWhile (\<lambda>b. b \<noteq> 0) (pname p)))] s) (\<lambda>s1.
              bindr (printf c [CHR 10] [] s1) (\<lambda>s2. procdump_loop c is s2)))"

definition procdump :: "nat \<Rightarrow> 'a kdev_scheme \<Rightarrow> 'a kdev_scheme res" where
  "procdump c s = bindr (printf c [CHR 10] [] s) (\<lambda>s1. procdump_loop c [0..<NPROC] s1)"

section \<open>console.c\<close>

fun consolewrite_loop ::
  "nat \<Rightarrow> nat \<Rightarrow> bool \<Rightarrow> u64 \<Rightarrow> nat \<Rightarrow> nat \<Rightarrow> 'a kdev_scheme \<Rightarrow> (nat \<times> 'a kdev_scheme) res" where
  "consolewrite_loop c i user_src src k 0 s = Ok (k, s)"
| "consolewrite_loop c i user_src src k (Suc n) s =
     (let (r, bs) = either_copyin i user_src (src + of_nat k) 1 s
      in if r = -1 then Ok (k, s)
         else bindr (uartputc c i (hd bs) s) (\<lambda>s1. consolewrite_loop c i user_src src (Suc k) n s1))"

definition consolewrite :: "nat \<Rightarrow> nat \<Rightarrow> bool \<Rightarrow> u64 \<Rightarrow> int \<Rightarrow> 'a kdev_scheme \<Rightarrow> (int \<times> 'a kdev_scheme) res" where
  "consolewrite c i user_src src n s =
     bindp (critical c Lk_cons (consolewrite_loop c i user_src src 0 (nat n)) s) (\<lambda>k s1. Ok (int k, s1))"

text \<open>
  \<open>consoleread\<close> from the top of its outer loop, with \<open>cons.lock\<close> held. It returns
  (\<open>Inl\<close>, the lock released), or sleeps (\<open>Inr\<close>: the state at \<open>swtch\<close>, with the saved
  \<open>intena\<close> and the values of \<open>dst\<close> and \<open>n\<close> with which it goes on).
\<close>

fun consoleread_loop ::
  "nat \<Rightarrow> nat \<Rightarrow> bool \<Rightarrow> nat \<Rightarrow> u64 \<Rightarrow> nat \<Rightarrow> 'a kdev_scheme \<Rightarrow>
   ((int + bool \<times> u64 \<times> nat) \<times> 'a kdev_scheme) res" where
  "consoleread_loop c i user_dst target dst 0 s =
     bindr (release c Lk_cons s) (\<lambda>s1. Ok (Inl (int target), s1))"
| "consoleread_loop c i user_dst target dst (Suc n) s =
     (if cons_r s = cons_w s then
        (if killed (procs s i) then bindr (release c Lk_cons s) (\<lambda>s1. Ok (Inl (-1), s1))
         else bindp (sleep_out c i Chan_cons Lk_cons s) (\<lambda>ie s1. Ok (Inr (ie, dst, Suc n), s1)))
      else
        let b = cons_buf s ! (unat (cons_r s) mod INPUT_BUF);
            s1 = s\<lparr>cons_r := cons_r s + 1\<rparr>
        in if b = 4 then
             bindr (release c Lk_cons (if Suc n < target then s1\<lparr>cons_r := cons_r s1 - 1\<rparr> else s1)) (\<lambda>s2.
               Ok (Inl (int (target - Suc n)), s2))
           else
             let (r, s2) = either_copyout i user_dst dst [b] s1
             in if r = -1 then bindr (release c Lk_cons s2) (\<lambda>s3. Ok (Inl (int (target - Suc n)), s3))
                else if b = 10 then bindr (release c Lk_cons s2) (\<lambda>s3. Ok (Inl (int (target - n)), s3))
                else consoleread_loop c i user_dst target (dst + 1) n s2)"

definition consoleread ::
  "nat \<Rightarrow> nat \<Rightarrow> bool \<Rightarrow> u64 \<Rightarrow> int \<Rightarrow> 'a kdev_scheme \<Rightarrow> ((int + bool \<times> u64 \<times> nat) \<times> 'a kdev_scheme) res" where
  "consoleread c i user_dst dst n s =
     bindr (acquire c Lk_cons s) (\<lambda>s1.
       if n \<le> 0 then bindr (release c Lk_cons s1) (\<lambda>s2. Ok (Inl 0, s2))
       else consoleread_loop c i user_dst (nat n) dst (nat n) s1)"

text \<open>Control-U: erase to the start of the line.\<close>

function kill_line :: "nat \<Rightarrow> nat \<Rightarrow> 'a kdev_scheme \<Rightarrow> 'a kdev_scheme res" where
  "kill_line c n s =
     (if n = 0 then Nofuel
      else if cons_e s \<noteq> cons_w s \<and> cons_buf s ! (unat (cons_e s - 1) mod INPUT_BUF) \<noteq> 10
      then bindr (consputc c BACKSPACE (s\<lparr>cons_e := cons_e s - 1\<rparr>)) (\<lambda>s1. kill_line c (n - 1) s1)
      else Ok s)"
  by pat_completeness auto
termination by (relation "measure (\<lambda>(c, n, s). n)") auto

declare kill_line.simps [simp del]

definition consoleintr :: "nat \<Rightarrow> u8 \<Rightarrow> 'a kdev_scheme \<Rightarrow> 'a kdev_scheme res" where
  "consoleintr c ch s =
     bindp (critical c Lk_cons (\<lambda>s1.
       bindr (if ch = 16 then procdump c s1
              else if ch = 21 then kill_line c (Suc (unat (cons_e s1 - cons_w s1))) s1
              else if ch = 8 \<or> ch = 127 then
                (if cons_e s1 \<noteq> cons_w s1 then consputc c BACKSPACE (s1\<lparr>cons_e := cons_e s1 - 1\<rparr>) else Ok s1)
              else if ch \<noteq> 0 \<and> cons_e s1 - cons_r s1 < of_nat INPUT_BUF then
                let b = (if ch = 13 then 10 else ch)
                in bindr (consputc c (unat b) s1) (\<lambda>s2.
                     let s3 = s2\<lparr>cons_buf := (cons_buf s2)[unat (cons_e s2) mod INPUT_BUF := b], cons_e := cons_e s2 + 1\<rparr>
                     in if b = 10 \<or> b = 4 \<or> cons_e s3 = cons_r s3 + of_nat INPUT_BUF
                        then wakeup c Chan_cons (s3\<lparr>cons_w := cons_e s3\<rparr>) else Ok s3)
              else Ok s1) (\<lambda>s4. Ok ((), s4))) s) (\<lambda>_ s5. Ok s5)"

definition consoleinit :: "'a kdev_scheme \<Rightarrow> 'a kdev_scheme" where
  "consoleinit s =
     (let s1 = uartinit (initlock Lk_cons s) in s1\<lparr>devsw := (devsw s1)(CONSOLE := Some Console_ops)\<rparr>)"

text \<open>The loop that reads the input ends when \<open>uartgetc\<close> finds none; \<open>k\<close> bounds its rounds.\<close>

fun uartintr_in :: "nat \<Rightarrow> nat \<Rightarrow> 'a kdev_scheme \<Rightarrow> 'a kdev_scheme res" where
  "uartintr_in c k s =
     (case uartgetc s of
        (None, s1) \<Rightarrow> Ok s1
      | (Some b, s1) \<Rightarrow>
          (case k of 0 \<Rightarrow> Nofuel | Suc k' \<Rightarrow> bindr (consoleintr c b s1) (\<lambda>s2. uartintr_in c k' s2)))"

declare uartintr_in.simps [simp del]

text \<open>The bytes that have arrived are taken one by one, then the output goes on.\<close>

definition uartintr :: "nat \<Rightarrow> 'a kdev_scheme \<Rightarrow> 'a kdev_scheme res" where
  "uartintr c s =
     bindr (uartintr_in c (length (uart_in s)) s) (\<lambda>s1.
       bindp (critical c Lk_uart (\<lambda>s2. bindr (uartstart c s2) (\<lambda>s3. Ok ((), s3))) s1) (\<lambda>_ s4. Ok s4))"

end
