(* ===== verification/File.thy ===== *)
theory File
  imports Console
begin

text \<open>
  kernel/file.c and kernel/pipe.c: open files and pipes. A file is an index into
  the table \<open>ftable\<close>; a pipe is known by the address of the page it lives in. A system
  call that has to wait in a pipe or the console has the result \<open>None\<close>; the state is
  the one in which its thread sleeps.
\<close>

section \<open>Files and pipes (kernel/file.h)\<close>

abbreviation NFILE :: nat where "NFILE \<equiv> 100"
abbreviation PIPESIZE :: nat where "PIPESIZE \<equiv> 512"

datatype ftype = FD_NONE | FD_PIPE | FD_INODE | FD_DEVICE

record file_t =
  ftype :: ftype
  fref :: int
  readable :: bool
  writable :: bool
  fpipe :: u64
  fip :: nat
  foff :: u32
  fmajor :: u16

record pipe =
  pdata :: "u8 list"
  nread :: u32
  nwrite :: u32
  readopen :: bool
  writeopen :: bool

record kfile = kdev +
  files :: "nat \<Rightarrow> file_t"
  pipes :: "u64 \<Rightarrow> pipe"

definition upd_file :: "nat \<Rightarrow> (file_t \<Rightarrow> file_t) \<Rightarrow> 'a kfile_scheme \<Rightarrow> 'a kfile_scheme" where
  "upd_file f g s = s\<lparr>files := (files s)(f := g (files s f))\<rparr>"

definition upd_pipe :: "u64 \<Rightarrow> (pipe \<Rightarrow> pipe) \<Rightarrow> 'a kfile_scheme \<Rightarrow> 'a kfile_scheme" where
  "upd_pipe p g s = s\<lparr>pipes := (pipes s)(p := g (pipes s p))\<rparr>"

section \<open>The file table\<close>

definition fileinit :: "'a kfile_scheme \<Rightarrow> 'a kfile_scheme" where
  "fileinit s = initlock Lk_ftable s"

definition filealloc :: "nat \<Rightarrow> 'a kfile_scheme \<Rightarrow> (nat option \<times> 'a kfile_scheme) res" where
  "filealloc c s =
     critical c Lk_ftable (\<lambda>s1.
       case find (\<lambda>f. fref (files s1 f) = 0) [0..<NFILE] of
         Some f \<Rightarrow> Ok (Some f, upd_file f (\<lambda>x. x\<lparr>fref := 1\<rparr>) s1)
       | None \<Rightarrow> Ok (None, s1)) s"

definition filedup :: "nat \<Rightarrow> nat \<Rightarrow> 'a kfile_scheme \<Rightarrow> (nat \<times> 'a kfile_scheme) res" where
  "filedup c f s =
     critical c Lk_ftable (\<lambda>s1.
       if fref (files s1 f) < 1 then Panic ''filedup''
       else Ok (f, upd_file f (\<lambda>x. x\<lparr>fref := fref x + 1\<rparr>) s1)) s"

section \<open>pipe.c\<close>

definition pipeclose :: "nat \<Rightarrow> u64 \<Rightarrow> bool \<Rightarrow> 'a kfile_scheme \<Rightarrow> 'a kfile_scheme res" where
  "pipeclose c p wr s =
     bindr (acquire c (Lk_pipe p) s) (\<lambda>s1.
       bindr (if wr then wakeup c (Chan_nread p) (upd_pipe p (\<lambda>x. x\<lparr>writeopen := False\<rparr>) s1)
              else wakeup c (Chan_nwrite p) (upd_pipe p (\<lambda>x. x\<lparr>readopen := False\<rparr>) s1)) (\<lambda>s2.
         if \<not> readopen (pipes s2 p) \<and> \<not> writeopen (pipes s2 p)
         then bindr (release c (Lk_pipe p) s2) (\<lambda>s3. kfree p s3)
         else release c (Lk_pipe p) s2))"

text \<open>
  \<open>pipewrite\<close> from the top of its loop, \<open>k\<close> bytes written and \<open>n\<close> to go, with \<open>pi->lock\<close>
  held. \<open>Inl r\<close>: it returns \<open>r\<close>, the lock released. \<open>Inr (ie, k)\<close>: it sleeps because the
  pipe is full, and goes on from \<open>k\<close>.
\<close>

fun pipewrite_loop ::
  "nat \<Rightarrow> nat \<Rightarrow> u64 \<Rightarrow> u64 \<Rightarrow> nat \<Rightarrow> nat \<Rightarrow> 'a kfile_scheme \<Rightarrow> ((int + bool \<times> nat) \<times> 'a kfile_scheme) res" where
  "pipewrite_loop c i p addr k 0 s =
     bindr (wakeup c (Chan_nread p) s) (\<lambda>s1. bindr (release c (Lk_pipe p) s1) (\<lambda>s2. Ok (Inl (int k), s2)))"
| "pipewrite_loop c i p addr k (Suc n) s =
     (let pi = pipes s p
      in if nwrite pi = nread pi + of_nat PIPESIZE then
           (if \<not> readopen pi \<or> killed (procs s i) then bindr (release c (Lk_pipe p) s) (\<lambda>s1. Ok (Inl (-1), s1))
            else bindr (wakeup c (Chan_nread p) s) (\<lambda>s1.
              bindp (sleep_out c i (Chan_nwrite p) (Lk_pipe p) s1) (\<lambda>ie s2. Ok (Inr (ie, k), s2))))
         else
           let (r, bs) = copyin (pagetable (procs s i)) (addr + of_nat k) 1 s
           in if r = -1 then
                bindr (wakeup c (Chan_nread p) s) (\<lambda>s1.
                  bindr (release c (Lk_pipe p) s1) (\<lambda>s2. Ok (Inl (int k), s2)))
              else
                pipewrite_loop c i p addr (Suc k) n
                  (upd_pipe p (\<lambda>x. x\<lparr>pdata := (pdata x)[unat (nwrite x) mod PIPESIZE := hd bs],
                     nwrite := nwrite x + 1\<rparr>) s))"

definition pipewrite ::
  "nat \<Rightarrow> nat \<Rightarrow> u64 \<Rightarrow> u64 \<Rightarrow> int \<Rightarrow> 'a kfile_scheme \<Rightarrow> ((int + bool \<times> nat) \<times> 'a kfile_scheme) res" where
  "pipewrite c i p addr n s =
     bindr (acquire c (Lk_pipe p) s) (\<lambda>s1. pipewrite_loop c i p addr 0 (nat n) s1)"

text \<open>The copying loop of \<open>piperead\<close>; it gives the number of bytes read.\<close>

fun piperead_loop ::
  "nat \<Rightarrow> u64 \<Rightarrow> u64 \<Rightarrow> nat \<Rightarrow> nat \<Rightarrow> 'a kfile_scheme \<Rightarrow> nat \<times> 'a kfile_scheme" where
  "piperead_loop i p addr k 0 s = (k, s)"
| "piperead_loop i p addr k (Suc n) s =
     (let pi = pipes s p
      in if nread pi = nwrite pi then (k, s)
         else
           let b = pdata pi ! (unat (nread pi) mod PIPESIZE);
               s1 = upd_pipe p (\<lambda>x. x\<lparr>nread := nread x + 1\<rparr>) s;
               (r, s2) = copyout (pagetable (procs s1 i)) (addr + of_nat k) [b] s1
           in if r = -1 then (k, s2) else piperead_loop i p addr (Suc k) n s2)"

text \<open>A reader that sleeps has changed nothing yet.\<close>

definition piperead :: "nat \<Rightarrow> nat \<Rightarrow> u64 \<Rightarrow> u64 \<Rightarrow> int \<Rightarrow> 'a kfile_scheme \<Rightarrow> (int \<times> 'a kfile_scheme) res" where
  "piperead c i p addr n s =
     bindr (acquire c (Lk_pipe p) s) (\<lambda>s1.
       if nread (pipes s1 p) = nwrite (pipes s1 p) \<and> writeopen (pipes s1 p) then
         (if killed (procs s1 i) then bindr (release c (Lk_pipe p) s1) (\<lambda>s2. Ok (-1, s2))
          else sleep_on c i (Chan_nread p) (Lk_pipe p) s1)
       else
         let (k, s2) = piperead_loop i p addr 0 (nat n) s1
         in bindr (wakeup c (Chan_nwrite p) s2) (\<lambda>s3.
              bindr (release c (Lk_pipe p) s3) (\<lambda>s4. Ok (int k, s4))))"

section \<open>file.c\<close>

definition fileclose :: "nat \<Rightarrow> nat \<Rightarrow> nat \<Rightarrow> 'a kfile_scheme \<Rightarrow> 'a kfile_scheme res" where
  "fileclose c i f s =
     bindp (critical c Lk_ftable (\<lambda>s1.
       if fref (files s1 f) < 1 then Panic ''fileclose''
       else let s2 = upd_file f (\<lambda>x. x\<lparr>fref := fref x - 1\<rparr>) s1
            in if fref (files s2 f) > 0 then Ok (None, s2)
               else Ok (Some (files s2 f), upd_file f (\<lambda>x. x\<lparr>fref := 0, ftype := FD_NONE\<rparr>) s2)) s) (\<lambda>ff s3.
       case ff of
         None \<Rightarrow> Ok s3
       | Some x \<Rightarrow>
           if ftype x = FD_PIPE then pipeclose c (fpipe x) (writable x) s3
           else if ftype x = FD_INODE \<or> ftype x = FD_DEVICE then
             bindr (begin_op c i s3) (\<lambda>s4. bindr (iput c i (fip x) s4) (\<lambda>s5. end_op c i s5))
           else Ok s3)"

definition pipealloc :: "nat \<Rightarrow> nat \<Rightarrow> 'a kfile_scheme \<Rightarrow> ((nat \<times> nat) option \<times> 'a kfile_scheme) res" where
  "pipealloc c i s =
     bindp (filealloc c s) (\<lambda>f0 s1.
       case f0 of
         None \<Rightarrow> Ok (None, s1)
       | Some a \<Rightarrow>
           bindp (filealloc c s1) (\<lambda>f1 s2.
             case f1 of
               None \<Rightarrow> bindr (fileclose c i a s2) (\<lambda>s3. Ok (None, s3))
             | Some b \<Rightarrow>
                 let (p, s3) = kalloc s2
                 in if p = 0 then
                      bindr (fileclose c i a s3) (\<lambda>s4. bindr (fileclose c i b s4) (\<lambda>s5. Ok (None, s5)))
                    else
                      let s4 = upd_pipe p (\<lambda>x. x\<lparr>readopen := True, writeopen := True, nwrite := 0, nread := 0\<rparr>) s3;
                          s5 = initlock (Lk_pipe p) s4;
                          s6 = upd_file a (\<lambda>x. x\<lparr>ftype := FD_PIPE, readable := True, writable := False, fpipe := p\<rparr>) s5;
                          s7 = upd_file b (\<lambda>x. x\<lparr>ftype := FD_PIPE, readable := False, writable := True, fpipe := p\<rparr>) s6
                      in Ok (Some (a, b), s7)))"

text \<open>\<open>struct stat\<close> has four bytes of padding before \<open>size\<close>, which are not initialised.\<close>

definition stat_bytes :: "u8 list \<Rightarrow> kstat \<Rightarrow> u8 list" where
  "stat_bytes pad st =
     word_bytes 4 (st_dev st) @ word_bytes 4 (st_ino st) @ word_bytes 2 (st_type st) @ word_bytes 2 (st_nlink st) @
     pad @ word_bytes 8 (st_size st)"

definition filestat ::
  "nat \<Rightarrow> nat \<Rightarrow> u8 list \<Rightarrow> nat \<Rightarrow> u64 \<Rightarrow> 'a kfile_scheme \<Rightarrow> (int \<times> 'a kfile_scheme) res" where
  "filestat c i pad f addr s =
     (let x = files s f
      in if ftype x = FD_INODE \<or> ftype x = FD_DEVICE then
           bindr (ilock c i (fip x) s) (\<lambda>s1.
             let st = stati (inodes s1 (fip x))
             in bindr (iunlock c i (fip x) s1) (\<lambda>s2.
                  let (r, s3) = copyout (pagetable (procs s2 i)) addr (stat_bytes pad st) s2
                  in if r < 0 then Ok (-1, s3) else Ok (0, s3)))
         else Ok (-1, s))"

definition dev_of :: "file_t \<Rightarrow> 'a kdev_scheme \<Rightarrow> devops option" where
  "dev_of x s =
     (if sint (fmajor x) < 0 \<or> sint (fmajor x) \<ge> int NDEV then None else devsw s (unat (fmajor x)))"

definition fileread ::
  "nat \<Rightarrow> nat \<Rightarrow> nat \<Rightarrow> u64 \<Rightarrow> int \<Rightarrow> 'a kfile_scheme \<Rightarrow> (int option \<times> 'a kfile_scheme) res" where
  "fileread c i f addr n s =
     (let x = files s f
      in if \<not> readable x then Ok (Some (-1), s)
         else case ftype x of
           FD_PIPE \<Rightarrow> bindp (piperead c i (fpipe x) addr n s) (\<lambda>r s1. Ok (Some r, s1))
         | FD_DEVICE \<Rightarrow>
             (case dev_of x s of
                None \<Rightarrow> Ok (Some (-1), s)
              | Some Console_ops \<Rightarrow>
                  bindp (consoleread c i True addr n s) (\<lambda>r s1.
                    case r of Inl v \<Rightarrow> Ok (Some v, s1) | Inr _ \<Rightarrow> Ok (None, s1)))
         | FD_INODE \<Rightarrow>
             bindr (ilock c i (fip x) s) (\<lambda>s1.
               bindp (readi c i (fip x) (DUser addr) (foff (files s1 f)) (word_of_int n) [] s1) (\<lambda>(r, _) s2.
                 let s3 = (if r > 0 then upd_file f (\<lambda>x. x\<lparr>foff := foff x + of_nat r\<rparr>) s2 else s2)
                 in bindr (iunlock c i (fip x) s3) (\<lambda>s4. Ok (Some (int r), s4))))
         | FD_NONE \<Rightarrow> Panic ''fileread'')"

text \<open>The loop of \<open>filewrite\<close> on an inode: at most \<open>(MAXOPBLOCKS-1-1-2)/2\<close> blocks in one transaction.\<close>

definition write_max :: int where
  "write_max = int ((MAXOPBLOCKS - 1 - 1 - 2) div 2 * BSIZE)"

function filewrite_loop ::
  "nat \<Rightarrow> nat \<Rightarrow> nat \<Rightarrow> u64 \<Rightarrow> int \<Rightarrow> int \<Rightarrow> 'a kfile_scheme \<Rightarrow> (int \<times> 'a kfile_scheme) res" where
  "filewrite_loop c i f addr k n s =
     (if k < n then
        let n1 = min (n - k) write_max; ip = fip (files s f)
        in bindr (begin_op c i s) (\<lambda>s1.
             bindr (ilock c i ip s1) (\<lambda>s2.
               bindp (writei c i ip (SUser (addr + word_of_int k)) (foff (files s2 f)) (word_of_int n1) s2) (\<lambda>r s3.
                 let s4 = (if r > 0 then upd_file f (\<lambda>x. x\<lparr>foff := foff x + word_of_int r\<rparr>) s3 else s3)
                 in bindr (iunlock c i ip s4) (\<lambda>s5.
                      bindr (end_op c i s5) (\<lambda>s6.
                        if r < 0 then Ok (k, s6)
                        else if r \<noteq> n1 then Panic ''short filewrite''
                        else filewrite_loop c i f addr (k + r) n s6)))))
      else Ok (k, s))"
  by pat_completeness auto
termination
  by (relation "measure (\<lambda>(c, i, f, addr, k, n, s). nat (n - k))") (auto simp: write_max_def)

declare filewrite_loop.simps [simp del]

definition filewrite ::
  "nat \<Rightarrow> nat \<Rightarrow> nat \<Rightarrow> u64 \<Rightarrow> int \<Rightarrow> 'a kfile_scheme \<Rightarrow> (int option \<times> 'a kfile_scheme) res" where
  "filewrite c i f addr n s =
     (let x = files s f
      in if \<not> writable x then Ok (Some (-1), s)
         else case ftype x of
           FD_PIPE \<Rightarrow>
             bindp (pipewrite c i (fpipe x) addr n s) (\<lambda>r s1.
               case r of Inl v \<Rightarrow> Ok (Some v, s1) | Inr _ \<Rightarrow> Ok (None, s1))
         | FD_DEVICE \<Rightarrow>
             (case dev_of x s of
                None \<Rightarrow> Ok (Some (-1), s)
              | Some Console_ops \<Rightarrow> bindp (consolewrite c i True addr n s) (\<lambda>r s1. Ok (Some r, s1)))
         | FD_INODE \<Rightarrow>
             bindp (filewrite_loop c i f addr 0 n s) (\<lambda>k s1. Ok (Some (if k = n then n else -1), s1))
         | FD_NONE \<Rightarrow> Panic ''filewrite'')"

end
