(* ===== verification/Virtio.thy ===== *)
theory Virtio
  imports File
begin

text \<open>
  kernel/virtio_disk.c: the driver of the disk. The shared memory of the driver and
  the device is part of the state: the descriptors, the ring of available requests
  and the ring of used ones. A descriptor's address is kept symbolically: the
  request header on the kernel stack, a buffer's data, or a status byte. The calls
  of \<open>sleep\<close> split \<open>virtio_disk_rw\<close> into \<open>virtio_disk_submit\<close> and \<open>virtio_disk_wait\<close>.
\<close>

section \<open>Descriptors and rings (kernel/virtio.h)\<close>

abbreviation NUM :: nat where "NUM \<equiv> 8"
abbreviation VRING_DESC_F_NEXT :: u16 where "VRING_DESC_F_NEXT \<equiv> 1"
abbreviation VRING_DESC_F_WRITE :: u16 where "VRING_DESC_F_WRITE \<equiv> 2"
abbreviation VIRTIO_BLK_T_IN :: u32 where "VIRTIO_BLK_T_IN \<equiv> 0"
abbreviation VIRTIO_BLK_T_OUT :: u32 where "VIRTIO_BLK_T_OUT \<equiv> 1"

text \<open>\<open>Hdr type sector\<close> is the address of a \<open>virtio_blk_outhdr\<close> with these fields.\<close>

datatype daddr = Null | Hdr u32 u64 | BufData nat | StatusOf nat

record vring_desc =
  vd_addr :: daddr
  vd_len :: u32
  vd_flags :: u16
  vd_next :: u16

record kvirtio = kfile +
  vdesc :: "nat \<Rightarrow> vring_desc"
  avail_idx :: u16
  avail :: "nat \<Rightarrow> u16"
  used_id :: u16
  used_elems :: "nat \<Rightarrow> u32"
  vfree :: "nat \<Rightarrow> bool"
  used_idx :: u16
  info_b :: "nat \<Rightarrow> nat option"
  info_status :: "nat \<Rightarrow> u8"
  disk_pages :: u64
  mmio :: "u32 \<Rightarrow> u32"
  mmio_writes :: "(u32 \<times> u32) list"

definition mmio_write :: "u32 \<Rightarrow> u32 \<Rightarrow> 'a kvirtio_scheme \<Rightarrow> 'a kvirtio_scheme" where
  "mmio_write r v s = s\<lparr>mmio_writes := mmio_writes s @ [(r, v)]\<rparr>"

definition upd_desc :: "nat \<Rightarrow> (vring_desc \<Rightarrow> vring_desc) \<Rightarrow> 'a kvirtio_scheme \<Rightarrow> 'a kvirtio_scheme" where
  "upd_desc k f s = s\<lparr>vdesc := (vdesc s)(k := f (vdesc s k))\<rparr>"

section \<open>The driver\<close>

text \<open>The features the driver accepts: all the device offers but seven.\<close>

definition driver_features :: "u32 \<Rightarrow> u32" where
  "driver_features f =
     f AND NOT (push_bit 5 1) AND NOT (push_bit 7 1) AND NOT (push_bit 11 1) AND NOT (push_bit 12 1)
       AND NOT (push_bit 27 1) AND NOT (push_bit 29 1) AND NOT (push_bit 28 1)"

definition virtio_disk_init :: "'a kvirtio_scheme \<Rightarrow> 'a kvirtio_scheme res" where
  "virtio_disk_init s =
     (let s0 = initlock Lk_disk s
      in if mmio s0 0x000 \<noteq> 0x74726976 \<or> mmio s0 0x004 \<noteq> 1 \<or> mmio s0 0x008 \<noteq> 2 \<or> mmio s0 0x00c \<noteq> 0x554d4551
         then Panic ''could not find virtio disk''
         else
           let s1 = mmio_write 0x070 1 s0;
               s2 = mmio_write 0x070 (1 OR 2) s1;
               s3 = mmio_write 0x020 (driver_features (mmio s2 0x010)) s2;
               s4 = mmio_write 0x070 (1 OR 2 OR 8) s3;
               s5 = mmio_write 0x070 (1 OR 2 OR 8 OR 4) s4;
               s6 = mmio_write 0x028 4096 s5;
               s7 = mmio_write 0x030 0 s6
           in if mmio s7 0x034 = 0 then Panic ''virtio disk has no queue 0''
              else if mmio s7 0x034 < of_nat NUM then Panic ''virtio disk max queue too short''
              else
                let s8 = mmio_write 0x038 (of_nat NUM) s7;
                    s9 = s8\<lparr>vdesc := (\<lambda>_. \<lparr>vd_addr = Null, vd_len = 0, vd_flags = 0, vd_next = 0\<rparr>),
                       avail_idx := 0, avail := (\<lambda>_. 0), used_id := 0, used_elems := (\<lambda>_. 0)\<rparr>;
                    s10 = mmio_write 0x040 (ucast (drop_bit 12 (disk_pages s9))) s9
                in Ok (s10\<lparr>vfree := (\<lambda>i. i < NUM \<or> vfree s10 i)\<rparr>))"

definition alloc_desc :: "'a kvirtio_scheme \<Rightarrow> nat option \<times> 'a kvirtio_scheme" where
  "alloc_desc s =
     (case find (\<lambda>i. vfree s i) [0..<NUM] of
        Some i \<Rightarrow> (Some i, s\<lparr>vfree := (vfree s)(i := False)\<rparr>)
      | None \<Rightarrow> (None, s))"

definition free_desc :: "nat \<Rightarrow> nat \<Rightarrow> 'a kvirtio_scheme \<Rightarrow> 'a kvirtio_scheme res" where
  "free_desc c k s =
     (if k \<ge> NUM then Panic ''virtio_disk_intr 1''
      else if vfree s k then Panic ''virtio_disk_intr 2''
      else let s1 = upd_desc k (\<lambda>x. x\<lparr>vd_addr := Null\<rparr>) s
           in wakeup c Chan_diskfree (s1\<lparr>vfree := (vfree s1)(k := True)\<rparr>))"

text \<open>
  A chain visits no descriptor twice, since freeing a free one panics, so \<open>NUM + 1\<close>
  rounds of the loop are enough.
\<close>

fun chain_free :: "nat \<Rightarrow> nat \<Rightarrow> nat \<Rightarrow> 'a kvirtio_scheme \<Rightarrow> 'a kvirtio_scheme res" where
  "chain_free c 0 k s = Nofuel"
| "chain_free c (Suc n) k s =
     bindr (free_desc c k s) (\<lambda>s1.
       if vd_flags (vdesc s1 k) AND VRING_DESC_F_NEXT \<noteq> 0
       then chain_free c n (unat (vd_next (vdesc s1 k))) s1 else Ok s1)"

fun free_all :: "nat \<Rightarrow> nat list \<Rightarrow> 'a kvirtio_scheme \<Rightarrow> 'a kvirtio_scheme res" where
  "free_all c [] s = Ok s"
| "free_all c (k # ks) s = bindr (free_desc c k s) (\<lambda>s1. free_all c ks s1)"

text \<open>\<open>alloc3_desc\<close>: \<open>n\<close> descriptors to go, \<open>got\<close> those already taken.\<close>

fun alloc_descs :: "nat \<Rightarrow> nat \<Rightarrow> nat list \<Rightarrow> 'a kvirtio_scheme \<Rightarrow> (nat list option \<times> 'a kvirtio_scheme) res" where
  "alloc_descs c 0 got s = Ok (Some got, s)"
| "alloc_descs c (Suc n) got s =
     (case alloc_desc s of
        (Some k, s1) \<Rightarrow> alloc_descs c n (got @ [k]) s1
      | (None, s1) \<Rightarrow> bindr (free_all c got s1) (\<lambda>s2. Ok (None, s2)))"

definition alloc3_desc :: "nat \<Rightarrow> 'a kvirtio_scheme \<Rightarrow> (nat list option \<times> 'a kvirtio_scheme) res" where
  "alloc3_desc c s = alloc_descs c 3 [] s"

text \<open>The three descriptors of a request for buffer \<open>b\<close>, and its entry in the available ring.\<close>

definition format_descs :: "nat \<Rightarrow> bool \<Rightarrow> nat \<Rightarrow> nat \<Rightarrow> nat \<Rightarrow> 'a kvirtio_scheme \<Rightarrow> 'a kvirtio_scheme" where
  "format_descs b write i0 i1 i2 s =
     (let sector = (ucast (blockno (bufs s b) * 2) :: u64);
          s1 = upd_desc i0 (\<lambda>_. \<lparr>vd_addr = Hdr (if write then VIRTIO_BLK_T_OUT else VIRTIO_BLK_T_IN) sector,
                 vd_len = 16, vd_flags = VRING_DESC_F_NEXT, vd_next = of_nat i1\<rparr>) s;
          s2 = upd_desc i1 (\<lambda>_. \<lparr>vd_addr = BufData b, vd_len = of_nat BSIZE,
                 vd_flags = (if write then 0 else VRING_DESC_F_WRITE) OR VRING_DESC_F_NEXT, vd_next = of_nat i2\<rparr>) s1;
          s3 = s2\<lparr>info_status := (info_status s2)(i0 := 0)\<rparr>;
          s4 = upd_desc i2 (\<lambda>_. \<lparr>vd_addr = StatusOf i0, vd_len = 1, vd_flags = VRING_DESC_F_WRITE, vd_next = 0\<rparr>) s3;
          s5 = upd_buf b (\<lambda>x. x\<lparr>bdisk := True\<rparr>) s4;
          s6 = s5\<lparr>info_b := (info_b s5)(i0 := Some b)\<rparr>;
          s7 = s6\<lparr>avail := (avail s6)(unat (avail_idx s6) mod NUM := of_nat i0)\<rparr>
      in mmio_write 0x050 0 (s7\<lparr>avail_idx := avail_idx s7 + 1\<rparr>))"

text \<open>
  \<open>virtio_disk_rw\<close> up to the point where the request is with the device, with
  \<open>vdisk_lock\<close> held (\<open>Inl\<close>: the head of the chain), or its first \<open>sleep\<close> when there
  are no descriptors (\<open>Inr\<close>: the state at \<open>swtch\<close>).
\<close>

definition virtio_disk_submit ::
  "nat \<Rightarrow> nat \<Rightarrow> nat \<Rightarrow> bool \<Rightarrow> 'a kvirtio_scheme \<Rightarrow> ((nat + bool) \<times> 'a kvirtio_scheme) res" where
  "virtio_disk_submit c i b write s =
     bindr (acquire c Lk_disk s) (\<lambda>s1.
       bindp (alloc3_desc c s1) (\<lambda>r s2.
         case r of
           Some [i0, i1, i2] \<Rightarrow> Ok (Inl i0, format_descs b write i0 i1 i2 s2)
         | _ \<Rightarrow> bindp (sleep_out c i Chan_diskfree Lk_disk s2) (\<lambda>ie s3. Ok (Inr ie, s3))))"

text \<open>The rest: sleep while the device has the buffer, then free the chain.\<close>

definition virtio_disk_wait ::
  "nat \<Rightarrow> nat \<Rightarrow> nat \<Rightarrow> nat \<Rightarrow> 'a kvirtio_scheme \<Rightarrow> ((unit + bool) \<times> 'a kvirtio_scheme) res" where
  "virtio_disk_wait c i b i0 s =
     (if bdisk (bufs s b) then bindp (sleep_out c i (Chan_buf b) Lk_disk s) (\<lambda>ie s1. Ok (Inr ie, s1))
      else bindr (chain_free c (Suc NUM) i0 (s\<lparr>info_b := (info_b s)(i0 := None)\<rparr>)) (\<lambda>s1.
        bindr (release c Lk_disk s1) (\<lambda>s2. Ok (Inl (), s2))))"

text \<open>The loop of the interrupt handler goes round at most \<open>NUM - 1\<close> times.\<close>

fun intr_loop :: "nat \<Rightarrow> nat \<Rightarrow> 'a kvirtio_scheme \<Rightarrow> 'a kvirtio_scheme res" where
  "intr_loop c n s =
     (if unat (used_idx s) mod NUM = unat (used_id s) mod NUM then Ok s
      else case n of
        0 \<Rightarrow> Nofuel
      | Suc n' \<Rightarrow>
          let k = unat (used_elems s (unat (used_idx s)))
          in if info_status s k \<noteq> 0 then Panic ''virtio_disk_intr status''
             else case info_b s k of
               None \<Rightarrow> Panic ''kerneltrap''
             | Some b \<Rightarrow>
                 bindr (wakeup c (Chan_buf b) (upd_buf b (\<lambda>x. x\<lparr>bdisk := False\<rparr>) s)) (\<lambda>s1.
                   intr_loop c n' (s1\<lparr>used_idx := (used_idx s1 + 1) mod of_nat NUM\<rparr>)))"

declare intr_loop.simps [simp del]

definition virtio_disk_intr :: "nat \<Rightarrow> 'a kvirtio_scheme \<Rightarrow> 'a kvirtio_scheme res" where
  "virtio_disk_intr c s =
     bindp (critical c Lk_disk (\<lambda>s1.
       bindr (intr_loop c NUM s1) (\<lambda>s2. Ok ((), mmio_write 0x064 (mmio s2 0x060 AND 3) s2))) s) (\<lambda>_ s3. Ok s3)"

end
