(* ===== verification/Ring.thy ===== *)
theory Ring
  imports Prelude
begin

text \<open>
  Circular buffers. The kernel has three: the data of a pipe, the input of the console and
  the output of the UART. The locale \<open>fifo\<close> states what their clients rely on, and what follows
  for every sequence of operations.
\<close>

section \<open>The interface of a bounded queue of bytes\<close>

datatype qop = Put u8 | Get

locale fifo =
  fixes ok :: "'q \<Rightarrow> bool" and contents :: "'q \<Rightarrow> u8 list" and cap :: nat
    and put :: "u8 \<Rightarrow> 'q \<Rightarrow> 'q" and get :: "'q \<Rightarrow> u8 \<times> 'q"
  assumes ok_length: "ok q \<Longrightarrow> length (contents q) \<le> cap"
    and put_ok: "ok q \<Longrightarrow> length (contents q) < cap \<Longrightarrow> ok (put b q)"
    and put_contents: "ok q \<Longrightarrow> length (contents q) < cap \<Longrightarrow> contents (put b q) = contents q @ [b]"
    and get_ok: "ok q \<Longrightarrow> contents q \<noteq> [] \<Longrightarrow> ok (snd (get q))"
    and get_contents: "ok q \<Longrightarrow> contents q \<noteq> [] \<Longrightarrow> contents q = fst (get q) # contents (snd (get q))"
begin

text \<open>A put on a full queue and a get from an empty one wait: they have no effect.\<close>

fun qstep :: "qop \<Rightarrow> 'q \<times> u8 list \<times> u8 list \<Rightarrow> 'q \<times> u8 list \<times> u8 list" where
  "qstep (Put b) (q, ins, outs) = (if length (contents q) < cap then (put b q, ins @ [b], outs) else (q, ins, outs))"
| "qstep Get (q, ins, outs) = (if contents q \<noteq> [] then (snd (get q), ins, outs @ [fst (get q)]) else (q, ins, outs))"

lemma qstep_fifo:
  assumes "ok q" and "outs @ contents q = ins" and "qstep x (q, ins, outs) = (q', ins', outs')"
  shows "ok q'" "outs' @ contents q' = ins'"
  using assms get_contents [of q] by (cases x; auto simp: put_ok put_contents get_ok split: if_splits)+

text \<open>Every interleaving of puts and gets delivers the bytes in the order they were put.\<close>

lemma fifo_order:
  assumes "ok q" and "outs @ contents q = ins" and "fold qstep xs (q, ins, outs) = (q', ins', outs')"
  shows "ok q' \<and> outs' @ contents q' = ins'"
  using assms
proof (induction xs arbitrary: q ins outs)
  case (Cons x xs)
  obtain q1 i1 o1 where e: "qstep x (q, ins, outs) = (q1, i1, o1)" using prod_cases3 by blast
  note s = qstep_fifo [OF Cons.prems(1,2) e]
  show ?case using Cons.IH [OF s] Cons.prems(3) e by simp
qed simp

lemma put_all:
  assumes "ok q" and "length (contents q) + length bs \<le> cap"
  shows "ok (fold put bs q) \<and> contents (fold put bs q) = contents q @ bs"
  using assms by (induction bs arbitrary: q) (simp_all add: put_ok put_contents)

end

section \<open>Rings with running counters\<close>

text \<open>
  The bytes between the counters \<open>r\<close> and \<open>w\<close>. The counters are 32 bits wide and run freely; they
  are reduced modulo the size of the buffer, which divides \<open>2^32\<close>, only when they index it.
\<close>

definition ring_bytes :: "u8 list \<Rightarrow> u32 \<Rightarrow> u32 \<Rightarrow> u8 list" where
  "ring_bytes xs r w = map (\<lambda>j. xs ! (unat (r + of_nat j) mod length xs)) [0..<unat (w - r)]"

lemma ring_bytes_length [simp]: "length (ring_bytes xs r w) = unat (w - r)"
  by (simp add: ring_bytes_def)

lemma ring_bytes_nth: "j < unat (w - r) \<Longrightarrow> ring_bytes xs r w ! j = xs ! (unat (r + of_nat j) mod length xs)"
  by (simp add: ring_bytes_def)

lemma ring_bytes_empty: "ring_bytes xs r w = [] \<longleftrightarrow> r = w"
  by (auto simp: ring_bytes_def unat_eq_zero)

lemma unat_add_mod:
  assumes "(n :: nat) dvd 2 ^ 32"
  shows "unat (a + b :: u32) mod n = (unat a + unat b) mod n"
proof -
  have "unat (a + b) = (unat a + unat b) mod 2 ^ 32" by (simp add: unat_word_ariths)
  then show ?thesis using assms by (simp add: mod_mod_cancel)
qed

lemma mod_add_inj:
  assumes "(c + a) mod n = (c + b) mod n" and "a < n" and "b < (n :: nat)"
  shows "a = b"
proof (rule ccontr)
  assume "a \<noteq> b"
  then consider "a < b" | "b < a" by linarith
  then show False
  proof cases
    case 1
    have "n dvd (c + b) - (c + a)" by (rule mod_eq_dvd_iff_nat [THEN iffD1]) (use 1 assms(1) in simp_all)
    then show False using 1 assms(3) by (auto dest: dvd_imp_le)
  next
    case 2
    have "n dvd (c + a) - (c + b)" by (rule mod_eq_dvd_iff_nat [THEN iffD1]) (use 2 assms(1) in simp_all)
    then show False using 2 assms(2) by (auto dest: dvd_imp_le)
  qed
qed

lemma ring_index_inj:
  assumes "n dvd 2 ^ 32" and "a < n" "b < n" and "unat (r + of_nat a :: u32) mod n = unat (r + of_nat b) mod n"
  shows "a = b"
proof -
  have n: "n \<le> 2 ^ 32" using assms(1) by (simp add: dvd_imp_le)
  then have u: "unat (of_nat a :: u32) = a" "unat (of_nat b :: u32) = b" using assms(2,3) by simp_all
  have "(unat r + a) mod n = (unat r + b) mod n" using assms(4) unfolding unat_add_mod [OF assms(1)] u .
  from mod_add_inj [OF this assms(2,3)] show ?thesis .
qed

lemma ring_put:
  assumes "length xs dvd 2 ^ 32" and "unat (w - r) < length xs" and "length xs < 2 ^ 32"
  shows "ring_bytes (xs[unat w mod length xs := b]) r (w + 1) = ring_bytes xs r w @ [b]"
proof -
  let ?n = "unat (w - r)" and ?l = "length xs"
  have w: "r + of_nat ?n = w" by simp
  have "unat (w + 1 - r) = Suc ?n"
  proof -
    have "unat (w - r) + 1 < 2 ^ 32" using assms(2,3) by simp
    then have "unat ((w - r) + 1) = Suc (unat (w - r))" by (subst unat_plus_if') simp
    moreover have "w + 1 - r = (w - r) + 1" by simp
    ultimately show ?thesis by (simp only:)
  qed
  moreover have "xs[unat w mod ?l := b] ! (unat (r + of_nat j) mod ?l) = xs ! (unat (r + of_nat j) mod ?l)" if "j < ?n" for j
  proof -
    have "unat (r + of_nat j) mod ?l \<noteq> unat (r + of_nat ?n) mod ?l"
      using ring_index_inj [OF assms(1), of j ?n r] that assms(2) by auto
    then show ?thesis unfolding w by simp
  qed
  moreover have "xs[unat w mod ?l := b] ! (unat (r + of_nat ?n) mod ?l) = b"
    using assms(2) unfolding w by (intro nth_list_update_eq mod_less_divisor) linarith
  ultimately show ?thesis by (simp add: ring_bytes_def)
qed

lemma ring_get:
  assumes "r \<noteq> w"
  shows "ring_bytes xs r w = xs ! (unat r mod length xs) # ring_bytes xs (r + 1) w"
proof -
  have n: "unat (w - r) = Suc (unat (w - (r + 1)))"
  proof -
    have "w - r \<noteq> 0" using assms by simp
    then have "unat (w - r - 1) = unat (w - r) - 1" "0 < unat (w - r)" by (simp_all add: unat_minus_one unat_gt_0)
    then show ?thesis by (simp add: diff_diff_eq [symmetric])
  qed
  show ?thesis
    unfolding ring_bytes_def n by (simp add: upt_conv_Cons map_Suc_upt [symmetric] add.assoc del: upt_Suc)
qed

lemma unat_minus_Suc:
  assumes "r \<noteq> (w :: u32)"
  shows "unat (w - r) = Suc (unat (w - 1 - r))"
proof -
  have "w - r \<noteq> 0" using assms by simp
  then have "unat (w - r - 1) = unat (w - r) - 1" "0 < unat (w - r)" by (simp_all add: unat_minus_one unat_gt_0)
  moreover have "w - r - 1 = w - 1 - r" by simp
  ultimately show ?thesis by simp
qed

lemma ring_unput:
  assumes "r \<noteq> w"
  shows "ring_bytes xs r w = ring_bytes xs r (w - 1) @ [xs ! (unat (w - 1) mod length xs)]"
proof -
  have "r + of_nat (unat (w - 1 - r)) = w - 1" by simp
  then show ?thesis unfolding ring_bytes_def unat_minus_Suc [OF assms] by simp
qed

lemma ring_split:
  assumes "unat (w - r) + unat (e - w) < 2 ^ 32"
  shows "ring_bytes xs r e = ring_bytes xs r w @ ring_bytes xs w e"
proof -
  let ?a = "unat (w - r)" and ?b = "unat (e - w)"
  have "unat ((w - r) + (e - w)) = ?a + ?b" by (subst unat_plus_if') (use assms in simp)
  moreover have "(w - r) + (e - w) = e - r" by simp
  ultimately have l: "unat (e - r) = ?a + ?b" by (simp only:)
  show ?thesis
  proof (rule nth_equalityI)
    fix j
    assume "j < length (ring_bytes xs r e)"
    then have j: "j < ?a + ?b" by (simp add: l)
    show "ring_bytes xs r e ! j = (ring_bytes xs r w @ ring_bytes xs w e) ! j"
    proof (cases "j < ?a")
      case True
      then show ?thesis using j by (simp add: nth_append ring_bytes_nth l)
    next
      case False
      then have "w + of_nat (j - ?a) = r + of_nat j" by (simp add: of_nat_diff)
      then show ?thesis using j False by (simp add: nth_append ring_bytes_nth l add.commute)
    qed
  qed (simp add: l)
qed

end
