(* ===== verification/Pipe_Queue.thy ===== *)
theory Pipe_Queue
  imports File Ring Fs_Blocks Usercopy
begin

text \<open>
  Pipes (\<open>kernel/pipe.c\<close>) as queues of bytes: \<open>pipewrite\<close> appends the bytes it reads from user
  memory, \<open>piperead\<close> takes bytes from the front and delivers them to user memory.
\<close>

section \<open>The ring of a pipe\<close>

definition pipe_ok :: "pipe \<Rightarrow> bool" where
  "pipe_ok x \<longleftrightarrow> length (pdata x) = PIPESIZE \<and> unat (nwrite x - nread x) \<le> PIPESIZE"

definition pipe_bytes :: "pipe \<Rightarrow> u8 list" where
  "pipe_bytes x = ring_bytes (pdata x) (nread x) (nwrite x)"

definition pipe_put :: "u8 \<Rightarrow> pipe \<Rightarrow> pipe" where
  "pipe_put b x = x\<lparr>pdata := (pdata x)[unat (nwrite x) mod PIPESIZE := b], nwrite := nwrite x + 1\<rparr>"

definition pipe_get :: "pipe \<Rightarrow> u8 \<times> pipe" where
  "pipe_get x = (pdata x ! (unat (nread x) mod PIPESIZE), x\<lparr>nread := nread x + 1\<rparr>)"

lemma pipe_put_bytes:
  assumes "pipe_ok x" and "length (pipe_bytes x) < PIPESIZE"
  shows "pipe_bytes (pipe_put b x) = pipe_bytes x @ [b]"
proof -
  have l: "length (pdata x) = PIPESIZE" using assms(1) by (simp add: pipe_ok_def)
  show ?thesis
    using ring_put [of "pdata x" "nwrite x" "nread x" b] assms(2) by (simp add: pipe_bytes_def pipe_put_def l)
qed

lemma pipe_get_bytes:
  assumes "pipe_ok x" and "pipe_bytes x \<noteq> []"
  shows "pipe_bytes x = fst (pipe_get x) # pipe_bytes (snd (pipe_get x))"
proof -
  have l: "length (pdata x) = PIPESIZE" using assms(1) by (simp add: pipe_ok_def)
  show ?thesis
    using ring_get [of "nread x" "nwrite x" "pdata x"] assms(2) by (simp add: pipe_bytes_def pipe_get_def ring_bytes_empty l)
qed

lemma pipe_ok_bytes: "pipe_ok x \<longleftrightarrow> length (pdata x) = PIPESIZE \<and> length (pipe_bytes x) \<le> PIPESIZE"
  by (simp add: pipe_ok_def pipe_bytes_def)

interpretation pipe_ring: fifo pipe_ok pipe_bytes PIPESIZE pipe_put pipe_get
proof
  fix q b
  assume q: "pipe_ok q"
  show "length (pipe_bytes q) \<le> PIPESIZE" using q by (simp add: pipe_ok_bytes)
  {
    assume l: "length (pipe_bytes q) < PIPESIZE"
    show e: "pipe_bytes (pipe_put b q) = pipe_bytes q @ [b]" by (rule pipe_put_bytes [OF q l])
    show "pipe_ok (pipe_put b q)" using q l e unfolding pipe_ok_bytes by (simp add: pipe_put_def)
  }
  {
    assume ne: "pipe_bytes q \<noteq> []"
    show e: "pipe_bytes q = fst (pipe_get q) # pipe_bytes (snd (pipe_get q))" by (rule pipe_get_bytes [OF q ne])
    then have "length (pipe_bytes (snd (pipe_get q))) \<le> length (pipe_bytes q)" by (metis le_Suc_eq length_Cons order_refl)
    then show "pipe_ok (snd (pipe_get q))" using q unfolding pipe_ok_bytes by (simp add: pipe_get_def)
  }
qed

lemma pipe_full: "nwrite x = nread x + of_nat PIPESIZE \<longleftrightarrow> length (pipe_bytes x) = PIPESIZE"
proof -
  have "nwrite x = nread x + of_nat PIPESIZE \<longleftrightarrow> nwrite x - nread x = of_nat PIPESIZE" by (auto simp: algebra_simps)
  also have "\<dots> \<longleftrightarrow> unat (nwrite x - nread x) = PIPESIZE" by (simp add: word_unat_eq_iff)
  finally show ?thesis by (simp add: pipe_bytes_def)
qed

lemma pipe_empty: "nread x = nwrite x \<longleftrightarrow> pipe_bytes x = []"
  by (simp add: pipe_bytes_def ring_bytes_empty)

section \<open>Reading\<close>

text \<open>One byte after the other to user memory, until a copy fails; the count of the bytes copied.\<close>

fun deliver :: "u64 \<Rightarrow> u64 \<Rightarrow> nat \<Rightarrow> u8 list \<Rightarrow> 'a kmem_scheme \<Rightarrow> nat \<times> 'a kmem_scheme" where
  "deliver pt addr k [] s = (k, s)"
| "deliver pt addr k (b # bs) s =
     (let (r, s1) = copyout pt (addr + of_nat k) [b] s
      in if r = -1 then (k, s1) else deliver pt addr (Suc k) bs s1)"

lemma deliver_upd:
  fixes upd :: "'a kmem_scheme \<Rightarrow> 'a kmem_scheme"
  assumes "\<And>s. pmem (upd s) = pmem s" and "\<And>s m. upd (s\<lparr>pmem := m\<rparr>) = (upd s)\<lparr>pmem := m\<rparr>"
  shows "deliver pt addr k bs (upd s) = (fst (deliver pt addr k bs s), upd (snd (deliver pt addr k bs s)))"
  by (induction bs arbitrary: k s) (simp_all add: copyout_upd [OF assms] Let_def split: prod.splits)

lemma deliver_count: "k \<le> fst (deliver pt addr k bs s) \<and> fst (deliver pt addr k bs s) \<le> k + length bs"
proof (induction bs arbitrary: k s)
  case (Cons b bs)
  show ?case using Cons.IH [of "Suc k" "snd (copyout pt (addr + of_nat k) [b] s)"] by (auto simp: Let_def split: prod.splits)
qed simp

lemma deliver_pmem: "\<exists>m. snd (deliver pt addr k bs s) = s\<lparr>pmem := m\<rparr>"
proof (induction bs arbitrary: k s)
  case Nil
  show ?case by (rule exI [of _ "pmem s"]) simp
next
  case (Cons b bs)
  obtain r s1 where c: "copyout pt (addr + of_nat k) [b] s = (r, s1)" by fastforce
  then have s1: "s1 = s\<lparr>pmem := pmem s1\<rparr>" using copyout_pmem [of pt "addr + of_nat k" "[b]" s] by simp
  obtain m where "snd (deliver pt addr (Suc k) bs s1) = s1\<lparr>pmem := m\<rparr>" using Cons.IH by blast
  then have "snd (deliver pt addr (Suc k) bs s1) = s\<lparr>pmem := m\<rparr>" by (subst (asm) (2) s1) simp
  then show ?case using s1 c by auto
qed

text \<open>The bytes that leave the pipe: those delivered, and one more when its copy fails.\<close>

definition taken :: "u64 \<Rightarrow> u64 \<Rightarrow> nat \<Rightarrow> u8 list \<Rightarrow> 'a kmem_scheme \<Rightarrow> nat" where
  "taken pt addr k bs s = min (length bs) (Suc (fst (deliver pt addr k bs s) - k))"

lemma piperead_loop_spec:
  assumes "pipe_ok (pipes s p)"
  shows "piperead_loop i p addr k n s = (let bs = take n (pipe_bytes (pipes s p)); d = deliver (pagetable (procs s i)) addr k bs s
    in (fst d, upd_pipe p (\<lambda>x. x\<lparr>nread := nread x + of_nat (taken (pagetable (procs s i)) addr k bs s)\<rparr>) (snd d)))"
  using assms
proof (induction n arbitrary: k s)
  case 0
  then show ?case by (simp add: taken_def upd_pipe_def)
next
  case (Suc n)
  show ?case
  proof (cases "pipe_bytes (pipes s p)")
    case Nil
    then show ?thesis using pipe_empty [of "pipes s p"] by (simp add: taken_def upd_pipe_def)
  next
    case (Cons b q)
    let ?pt = "pagetable (procs s i)" and ?u = "upd_pipe p (\<lambda>x. x\<lparr>nread := nread x + 1\<rparr>)"
    have g: "pdata (pipes s p) ! (unat (nread (pipes s p)) mod PIPESIZE) = b" "pipe_bytes (pipes (?u s) p) = q" "pipe_ok (pipes (?u s) p)"
      using pipe_ring.get_contents [OF Suc.prems] pipe_ring.get_ok [OF Suc.prems] Cons
      by (simp_all add: pipe_get_def upd_pipe_def)
    obtain r s1 where c: "copyout ?pt (addr + of_nat k) [b] s = (r, s1)" by fastforce
    have s1: "s1 = s\<lparr>pmem := pmem s1\<rparr>" using copyout_pmem [of ?pt "addr + of_nat k" "[b]" s] c by simp
    have u: "\<And>s. pmem (?u s) = pmem s" "\<And>s m. ?u (s\<lparr>pmem := m\<rparr>) = (?u s)\<lparr>pmem := m\<rparr>" by (simp_all add: upd_pipe_def)
    have cu: "copyout ?pt (addr + of_nat k) [b] (?u s) = (r, ?u s1)" using copyout_upd [where upd = ?u, OF u, of ?pt _ _ s] c by simp
    show ?thesis
    proof (cases "r = -1")
      case True
      then show ?thesis
        using pipe_empty [of "pipes s p"] Cons c cu g(1) by (simp add: taken_def Let_def) (simp add: upd_pipe_def)
    next
      case False
      let ?bs = "take n q" and ?d = "deliver ?pt addr (Suc k) (take n q) s1"
      have p1: "pipes (?u s1) p = pipes (?u s) p" by (subst s1) (simp add: upd_pipe_def)
      have pr: "procs (?u s1) = procs s" by (subst s1) (simp add: upd_pipe_def)
      have du: "deliver ?pt addr (Suc k) ?bs (?u s1) = (fst ?d, ?u (snd ?d))" by (rule deliver_upd [where upd = ?u, OF u])
      have tk: "taken ?pt addr (Suc k) ?bs (?u s1) = taken ?pt addr (Suc k) ?bs s1" by (simp add: taken_def du)
      have tk': "taken ?pt addr k (b # ?bs) s = Suc (taken ?pt addr (Suc k) ?bs s1)"
        using deliver_count [of "Suc k" ?pt addr ?bs s1] False by (auto simp: taken_def c Let_def)
      have "piperead_loop i p addr k (Suc n) s = piperead_loop i p addr (Suc k) n (?u s1)"
        using pipe_empty [of "pipes s p"] Cons cu g(1) False by (simp add: Let_def upd_pipe_def)
      also have "\<dots> = (fst ?d, upd_pipe p (\<lambda>x. x\<lparr>nread := nread x + of_nat (taken ?pt addr (Suc k) ?bs s1)\<rparr>) (?u (snd ?d)))"
        using Suc.IH [of "?u s1" "Suc k"] g(2,3) by (simp add: p1 pr du tk Let_def)
      also have "\<dots> = (fst ?d, upd_pipe p (\<lambda>x. x\<lparr>nread := nread x + of_nat (taken ?pt addr k (b # ?bs) s)\<rparr>) (snd ?d))"
        by (simp add: tk' upd_pipe_def add.assoc)
      finally show ?thesis using Cons c False by (simp add: Let_def)
    qed
  qed
qed

lemma pipe_drop:
  assumes "pipe_ok x" and "m \<le> length (pipe_bytes x)"
  shows "pipe_bytes (x\<lparr>nread := nread x + of_nat m\<rparr>) = drop m (pipe_bytes x)"
  using assms
proof (induction m arbitrary: x)
  case (Suc m)
  have ne: "pipe_bytes x \<noteq> []" using Suc.prems(2) by auto
  note g = pipe_ring.get_contents [OF Suc.prems(1) ne] pipe_ring.get_ok [OF Suc.prems(1) ne]
  have "pipe_bytes ((snd (pipe_get x))\<lparr>nread := nread (snd (pipe_get x)) + of_nat m\<rparr>) = drop m (pipe_bytes (snd (pipe_get x)))"
    by (rule Suc.IH [OF g(2)]) (use g(1) Suc.prems(2) in \<open>metis Suc_le_mono length_Cons\<close>)
  moreover have "drop m (pipe_bytes (snd (pipe_get x))) = drop (Suc m) (pipe_bytes x)" using arg_cong [OF g(1), of "drop (Suc m)"] by simp
  ultimately show ?case by (simp add: pipe_get_def add.assoc)
qed simp

lemma locked_pipe:
  "pipes (locked_state c lk s) = pipes s" "upd_pipe p g (locked_state c lk s) = locked_state c lk (upd_pipe p g s)"
  "pmem (locked_state c lk s) = pmem s" "(locked_state c lk s)\<lparr>pmem := m\<rparr> = locked_state c lk (s\<lparr>pmem := m\<rparr>)"
  by (simp_all add: locked_state_def lock_defs upd_pipe_def)

lemma woken_pipe: "pipes (woken ch s) = pipes s" "pmem (woken ch s) = pmem s"
  by (simp_all add: woken_def)

lemma piperead_effect:
  assumes calm: "calm c s" and ok: "pipe_ok (pipes s p)" and go: "pipe_bytes (pipes s p) \<noteq> [] \<or> \<not> writeopen (pipes s p)"
    and pt: "pt = pagetable (procs s i)" and bs: "bs = take (nat n) (pipe_bytes (pipes s p))"
  obtains s' where "piperead c i p addr n s = Ok (int (fst (deliver pt addr 0 bs s)), s')" "calm c s'" "pipe_ok (pipes s' p)"
    and "pipe_bytes (pipes s' p) = drop (taken pt addr 0 bs s) (pipe_bytes (pipes s p))" "\<forall>q. q \<noteq> p \<longrightarrow> pipes s' q = pipes s q"
    and "pmem s' = pmem (snd (deliver pt addr 0 bs s))"
proof -
  let ?L = "locked_state c (Lk_pipe p)"
  define s1 where "s1 = upd_pipe p (\<lambda>x. x\<lparr>nread := nread x + of_nat (taken pt addr 0 bs s)\<rparr>) (snd (deliver pt addr 0 bs s))"
  obtain m where m: "snd (deliver pt addr 0 bs s) = s\<lparr>pmem := m\<rparr>" using deliver_pmem by blast
  have c1: "calm c s1" by (rule calm_same [OF calm]) (simp_all add: s1_def m upd_pipe_def)
  have d: "deliver pt addr 0 bs (?L s) = (fst (deliver pt addr 0 bs s), ?L (snd (deliver pt addr 0 bs s)))"
    by (rule deliver_upd) (simp_all add: locked_pipe)
  then have tk: "taken pt addr 0 bs (?L s) = taken pt addr 0 bs s" by (simp add: taken_def)
  have loop: "piperead_loop i p addr 0 (nat n) (?L s) = (fst (deliver pt addr 0 bs s), ?L s1)"
    using piperead_loop_spec [of "?L s" p i addr 0 "nat n"] ok
    by (simp add: locked_pipe Let_def d tk s1_def flip: pt bs)
  have "piperead c i p addr n s = Ok (int (fst (deliver pt addr 0 bs s)), woken (Chan_nwrite p) s1)"
    using go pipe_empty [of "pipes s p"] calm_acquire [OF calm] loop wakeup_locked [OF c1] calm_release [OF calm_woken [OF c1]]
    by (auto simp: piperead_def locked_pipe)
  moreover have "taken pt addr 0 bs s \<le> length (pipe_bytes (pipes s p))" by (simp add: taken_def bs)
  from pipe_drop [OF ok this] have b: "pipe_bytes (pipes s1 p) = drop (taken pt addr 0 bs s) (pipe_bytes (pipes s p))"
    by (simp add: s1_def upd_pipe_def m)
  moreover have "pipe_ok (pipes s1 p)"
    using ok b unfolding pipe_ok_bytes by (auto simp: s1_def upd_pipe_def m)
  ultimately show thesis
    using that [of "woken (Chan_nwrite p) s1"] c1 by (simp add: woken_pipe) (simp add: s1_def upd_pipe_def m)
qed

section \<open>Writing\<close>

text \<open>The byte of user memory that \<open>pipewrite\<close> reads in round \<open>j\<close>.\<close>

definition user_byte :: "'a kproc_scheme \<Rightarrow> nat \<Rightarrow> u64 \<Rightarrow> nat \<Rightarrow> u8" where
  "user_byte s i addr j = hd (snd (copyin (pagetable (procs s i)) (addr + of_nat j) 1 s))"

definition user_fault :: "'a kproc_scheme \<Rightarrow> nat \<Rightarrow> u64 \<Rightarrow> nat \<Rightarrow> bool" where
  "user_fault s i addr j \<longleftrightarrow> fst (copyin (pagetable (procs s i)) (addr + of_nat j) 1 s) = -1"

text \<open>What \<open>pipewrite\<close> has done when \<open>k\<close> bytes are in the pipe: it is done, it has met a bad address, or it waits for room.\<close>

definition wrote_pipe :: "nat \<Rightarrow> u64 \<Rightarrow> u64 \<Rightarrow> nat \<Rightarrow> nat \<Rightarrow> nat \<Rightarrow> 'a kfile_scheme \<Rightarrow> int + bool \<times> nat \<Rightarrow> 'a kfile_scheme \<Rightarrow> bool" where
  "wrote_pipe i p addr j k n s r s' \<longleftrightarrow> j \<le> k \<and> k \<le> n \<and> pipe_ok (pipes s' p) \<and>
     pipe_bytes (pipes s' p) = pipe_bytes (pipes s p) @ map (user_byte s i addr) [j..<k] \<and> (\<forall>q. q \<noteq> p \<longrightarrow> pipes s' q = pipes s q) \<and>
     (case r of
        Inl x \<Rightarrow> x = int k \<and> (k = n \<or> user_fault s i addr k) \<or>
          x = -1 \<and> length (pipe_bytes (pipes s' p)) = PIPESIZE \<and> (\<not> readopen (pipes s p) \<or> killed (procs s i))
      | Inr (_, k') \<Rightarrow> k' = k \<and> k < n \<and> length (pipe_bytes (pipes s' p)) = PIPESIZE)"

lemma sleep_out_locked:
  assumes "calm c s" and "lk \<noteq> Lk_proc i"
  obtains ie s' where "sleep_out c i ch lk (locked_state c lk s) = Ok (ie, s')" "sched_only (locked_state c lk s) s'"
proof -
  let ?l = "locked_state c lk s"
  have h: "held_by c lk ?l" "free_lock (Lk_proc i) ?l" "noff (cpus ?l c) = 1" "\<not> intr (cpus ?l c)"
    using assms by (simp_all add: held_by_def locked_state_def lock_defs calm_def free_lock_def)
  obtain s' where s': "sleep_out c i ch lk ?l = Ok (intena (cpus ?l c), s')"
    using sleep_out_correct [OF assms(2) h(1,2), of ch] h(3,4) by auto
  have "sched_only ?l s'"
    using s' assms(2) unfolding sleep_out_def Let_def
    by (auto elim!: bindr_OkE dest!: acquire_sched_only release_sched_only split: if_splits
        intro: sched_only_trans upd_proc_sched_only)
  then show thesis using that s' by blast
qed

lemma sched_only_pipes: "sched_only s s' \<Longrightarrow> pipes s' = pipes s"
  unfolding sched_only_def by auto

lemma user_byte_cong:
  assumes "pmem s' = pmem s" and "pagetable (procs s' i) = pagetable (procs s i)"
  shows "user_byte s' i addr j = user_byte s i addr j" "user_fault s' i addr j = user_fault s i addr j"
  by (simp_all add: user_byte_def user_fault_def assms(2) copyin_cong [OF assms(1)])

lemma pipewrite_loop_effect:
  assumes "calm c s" and "pipe_ok (pipes s p)"
  shows "\<exists>k' r s'. pipewrite_loop c i p addr k n (locked_state c (Lk_pipe p) s) = Ok (r, s') \<and> wrote_pipe i p addr k k' (k + n) s r s'"
  using assms
proof (induction n arbitrary: k s)
  case 0
  then show ?case
    by (intro exI [of _ k])
      (simp add: wakeup_locked calm_release wrote_pipe_def woken_pipe)
next
  case (Suc n)
  let ?L = "locked_state c (Lk_pipe p)"
  note w = wakeup_locked [OF Suc.prems(1), of "Lk_pipe p"] and rel = calm_release [OF Suc.prems(1)] calm_release [OF calm_woken [OF Suc.prems(1)]]
  consider (full) "length (pipe_bytes (pipes s p)) = PIPESIZE" | (fault) "length (pipe_bytes (pipes s p)) \<noteq> PIPESIZE" "user_fault s i addr k"
    | (go) "length (pipe_bytes (pipes s p)) \<noteq> PIPESIZE" "\<not> user_fault s i addr k" by blast
  then show ?case
  proof cases
    case full
    then have f: "nwrite (pipes s p) = nread (pipes s p) + of_nat PIPESIZE" using pipe_full by simp
    show ?thesis
    proof (cases "\<not> readopen (pipes s p) \<or> killed (procs s i)")
      case True
      then show ?thesis
        using f full rel(1) Suc.prems(2) by (intro exI [of _ k]) (auto simp: Let_def locked_pipe wrote_pipe_def)
    next
      case False
      obtain ie s' where o: "sleep_out c i (Chan_nwrite p) (Lk_pipe p) (?L (woken (Chan_nread p) s)) = Ok (ie, s')"
        "sched_only (?L (woken (Chan_nread p) s)) s'"
        using sleep_out_locked [OF calm_woken [OF Suc.prems(1)], of "Lk_pipe p" i] by blast
      then have "pipes s' = pipes s" using sched_only_pipes by (force simp: locked_pipe woken_pipe)
      then show ?thesis
        using f full False o(1) w Suc.prems(2) by (intro exI [of _ k]) (auto simp: Let_def locked_pipe wrote_pipe_def)
    qed
  next
    case fault
    have "fst (copyin (pagetable (procs s i)) (addr + of_nat k) 1 (?L s)) = -1"
      using fault(2) copyin_cong [of "?L s" s] by (simp add: user_fault_def locked_pipe)
    then obtain bs where "copyin (pagetable (procs s i)) (addr + of_nat k) 1 (?L s) = (-1, bs)" by (metis prod.collapse)
    then show ?thesis
      using fault pipe_full [of "pipes s p"] w rel(2) Suc.prems(2)
      by (intro exI [of _ k]) (auto simp: Let_def locked_pipe woken_pipe wrote_pipe_def)
  next
    case go
    define b where "b = user_byte s i addr k"
    define s1 where "s1 = upd_pipe p (pipe_put b) s"
    obtain r bs where c: "copyin (pagetable (procs s i)) (addr + of_nat k) 1 (?L s) = (r, bs)" "r \<noteq> -1" "hd bs = b"
      using go(2) copyin_cong [of "?L s" s]
      by (cases "copyin (pagetable (procs s i)) (addr + of_nat k) 1 s") (auto simp: user_fault_def b_def user_byte_def locked_pipe)
    have "length (pipe_bytes (pipes s p)) < PIPESIZE" using go(1) Suc.prems(2) by (simp add: pipe_ok_bytes)
    note put = pipe_ring.put_ok [OF Suc.prems(2) this, of b] pipe_ring.put_contents [OF Suc.prems(2) this, of b]
    have p1: "pipes s1 = (pipes s)(p := pipe_put b (pipes s p))" by (simp add: s1_def upd_pipe_def)
    have step: "pipewrite_loop c i p addr k (Suc n) (?L s) = pipewrite_loop c i p addr (Suc k) n (?L s1)"
      using go(1) c pipe_full [of "pipes s p"]
      by (simp add: Let_def locked_pipe s1_def pipe_put_def [abs_def])
    have c1: "calm c s1" by (rule calm_same [OF Suc.prems(1)]) (simp_all add: s1_def upd_pipe_def)
    obtain k' x s' where IH: "pipewrite_loop c i p addr (Suc k) n (?L s1) = Ok (x, s')" "wrote_pipe i p addr (Suc k) k' (Suc k + n) s1 x s'"
      using Suc.IH [OF c1, of "Suc k"] put(1) p1 by auto
    have ub: "user_byte s1 i addr = user_byte s i addr" "user_fault s1 i addr = user_fault s i addr"
      using user_byte_cong [of s1 s i addr] by (auto simp: s1_def upd_pipe_def)
    have "wrote_pipe i p addr k k' (k + Suc n) s x s'"
      using IH(2) put(2) unfolding wrote_pipe_def ub p1
      by (auto simp: b_def upt_conv_Cons s1_def upd_pipe_def pipe_put_def split: sum.splits)
    then show ?thesis using step IH(1) by auto
  qed
qed

section \<open>A machine with a pipe\<close>

text \<open>
  A page table that maps every page to the physical page \<open>0x1000\<close>: each entry is valid, accessible to the user, and points
  to that page. The counters of the pipe are about to wrap around.
\<close>

definition self_mapped :: mem where
  "self_mapped a = (if unat a mod 8 = 0 then 0x11 else if unat a mod 8 = 1 then 4 else 0)"

definition empty_pipe :: pipe where
  "empty_pipe = \<lparr>pdata = replicate PIPESIZE 0, nread = - 1, nwrite = - 1, readopen = True, writeopen = True\<rparr>"

definition pipe_boot :: kfile where
  "pipe_boot = (kdev.extend (kfs.extend small_boot
     (kdev.fields [] 0 [] (replicate 32 0) 0 0 (replicate 128 0) 0 0 0 True False (\<lambda>_. None)))
     (kfile.fields (\<lambda>_. \<lparr>ftype = FD_NONE, fref = 0, readable = False, writable = False, fpipe = 0, fip = 0, foff = 0, fmajor = 0\<rparr>)
       (\<lambda>_. empty_pipe)))\<lparr>pmem := self_mapped, procs := (\<lambda>_. idle_proc\<lparr>pagetable := 0x1000\<rparr>)\<rparr>"

lemma pipe_boot_calm: "calm c pipe_boot"
  by (simp add: calm_def free_lock_def pipe_boot_def small_boot_def boot_log_def klog.defs kfs.defs kdev.defs kfile.defs)

lemma pipe_boot_fields: "pipes pipe_boot p = empty_pipe" "pmem pipe_boot = self_mapped" "pagetable (procs pipe_boot i) = 0x1000"
  by (simp_all add: pipe_boot_def small_boot_def boot_log_def klog.defs kfs.defs kdev.defs kfile.defs)

lemma empty_pipe_ok: "pipe_ok empty_pipe" "pipe_bytes empty_pipe = []" "readopen empty_pipe" "writeopen empty_pipe"
  by (simp_all add: pipe_ok_def pipe_bytes_def ring_bytes_empty empty_pipe_def)

lemma self_mapped_pte: "load64 self_mapped 0x1000 = 0x411"
proof -
  have n: "(8 :: nat) = Suc (Suc (Suc (Suc (Suc (Suc (Suc (Suc 0)))))))" by simp
  have "read_bytes self_mapped 0x1000 8 = [0x11, 4, 0, 0, 0, 0, 0, 0]"
    unfolding n read_bytes.simps by (simp add: self_mapped_def)
  then show ?thesis by (simp add: load64_def)
qed

lemma self_mapped_walk:
  assumes "pmem s = self_mapped"
  shows "walkaddr 0x1000 0 s = 0x1000"
proof -
  have e: "PTE2PA 0x411 = 0x1000" "PX l 0 = 0" "(0x411 :: u64) AND 1 \<noteq> 0" for l by (simp_all add: PTE2PA_def PX_def)
  have "walk_from (Suc (Suc 0)) 0x1000 0 False s = (0x1000, s)"
    by (simp add: assms e self_mapped_pte Let_def)
  then show ?thesis by (simp add: walkaddr_def assms self_mapped_pte e flip: numeral_2_eq_2)
qed

lemma self_mapped_copyin:
  assumes "pmem s = self_mapped"
  shows "copyin 0x1000 0 1 s = (0, [0x11])"
proof -
  have z: "copyin pt va 0 s = (0, [])" for pt va by (subst copyin.simps) simp
  have g: "PGROUNDDOWN 0 = 0" by (simp add: PGROUNDDOWN_def)
  have "self_mapped 0x1000 = 0x11" by (simp add: self_mapped_def)
  then show ?thesis
    unfolding copyin.simps [of "0x1000" 0 1 s] g assms by (simp add: z Let_def self_mapped_walk [OF assms])
qed

section \<open>Pipes are queues\<close>

text \<open>
  C30. A pipe is a queue of at most 512 bytes, also when its 32-bit counters wrap around. \<open>pipewrite\<close> always
  appends a prefix of the user's bytes: all of them, those before a bad address, or those there was room for before it
  waits with the pipe full (or gives up when the reader is gone or the writer killed). \<open>piperead\<close> waits exactly when the pipe is
  empty and still open for writing; otherwise it takes bytes from the front and delivers them in order to user memory. No other
  pipe changes.
\<close>

theorem pipe_is_queue:
  assumes "calm c s" and "pipe_ok (pipes s p)"
  shows "(\<exists>k r s'. pipewrite c i p addr n s = Ok (r, s') \<and> wrote_pipe i p addr 0 k (nat n) s r s') \<and>
    (let bs = take (nat n) (pipe_bytes (pipes s p)); pt = pagetable (procs s i); d = deliver pt addr 0 bs s
     in if pipe_bytes (pipes s p) = [] \<and> writeopen (pipes s p)
        then piperead c i p addr n s = (if killed (procs s i) then Ok (-1, s) else Sleep (Chan_nread p))
        else \<exists>s'. piperead c i p addr n s = Ok (int (fst d), s') \<and> pmem s' = pmem (snd d) \<and> pipe_ok (pipes s' p) \<and>
          pipe_bytes (pipes s' p) = drop (taken pt addr 0 bs s) (pipe_bytes (pipes s p)) \<and> (\<forall>q. q \<noteq> p \<longrightarrow> pipes s' q = pipes s q))"
proof (intro conjI)
  show "\<exists>k r s'. pipewrite c i p addr n s = Ok (r, s') \<and> wrote_pipe i p addr 0 k (nat n) s r s'"
    using pipewrite_loop_effect [OF assms, of i addr 0 "nat n"] by (simp add: pipewrite_def calm_acquire [OF assms(1)])
next
  show "let bs = take (nat n) (pipe_bytes (pipes s p)); pt = pagetable (procs s i); d = deliver pt addr 0 bs s
     in if pipe_bytes (pipes s p) = [] \<and> writeopen (pipes s p)
        then piperead c i p addr n s = (if killed (procs s i) then Ok (-1, s) else Sleep (Chan_nread p))
        else \<exists>s'. piperead c i p addr n s = Ok (int (fst d), s') \<and> pmem s' = pmem (snd d) \<and> pipe_ok (pipes s' p) \<and>
          pipe_bytes (pipes s' p) = drop (taken pt addr 0 bs s) (pipe_bytes (pipes s p)) \<and> (\<forall>q. q \<noteq> p \<longrightarrow> pipes s' q = pipes s q)"
  proof (cases "pipe_bytes (pipes s p) = [] \<and> writeopen (pipes s p)")
    case True
    then show ?thesis
      using pipe_empty [of "pipes s p"] calm_release [OF assms(1)]
      by (simp add: piperead_def calm_acquire [OF assms(1)] locked_pipe sleep_on_calm [OF assms(1)])
  next
    case False
    then have go: "pipe_bytes (pipes s p) \<noteq> [] \<or> \<not> writeopen (pipes s p)" by blast
    show ?thesis using piperead_effect [OF assms go refl refl] False unfolding Let_def by (smt (verit))
  qed
qed

theorem pipe_is_queue_witness:
  "\<exists>r s'. pipewrite 0 0 7 0 1 pipe_boot = Ok (r, s') \<and> pipe_bytes (pipes s' 7) = [0x11] \<and> piperead 0 0 7 0 1 pipe_boot = Sleep (Chan_nread 7)"
proof -
  have f: "\<not> user_fault pipe_boot 0 0 0" "user_byte pipe_boot 0 0 0 = 0x11"
    using self_mapped_copyin [of pipe_boot] by (simp_all add: user_fault_def user_byte_def pipe_boot_fields)
  have k: "\<not> killed (procs pipe_boot 0)" by (simp add: pipe_boot_def idle_proc_def)
  note q = pipe_is_queue [OF pipe_boot_calm, where p = 7 and i = 0 and addr = 0 and n = 1 and c = 0]
  obtain j r s' where w: "pipewrite 0 0 7 0 1 pipe_boot = Ok (r, s')" "wrote_pipe 0 7 0 0 j 1 pipe_boot r s'"
    using q by (auto simp: pipe_boot_fields empty_pipe_ok)
  then have "pipe_bytes (pipes s' 7) = [0x11]"
    using f k by (cases r) (auto simp: pipe_boot_fields empty_pipe_ok wrote_pipe_def le_Suc_eq)
  then show ?thesis using w(1) q k by (auto simp: pipe_boot_fields empty_pipe_ok)
qed

end
