(* ===== verification/Virtio_Disk.thy ===== *)
theory Virtio_Disk
  imports Virtio Pipe_Queue
begin

text \<open>
  The disk driver of kernel/virtio_disk.c does what the buffer cache asks of it. The device is a
  parameter: \<open>virtio_device\<close> states what the virtio specification says of a block device that finds a request in
  the available ring. A whole call of \<open>virtio_disk_rw\<close> is followed through its sleep, the service by the device, the
  interrupt and the return, and has the effect \<open>disk_rw\<close> that the buffer cache is built on.
\<close>

section \<open>Sleeping and waking up\<close>

lemma sleep_out_calm:
  assumes "calm c s" and lk: "lk \<noteq> Lk_proc i"
  shows "sleep_out c i ch lk (locked_state c lk s) = Ok (intr (cpus s c),
    locked_state c (Lk_proc i) (s\<lparr>procs := (procs s)(i := (procs s i)\<lparr>chan := Some ch, state := SLEEPING\<rparr>)\<rparr>))"
proof -
  obtain p n b where k: "cpus s c = \<lparr>proc = p, noff = n, intena = b, intr = b\<rparr>" "n = 0"
    using assms(1) by (cases "cpus s c") (auto simp: calm_def)
  have f: "locks s lk = \<lparr>locked = 0, cpu = None\<rparr>" "locks s (Lk_proc i) = \<lparr>locked = 0, cpu = None\<rparr>"
    using assms(1) by (simp_all add: calm_def free_lock_def)
  have u: "(locks s)(Lk_proc i := x, lk := \<lparr>locked = 0, cpu = None\<rparr>) = (locks s)(Lk_proc i := x)" for x
    using f(1) lk by (auto simp: fun_eq_iff)
  show ?thesis
    using lk f k
    by (simp add: sleep_out_def sched_out_def acquire_def release_def holding_def locked_state_def lock_defs upd_proc_def u fun_upd_twist [OF lk])
qed

lemma scheduler_back_calm:
  assumes "calm c s"
  shows "scheduler_back c i (locked_state c (Lk_proc i) s) = Ok (s\<lparr>cpus := (cpus s)(c := (cpus s c)\<lparr>proc := None\<rparr>)\<rparr>)"
proof -
  let ?s = "s\<lparr>cpus := (cpus s)(c := (cpus s c)\<lparr>proc := None\<rparr>)\<rparr>"
  have "calm c ?s" using assms by (simp add: calm_def free_lock_def)
  moreover have "(locked_state c (Lk_proc i) s)\<lparr>cpus := (cpus (locked_state c (Lk_proc i) s))(c := (cpus (locked_state c (Lk_proc i) s) c)\<lparr>proc := None\<rparr>)\<rparr> =
      locked_state c (Lk_proc i) ?s"
    by (cases "cpus s c") (simp add: locked_state_def lock_defs)
  ultimately show ?thesis using calm_release [of c ?s "Lk_proc i"] unfolding scheduler_back_def by metis
qed

lemma scheduler_visit_calm:
  assumes "calm c s" and "state (procs s i) = RUNNABLE"
  shows "scheduler_visit c i s = Ok (True, locked_state c (Lk_proc i)
    (s\<lparr>procs := (procs s)(i := (procs s i)\<lparr>state := RUNNING\<rparr>), cpus := (cpus s)(c := (cpus s c)\<lparr>proc := Some i\<rparr>)\<rparr>))"
  using assms(2) by (simp add: scheduler_visit_def calm_acquire [OF assms(1)] upd_proc_def)
    (cases "cpus s c", simp add: locked_state_def lock_defs)

lemma sleep_in_calm:
  assumes "calm c s" and "lk \<noteq> Lk_proc i"
  shows "sleep_in c i lk (intr (cpus s c)) (locked_state c (Lk_proc i) s) =
    Ok (locked_state c lk (s\<lparr>procs := (procs s)(i := (procs s i)\<lparr>chan := None\<rparr>)\<rparr>))"
proof -
  let ?s = "s\<lparr>procs := (procs s)(i := (procs s i)\<lparr>chan := None\<rparr>)\<rparr>"
  have c: "calm c ?s" by (rule calm_same [OF assms(1)]) simp_all
  have "upd_proc i (\<lambda>p. p\<lparr>chan := None\<rparr>) (sched_in c (intr (cpus s c)) (locked_state c (Lk_proc i) s)) = locked_state c (Lk_proc i) ?s"
    using assms(1) by (cases "cpus s c") (simp add: upd_proc_def sched_in_def locked_state_def lock_defs calm_def)
  then show ?thesis using assms(2) calm_release [OF c] calm_acquire [OF c] by (simp add: sleep_in_def)
qed

section \<open>With the lock of the driver held\<close>

lemma locked_virtio:
  "vdesc (locked_state c lk s) = vdesc s" "vfree (locked_state c lk s) = vfree s" "bufs (locked_state c lk s) = bufs s"
  "used_idx (locked_state c lk s) = used_idx s" "used_id (locked_state c lk s) = used_id s"
  "used_elems (locked_state c lk s) = used_elems s" "info_status (locked_state c lk s) = info_status s"
  "info_b (locked_state c lk s) = info_b s" "mmio (locked_state c lk s) = mmio s"
  "(locked_state c lk s)\<lparr>vfree := F\<rparr> = locked_state c lk (s\<lparr>vfree := F\<rparr>)"
  "(locked_state c lk s)\<lparr>info_b := I\<rparr> = locked_state c lk (s\<lparr>info_b := I\<rparr>)"
  "(locked_state c lk s)\<lparr>used_idx := u\<rparr> = locked_state c lk (s\<lparr>used_idx := u\<rparr>)"
  "upd_desc k f (locked_state c lk s) = locked_state c lk (upd_desc k f s)"
  "upd_buf b g (locked_state c lk s) = locked_state c lk (upd_buf b g s)"
  "mmio_write r v (locked_state c lk s) = locked_state c lk (mmio_write r v s)"
  by (simp_all add: locked_state_def lock_defs upd_desc_def upd_buf_def mmio_write_def)

lemma format_locked: "format_descs b w i0 i1 i2 (locked_state c lk s) = locked_state c lk (format_descs b w i0 i1 i2 s)"
  by (simp add: format_descs_def Let_def upd_desc_def upd_buf_def mmio_write_def) (simp add: locked_state_def lock_defs)

section \<open>Descriptors\<close>

lemma find_filter: "find P xs = (case filter P xs of [] \<Rightarrow> None | x # _ \<Rightarrow> Some x)"
  by (induction xs) auto

lemma alloc_desc_free:
  assumes "filter (vfree s) [0..<NUM] = k # ks"
  shows "alloc_desc s = (Some k, s\<lparr>vfree := (vfree s)(k := False)\<rparr>)" "filter ((vfree s)(k := False)) [0..<NUM] = ks"
    "k < NUM" "vfree s k"
proof -
  show "alloc_desc s = (Some k, s\<lparr>vfree := (vfree s)(k := False)\<rparr>)" using assms by (simp add: alloc_desc_def find_filter)
  have "k \<in> set (filter (vfree s) [0..<NUM])" unfolding assms by simp
  then show "k < NUM" "vfree s k" by simp_all
  have "distinct (filter (vfree s) [0..<NUM])" by simp
  then have k: "k \<notin> set ks" unfolding assms by simp
  have "filter ((vfree s)(k := False)) [0..<NUM] = filter (\<lambda>i. i \<noteq> k) (filter (vfree s) [0..<NUM])"
    unfolding filter_filter by (rule filter_cong) auto
  also have "\<dots> = ks" unfolding assms using k by (auto simp: filter_id_conv)
  finally show "filter ((vfree s)(k := False)) [0..<NUM] = ks" .
qed

text \<open>The state without its descriptor \<open>k\<close>, and with it given back.\<close>

definition freed :: "nat \<Rightarrow> 'a kvirtio_scheme \<Rightarrow> 'a kvirtio_scheme" where
  "freed k s = woken Chan_diskfree ((upd_desc k (\<lambda>x. x\<lparr>vd_addr := Null\<rparr>) s)\<lparr>vfree := (vfree s)(k := True)\<rparr>)"

lemma freed_fields:
  "vfree (freed k s) = (vfree s)(k := True)" "vdesc (freed k s) = (vdesc s)(k := (vdesc s k)\<lparr>vd_addr := Null\<rparr>)"
  "calm c s \<Longrightarrow> calm c (freed k s)" "disk (freed k s) = disk s" "disk_writes (freed k s) = disk_writes s" "bufs (freed k s) = bufs s"
  "used_id (freed k s) = used_id s" "used_idx (freed k s) = used_idx s" "avail_idx (freed k s) = avail_idx s"
  "state (procs s i) \<noteq> SLEEPING \<Longrightarrow> procs (freed k s) i = procs s i"
  by (simp_all add: freed_def woken_def upd_desc_def wake_all_def wake_def calm_def free_lock_def)

lemma desc_vfree: "vfree (upd_desc k f s) = vfree s"
  by (simp add: upd_desc_def)

lemma free_desc_locked:
  assumes "calm c s" and "k < NUM" and "\<not> vfree s k"
  shows "free_desc c k (locked_state c Lk_disk s) = Ok (locked_state c Lk_disk (freed k s))"
proof -
  have "calm c ((upd_desc k (\<lambda>x. x\<lparr>vd_addr := Null\<rparr>) s)\<lparr>vfree := (vfree s)(k := True)\<rparr>)"
    by (rule calm_same [OF assms(1)]) (simp_all add: upd_desc_def)
  from wakeup_locked [OF this, of Lk_disk Chan_diskfree] show ?thesis
    using assms(2,3) by (simp add: free_desc_def locked_virtio freed_def desc_vfree)
qed

text \<open>The chain of a request is three descriptors; freeing it gives back all three.\<close>

definition chain3 :: "(nat \<Rightarrow> vring_desc) \<Rightarrow> nat \<Rightarrow> nat \<Rightarrow> nat \<Rightarrow> bool" where
  "chain3 V i0 i1 i2 \<longleftrightarrow> i0 < NUM \<and> i1 < NUM \<and> i2 < NUM \<and> distinct [i0, i1, i2] \<and>
     vd_flags (V i0) AND VRING_DESC_F_NEXT \<noteq> 0 \<and> vd_next (V i0) = of_nat i1 \<and>
     vd_flags (V i1) AND VRING_DESC_F_NEXT \<noteq> 0 \<and> vd_next (V i1) = of_nat i2 \<and> vd_flags (V i2) AND VRING_DESC_F_NEXT = 0"

lemma chain_free_locked:
  assumes "calm c s" and ch: "chain3 (vdesc s) i0 i1 i2" and nf: "\<not> vfree s i0" "\<not> vfree s i1" "\<not> vfree s i2"
  shows "chain_free c (Suc NUM) i0 (locked_state c Lk_disk s) = Ok (locked_state c Lk_disk (freed i2 (freed i1 (freed i0 s))))"
proof -
  have n: "i0 < NUM" "i1 < NUM" "i2 < NUM" "i0 \<noteq> i1" "i0 \<noteq> i2" "i1 \<noteq> i2" using ch by (auto simp: chain3_def)
  have u: "unat (of_nat k :: u16) = k" if "k < NUM" for k using that by (simp add: unat_of_nat)
  note c1 = freed_fields(3) [OF assms(1), of i0]
  note c2 = freed_fields(3) [OF c1, of i1]
  have f: "\<not> vfree (freed i0 s) i1" "\<not> vfree (freed i1 (freed i0 s)) i2" using n nf by (simp_all add: freed_fields)
  note F = free_desc_locked [OF assms(1) n(1) nf(1)] free_desc_locked [OF c1 n(2) f(1)] free_desc_locked [OF c2 n(3) f(2)]
  have "(Suc NUM :: nat) = Suc (Suc (Suc 6))" by simp
  then show ?thesis
    using F ch n u by (simp only: chain_free.simps bindr.simps) (simp add: locked_virtio freed_fields chain3_def)
qed

section \<open>Posting a request, and its completion\<close>

definition taken :: "nat \<Rightarrow> nat \<Rightarrow> nat \<Rightarrow> 'a kvirtio_scheme \<Rightarrow> 'a kvirtio_scheme" where
  "taken i0 i1 i2 s = s\<lparr>vfree := (vfree s)(i0 := False, i1 := False, i2 := False)\<rparr>"

lemma alloc3_free:
  assumes "filter (vfree s) [0..<NUM] = i0 # i1 # i2 # ks"
  shows "alloc3_desc c s = Ok (Some [i0, i1, i2], taken i0 i1 i2 s)"
    "i0 < NUM" "i1 < NUM" "i2 < NUM" "distinct [i0, i1, i2]" "vfree s i0" "vfree s i1" "vfree s i2"
proof -
  note a0 = alloc_desc_free [OF assms]
  let ?s1 = "s\<lparr>vfree := (vfree s)(i0 := False)\<rparr>"
  have "filter (vfree ?s1) [0..<NUM] = i1 # i2 # ks" using a0(2) by simp
  note a1 = alloc_desc_free [OF this]
  let ?s2 = "s\<lparr>vfree := (vfree s)(i0 := False, i1 := False)\<rparr>"
  have "filter (vfree ?s2) [0..<NUM] = i2 # ks" using a1(2) by simp
  note a2 = alloc_desc_free [OF this]
  show "i0 < NUM" "i1 < NUM" "i2 < NUM" using a0(3) a1(3) a2(3) by simp_all
  show "vfree s i0" "vfree s i1" "vfree s i2" "distinct [i0, i1, i2]" using a0(4) a1(4) a2(4) by (auto split: if_splits)
  show "alloc3_desc c s = Ok (Some [i0, i1, i2], taken i0 i1 i2 s)"
    using a0(1) a1(1) a2(1) by (simp add: alloc3_desc_def numeral_3_eq_3 taken_def)
qed

lemma submit_calm:
  assumes "calm c s" and "filter (vfree s) [0..<NUM] = i0 # i1 # i2 # ks"
  shows "virtio_disk_submit c i b write s =
    Ok (Inl i0, locked_state c Lk_disk (format_descs b write i0 i1 i2 (taken i0 i1 i2 s)))"
proof -
  have "filter (vfree (locked_state c Lk_disk s)) [0..<NUM] = i0 # i1 # i2 # ks" using assms(2) by (simp add: locked_virtio)
  note a = alloc3_free(1) [OF this, of c]
  have t: "taken i0 i1 i2 (locked_state c Lk_disk s) = locked_state c Lk_disk (taken i0 i1 i2 s)" by (simp add: taken_def locked_virtio)
  show ?thesis using a by (simp add: virtio_disk_submit_def calm_acquire [OF assms(1)] t format_locked)
qed

lemma format_fields:
  assumes "distinct [i0, i1, i2]"
  shows "vdesc (format_descs b write i0 i1 i2 s) i0 =
      \<lparr>vd_addr = Hdr (if write then VIRTIO_BLK_T_OUT else VIRTIO_BLK_T_IN) (ucast (blockno (bufs s b) * 2)),
       vd_len = 16, vd_flags = VRING_DESC_F_NEXT, vd_next = of_nat i1\<rparr>"
    "vdesc (format_descs b write i0 i1 i2 s) i1 =
      \<lparr>vd_addr = BufData b, vd_len = of_nat BSIZE, vd_flags = (if write then 0 else VRING_DESC_F_WRITE) OR VRING_DESC_F_NEXT, vd_next = of_nat i2\<rparr>"
    "vdesc (format_descs b write i0 i1 i2 s) i2 = \<lparr>vd_addr = StatusOf i0, vd_len = 1, vd_flags = VRING_DESC_F_WRITE, vd_next = 0\<rparr>"
    "info_b (format_descs b write i0 i1 i2 s) i0 = Some b"
    "avail_idx (format_descs b write i0 i1 i2 s) = avail_idx s + 1"
    "avail (format_descs b write i0 i1 i2 s) (unat (avail_idx s) mod NUM) = of_nat i0"
    "used_id (format_descs b write i0 i1 i2 s) = used_id s" "used_idx (format_descs b write i0 i1 i2 s) = used_idx s"
    "vfree (format_descs b write i0 i1 i2 s) = vfree s" "disk (format_descs b write i0 i1 i2 s) = disk s"
    "disk_writes (format_descs b write i0 i1 i2 s) = disk_writes s" "procs (format_descs b write i0 i1 i2 s) = procs s"
    "bufs (format_descs b write i0 i1 i2 s) = (bufs s)(b := (bufs s b)\<lparr>bdisk := True\<rparr>)"
    "calm c s \<Longrightarrow> calm c (format_descs b write i0 i1 i2 s)"
  using assms by (simp_all add: format_descs_def Let_def upd_desc_def upd_buf_def mmio_write_def calm_def free_lock_def)

text \<open>The device has completed one request, the driver has seen all the earlier ones.\<close>

definition completed :: "nat \<Rightarrow> nat \<Rightarrow> 'a kvirtio_scheme \<Rightarrow> bool" where
  "completed h b s \<longleftrightarrow> unat (used_idx s) < NUM \<and> unat (used_id s) mod NUM = (unat (used_idx s) + 1) mod NUM \<and>
     used_elems s (unat (used_idx s)) = of_nat h \<and> h < NUM \<and> info_status s h = 0 \<and> info_b s h = Some b"

definition acked :: "nat \<Rightarrow> 'a kvirtio_scheme \<Rightarrow> 'a kvirtio_scheme" where
  "acked b s = mmio_write 0x064 (mmio s 0x060 AND 3)
     ((woken (Chan_buf b) (upd_buf b (\<lambda>x. x\<lparr>bdisk := False\<rparr>) s))\<lparr>used_idx := (used_idx s + 1) mod of_nat NUM\<rparr>)"

lemma next_slot: "unat ((x + 1) mod of_nat NUM :: u16) = (unat x + 1) mod NUM"
  by (simp add: unat_mod unat_word_ariths mod_mod_cancel)

lemma virtio_disk_intr_calm:
  assumes "calm c s" and d: "completed h b s"
  shows "virtio_disk_intr c s = Ok (acked b s)"
proof -
  let ?s1 = "upd_buf b (\<lambda>x. x\<lparr>bdisk := False\<rparr>) s"
  have c1: "calm c ?s1" by (rule calm_same [OF assms(1)]) (simp_all add: upd_buf_def)
  have h: "unat (of_nat h :: u32) = h" using d by (simp add: completed_def unat_of_nat)
  have ne: "unat (used_idx s) mod NUM \<noteq> unat (used_id s) mod NUM" using d unfolding completed_def by presburger
  have w: "used_idx (woken ch t) = used_idx t" "mmio (woken ch t) = mmio t" "used_id (woken ch t) = used_id t" for ch and t :: "'a kvirtio_scheme"
    by (simp_all add: woken_def)
  have e: "used_idx ?s1 = used_idx s" "mmio ?s1 = mmio s" "used_id ?s1 = used_id s" by (simp_all add: upd_buf_def)
  let ?s2 = "(woken (Chan_buf b) ?s1)\<lparr>used_idx := (used_idx s + 1) mod of_nat NUM\<rparr>"
  have "used_idx ?s2 = (used_idx s + 1) mod of_nat NUM" "used_id ?s2 = used_id s" by (simp_all add: w e)
  then have "unat (used_idx ?s2) mod NUM = unat (used_id ?s2) mod NUM"
    using d unfolding completed_def by (simp only: next_slot mod_mod_trivial)
  then have two: "intr_loop c 7 (locked_state c Lk_disk ?s2) = Ok (locked_state c Lk_disk ?s2)"
    by (subst intr_loop.simps) (simp add: locked_virtio)
  have "intr_loop c (Suc 7) (locked_state c Lk_disk s) = Ok (locked_state c Lk_disk ?s2)"
    using ne d h two by (subst intr_loop.simps) (simp add: locked_virtio wakeup_locked [OF c1] completed_def w e)
  then have "intr_loop c NUM (locked_state c Lk_disk s) = Ok (locked_state c Lk_disk ?s2)" by simp
  moreover have "calm c (acked b s)" by (rule calm_same [OF assms(1)]) (simp_all add: acked_def mmio_write_def woken_def upd_buf_def)
  ultimately show ?thesis
    using calm_release [of c "acked b s" Lk_disk]
    by (simp add: virtio_disk_intr_def critical_def calm_acquire [OF assms(1)] locked_virtio acked_def w e)
qed

section \<open>The device\<close>

text \<open>
  What the virtio specification says of a block device with \<open>cap\<close> sectors of 512 bytes: when the available ring has an
  entry past the last one used, and it heads a chain of a request header, a data buffer and a status byte, for sectors the disk has,
  the device moves the data between the buffer and the sectors, writes 0 to the status byte, enters
  the head into the used ring and advances the index of that ring. It may change its own registers. A block of the
  file system is two sectors. A chain for other sectors, or of another form, is left open.
\<close>

definition disk_transfer :: "u32 \<Rightarrow> nat \<Rightarrow> bool \<Rightarrow> 'a kvirtio_scheme \<Rightarrow> 'a kvirtio_scheme" where
  "disk_transfer n b write s =
     (if write then s\<lparr>disk := (disk s)(n := data (bufs s b)), disk_writes := disk_writes s @ [(n, data (bufs s b))]\<rparr>
      else upd_buf b (\<lambda>x. x\<lparr>data := disk s n\<rparr>) s)"

definition used_entry :: "nat \<Rightarrow> nat \<Rightarrow> (u32 \<Rightarrow> u32) \<Rightarrow> 'a kvirtio_scheme \<Rightarrow> 'a kvirtio_scheme" where
  "used_entry h r m s = s\<lparr>info_status := (info_status s)(r := 0),
     used_elems := (used_elems s)(unat (used_id s) mod NUM := of_nat h), used_id := used_id s + 1, mmio := m\<rparr>"

definition virtio_device :: "nat \<Rightarrow> ('a kvirtio_scheme \<Rightarrow> 'a kvirtio_scheme) \<Rightarrow> bool" where
  "virtio_device cap dv \<longleftrightarrow> (\<forall>s h j q ty sec b r.
     used_id s \<noteq> avail_idx s \<and> avail s (unat (used_id s) mod NUM) = of_nat h \<and> h < NUM \<and> j < NUM \<and> q < NUM \<and>
     vdesc s h = \<lparr>vd_addr = Hdr ty sec, vd_len = 16, vd_flags = VRING_DESC_F_NEXT, vd_next = of_nat j\<rparr> \<and>
     (ty = VIRTIO_BLK_T_IN \<or> ty = VIRTIO_BLK_T_OUT) \<and> even (unat sec) \<and> unat sec + 2 \<le> cap \<and>
     vdesc s j = \<lparr>vd_addr = BufData b, vd_len = of_nat BSIZE,
       vd_flags = (if ty = VIRTIO_BLK_T_OUT then 0 else VRING_DESC_F_WRITE) OR VRING_DESC_F_NEXT, vd_next = of_nat q\<rparr> \<and>
     vdesc s q = \<lparr>vd_addr = StatusOf r, vd_len = 1, vd_flags = VRING_DESC_F_WRITE, vd_next = 0\<rparr> \<longrightarrow>
     (\<exists>m. dv s = used_entry h r m (disk_transfer (ucast (sec div 2)) b (ty = VIRTIO_BLK_T_OUT) s)))"

text \<open>The request that \<open>virtio_disk_rw\<close> posts, alone in the queue.\<close>

definition posted :: "nat \<Rightarrow> bool \<Rightarrow> nat \<Rightarrow> nat \<Rightarrow> nat \<Rightarrow> 'a kvirtio_scheme \<Rightarrow> bool" where
  "posted b write i0 i1 i2 s \<longleftrightarrow> i0 < NUM \<and> i1 < NUM \<and> i2 < NUM \<and> distinct [i0, i1, i2] \<and>
     vdesc s i0 = \<lparr>vd_addr = Hdr (if write then VIRTIO_BLK_T_OUT else VIRTIO_BLK_T_IN) (ucast (blockno (bufs s b) * 2)),
       vd_len = 16, vd_flags = VRING_DESC_F_NEXT, vd_next = of_nat i1\<rparr> \<and>
     vdesc s i1 = \<lparr>vd_addr = BufData b, vd_len = of_nat BSIZE,
       vd_flags = (if write then 0 else VRING_DESC_F_WRITE) OR VRING_DESC_F_NEXT, vd_next = of_nat i2\<rparr> \<and>
     vdesc s i2 = \<lparr>vd_addr = StatusOf i0, vd_len = 1, vd_flags = VRING_DESC_F_WRITE, vd_next = 0\<rparr> \<and>
     info_b s i0 = Some b \<and> unat (used_idx s) = unat (used_id s) mod NUM \<and> avail_idx s = used_id s + 1 \<and>
     avail s (unat (used_id s) mod NUM) = of_nat i0"

lemma posted_chain: "posted b write i0 i1 i2 s \<Longrightarrow> chain3 (vdesc s) i0 i1 i2"
  by (auto simp: posted_def chain3_def)

lemma sector_of_block:
  assumes "2 * unat n + 2 \<le> (2 :: nat) ^ 32"
  shows "unat (ucast (n * 2 :: u32) :: u64) = 2 * unat n" "ucast ((ucast (n * 2 :: u32) :: u64) div 2) = (n :: u32)"
proof -
  have "unat (n * 2) = 2 * unat n" using assms by (simp add: unat_word_ariths)
  then show s: "unat (ucast (n * 2 :: u32) :: u64) = 2 * unat n" using assms by (simp add: unsigned_ucast_eq take_bit_eq_mod)
  then have "unat ((ucast (n * 2 :: u32) :: u64) div 2) = unat n" by (simp add: unat_div)
  then show "ucast ((ucast (n * 2 :: u32) :: u64) div 2) = n" using assms by (simp add: word_unat_eq_iff unsigned_ucast_eq take_bit_eq_mod)
qed

lemma device_serves:
  assumes dv: "virtio_device cap dv" and p: "posted b write i0 i1 i2 s" and n: "2 * unat (blockno (bufs s b)) + 2 \<le> cap" "cap \<le> 2 ^ 32"
  obtains m where "dv s = used_entry i0 i0 m (disk_rw b write s)" "completed i0 b (dv s)"
proof -
  let ?n = "blockno (bufs s b)"
  have t: "disk_transfer ?n b write s = disk_rw b write s" by (simp add: disk_transfer_def disk_rw_def Let_def)
  have "2 * unat ?n + 2 \<le> (2 :: nat) ^ 32" using n by linarith
  note sec = sector_of_block [OF this]
  have "\<exists>m. dv s = used_entry i0 i0 m (disk_transfer (ucast ((ucast (?n * 2) :: u64) div 2)) b
      ((if write then VIRTIO_BLK_T_OUT else VIRTIO_BLK_T_IN) = VIRTIO_BLK_T_OUT) s)"
    by (rule dv [unfolded virtio_device_def, rule_format, of s i0 i1 i2 "if write then VIRTIO_BLK_T_OUT else VIRTIO_BLK_T_IN"])
      (use p n sec(1) in \<open>simp add: posted_def\<close>)
  then obtain m where m: "dv s = used_entry i0 i0 m (disk_rw b write s)" using sec(2) t by (auto split: if_splits)
  have "completed i0 b (dv s)"
    using p unfolding m by (auto simp: completed_def posted_def used_entry_def disk_rw_def Let_def upd_buf_def unat_word_ariths mod_mod_cancel mod_Suc_eq)
  with m show ?thesis by (rule that)
qed

section \<open>A whole call\<close>

text \<open>
  \<open>virtio_disk_rw\<close> with what happens while it sleeps: the process gives up the processor with \<open>sleep\<close>, the scheduler goes on,
  the device serves the request and interrupts, the scheduler comes back to the process, and \<open>sleep\<close> returns in the loop
  that waits for the buffer.
\<close>

definition virtio_disk_rw_run ::
  "('a kvirtio_scheme \<Rightarrow> 'a kvirtio_scheme) \<Rightarrow> nat \<Rightarrow> nat \<Rightarrow> nat \<Rightarrow> bool \<Rightarrow> 'a kvirtio_scheme \<Rightarrow> 'a kvirtio_scheme res" where
  "virtio_disk_rw_run dv c i b write s =
     bindp (virtio_disk_submit c i b write s) (\<lambda>r s1.
       case r of Inr _ \<Rightarrow> Sleep Chan_diskfree | Inl h \<Rightarrow>
       bindp (virtio_disk_wait c i b h s1) (\<lambda>w s2.
         case w of Inl _ \<Rightarrow> Ok s2 | Inr ie \<Rightarrow>
         bindr (scheduler_back c i s2) (\<lambda>s3.
         bindr (virtio_disk_intr c (dv s3)) (\<lambda>s4.
         bindp (scheduler_visit c i s4) (\<lambda>go s5.
         if \<not> go then Sleep (Chan_buf b) else
         bindr (sleep_in c i Lk_disk ie s5) (\<lambda>s6.
         bindp (virtio_disk_wait c i b h s6) (\<lambda>w' s7.
         case w' of Inl _ \<Rightarrow> Ok s7 | Inr _ \<Rightarrow> Sleep (Chan_buf b))))))))"

text \<open>The driver has seen all that the device has done, and the device has done all it was asked.\<close>

definition vq_idle :: "'a kvirtio_scheme \<Rightarrow> bool" where
  "vq_idle s \<longleftrightarrow> used_id s = avail_idx s \<and> unat (used_idx s) = unat (used_id s) mod NUM"

lemma posted_submit:
  assumes "vq_idle s" and "filter (vfree s) [0..<NUM] = i0 # i1 # i2 # ks"
  shows "posted b write i0 i1 i2 (format_descs b write i0 i1 i2 (taken i0 i1 i2 s))"
proof -
  note a = alloc3_free [OF assms(2)]
  note f = format_fields [OF a(5), where s = "taken i0 i1 i2 s" and b = b]
  have t: "avail_idx (taken i0 i1 i2 s) = used_id s" "used_id (taken i0 i1 i2 s) = used_id s" "used_idx (taken i0 i1 i2 s) = used_idx s"
    using assms(1) by (simp_all add: taken_def vq_idle_def)
  show ?thesis unfolding posted_def f(7) using f(6) assms(1) a(2-5) by (simp add: f(1-5,7-13) t vq_idle_def)
qed

text \<open>The request is with the device and the process sleeps on the buffer: up to the return of \<open>sleep\<close>.\<close>

definition asleep :: "nat \<Rightarrow> nat \<Rightarrow> chan \<Rightarrow> 'a kvirtio_scheme \<Rightarrow> 'a kvirtio_scheme" where
  "asleep c i ch s = s\<lparr>procs := (procs s)(i := (procs s i)\<lparr>chan := Some ch, state := SLEEPING\<rparr>),
     cpus := (cpus s)(c := (cpus s c)\<lparr>proc := None\<rparr>)\<rparr>"

definition resumed :: "nat \<Rightarrow> nat \<Rightarrow> 'a kvirtio_scheme \<Rightarrow> 'a kvirtio_scheme" where
  "resumed c i s = s\<lparr>cpus := (cpus s)(c := (cpus s c)\<lparr>proc := Some i\<rparr>),
     procs := (procs s)(i := (procs s i)\<lparr>state := RUNNING, chan := None\<rparr>)\<rparr>"

lemma virtio_disk_wait_sleeps:
  assumes "calm c s" and "bdisk (bufs s b)"
  shows "bindp (virtio_disk_wait c i b h (locked_state c Lk_disk s)) (\<lambda>w s2. case w of Inl _ \<Rightarrow> Ok s2 | Inr ie \<Rightarrow> bindr (scheduler_back c i s2) (f ie)) =
    f (intr (cpus s c)) (asleep c i (Chan_buf b) s)"
proof -
  let ?s = "s\<lparr>procs := (procs s)(i := (procs s i)\<lparr>chan := Some (Chan_buf b), state := SLEEPING\<rparr>)\<rparr>"
  have "calm c ?s" by (rule calm_same [OF assms(1)]) simp_all
  from scheduler_back_calm [OF this, of i] show ?thesis
    using assms by (simp add: virtio_disk_wait_def locked_virtio sleep_out_calm asleep_def)
qed

lemma scheduler_resumes:
  assumes "calm c s" and "state (procs s i) = RUNNABLE" and ie: "ie = intr (cpus s c)"
  shows "bindp (scheduler_visit c i s) (\<lambda>go s5. if \<not> go then y else bindr (sleep_in c i Lk_disk ie s5) f) =
    f (locked_state c Lk_disk (resumed c i s))"
proof -
  let ?s = "s\<lparr>procs := (procs s)(i := (procs s i)\<lparr>state := RUNNING\<rparr>), cpus := (cpus s)(c := (cpus s c)\<lparr>proc := Some i\<rparr>)\<rparr>"
  have c: "calm c ?s" using assms(1) by (simp add: calm_def free_lock_def)
  have "intr (cpus ?s c) = ie" using ie by simp
  moreover have "?s\<lparr>procs := (procs ?s)(i := (procs ?s i)\<lparr>chan := None\<rparr>)\<rparr> = resumed c i s" by (simp add: resumed_def)
  ultimately show ?thesis using sleep_in_calm [OF c, of Lk_disk i] by (simp add: scheduler_visit_calm [OF assms(1,2)])
qed

lemma virtio_disk_wait_returns:
  assumes "calm c s" and "\<not> bdisk (bufs s b)" and ch: "chain3 (vdesc s) i0 i1 i2" and "\<not> vfree s i0" "\<not> vfree s i1" "\<not> vfree s i2"
  shows "virtio_disk_wait c i b i0 (locked_state c Lk_disk s) =
    Ok (Inl (), freed i2 (freed i1 (freed i0 (s\<lparr>info_b := (info_b s)(i0 := None)\<rparr>))))"
proof -
  let ?s = "s\<lparr>info_b := (info_b s)(i0 := None)\<rparr>"
  have c: "calm c ?s" by (rule calm_same [OF assms(1)]) simp_all
  have "calm c (freed i2 (freed i1 (freed i0 ?s)))" using c by (simp add: freed_fields)
  with chain_free_locked [OF c, of i0 i1 i2] show ?thesis
    using assms by (simp add: virtio_disk_wait_def locked_virtio calm_release)
qed

definition round_trip :: "nat \<Rightarrow> nat \<Rightarrow> nat \<Rightarrow> bool \<Rightarrow> nat \<Rightarrow> (u32 \<Rightarrow> u32) \<Rightarrow> 'a kvirtio_scheme \<Rightarrow> 'a kvirtio_scheme" where
  "round_trip c i b write h m s = acked b (used_entry h h m (disk_rw b write (asleep c i (Chan_buf b) s)))"

lemmas round_trip_defs = round_trip_def acked_def used_entry_def disk_rw_def Let_def asleep_def upd_buf_def mmio_write_def woken_def

lemma round_trip_fields:
  "vdesc (round_trip c i b write h m s) = vdesc s" "vfree (round_trip c i b write h m s) = vfree s"
  "avail_idx (round_trip c i b write h m s) = avail_idx s" "used_id (round_trip c i b write h m s) = used_id s + 1"
  "used_idx (round_trip c i b write h m s) = (used_idx s + 1) mod of_nat NUM"
  "disk (round_trip c i b write h m s) = disk (disk_rw b write s)"
  "disk_writes (round_trip c i b write h m s) = disk_writes (disk_rw b write s)"
  "bufs (round_trip c i b write h m s) = (bufs (disk_rw b write s))(b := (bufs (disk_rw b write s) b)\<lparr>bdisk := False\<rparr>)"
  "calm c s \<Longrightarrow> calm c (round_trip c i b write h m s)" "intr (cpus (round_trip c i b write h m s) c) = intr (cpus s c)"
  "i < NPROC \<Longrightarrow> procs (round_trip c i b write h m s) i = (procs s i)\<lparr>chan := Some (Chan_buf b), state := RUNNABLE\<rparr>"
  by (simp_all add: round_trip_defs calm_def free_lock_def wake_all_def wake_def)

lemma resumed_fields:
  "vdesc (resumed c i s) = vdesc s" "vfree (resumed c i s) = vfree s" "avail_idx (resumed c i s) = avail_idx s"
  "used_id (resumed c i s) = used_id s" "used_idx (resumed c i s) = used_idx s" "disk (resumed c i s) = disk s"
  "disk_writes (resumed c i s) = disk_writes s" "bufs (resumed c i s) = bufs s" "calm c s \<Longrightarrow> calm c (resumed c i s)"
  "procs (resumed c i s) i = (procs s i)\<lparr>state := RUNNING, chan := None\<rparr>" "proc (cpus (resumed c i s) c) = Some i"
  by (simp_all add: resumed_def calm_def free_lock_def)

lemma posted_asleep: "posted b write i0 i1 i2 (asleep c i ch s) = posted b write i0 i1 i2 s" "calm c s \<Longrightarrow> calm c (asleep c i ch s)"
  "bufs (asleep c i ch s) = bufs s"
  by (simp_all add: posted_def asleep_def calm_def free_lock_def)

lemma run_posted:
  assumes dv: "virtio_device cap dv" and c: "calm c s" and p: "posted b write i0 i1 i2 s" and n: "2 * unat (blockno (bufs s b)) + 2 \<le> cap" "cap \<le> 2 ^ 32"
    and bd: "bdisk (bufs s b)" and i: "i < NPROC" and nf: "\<not> vfree s i0" "\<not> vfree s i1" "\<not> vfree s i2"
    and sub: "virtio_disk_submit c i b write s0 = Ok (Inl i0, locked_state c Lk_disk s)"
  obtains m t where "t = resumed c i (round_trip c i b write i0 m s)"
    "virtio_disk_rw_run dv c i b write s0 = Ok (freed i2 (freed i1 (freed i0 (t\<lparr>info_b := (info_b t)(i0 := None)\<rparr>))))"
proof -
  let ?a = "asleep c i (Chan_buf b) s"
  obtain m where m: "dv ?a = used_entry i0 i0 m (disk_rw b write ?a)" "completed i0 b (dv ?a)"
    by (rule device_serves [OF dv, of b "write" i0 i1 i2 ?a]) (use p n in \<open>simp_all add: posted_asleep\<close>)
  let ?k = "round_trip c i b write i0 m s"
  let ?t = "resumed c i ?k"
  have "calm c (dv ?a)" by (rule calm_same [OF posted_asleep(2) [OF c, of i "Chan_buf b"]]) (simp_all add: m(1) used_entry_def disk_rw_def Let_def upd_buf_def)
  from virtio_disk_intr_calm [OF this m(2)] have k: "virtio_disk_intr c (dv ?a) = Ok ?k" by (simp add: m(1) round_trip_def)
  have kc: "calm c ?k" "state (procs ?k i) = RUNNABLE" "intr (cpus s c) = intr (cpus ?k c)" using c i by (simp_all add: round_trip_fields)
  have w: "virtio_disk_wait c i b i0 (locked_state c Lk_disk ?t) = Ok (Inl (), freed i2 (freed i1 (freed i0 (?t\<lparr>info_b := (info_b ?t)(i0 := None)\<rparr>))))"
    by (rule virtio_disk_wait_returns) (use posted_chain [OF p] nf kc(1) in \<open>simp_all add: resumed_fields round_trip_fields\<close>)
  show ?thesis
    by (rule that [OF refl, of m], unfold virtio_disk_rw_run_def sub)
      (simp add: virtio_disk_wait_sleeps [OF c bd] k scheduler_resumes [OF kc] w)
qed

text \<open>C21: a call of \<open>virtio_disk_rw\<close> returns, and has moved the block: with three free descriptors, an idle queue and a block that is on the disk,
  the request is posted, served by a device that keeps to the virtio specification, completed by the interrupt handler
  and its chain freed. Then the disk, the order of the writes to it and all the buffers are what \<open>disk_rw\<close> says, the descriptors that were free are free again,
  the queue is idle, no lock is held and the process is as it was.\<close>

theorem virtio_disk_rw_transfers:
  assumes "virtio_device cap dv" and "calm c s" and "vq_idle s" and "3 \<le> length (filter (vfree s) [0..<NUM])"
    and "2 * unat (blockno (bufs s b)) + 2 \<le> cap" and "cap \<le> 2 ^ 32" and "\<not> bdisk (bufs s b)"
    and "i < NPROC" and "state (procs s i) = RUNNING" and "chan (procs s i) = None"
  shows "\<exists>s'. virtio_disk_rw_run dv c i b write s = Ok s' \<and>
    disk s' = disk (disk_rw b write s) \<and> disk_writes s' = disk_writes (disk_rw b write s) \<and> bufs s' = bufs (disk_rw b write s) \<and>
    vfree s' = vfree s \<and> vq_idle s' \<and> calm c s' \<and> procs s' i = procs s i"
proof -
  obtain i0 i1 i2 ks where f: "filter (vfree s) [0..<NUM] = i0 # i1 # i2 # ks"
    using assms(4) by (cases "filter (vfree s) [0..<NUM]" rule: remdups_adj.cases) (auto simp: Suc_le_length_iff numeral_3_eq_3)
  note a = alloc3_free [OF f]
  let ?u = "taken i0 i1 i2 s"
  let ?p = "format_descs b write i0 i1 i2 ?u"
  note F = format_fields [OF a(5)]
  have t: "calm c ?u" "bufs ?u = bufs s" "vfree ?u = (vfree s)(i0 := False, i1 := False, i2 := False)" "disk ?u = disk s" "disk_writes ?u = disk_writes s"
    "procs ?u = procs s" "used_id ?u = used_id s" "used_idx ?u = used_idx s" "avail_idx ?u = avail_idx s"
    using assms(2) by (simp_all add: taken_def calm_def free_lock_def)
  obtain m t where m: "t = resumed c i (round_trip c i b write i0 m ?p)"
    "virtio_disk_rw_run dv c i b write s = Ok (freed i2 (freed i1 (freed i0 (t\<lparr>info_b := (info_b t)(i0 := None)\<rparr>))))"
    by (rule run_posted [OF assms(1) F(14) [OF t(1)] posted_submit [OF assms(3) f, of b "write"] _ assms(6) _ assms(8) _ _ _ submit_calm [OF assms(2) f, of i b "write"]])
      (use assms(5) in \<open>simp_all add: F t\<close>)
  let ?r = "t\<lparr>info_b := (info_b t)(i0 := None)\<rparr>"
  note R = m(1) resumed_fields round_trip_fields F t
  have c: "calm c ?r" by (rule calm_same [of c t]) (simp_all add: R)
  have P: "procs ?r i = procs s i" using assms(8-10) by (cases "procs s i") (simp add: R)
  have P': "procs (freed i2 (freed i1 (freed i0 ?r))) i = procs s i"
    using P assms(9) by (simp add: freed_fields)
  have B: "bufs ?r = bufs (disk_rw b write s)" using assms(7) by (cases "bufs s b") (auto simp: R disk_rw_def Let_def upd_buf_def)
  have D: "disk ?r = disk (disk_rw b write s)" "disk_writes ?r = disk_writes (disk_rw b write s)" by (simp_all add: R disk_rw_def Let_def upd_buf_def)
  have V: "vfree (freed i2 (freed i1 (freed i0 ?r))) = vfree s" using a(6-8) by (auto simp: fun_eq_iff freed_fields R)
  have "unat (used_idx t) = unat (used_id t) mod NUM" "used_id t = avail_idx t"
    using assms(3) by (simp_all add: R vq_idle_def next_slot unat_word_ariths mod_mod_cancel mod_Suc_eq)
  then have "vq_idle (freed i2 (freed i1 (freed i0 ?r)))" by (simp add: vq_idle_def freed_fields)
  with m(2) B D V P' freed_fields(3) [OF freed_fields(3) [OF freed_fields(3) [OF c]]] show ?thesis by (auto simp: freed_fields)
qed

text \<open>A device that keeps to the specification, on a machine whose ring counters are about to wrap around.\<close>

definition plain_device :: "'a kvirtio_scheme \<Rightarrow> 'a kvirtio_scheme" where
  "plain_device s =
     (let h = unat (avail s (unat (used_id s) mod NUM)); j = unat (vd_next (vdesc s h)); q = unat (vd_next (vdesc s j))
      in if used_id s = avail_idx s then s
         else case (vd_addr (vdesc s h), vd_addr (vdesc s j), vd_addr (vdesc s q)) of
           (Hdr ty sec, BufData b, StatusOf r) \<Rightarrow> used_entry h r (mmio s) (disk_transfer (ucast (sec div 2)) b (ty = VIRTIO_BLK_T_OUT) s)
         | _ \<Rightarrow> s)"

lemma plain_device_ok: "virtio_device cap plain_device"
proof -
  have u: "unat (of_nat k :: u16) = k" if "k < NUM" for k using that by (simp add: unat_of_nat)
  show ?thesis unfolding virtio_device_def
    by (intro allI impI, elim conjE) (auto simp: plain_device_def u)
qed

definition disk_boot :: kvirtio where
  "disk_boot = kfile.extend (pipe_boot\<lparr>procs := (\<lambda>_. idle_proc\<lparr>state := RUNNING\<rparr>), bufs := (\<lambda>_. zero_buf\<lparr>blockno := 3, data := new_block\<rparr>)\<rparr>)
     (kvirtio.fields (\<lambda>_. \<lparr>vd_addr = Null, vd_len = 0, vd_flags = 0, vd_next = 0\<rparr>) 65535 (\<lambda>_. 0) 65535 (\<lambda>_. 0) (\<lambda>_. True) 7
       (\<lambda>_. None) (\<lambda>_. 0) 0 (\<lambda>_. 0) [])"

lemmas disk_boot_defs = disk_boot_def pipe_boot_def small_boot_def boot_log_def klog.defs kfs.defs kdev.defs kfile.defs kvirtio.defs

theorem virtio_disk_rw_transfers_witness:
  "\<exists>s'. virtio_disk_rw_run plain_device 0 1 2 True disk_boot = Ok s' \<and> disk disk_boot 3 = replicate BSIZE 0 \<and>
     disk s' = (disk disk_boot)(3 := new_block) \<and> disk_writes s' = [(3, new_block)] \<and> vfree s' = (\<lambda>_. True) \<and> vq_idle s'"
proof -
  have d: "bufs disk_boot = (\<lambda>_. zero_buf\<lparr>blockno := 3, data := new_block\<rparr>)" "vfree disk_boot = (\<lambda>_. True)"
    "procs disk_boot = (\<lambda>_. idle_proc\<lparr>state := RUNNING\<rparr>)" "disk_writes disk_boot = []" "disk disk_boot 3 = replicate BSIZE 0"
    by (simp_all add: disk_boot_defs small_disk_def)
  have "calm 0 disk_boot" "vq_idle disk_boot" by (simp_all add: disk_boot_defs calm_def free_lock_def vq_idle_def)
  from virtio_disk_rw_transfers [of 200000 plain_device 0 disk_boot 2 1 True, OF plain_device_ok this] show ?thesis
    by (simp add: d disk_rw_def Let_def zero_buf_def idle_proc_def) blast
qed

end
