(* ===== verification/Process.thy ===== *)
theory Process
  imports Virtio
begin

text \<open>
  The operations of kernel/proc.c that need files and the file system: \<open>userinit\<close>,
  \<open>fork\<close>, \<open>exit\<close> and \<open>forkret\<close>; with \<open>usertrapret\<close> of kernel/trap.c, where a new process
  goes to user space. \<open>harts\<close> are the trap registers of each hart; the bit SIE of
  \<open>sstatus\<close> is \<open>intr\<close> of the CPU.
\<close>

record hart =
  sstatus :: u64
  sepc :: u64
  scause :: u64
  stval :: u64
  stvec :: u64
  sip :: u64

text \<open>The addresses of \<open>usertrap\<close>, \<open>kernelvec\<close>, \<open>uservec\<close> and \<open>userret\<close> are the linker's.\<close>

record kos = kvirtio +
  ticks :: u32
  forkret_first :: bool
  harts :: "nat \<Rightarrow> hart"
  usertrap_addr :: u64
  kernelvec_addr :: u64
  uservec_addr :: u64
  userret_addr :: u64
  plic_priority :: "nat \<Rightarrow> u32"
  plic_senable :: "nat \<Rightarrow> u32"
  plic_spriority :: "nat \<Rightarrow> u32"
  plic_sclaim :: "nat \<Rightarrow> u32"

definition upd_hart :: "nat \<Rightarrow> (hart \<Rightarrow> hart) \<Rightarrow> 'a kos_scheme \<Rightarrow> 'a kos_scheme" where
  "upd_hart c f s = s\<lparr>harts := (harts s)(c := f (harts s c))\<rparr>"

abbreviation SSTATUS_SPP :: u64 where "SSTATUS_SPP \<equiv> 0x100"
abbreviation SSTATUS_SPIE :: u64 where "SSTATUS_SPIE \<equiv> 0x20"
abbreviation SSTATUS_SIE :: u64 where "SSTATUS_SIE \<equiv> 0x2"

definition r_sstatus :: "nat \<Rightarrow> 'a kos_scheme \<Rightarrow> u64" where
  "r_sstatus c s =
     (if intr_get c s then sstatus (harts s c) OR SSTATUS_SIE else sstatus (harts s c) AND NOT SSTATUS_SIE)"

definition w_sstatus :: "nat \<Rightarrow> u64 \<Rightarrow> 'a kos_scheme \<Rightarrow> 'a kos_scheme" where
  "w_sstatus c x s =
     (let s1 = upd_hart c (\<lambda>h. h\<lparr>sstatus := x\<rparr>) s
      in if x AND SSTATUS_SIE \<noteq> 0 then intr_on c s1 else intr_off c s1)"

text \<open>\<open>safestrcpy(p->name, t, sizeof(p->name))\<close>.\<close>

definition set_name :: "u8 list \<Rightarrow> u8 list \<Rightarrow> u8 list" where
  "set_name t old = (let w = safestrcpy_bytes (take 15 (t @ replicate 15 0)) in w @ drop (length w) old)"

section \<open>Return to user space (kernel/trap.c)\<close>

text \<open>The result is what \<open>userret\<close> is called with: \<open>TRAPFRAME\<close> and the user's \<open>satp\<close>.\<close>

definition usertrapret :: "nat \<Rightarrow> nat \<Rightarrow> 'a kos_scheme \<Rightarrow> (u64 \<times> u64) \<times> 'a kos_scheme" where
  "usertrapret c i s =
     (let s1 = intr_off c s;
          s2 = upd_hart c (\<lambda>h. h\<lparr>stvec := TRAMPOLINE + (uservec_addr s1 - trampoline s1)\<rparr>) s1;
          s3 = tf_set i TF_kernel_satp (satp s2) s2;
          s4 = tf_set i TF_kernel_sp (kstack (procs s3 i) + PGSIZE) s3;
          s5 = tf_set i TF_kernel_trap (usertrap_addr s4) s4;
          s6 = tf_set i TF_kernel_hartid (of_nat c) s5;
          x = r_sstatus c s6 AND NOT SSTATUS_SPP OR SSTATUS_SPIE;
          s7 = w_sstatus c x s6;
          s8 = upd_hart c (\<lambda>h. h\<lparr>sepc := tf_get i TF_epc s7\<rparr>) s7
      in ((TRAPFRAME, MAKE_SATP (pagetable (procs s8 i))), s8))"

section \<open>The first process\<close>

definition initcode :: "u8 list" where
  "initcode =
    [0x17, 0x05, 0x00, 0x00, 0x13, 0x05, 0x45, 0x02,
     0x97, 0x05, 0x00, 0x00, 0x93, 0x85, 0x35, 0x02,
     0x93, 0x08, 0x70, 0x00, 0x73, 0x00, 0x00, 0x00,
     0x93, 0x08, 0x20, 0x00, 0x73, 0x00, 0x00, 0x00,
     0xef, 0xf0, 0x9f, 0xff, 0x2f, 0x69, 0x6e, 0x69,
     0x74, 0x00, 0x00, 0x24, 0x00, 0x00, 0x00, 0x00,
     0x00, 0x00, 0x00, 0x00]"

text \<open>
  If \<open>allocproc\<close> fails, the code goes on with a null pointer and faults. The call of
  \<open>namei\<close> on the root directory does not look at the current process.
\<close>

definition userinit :: "nat \<Rightarrow> 'a kos_scheme \<Rightarrow> 'a kos_scheme res" where
  "userinit c s =
     bindp (allocproc c s) (\<lambda>r s1.
       case r of
         None \<Rightarrow> Panic ''kerneltrap''
       | Some p \<Rightarrow>
           bindr (uvminit (pagetable (procs s1 p)) initcode (s1\<lparr>initproc := Some p\<rparr>)) (\<lambda>s2.
             let s3 = upd_proc p (\<lambda>x. x\<lparr>sz := PGSIZE\<rparr>) s2;
                 s4 = tf_set p TF_epc 0 s3;
                 s5 = tf_set p TF_sp PGSIZE s4;
                 s6 = upd_proc p (\<lambda>x. x\<lparr>pname := set_name (str ''initcode'') (pname x)\<rparr>) s5
             in bindp (namei c p (str ''/'') s6) (\<lambda>ip s7.
                  release c (Lk_proc p) (upd_proc p (\<lambda>x. x\<lparr>cwd := ip, state := RUNNABLE\<rparr>) s7))))"

section \<open>fork\<close>

fun fork_files :: "nat \<Rightarrow> nat \<Rightarrow> nat \<Rightarrow> nat list \<Rightarrow> 'a kos_scheme \<Rightarrow> 'a kos_scheme res" where
  "fork_files c p np [] s = Ok s"
| "fork_files c p np (fd # fds) s =
     (case ofile (procs s p) ! fd of
        None \<Rightarrow> fork_files c p np fds s
      | Some f \<Rightarrow>
          bindp (filedup c f s) (\<lambda>f' s1.
            fork_files c p np fds (upd_proc np (\<lambda>x. x\<lparr>ofile := (ofile x)[fd := Some f']\<rparr>) s1)))"

definition fork :: "nat \<Rightarrow> nat \<Rightarrow> 'a kos_scheme \<Rightarrow> (int \<times> 'a kos_scheme) res" where
  "fork c p s =
     bindp (allocproc c s) (\<lambda>r s1.
       case r of
         None \<Rightarrow> Ok (-1, s1)
       | Some np \<Rightarrow>
           bindp (uvmcopy (pagetable (procs s1 p)) (pagetable (procs s1 np)) (sz (procs s1 p)) s1) (\<lambda>e s2.
             if e < 0 then
               bindr (freeproc np s2) (\<lambda>s3. bindr (release c (Lk_proc np) s3) (\<lambda>s4. Ok (-1, s4)))
             else
               let s3 = upd_proc np (\<lambda>x. x\<lparr>sz := sz (procs s2 p), parent := Some p\<rparr>) s2;
                   s4 = s3\<lparr>pmem := write_bytes (pmem s3) (trapframe (procs s3 np))
                          (read_bytes (pmem s3) (trapframe (procs s3 p)) 288)\<rparr>;
                   s5 = tf_set np (TF_a 0) 0 s4
               in bindr (fork_files c p np [0..<NOFILE] s5) (\<lambda>s6.
                    case cwd (procs s6 p) of
                      None \<Rightarrow> Panic ''kerneltrap''
                    | Some d \<Rightarrow>
                        bindp (idup c d s6) (\<lambda>d' s7.
                          let s8 = upd_proc np (\<lambda>x. x\<lparr>cwd := Some d',
                                 pname := set_name (takeWhile (\<lambda>b. b \<noteq> 0) (pname (procs s7 p))) (pname x)\<rparr>) s7;
                              id = pid (procs s8 np);
                              s9 = upd_proc np (\<lambda>x. x\<lparr>state := RUNNABLE\<rparr>) s8
                          in bindr (release c (Lk_proc np) s9) (\<lambda>s10. Ok (id, s10))))))"

section \<open>exit\<close>

fun exit_files :: "nat \<Rightarrow> nat \<Rightarrow> nat list \<Rightarrow> 'a kos_scheme \<Rightarrow> 'a kos_scheme res" where
  "exit_files c p [] s = Ok s"
| "exit_files c p (fd # fds) s =
     (case ofile (procs s p) ! fd of
        None \<Rightarrow> exit_files c p fds s
      | Some f \<Rightarrow>
          bindr (fileclose c p f s) (\<lambda>s1.
            exit_files c p fds (upd_proc p (\<lambda>x. x\<lparr>ofile := (ofile x)[fd := None]\<rparr>) s1)))"

text \<open>The result is the state at the last \<open>swtch\<close> of the process.\<close>

definition exit :: "nat \<Rightarrow> nat \<Rightarrow> u32 \<Rightarrow> 'a kos_scheme \<Rightarrow> 'a kos_scheme res" where
  "exit c p status s =
     (if initproc s = Some p then Panic ''init exiting''
      else bindr (exit_files c p [0..<NOFILE] s) (\<lambda>s1.
        bindr (begin_op c p s1) (\<lambda>s2.
          case (cwd (procs s2 p), initproc s2) of
            (Some d, Some init) \<Rightarrow>
              bindr (iput c p d s2) (\<lambda>s3.
                bindr (end_op c p s3) (\<lambda>s4.
                  bindr (acquire c (Lk_proc init) (upd_proc p (\<lambda>x. x\<lparr>cwd := None\<rparr>) s4)) (\<lambda>s5.
                    bindr (wakeup1 c init s5) (\<lambda>s6.
                      bindr (release c (Lk_proc init) s6) (\<lambda>s7.
                        bindr (acquire c (Lk_proc p) s7) (\<lambda>s8.
                          case parent (procs s8 p) of
                            None \<Rightarrow> Panic ''kerneltrap''
                          | Some pp \<Rightarrow>
                              bindr (release c (Lk_proc p) s8) (\<lambda>s9.
                                bindr (acquire c (Lk_proc pp) s9) (\<lambda>s10.
                                  bindr (acquire c (Lk_proc p) s10) (\<lambda>s11.
                                    bindr (reparent c p s11) (\<lambda>s12.
                                      bindr (wakeup1 c pp s12) (\<lambda>s13.
                                        let s14 = upd_proc p (\<lambda>x. x\<lparr>xstate := status, state := ZOMBIE\<rparr>) s13
                                        in bindr (release c (Lk_proc pp) s14) (\<lambda>s15.
                                             bindr (sched_out c p s15) (\<lambda>_. Ok s15)))))))))))))
          | _ \<Rightarrow> Panic ''kerneltrap'')))"

section \<open>forkret\<close>

definition forkret :: "nat \<Rightarrow> nat \<Rightarrow> 'a kos_scheme \<Rightarrow> ((u64 \<times> u64) \<times> 'a kos_scheme) res" where
  "forkret c p s =
     bindr (release c (Lk_proc p) s) (\<lambda>s1.
       bindr (if forkret_first s1 then fsinit c p ROOTDEV (s1\<lparr>forkret_first := False\<rparr>) else Ok s1) (\<lambda>s2.
         Ok (usertrapret c p s2)))"

end
