(* ===== verification/Exec.thy ===== *)
theory Exec
  imports Process
begin

text \<open>
  kernel/exec.c, and the fetching of system call arguments from kernel/syscall.c.
  The fields of the ELF structures are read at their offsets, from a local variable
  that is used only after \<open>readi\<close> has filled all of it.
\<close>

section \<open>System call arguments (kernel/syscall.c)\<close>

abbreviation MAXARG :: nat where "MAXARG \<equiv> 32"
abbreviation MAXPATH :: nat where "MAXPATH \<equiv> 128"

definition fetchaddr :: "nat \<Rightarrow> u64 \<Rightarrow> 'a kproc_scheme \<Rightarrow> u64 option" where
  "fetchaddr i addr s =
     (let n = sz (procs s i)
      in if addr \<ge> n \<or> addr + 8 > n then None
         else let (r, bs) = copyin (pagetable (procs s i)) addr 8 s
              in if r \<noteq> 0 then None else Some (bytes_word bs))"

text \<open>The bytes stored in the buffer, and the length of the string or the error.\<close>

definition fetchstr :: "nat \<Rightarrow> u64 \<Rightarrow> nat \<Rightarrow> 'a kproc_scheme \<Rightarrow> int \<times> u8 list" where
  "fetchstr i addr max_n s =
     (let (err, bs) = copyinstr (pagetable (procs s i)) addr max_n s
      in if err < 0 then (err, bs) else (int (length (takeWhile (\<lambda>b. b \<noteq> 0) bs)), bs))"

definition argraw :: "nat \<Rightarrow> nat \<Rightarrow> 'a kproc_scheme \<Rightarrow> u64 res" where
  "argraw i n s = (if n < 6 then Ok (tf_get i (TF_a n) s) else Panic ''argraw'')"

definition argint :: "nat \<Rightarrow> nat \<Rightarrow> 'a kproc_scheme \<Rightarrow> int res" where
  "argint i n s = bindr (argraw i n s) (\<lambda>v. Ok (sint (ucast v :: u32)))"

definition argaddr :: "nat \<Rightarrow> nat \<Rightarrow> 'a kproc_scheme \<Rightarrow> u64 res" where
  "argaddr i n s = argraw i n s"

text \<open>The string argument, without its NUL.\<close>

definition argstr :: "nat \<Rightarrow> nat \<Rightarrow> nat \<Rightarrow> 'a kproc_scheme \<Rightarrow> u8 list option res" where
  "argstr i n max_n s =
     bindr (argaddr i n s) (\<lambda>addr.
       let (r, bs) = fetchstr i addr max_n s
       in Ok (if r < 0 then None else Some (takeWhile (\<lambda>b. b \<noteq> 0) bs)))"

section \<open>Loading (kernel/exec.c)\<close>

abbreviation ELF_MAGIC :: u32 where "ELF_MAGIC \<equiv> 0x464C457F"
abbreviation ELF_PROG_LOAD :: u32 where "ELF_PROG_LOAD \<equiv> 1"

abbreviation get64 :: "u8 list \<Rightarrow> nat \<Rightarrow> u64" where "get64 \<equiv> get_field 8"

record elfhdr =
  elf_magic :: u32
  elf_entry :: u64
  elf_phoff :: u64
  elf_phnum :: u16

record proghdr =
  ph_type :: u32
  ph_off :: u64
  ph_vaddr :: u64
  ph_filesz :: u64
  ph_memsz :: u64

definition decode_elf :: "u8 list \<Rightarrow> elfhdr" where
  "decode_elf b = \<lparr>elf_magic = get32 b 0, elf_entry = get64 b 24, elf_phoff = get64 b 32, elf_phnum = get16 b 56\<rparr>"

definition decode_ph :: "u8 list \<Rightarrow> proghdr" where
  "decode_ph b = \<lparr>ph_type = get32 b 0, ph_off = get64 b 8, ph_vaddr = get64 b 16, ph_filesz = get64 b 32,
     ph_memsz = get64 b 40\<rparr>"

text \<open>
  The loop of \<open>loadseg\<close>. Its counter \<open>k\<close> is a \<open>uint\<close> that steps by a page; when it would reach
  \<open>2^32\<close> it wraps to 0 and the C loop starts over for ever, which is the outcome \<open>Nofuel\<close>.
\<close>

function loadseg_loop ::
  "nat \<Rightarrow> nat \<Rightarrow> u64 \<Rightarrow> u64 \<Rightarrow> nat \<Rightarrow> u32 \<Rightarrow> nat \<Rightarrow> nat \<Rightarrow> 'a kfs_scheme \<Rightarrow> (int \<times> 'a kfs_scheme) res" where
  "loadseg_loop c i pt va ip offset n k s =
     (if k < n then
        let pa = walkaddr pt (va + of_nat k) s
        in if pa = 0 then Panic ''loadseg: address should exist''
           else let m = min (n - k) 4096
                in bindp (readi c i ip (DKern pa) (offset + of_nat k) (of_nat m) [] s) (\<lambda>(r, _) s1.
                     if r \<noteq> m then Ok (-1, s1)
                     else if k + 4096 = 2 ^ 32 then Nofuel else loadseg_loop c i pt va ip offset n (k + 4096) s1)
      else Ok (0, s))"
  by pat_completeness auto
termination
  by (relation "measure (\<lambda>(c, i, pt, va, ip, offset, n, k, s). n - k)") auto

declare loadseg_loop.simps [simp del]

definition loadseg ::
  "nat \<Rightarrow> nat \<Rightarrow> u64 \<Rightarrow> u64 \<Rightarrow> nat \<Rightarrow> u32 \<Rightarrow> u32 \<Rightarrow> 'a kfs_scheme \<Rightarrow> (int \<times> 'a kfs_scheme) res" where
  "loadseg c i pt va ip offset n s =
     (if va mod PGSIZE \<noteq> 0 then Panic ''loadseg: va must be page aligned''
      else loadseg_loop c i pt va ip offset (unat n) 0 s)"

text \<open>
  The loop over the program headers: \<open>m\<close> of them are left, the next at \<open>off\<close>. The
  result is the size reached and whether all went well.
\<close>

fun exec_load ::
  "nat \<Rightarrow> nat \<Rightarrow> u64 \<Rightarrow> nat \<Rightarrow> nat \<Rightarrow> u32 \<Rightarrow> u64 \<Rightarrow> 'a kfs_scheme \<Rightarrow> ((u64 \<times> bool) \<times> 'a kfs_scheme) res" where
  "exec_load c i pt ip 0 off n s = Ok ((n, True), s)"
| "exec_load c i pt ip (Suc m) off n s =
     bindp (readi c i ip (DLocal 0) off 56 (replicate 56 0) s) (\<lambda>(r, b) s1.
       if r \<noteq> 56 then Ok ((n, False), s1)
       else
         let ph = decode_ph b
         in if ph_type ph \<noteq> ELF_PROG_LOAD then exec_load c i pt ip m (off + 56) n s1
            else if ph_memsz ph < ph_filesz ph then Ok ((n, False), s1)
            else if ph_vaddr ph + ph_memsz ph < ph_vaddr ph then Ok ((n, False), s1)
            else
              bindp (uvmalloc pt n (ph_vaddr ph + ph_memsz ph) s1) (\<lambda>n1 s2.
                if n1 = 0 then Ok ((n, False), s2)
                else if ph_vaddr ph mod PGSIZE \<noteq> 0 then Ok ((n1, False), s2)
                else
                  bindp (loadseg c i pt (ph_vaddr ph) ip (ucast (ph_off ph)) (ucast (ph_filesz ph)) s2) (\<lambda>e s3.
                    if e < 0 then Ok ((n1, False), s3) else exec_load c i pt ip m (off + 56) n1 s3)))"

text \<open>A string in a page of kernel memory.\<close>

definition str_at :: "mem \<Rightarrow> u64 \<Rightarrow> u8 list" where
  "str_at m a = takeWhile (\<lambda>b. b \<noteq> 0) (read_bytes m a 4096)"

text \<open>
  The loop that pushes the argument strings. It gives the stack pointer and the
  pointers for \<open>ustack\<close>, or nothing if it goes to \<open>bad\<close>.
\<close>

fun exec_args ::
  "u64 \<Rightarrow> u64 \<Rightarrow> u64 list \<Rightarrow> u64 list \<Rightarrow> u64 \<Rightarrow> 'a kmem_scheme \<Rightarrow> (u64 \<times> u64 list) option \<times> 'a kmem_scheme" where
  "exec_args pt stackbase [] ustack sp s = (Some (sp, ustack), s)"
| "exec_args pt stackbase (a # as) ustack sp s =
     (if length ustack \<ge> MAXARG then (None, s)
      else
        let arg = str_at (pmem s) a;
            sp1 = sp - (of_nat (length arg) + 1);
            sp2 = sp1 - sp1 mod 16
        in if sp2 < stackbase then (None, s)
           else let (r, s1) = copyout pt sp2 (arg @ [0]) s
                in if r < 0 then (None, s1) else exec_args pt stackbase as (ustack @ [sp2]) sp2 s1)"

text \<open>The label \<open>bad\<close>: \<open>pt\<close> and \<open>ip\<close> are what has been allocated so far.\<close>

definition exec_bad ::
  "nat \<Rightarrow> nat \<Rightarrow> u64 \<Rightarrow> u64 \<Rightarrow> nat option \<Rightarrow> 'a kos_scheme \<Rightarrow> (int \<times> 'a kos_scheme) res" where
  "exec_bad c i pt n ip s =
     bindr (if pt \<noteq> 0 then proc_freepagetable pt n s else Ok s) (\<lambda>s1.
       case ip of
         None \<Rightarrow> Ok (-1, s1)
       | Some k \<Rightarrow> bindr (iunlockput c i k s1) (\<lambda>s2. bindr (end_op c i s2) (\<lambda>s3. Ok (-1, s3))))"

text \<open>The part after the last slash.\<close>

definition base_name :: "u8 list \<Rightarrow> u8 list" where
  "base_name path = rev (takeWhile (\<lambda>b. b \<noteq> slash) (rev path))"

text \<open>From the allocation of the stack on; \<open>entry\<close> is the program's entry point.\<close>

definition exec_stack ::
  "nat \<Rightarrow> nat \<Rightarrow> u8 list \<Rightarrow> u64 list \<Rightarrow> u64 \<Rightarrow> u64 \<Rightarrow> u64 \<Rightarrow> 'a kos_scheme \<Rightarrow> (int \<times> 'a kos_scheme) res" where
  "exec_stack c i path argv pt n entry s =
     (let oldsz = sz (procs s i); n0 = PGROUNDUP n
      in bindp (uvmalloc pt n0 (n0 + 2 * PGSIZE) s) (\<lambda>n1 s1.
           if n1 = 0 then exec_bad c i pt n0 None s1
           else
             bindr (uvmclear pt (n1 - 2 * PGSIZE) s1) (\<lambda>s2.
               let stackbase = n1 - PGSIZE;
                   (r, s3) = exec_args pt stackbase argv [] n1 s2
               in case r of
                    None \<Rightarrow> exec_bad c i pt n1 None s3
                  | Some (sp, ustack) \<Rightarrow>
                      let argc = length ustack;
                          sp1 = sp - of_nat (argc + 1) * 8;
                          sp2 = sp1 - sp1 mod 16
                      in if sp2 < stackbase then exec_bad c i pt n1 None s3
                         else
                           let (e, s4) = copyout pt sp2 (concat (map (word_bytes 8) (ustack @ [0]))) s3
                           in if e < 0 then exec_bad c i pt n1 None s4
                              else
                                let s5 = tf_set i (TF_a 1) sp2 s4;
                                    s6 = upd_proc i (\<lambda>x. x\<lparr>pname := set_name (base_name path) (pname x)\<rparr>) s5;
                                    oldpt = pagetable (procs s6 i);
                                    s7 = upd_proc i (\<lambda>x. x\<lparr>pagetable := pt, sz := n1\<rparr>) s6;
                                    s8 = tf_set i TF_epc entry s7;
                                    s9 = tf_set i TF_sp sp2 s8
                                in bindr (proc_freepagetable oldpt oldsz s9) (\<lambda>s10. Ok (int argc, s10)))))"

definition exec :: "nat \<Rightarrow> nat \<Rightarrow> u8 list \<Rightarrow> u64 list \<Rightarrow> 'a kos_scheme \<Rightarrow> (int \<times> 'a kos_scheme) res" where
  "exec c i path argv s =
     bindr (begin_op c i s) (\<lambda>s1.
       bindp (namei c i path s1) (\<lambda>r s2.
         case r of
           None \<Rightarrow> bindr (end_op c i s2) (\<lambda>s3. Ok (-1, s3))
         | Some ip \<Rightarrow>
             bindr (ilock c i ip s2) (\<lambda>s3.
               bindp (readi c i ip (DLocal 0) 0 64 (replicate 64 0) s3) (\<lambda>(m, b) s4.
                 let elf = decode_elf b
                 in if m \<noteq> 64 \<or> elf_magic elf \<noteq> ELF_MAGIC then exec_bad c i 0 0 (Some ip) s4
                    else
                      bindp (proc_pagetable i s4) (\<lambda>pt s5.
                        if pt = 0 then exec_bad c i 0 0 (Some ip) s5
                        else
                          bindp (exec_load c i pt ip (unat (elf_phnum elf)) (ucast (elf_phoff elf)) 0 s5) (\<lambda>(n, ok) s6.
                            if \<not> ok then exec_bad c i pt n (Some ip) s6
                            else
                              bindr (iunlockput c i ip s6) (\<lambda>s7.
                                bindr (end_op c i s7) (\<lambda>s8.
                                  exec_stack c i path argv pt n (elf_entry elf) s8))))))))"

end
