(* ===== verification/Sysfile.thy ===== *)
theory Sysfile
  imports Exec
begin

text \<open>
  kernel/sysfile.c and kernel/sysproc.c: the system calls. Every call takes the CPU
  and the index of the current process; its arguments are fetched from the
  trapframe. The result is the value for \<open>a0\<close>; \<open>None\<close> for a call whose thread has gone
  to sleep in the console or a pipe, in \<open>wait\<close> or in \<open>sleep\<close>, or has exited.
\<close>

abbreviation O_RDONLY :: int where "O_RDONLY \<equiv> 0"
abbreviation O_WRONLY :: u32 where "O_WRONLY \<equiv> 0x001"
abbreviation O_RDWR :: u32 where "O_RDWR \<equiv> 0x002"
abbreviation O_CREATE :: u32 where "O_CREATE \<equiv> 0x200"
abbreviation O_TRUNC :: u32 where "O_TRUNC \<equiv> 0x400"

section \<open>File descriptors\<close>

definition argfd :: "nat \<Rightarrow> nat \<Rightarrow> 'a kproc_scheme \<Rightarrow> (nat \<times> nat) option res" where
  "argfd i n s =
     bindr (argint i n s) (\<lambda>fd.
       if fd < 0 \<or> fd \<ge> int NOFILE then Ok None
       else case ofile (procs s i) ! nat fd of None \<Rightarrow> Ok None | Some f \<Rightarrow> Ok (Some (nat fd, f)))"

definition set_fd :: "nat \<Rightarrow> nat \<Rightarrow> nat option \<Rightarrow> 'a kproc_scheme \<Rightarrow> 'a kproc_scheme" where
  "set_fd i fd f s = upd_proc i (\<lambda>p. p\<lparr>ofile := (ofile p)[fd := f]\<rparr>) s"

definition fdalloc :: "nat \<Rightarrow> nat \<Rightarrow> 'a kproc_scheme \<Rightarrow> nat option \<times> 'a kproc_scheme" where
  "fdalloc i f s =
     (case find (\<lambda>fd. ofile (procs s i) ! fd = None) [0..<NOFILE] of
        Some fd \<Rightarrow> (Some fd, set_fd i fd (Some f) s)
      | None \<Rightarrow> (None, s))"

abbreviation fail :: "'s \<Rightarrow> (int \<times> 's) res" where "fail s \<equiv> Ok (-1, s)"

definition sys_dup :: "nat \<Rightarrow> nat \<Rightarrow> 'a kos_scheme \<Rightarrow> (int \<times> 'a kos_scheme) res" where
  "sys_dup c i s =
     bindr (argfd i 0 s) (\<lambda>r.
       case r of
         None \<Rightarrow> fail s
       | Some (_, f) \<Rightarrow>
           (case fdalloc i f s of
              (None, s1) \<Rightarrow> fail s1
            | (Some fd, s1) \<Rightarrow> bindp (filedup c f s1) (\<lambda>_ s2. Ok (int fd, s2))))"

definition sys_read :: "nat \<Rightarrow> nat \<Rightarrow> 'a kos_scheme \<Rightarrow> (int option \<times> 'a kos_scheme) res" where
  "sys_read c i s =
     bindr (argfd i 0 s) (\<lambda>r. bindr (argint i 2 s) (\<lambda>n. bindr (argaddr i 1 s) (\<lambda>p.
       case r of None \<Rightarrow> Ok (Some (-1), s) | Some (_, f) \<Rightarrow> fileread c i f p n s)))"

definition sys_write :: "nat \<Rightarrow> nat \<Rightarrow> 'a kos_scheme \<Rightarrow> (int option \<times> 'a kos_scheme) res" where
  "sys_write c i s =
     bindr (argfd i 0 s) (\<lambda>r. bindr (argint i 2 s) (\<lambda>n. bindr (argaddr i 1 s) (\<lambda>p.
       case r of None \<Rightarrow> Ok (Some (-1), s) | Some (_, f) \<Rightarrow> filewrite c i f p n s)))"

definition sys_close :: "nat \<Rightarrow> nat \<Rightarrow> 'a kos_scheme \<Rightarrow> (int \<times> 'a kos_scheme) res" where
  "sys_close c i s =
     bindr (argfd i 0 s) (\<lambda>r.
       case r of
         None \<Rightarrow> fail s
       | Some (fd, f) \<Rightarrow> bindr (fileclose c i f (set_fd i fd None s)) (\<lambda>s1. Ok (0, s1)))"

definition sys_fstat :: "nat \<Rightarrow> nat \<Rightarrow> u8 list \<Rightarrow> 'a kos_scheme \<Rightarrow> (int \<times> 'a kos_scheme) res" where
  "sys_fstat c i pad s =
     bindr (argfd i 0 s) (\<lambda>r. bindr (argaddr i 1 s) (\<lambda>st.
       case r of None \<Rightarrow> fail s | Some (_, f) \<Rightarrow> filestat c i pad f st s))"

section \<open>Links\<close>

text \<open>The label \<open>bad\<close> of \<open>sys_link\<close>.\<close>

definition link_bad :: "nat \<Rightarrow> nat \<Rightarrow> nat \<Rightarrow> 'a kos_scheme \<Rightarrow> (int \<times> 'a kos_scheme) res" where
  "link_bad c i ip s =
     bindr (ilock c i ip s) (\<lambda>s1.
       bindr (iupdate c i ip (upd_inode ip (\<lambda>x. x\<lparr>inlink := inlink x - 1\<rparr>) s1)) (\<lambda>s2.
         bindr (iunlockput c i ip s2) (\<lambda>s3. bindr (end_op c i s3) (\<lambda>s4. fail s4))))"

definition sys_link :: "nat \<Rightarrow> nat \<Rightarrow> 'a kos_scheme \<Rightarrow> (int \<times> 'a kos_scheme) res" where
  "sys_link c i s =
     bindr (argstr i 0 MAXPATH s) (\<lambda>old. bindr (argstr i 1 MAXPATH s) (\<lambda>new.
       case (old, new) of
         (Some oldp, Some newp) \<Rightarrow>
           bindr (begin_op c i s) (\<lambda>s1.
             bindp (namei c i oldp s1) (\<lambda>r s2.
               case r of
                 None \<Rightarrow> bindr (end_op c i s2) (\<lambda>s3. fail s3)
               | Some ip \<Rightarrow>
                   bindr (ilock c i ip s2) (\<lambda>s3.
                     if itype (inodes s3 ip) = T_DIR then
                       bindr (iunlockput c i ip s3) (\<lambda>s4. bindr (end_op c i s4) (\<lambda>s5. fail s5))
                     else
                       bindr (iupdate c i ip (upd_inode ip (\<lambda>x. x\<lparr>inlink := inlink x + 1\<rparr>) s3)) (\<lambda>s4.
                         bindr (iunlock c i ip s4) (\<lambda>s5.
                           bindp (nameiparent c i newp s5) (\<lambda>(d, name) s6.
                             case d of
                               None \<Rightarrow> link_bad c i ip s6
                             | Some dp \<Rightarrow>
                                 bindr (ilock c i dp s6) (\<lambda>s7.
                                   bindp (if idev (inodes s7 dp) \<noteq> idev (inodes s7 ip) then Ok (-1, s7)
                                          else dirlink c i dp (name_buf name) (inum (inodes s7 ip)) s7) (\<lambda>e s8.
                                     if e < 0 then
                                       bindr (iunlockput c i dp s8) (\<lambda>s9. link_bad c i ip s9)
                                     else
                                       bindr (iunlockput c i dp s8) (\<lambda>s9.
                                         bindr (iput c i ip s9) (\<lambda>s10.
                                           bindr (end_op c i s10) (\<lambda>s11. Ok (0, s11))))))))))))
       | _ \<Rightarrow> fail s))"

function isdirempty_loop :: "nat \<Rightarrow> nat \<Rightarrow> nat \<Rightarrow> nat \<Rightarrow> nat \<Rightarrow> 'a kfs_scheme \<Rightarrow> (bool \<times> 'a kfs_scheme) res" where
  "isdirempty_loop c i k off len s =
     (if off < len then
        bindp (readi c i k (DLocal 0) (of_nat off) 16 de0 s) (\<lambda>(r, de) s1.
          if r \<noteq> 16 then Panic ''isdirempty: readi''
          else if get16 de 0 \<noteq> 0 then Ok (False, s1)
          else isdirempty_loop c i k (off + 16) len s1)
      else Ok (True, s))"
  by pat_completeness auto
termination
  by (relation "measure (\<lambda>(c, i, k, off, len, s). len - off)") auto

declare isdirempty_loop.simps [simp del]

definition isdirempty :: "nat \<Rightarrow> nat \<Rightarrow> nat \<Rightarrow> 'a kfs_scheme \<Rightarrow> (bool \<times> 'a kfs_scheme) res" where
  "isdirempty c i k s = isdirempty_loop c i k 32 (unat (isize (inodes s k))) s"

text \<open>The label \<open>bad\<close> of \<open>sys_unlink\<close>.\<close>

definition unlink_bad :: "nat \<Rightarrow> nat \<Rightarrow> nat \<Rightarrow> 'a kos_scheme \<Rightarrow> (int \<times> 'a kos_scheme) res" where
  "unlink_bad c i dp s = bindr (iunlockput c i dp s) (\<lambda>s1. bindr (end_op c i s1) (\<lambda>s2. fail s2))"

definition sys_unlink :: "nat \<Rightarrow> nat \<Rightarrow> 'a kos_scheme \<Rightarrow> (int \<times> 'a kos_scheme) res" where
  "sys_unlink c i s =
     bindr (argstr i 0 MAXPATH s) (\<lambda>path.
       case path of
         None \<Rightarrow> fail s
       | Some p \<Rightarrow>
           bindr (begin_op c i s) (\<lambda>s1.
             bindp (nameiparent c i p s1) (\<lambda>(d, name) s2.
               case d of
                 None \<Rightarrow> bindr (end_op c i s2) (\<lambda>s3. fail s3)
               | Some dp \<Rightarrow>
                   bindr (ilock c i dp s2) (\<lambda>s3.
                     if namecmp (name_buf name) (name_buf (str ''.'')) = 0 \<or>
                        namecmp (name_buf name) (name_buf (str ''..'')) = 0 then unlink_bad c i dp s3
                     else
                       bindp (dirlookup c i dp (name_buf name) s3) (\<lambda>r s4.
                         case r of
                           None \<Rightarrow> unlink_bad c i dp s4
                         | Some (ip, off) \<Rightarrow>
                             bindr (ilock c i ip s4) (\<lambda>s5.
                               if sint (inlink (inodes s5 ip)) < 1 then Panic ''unlink: nlink < 1''
                               else
                                 bindp (if itype (inodes s5 ip) = T_DIR then isdirempty c i ip s5 else Ok (True, s5)) (\<lambda>e s6.
                                   if \<not> e then bindr (iunlockput c i ip s6) (\<lambda>s7. unlink_bad c i dp s7)
                                   else
                                     bindp (writei c i dp (SLocal (replicate 16 0)) (of_nat off) 16 s6) (\<lambda>w s7.
                                       if w \<noteq> 16 then Panic ''unlink: writei''
                                       else
                                         bindr (if itype (inodes s7 ip) = T_DIR
                                                then iupdate c i dp (upd_inode dp (\<lambda>x. x\<lparr>inlink := inlink x - 1\<rparr>) s7)
                                                else Ok s7) (\<lambda>s8.
                                           bindr (iunlockput c i dp s8) (\<lambda>s9.
                                             bindr (iupdate c i ip (upd_inode ip (\<lambda>x. x\<lparr>inlink := inlink x - 1\<rparr>) s9)) (\<lambda>s10.
                                               bindr (iunlockput c i ip s10) (\<lambda>s11.
                                                 bindr (end_op c i s11) (\<lambda>s12. Ok (0, s12))))))))))))))"

section \<open>Creating and opening\<close>

definition create ::
  "nat \<Rightarrow> nat \<Rightarrow> u8 list \<Rightarrow> u16 \<Rightarrow> u16 \<Rightarrow> u16 \<Rightarrow> 'a kos_scheme \<Rightarrow> (nat option \<times> 'a kos_scheme) res" where
  "create c i path ty major minor s =
     bindp (nameiparent c i path s) (\<lambda>(d, name) s1.
       case d of
         None \<Rightarrow> Ok (None, s1)
       | Some dp \<Rightarrow>
           bindr (ilock c i dp s1) (\<lambda>s2.
             bindp (dirlookup c i dp (name_buf name) s2) (\<lambda>r s3.
               case r of
                 Some (ip, _) \<Rightarrow>
                   bindr (iunlockput c i dp s3) (\<lambda>s4.
                     bindr (ilock c i ip s4) (\<lambda>s5.
                       if ty = T_FILE \<and> (itype (inodes s5 ip) = T_FILE \<or> itype (inodes s5 ip) = T_DEVICE)
                       then Ok (Some ip, s5)
                       else bindr (iunlockput c i ip s5) (\<lambda>s6. Ok (None, s6))))
               | None \<Rightarrow>
                   bindp (ialloc c i (idev (inodes s3 dp)) ty s3) (\<lambda>ip s4.
                     bindr (ilock c i ip s4) (\<lambda>s5.
                       bindr (iupdate c i ip
                                (upd_inode ip (\<lambda>x. x\<lparr>imajor := major, iminor := minor, inlink := 1\<rparr>) s5)) (\<lambda>s6.
                         bindr (if ty = T_DIR then
                                  bindr (iupdate c i dp (upd_inode dp (\<lambda>x. x\<lparr>inlink := inlink x + 1\<rparr>) s6)) (\<lambda>s7.
                                    bindp (dirlink c i ip (name_buf (str ''.'')) (inum (inodes s7 ip)) s7) (\<lambda>e s8.
                                      if e < 0 then Panic ''create dots''
                                      else
                                        bindp (dirlink c i ip (name_buf (str ''..'')) (inum (inodes s8 dp)) s8) (\<lambda>e' s9.
                                          if e' < 0 then Panic ''create dots'' else Ok s9)))
                                else Ok s6) (\<lambda>s10.
                           bindp (dirlink c i dp (name_buf name) (inum (inodes s10 ip)) s10) (\<lambda>e s11.
                             if e < 0 then Panic ''create: dirlink''
                             else bindr (iunlockput c i dp s11) (\<lambda>s12. Ok (Some ip, s12)))))))))) "

text \<open>The part of \<open>sys_open\<close> that finds the inode, locked; \<open>None\<close> after \<open>end_op\<close>.\<close>

definition open_inode ::
  "nat \<Rightarrow> nat \<Rightarrow> u8 list \<Rightarrow> int \<Rightarrow> 'a kos_scheme \<Rightarrow> (nat option \<times> 'a kos_scheme) res" where
  "open_inode c i path omode s =
     (if (word_of_int omode :: u32) AND O_CREATE \<noteq> 0 then
        bindp (create c i path T_FILE 0 0 s) (\<lambda>r s1.
          case r of None \<Rightarrow> bindr (end_op c i s1) (\<lambda>s2. Ok (None, s2)) | Some ip \<Rightarrow> Ok (Some ip, s1))
      else
        bindp (namei c i path s) (\<lambda>r s1.
          case r of
            None \<Rightarrow> bindr (end_op c i s1) (\<lambda>s2. Ok (None, s2))
          | Some ip \<Rightarrow>
              bindr (ilock c i ip s1) (\<lambda>s2.
                if itype (inodes s2 ip) = T_DIR \<and> omode \<noteq> O_RDONLY then
                  bindr (iunlockput c i ip s2) (\<lambda>s3. bindr (end_op c i s3) (\<lambda>s4. Ok (None, s4)))
                else Ok (Some ip, s2))))"

definition open_bad :: "nat \<Rightarrow> nat \<Rightarrow> nat \<Rightarrow> 'a kos_scheme \<Rightarrow> (int \<times> 'a kos_scheme) res" where
  "open_bad c i ip s = bindr (iunlockput c i ip s) (\<lambda>s1. bindr (end_op c i s1) (\<lambda>s2. fail s2))"

definition sys_open :: "nat \<Rightarrow> nat \<Rightarrow> 'a kos_scheme \<Rightarrow> (int \<times> 'a kos_scheme) res" where
  "sys_open c i s =
     bindr (argstr i 0 MAXPATH s) (\<lambda>path. bindr (argint i 1 s) (\<lambda>omode.
       case path of
         None \<Rightarrow> fail s
       | Some p \<Rightarrow>
           bindr (begin_op c i s) (\<lambda>s1.
             bindp (open_inode c i p omode s1) (\<lambda>r s2.
               case r of
                 None \<Rightarrow> fail s2
               | Some ip \<Rightarrow>
                   let x = inodes s2 ip; om = (word_of_int omode :: u32)
                   in if itype x = T_DEVICE \<and> (sint (imajor x) < 0 \<or> sint (imajor x) \<ge> int NDEV) then open_bad c i ip s2
                      else
                        bindp (filealloc c s2) (\<lambda>fo s3.
                          case fo of
                            None \<Rightarrow> open_bad c i ip s3
                          | Some f \<Rightarrow>
                              (case fdalloc i f s3 of
                                 (None, s4) \<Rightarrow> bindr (fileclose c i f s4) (\<lambda>s5. open_bad c i ip s5)
                               | (Some fd, s4) \<Rightarrow>
                                   let s5 = upd_file f (\<lambda>y. if itype (inodes s4 ip) = T_DEVICE
                                              then y\<lparr>ftype := FD_DEVICE, fmajor := imajor (inodes s4 ip)\<rparr>
                                              else y\<lparr>ftype := FD_INODE, foff := 0\<rparr>) s4;
                                       s6 = upd_file f (\<lambda>y. y\<lparr>fip := ip, readable := (om AND O_WRONLY = 0),
                                              writable := (om AND O_WRONLY \<noteq> 0 \<or> om AND O_RDWR \<noteq> 0)\<rparr>) s5
                                   in bindr (if om AND O_TRUNC \<noteq> 0 \<and> itype (inodes s6 ip) = T_FILE
                                             then itrunc c i ip s6 else Ok s6) (\<lambda>s7.
                                        bindr (iunlock c i ip s7) (\<lambda>s8.
                                          bindr (end_op c i s8) (\<lambda>s9. Ok (int fd, s9)))))))))) "

definition sys_mkdir :: "nat \<Rightarrow> nat \<Rightarrow> 'a kos_scheme \<Rightarrow> (int \<times> 'a kos_scheme) res" where
  "sys_mkdir c i s =
     bindr (begin_op c i s) (\<lambda>s1.
       bindr (argstr i 0 MAXPATH s1) (\<lambda>path.
         bindp (case path of None \<Rightarrow> Ok (None, s1) | Some p \<Rightarrow> create c i p T_DIR 0 0 s1) (\<lambda>r s2.
           case r of
             None \<Rightarrow> bindr (end_op c i s2) (\<lambda>s3. fail s3)
           | Some ip \<Rightarrow> bindr (iunlockput c i ip s2) (\<lambda>s3. bindr (end_op c i s3) (\<lambda>s4. Ok (0, s4))))))"

definition sys_mknod :: "nat \<Rightarrow> nat \<Rightarrow> 'a kos_scheme \<Rightarrow> (int \<times> 'a kos_scheme) res" where
  "sys_mknod c i s =
     bindr (begin_op c i s) (\<lambda>s1.
       bindr (argstr i 0 MAXPATH s1) (\<lambda>path. bindr (argint i 1 s1) (\<lambda>major. bindr (argint i 2 s1) (\<lambda>minor.
         bindp (case path of None \<Rightarrow> Ok (None, s1)
                | Some p \<Rightarrow> create c i p T_DEVICE (word_of_int major) (word_of_int minor) s1) (\<lambda>r s2.
           case r of
             None \<Rightarrow> bindr (end_op c i s2) (\<lambda>s3. fail s3)
           | Some ip \<Rightarrow> bindr (iunlockput c i ip s2) (\<lambda>s3. bindr (end_op c i s3) (\<lambda>s4. Ok (0, s4))))))))"

definition sys_chdir :: "nat \<Rightarrow> nat \<Rightarrow> 'a kos_scheme \<Rightarrow> (int \<times> 'a kos_scheme) res" where
  "sys_chdir c i s =
     bindr (begin_op c i s) (\<lambda>s1.
       bindr (argstr i 0 MAXPATH s1) (\<lambda>path.
         bindp (case path of None \<Rightarrow> Ok (None, s1) | Some p \<Rightarrow> namei c i p s1) (\<lambda>r s2.
           case r of
             None \<Rightarrow> bindr (end_op c i s2) (\<lambda>s3. fail s3)
           | Some ip \<Rightarrow>
               bindr (ilock c i ip s2) (\<lambda>s3.
                 if itype (inodes s3 ip) \<noteq> T_DIR then
                   bindr (iunlockput c i ip s3) (\<lambda>s4. bindr (end_op c i s4) (\<lambda>s5. fail s5))
                 else
                   bindr (iunlock c i ip s3) (\<lambda>s4.
                     case cwd (procs s4 i) of
                       None \<Rightarrow> Panic ''kerneltrap''
                     | Some d \<Rightarrow>
                         bindr (iput c i d s4) (\<lambda>s5.
                           bindr (end_op c i s5) (\<lambda>s6.
                             Ok (0, upd_proc i (\<lambda>p. p\<lparr>cwd := Some ip\<rparr>) s6))))))))"

section \<open>exec and pipe\<close>

text \<open>
  The loop of \<open>sys_exec\<close> that fetches the arguments: \<open>argv\<close> are the pages so far, in
  order, and the result says whether the terminating 0 was found.
\<close>

function fetch_argv ::
  "nat \<Rightarrow> u64 \<Rightarrow> u64 list \<Rightarrow> 'a kos_scheme \<Rightarrow> (bool \<times> u64 list) \<times> 'a kos_scheme" where
  "fetch_argv i uargv argv s =
     (if length argv \<ge> MAXARG then ((False, argv), s)
      else case fetchaddr i (uargv + 8 * of_nat (length argv)) s of
        None \<Rightarrow> ((False, argv), s)
      | Some uarg \<Rightarrow>
          if uarg = 0 then ((True, argv), s)
          else
            let (a, s1) = kalloc s
            in if a = 0 then ((False, argv), s1)
               else
                 let (r, bs) = fetchstr i uarg 4096 s1;
                     s2 = s1\<lparr>pmem := write_bytes (pmem s1) a bs\<rparr>
                 in if r < 0 then ((False, argv @ [a]), s2) else fetch_argv i uargv (argv @ [a]) s2)"
  by pat_completeness auto
termination
  by (relation "measure (\<lambda>(i, uargv, argv, s). MAXARG - length argv)") auto

declare fetch_argv.simps [simp del]

fun free_argv :: "u64 list \<Rightarrow> 'a kos_scheme \<Rightarrow> 'a kos_scheme res" where
  "free_argv [] s = Ok s"
| "free_argv (a # as) s = bindr (kfree a s) (\<lambda>s1. free_argv as s1)"

definition sys_exec :: "nat \<Rightarrow> nat \<Rightarrow> 'a kos_scheme \<Rightarrow> (int \<times> 'a kos_scheme) res" where
  "sys_exec c i s =
     bindr (argstr i 0 MAXPATH s) (\<lambda>path. bindr (argaddr i 1 s) (\<lambda>uargv.
       case path of
         None \<Rightarrow> fail s
       | Some p \<Rightarrow>
           let ((ok, argv), s1) = fetch_argv i uargv [] s
           in if ok then
                bindp (exec c i p argv s1) (\<lambda>ret s2. bindr (free_argv argv s2) (\<lambda>s3. Ok (ret, s3)))
              else bindr (free_argv argv s1) (\<lambda>s2. fail s2)))"

definition pipe_bad :: "nat \<Rightarrow> nat \<Rightarrow> nat \<Rightarrow> nat \<Rightarrow> 'a kos_scheme \<Rightarrow> (int \<times> 'a kos_scheme) res" where
  "pipe_bad c i rf fw s = bindr (fileclose c i rf s) (\<lambda>s1. bindr (fileclose c i fw s1) (\<lambda>s2. fail s2))"

definition sys_pipe :: "nat \<Rightarrow> nat \<Rightarrow> 'a kos_scheme \<Rightarrow> (int \<times> 'a kos_scheme) res" where
  "sys_pipe c i s =
     bindr (argaddr i 0 s) (\<lambda>fdarray.
       bindp (pipealloc c i s) (\<lambda>r s1.
         case r of
           None \<Rightarrow> fail s1
         | Some (rf, fw) \<Rightarrow>
             (case fdalloc i rf s1 of
                (None, s2) \<Rightarrow> pipe_bad c i rf fw s2
              | (Some fd0, s2) \<Rightarrow>
                  (case fdalloc i fw s2 of
                     (None, s3) \<Rightarrow> pipe_bad c i rf fw (set_fd i fd0 None s3)
                   | (Some fd1, s3) \<Rightarrow>
                       let pt = pagetable (procs s3 i);
                           (e0, s4) = copyout pt fdarray (word_bytes 4 (of_nat fd0 :: u32)) s3;
                           (e1, s5) = (if e0 < 0 then (-1, s4) else copyout pt (fdarray + 4) (word_bytes 4 (of_nat fd1 :: u32)) s4)
                       in if e1 < 0 then pipe_bad c i rf fw (set_fd i fd1 None (set_fd i fd0 None s5))
                          else Ok (0, s5)))))"

section \<open>sysproc.c\<close>

definition sys_exit :: "nat \<Rightarrow> nat \<Rightarrow> 'a kos_scheme \<Rightarrow> 'a kos_scheme res" where
  "sys_exit c i s = bindr (argint i 0 s) (\<lambda>n. exit c i (word_of_int n) s)"

definition sys_getpid :: "nat \<Rightarrow> 'a kos_scheme \<Rightarrow> int" where
  "sys_getpid i s = pid (procs s i)"

definition sys_fork :: "nat \<Rightarrow> nat \<Rightarrow> 'a kos_scheme \<Rightarrow> (int \<times> 'a kos_scheme) res" where
  "sys_fork c i s = fork c i s"

definition sys_wait :: "nat \<Rightarrow> nat \<Rightarrow> 'a kos_scheme \<Rightarrow> (int option \<times> bool \<times> 'a kos_scheme) res" where
  "sys_wait c i s = bindr (argaddr i 0 s) (\<lambda>p. wait c i p s)"

definition sys_sbrk :: "nat \<Rightarrow> nat \<Rightarrow> 'a kos_scheme \<Rightarrow> (int \<times> 'a kos_scheme) res" where
  "sys_sbrk c i s =
     bindr (argint i 0 s) (\<lambda>n.
       let addr = sint (ucast (sz (procs s i)) :: u32)
       in bindp (growproc i n s) (\<lambda>r s1. if r < 0 then fail s1 else Ok (addr, s1)))"

text \<open>
  The loop of \<open>sys_sleep\<close>, with \<open>tickslock\<close> held; \<open>None\<close> when it sleeps. \<open>n\<close> is
  converted to \<open>uint\<close> for the comparison.
\<close>

definition sys_sleep_loop ::
  "nat \<Rightarrow> nat \<Rightarrow> u32 \<Rightarrow> int \<Rightarrow> 'a kos_scheme \<Rightarrow> (int option \<times> 'a kos_scheme) res" where
  "sys_sleep_loop c i ticks0 n s =
     (if ticks s - ticks0 < word_of_int n then
        (if killed (procs s i) then bindr (release c Lk_ticks s) (\<lambda>s1. Ok (Some (-1), s1))
         else bindp (sleep_out c i Chan_ticks Lk_ticks s) (\<lambda>_ s1. Ok (None, s1)))
      else bindr (release c Lk_ticks s) (\<lambda>s1. Ok (Some 0, s1)))"

definition sys_sleep :: "nat \<Rightarrow> nat \<Rightarrow> 'a kos_scheme \<Rightarrow> (int option \<times> 'a kos_scheme) res" where
  "sys_sleep c i s =
     bindr (argint i 0 s) (\<lambda>n. bindr (acquire c Lk_ticks s) (\<lambda>s1. sys_sleep_loop c i (ticks s1) n s1))"

definition sys_kill :: "nat \<Rightarrow> nat \<Rightarrow> 'a kos_scheme \<Rightarrow> (int \<times> 'a kos_scheme) res" where
  "sys_kill c i s = bindr (argint i 0 s) (\<lambda>n. kill c n s)"

definition sys_uptime :: "nat \<Rightarrow> 'a kos_scheme \<Rightarrow> (u32 \<times> 'a kos_scheme) res" where
  "sys_uptime c s = critical c Lk_ticks (\<lambda>s1. Ok (ticks s1, s1)) s"

end
