(* ===== verification/Trap.thy ===== *)
theory Trap
  imports Sysfile
begin

text \<open>
  kernel/syscall.c (dispatch), kernel/trap.c, kernel/plic.c and kernel/main.c. The
  interrupt controller's registers are part of the state; \<open>plic_sclaim\<close> is what a
  read of the claim register gives.
\<close>

section \<open>System call dispatch (kernel/syscall.c)\<close>

definition ret_int :: "(int \<times> 's) res \<Rightarrow> (u64 option \<times> 's) res" where
  "ret_int r = bindp r (\<lambda>v s. Ok (Some (word_of_int v), s))"

definition ret_opt :: "(int option \<times> 's) res \<Rightarrow> (u64 option \<times> 's) res" where
  "ret_opt r = bindp r (\<lambda>v s. Ok (map_option word_of_int v, s))"

text \<open>
  The table \<open>syscalls\<close>: the call of a number, or nothing if the number has no entry.
  \<open>pad\<close> is the padding that \<open>fstat\<close> copies out.
\<close>

definition syscalls :: "int \<Rightarrow> (nat \<Rightarrow> nat \<Rightarrow> u8 list \<Rightarrow> 'a kos_scheme \<Rightarrow> (u64 option \<times> 'a kos_scheme) res) option" where
  "syscalls num =
     (if num = 1 then Some (\<lambda>c i pad s. ret_int (sys_fork c i s))
      else if num = 2 then Some (\<lambda>c i pad s. bindr (sys_exit c i s) (\<lambda>s1. Ok (None, s1)))
      else if num = 3 then Some (\<lambda>c i pad s. bindp (sys_wait c i s) (\<lambda>v (_, s1). Ok (map_option word_of_int v, s1)))
      else if num = 4 then Some (\<lambda>c i pad s. ret_int (sys_pipe c i s))
      else if num = 5 then Some (\<lambda>c i pad s. ret_opt (sys_read c i s))
      else if num = 6 then Some (\<lambda>c i pad s. ret_int (sys_kill c i s))
      else if num = 7 then Some (\<lambda>c i pad s. ret_int (sys_exec c i s))
      else if num = 8 then Some (\<lambda>c i pad s. ret_int (sys_fstat c i pad s))
      else if num = 9 then Some (\<lambda>c i pad s. ret_int (sys_chdir c i s))
      else if num = 10 then Some (\<lambda>c i pad s. ret_int (sys_dup c i s))
      else if num = 11 then Some (\<lambda>c i pad s. Ok (Some (word_of_int (sys_getpid i s)), s))
      else if num = 12 then Some (\<lambda>c i pad s. ret_int (sys_sbrk c i s))
      else if num = 13 then Some (\<lambda>c i pad s. ret_opt (sys_sleep c i s))
      else if num = 14 then Some (\<lambda>c i pad s. bindp (sys_uptime c s) (\<lambda>t s1. Ok (Some (ucast t), s1)))
      else if num = 15 then Some (\<lambda>c i pad s. ret_int (sys_open c i s))
      else if num = 16 then Some (\<lambda>c i pad s. ret_opt (sys_write c i s))
      else if num = 17 then Some (\<lambda>c i pad s. ret_int (sys_mknod c i s))
      else if num = 18 then Some (\<lambda>c i pad s. ret_int (sys_unlink c i s))
      else if num = 19 then Some (\<lambda>c i pad s. ret_int (sys_link c i s))
      else if num = 20 then Some (\<lambda>c i pad s. ret_int (sys_mkdir c i s))
      else if num = 21 then Some (\<lambda>c i pad s. ret_int (sys_close c i s))
      else None)"

text \<open>\<open>True\<close>: the call has returned and \<open>a0\<close> is set; \<open>False\<close>: its thread is off the CPU.\<close>

definition syscall :: "nat \<Rightarrow> nat \<Rightarrow> u8 list \<Rightarrow> 'a kos_scheme \<Rightarrow> (bool \<times> 'a kos_scheme) res" where
  "syscall c i pad s =
     (let num = sint (ucast (tf_get i (TF_a 7) s) :: u32)
      in case syscalls num of
           Some f \<Rightarrow>
             bindp (f c i pad s) (\<lambda>v s1.
               case v of None \<Rightarrow> Ok (False, s1) | Some a \<Rightarrow> Ok (True, tf_set i (TF_a 0) a s1))
         | None \<Rightarrow>
             bindr (printf c (''%d %s: unknown sys call %d'' @ [CHR 10])
                      [AInt (word_of_int (pid (procs s i))),
                       AStr (Some (takeWhile (\<lambda>b. b \<noteq> 0) (pname (procs s i)))), AInt (word_of_int num)] s) (\<lambda>s1.
               Ok (True, tf_set i (TF_a 0) (- 1) s1)))"

section \<open>The interrupt controller (kernel/plic.c)\<close>

abbreviation UART0_IRQ :: nat where "UART0_IRQ \<equiv> 10"
abbreviation VIRTIO0_IRQ :: nat where "VIRTIO0_IRQ \<equiv> 1"

definition plicinit :: "'a kos_scheme \<Rightarrow> 'a kos_scheme" where
  "plicinit s = s\<lparr>plic_priority := (plic_priority s)(UART0_IRQ := 1, VIRTIO0_IRQ := 1)\<rparr>"

definition plicinithart :: "nat \<Rightarrow> 'a kos_scheme \<Rightarrow> 'a kos_scheme" where
  "plicinithart c s =
     (let s1 = s\<lparr>plic_senable := (plic_senable s)(c := push_bit UART0_IRQ 1 OR push_bit VIRTIO0_IRQ 1)\<rparr>
      in s1\<lparr>plic_spriority := (plic_spriority s1)(c := 0)\<rparr>)"

definition plic_claim :: "nat \<Rightarrow> 'a kos_scheme \<Rightarrow> int" where
  "plic_claim c s = sint (plic_sclaim s c)"

text \<open>Writing the claim register tells the controller that the interrupt has been served.\<close>

definition plic_complete :: "nat \<Rightarrow> int \<Rightarrow> 'a kos_scheme \<Rightarrow> 'a kos_scheme" where
  "plic_complete c irq s =
     (if plic_sclaim s c = word_of_int irq then s\<lparr>plic_sclaim := (plic_sclaim s)(c := 0)\<rparr> else s)"

section \<open>Traps (kernel/trap.c)\<close>

definition trapinit :: "'a kos_scheme \<Rightarrow> 'a kos_scheme" where
  "trapinit s = initlock Lk_ticks s"

definition trapinithart :: "nat \<Rightarrow> 'a kos_scheme \<Rightarrow> 'a kos_scheme" where
  "trapinithart c s = upd_hart c (\<lambda>h. h\<lparr>stvec := kernelvec_addr s\<rparr>) s"

definition clockintr :: "nat \<Rightarrow> 'a kos_scheme \<Rightarrow> 'a kos_scheme res" where
  "clockintr c s =
     bindp (critical c Lk_ticks (\<lambda>s1.
       bindr (wakeup c Chan_ticks (s1\<lparr>ticks := ticks s1 + 1\<rparr>)) (\<lambda>s2. Ok ((), s2))) s) (\<lambda>_ s3. Ok s3)"

definition devintr :: "nat \<Rightarrow> 'a kos_scheme \<Rightarrow> (int \<times> 'a kos_scheme) res" where
  "devintr c s =
     (let cause = scause (harts s c)
      in if cause AND 0x8000000000000000 \<noteq> 0 \<and> cause AND 0xff = 9 then
           let irq = plic_claim c s
           in bindr (if irq = int UART0_IRQ then uartintr c s
                     else if irq = int VIRTIO0_IRQ then virtio_disk_intr c s
                     else if irq \<noteq> 0 then
                       printf c (''unexpected interrupt irq=%d'' @ [CHR 10]) [AInt (word_of_int irq)] s
                     else Ok s) (\<lambda>s1.
                Ok (1, if irq \<noteq> 0 then plic_complete c irq s1 else s1))
         else if cause = 0x8000000000000001 then
           bindr (if c = 0 then clockintr c s else Ok s) (\<lambda>s1.
             Ok (2, upd_hart c (\<lambda>h. h\<lparr>sip := sip h AND NOT 2\<rparr>) s1))
         else Ok (0, s))"

text \<open>
  \<open>usertrap\<close> ends by returning to user space, or the thread is off the CPU: it has
  exited, yielded or gone to sleep in a system call.
\<close>

datatype trapend = ToUser u64 u64 | OffCpu

definition exit_now :: "nat \<Rightarrow> nat \<Rightarrow> 'a kos_scheme \<Rightarrow> (trapend \<times> 'a kos_scheme) res" where
  "exit_now c i s = bindr (exit c i (- 1) s) (\<lambda>s1. Ok (OffCpu, s1))"

definition usertrap_end :: "nat \<Rightarrow> nat \<Rightarrow> int \<Rightarrow> 'a kos_scheme \<Rightarrow> (trapend \<times> 'a kos_scheme) res" where
  "usertrap_end c i which_dev s =
     (if killed (procs s i) then exit_now c i s
      else if which_dev = 2 then bindp (yield_out c i s) (\<lambda>_ s1. Ok (OffCpu, s1))
      else let ((tf, st), s1) = usertrapret c i s in Ok (ToUser tf st, s1))"

definition usertrap :: "nat \<Rightarrow> nat \<Rightarrow> u8 list \<Rightarrow> 'a kos_scheme \<Rightarrow> (trapend \<times> 'a kos_scheme) res" where
  "usertrap c i pad s =
     (if r_sstatus c s AND SSTATUS_SPP \<noteq> 0 then Panic ''usertrap: not from user mode''
      else
        let s1 = upd_hart c (\<lambda>h. h\<lparr>stvec := kernelvec_addr s\<rparr>) s;
            s2 = tf_set i TF_epc (sepc (harts s1 c)) s1
        in if scause (harts s2 c) = 8 then
             (if killed (procs s2 i) then exit_now c i s2
              else
                let s3 = tf_set i TF_epc (tf_get i TF_epc s2 + 4) s2
                in bindp (syscall c i pad (intr_on c s3)) (\<lambda>back s4.
                     if back then usertrap_end c i 0 s4 else Ok (OffCpu, s4)))
           else
             bindp (devintr c s2) (\<lambda>which_dev s3.
               if which_dev \<noteq> 0 then usertrap_end c i which_dev s3
               else
                 bindr (printf c (''usertrap(): unexpected scause %p pid=%d'' @ [CHR 10])
                          [APtr (scause (harts s3 c)), AInt (word_of_int (pid (procs s3 i)))] s3) (\<lambda>s4.
                   bindr (printf c (''            sepc=%p stval=%p'' @ [CHR 10])
                            [APtr (sepc (harts s4 c)), APtr (stval (harts s4 c))] s4) (\<lambda>s5.
                     usertrap_end c i 0 (upd_proc i (\<lambda>p. p\<lparr>killed := True\<rparr>) s5)))))"

text \<open>\<open>kerneltrap\<close>: \<open>None\<close> if the interrupted thread yields, with the registers to restore.\<close>

definition kerneltrap :: "nat \<Rightarrow> 'a kos_scheme \<Rightarrow> (unit option \<times> 'a kos_scheme) res" where
  "kerneltrap c s =
     (let st = r_sstatus c s; pc0 = sepc (harts s c)
      in if st AND SSTATUS_SPP = 0 then Panic ''kerneltrap: not from supervisor mode''
         else if intr_get c s then Panic ''kerneltrap: interrupts enabled''
         else
           bindp (devintr c s) (\<lambda>which_dev s1.
             if which_dev = 0 then Panic ''kerneltrap''
             else
               case curproc c s1 of
                 Some i \<Rightarrow>
                   if which_dev = 2 \<and> state (procs s1 i) = RUNNING
                   then bindp (yield_out c i s1) (\<lambda>_ s2. Ok (None, s2))
                   else Ok (Some (), w_sstatus c st (upd_hart c (\<lambda>h. h\<lparr>sepc := pc0\<rparr>) s1))
               | None \<Rightarrow> Ok (Some (), w_sstatus c st (upd_hart c (\<lambda>h. h\<lparr>sepc := pc0\<rparr>) s1))))"

section \<open>Boot (kernel/main.c)\<close>

text \<open>What CPU 0 does before it enters the scheduler, and what the others do.\<close>

definition main0 :: "'a kos_scheme \<Rightarrow> 'a kos_scheme res" where
  "main0 s =
     bindr (printf 0 [CHR 10] [] (printfinit (consoleinit s))) (\<lambda>s1.
       bindr (printf 0 (''xv6 kernel is booting'' @ [CHR 10]) [] s1) (\<lambda>s2.
         bindr (printf 0 [CHR 10] [] s2) (\<lambda>s3.
           bindr (kinit s3) (\<lambda>s4.
             bindr (kvminit s4) (\<lambda>s5.
               bindr (procinit (kvminithart s5)) (\<lambda>s6.
                 let s7 = plicinithart 0 (plicinit (trapinithart 0 (trapinit s6)))
                 in bindr (virtio_disk_init (fileinit (iinit (binit s7)))) (\<lambda>s8. userinit 0 s8)))))))"

definition main_hart :: "nat \<Rightarrow> 'a kos_scheme \<Rightarrow> 'a kos_scheme res" where
  "main_hart c s =
     bindr (printf c (''hart %d starting'' @ [CHR 10]) [AInt (of_nat c)] s) (\<lambda>s1.
       Ok (plicinithart c (trapinithart c (kvminithart s1))))"

end
