(* ===== verification/Console_Line.thy ===== *)
theory Console_Line
  imports Pipe_Queue
begin

text \<open>
  The console (\<open>kernel/console.c\<close>): the ring of input bytes as a line editor with a queue of finished
  lines, and the output path, which may sleep under a lock.
\<close>

section \<open>The input as two queues\<close>

definition cons_ready :: "'a kdev_scheme \<Rightarrow> u8 list" where
  "cons_ready s = ring_bytes (cons_buf s) (cons_r s) (cons_w s)"

definition cons_edit :: "'a kdev_scheme \<Rightarrow> u8 list" where
  "cons_edit s = ring_bytes (cons_buf s) (cons_w s) (cons_e s)"

definition cons_ok :: "'a kdev_scheme \<Rightarrow> bool" where
  "cons_ok s \<longleftrightarrow> length (cons_buf s) = INPUT_BUF \<and> length (cons_ready s) + length (cons_edit s) \<le> INPUT_BUF"

lemma cons_split:
  assumes "cons_ok s"
  shows "ring_bytes (cons_buf s) (cons_r s) (cons_e s) = cons_ready s @ cons_edit s"
    "unat (cons_e s - cons_r s) = length (cons_ready s) + length (cons_edit s)"
proof -
  show e: "ring_bytes (cons_buf s) (cons_r s) (cons_e s) = cons_ready s @ cons_edit s"
    using assms unfolding cons_ready_def cons_edit_def by (intro ring_split) (simp add: cons_ok_def cons_ready_def cons_edit_def)
  show "unat (cons_e s - cons_r s) = length (cons_ready s) + length (cons_edit s)"
    using arg_cong [OF e, of length] by simp
qed

text \<open>A new byte at the end of the line that is being edited.\<close>

lemma cons_put:
  assumes ok: "cons_ok s" and room: "length (cons_ready s) + length (cons_edit s) < INPUT_BUF"
    and s': "cons_buf s' = (cons_buf s)[unat (cons_e s) mod INPUT_BUF := b]" "cons_r s' = cons_r s" "cons_w s' = cons_w s" "cons_e s' = cons_e s + 1"
  shows "cons_ready s' = cons_ready s" "cons_edit s' = cons_edit s @ [b]" "cons_ok s'"
proof -
  have l: "length (cons_buf s) = INPUT_BUF" using ok by (simp add: cons_ok_def)
  have "unat (cons_e s - cons_w s) < length (cons_buf s)" using room l by (simp add: cons_edit_def)
  from ring_put [OF _ this, of b] have e: "cons_edit s' = cons_edit s @ [b]"
    by (simp add: cons_edit_def s' l)
  have "unat (cons_e s - cons_r s) < length (cons_buf s)" using room l cons_split(2) [OF ok] by simp
  from ring_put [OF _ this, of b] have a: "ring_bytes (cons_buf s') (cons_r s') (cons_e s') = (cons_ready s @ cons_edit s) @ [b]"
    by (simp add: s' l cons_split(1) [OF ok])
  have "ring_bytes (cons_buf s') (cons_r s') (cons_e s') = cons_ready s' @ cons_edit s'"
    unfolding cons_ready_def cons_edit_def
  proof (rule ring_split)
    have "length (cons_edit s') = Suc (length (cons_edit s))" using e by simp
    then show "unat (cons_w s' - cons_r s') + unat (cons_e s' - cons_w s') < 2 ^ 32"
      using room by (simp add: cons_edit_def cons_ready_def s')
  qed
  then show r: "cons_ready s' = cons_ready s" using a e by simp
  show "cons_edit s' = cons_edit s @ [b]" by (rule e)
  show "cons_ok s'" using r e room l by (simp add: cons_ok_def s')
qed

lemma cons_unput:
  assumes ok: "cons_ok s" and ne: "cons_edit s \<noteq> []"
    and s': "cons_buf s' = cons_buf s" "cons_r s' = cons_r s" "cons_w s' = cons_w s" "cons_e s' = cons_e s - 1"
  shows "cons_ready s' = cons_ready s" "cons_edit s' = butlast (cons_edit s)" "cons_ok s'"
    "cons_buf s ! (unat (cons_e s - 1) mod INPUT_BUF) = List.last (cons_edit s)"
proof -
  have l: "length (cons_buf s) = INPUT_BUF" using ok by (simp add: cons_ok_def)
  have "cons_w s \<noteq> cons_e s" using ne by (simp add: cons_edit_def ring_bytes_empty)
  from ring_unput [OF this, of "cons_buf s"]
  have e: "cons_edit s = cons_edit s' @ [cons_buf s ! (unat (cons_e s - 1) mod INPUT_BUF)]" by (simp add: cons_edit_def s' l)
  show r: "cons_ready s' = cons_ready s" by (simp add: cons_ready_def s')
  show "cons_edit s' = butlast (cons_edit s)" "cons_buf s ! (unat (cons_e s - 1) mod INPUT_BUF) = List.last (cons_edit s)"
    by (simp_all add: e)
  have "length (cons_edit s) = Suc (length (cons_edit s'))" using arg_cong [OF e, of length] by simp
  then show "cons_ok s'" using ok r by (simp add: cons_ok_def s')
qed

lemma cons_commit:
  assumes ok: "cons_ok s" and s': "cons_buf s' = cons_buf s" "cons_r s' = cons_r s" "cons_w s' = cons_e s" "cons_e s' = cons_e s"
  shows "cons_ready s' = cons_ready s @ cons_edit s" "cons_edit s' = []" "cons_ok s'"
  using cons_split(1) [OF ok] ok by (simp_all add: cons_ready_def cons_edit_def cons_ok_def s' ring_bytes_empty)

section \<open>Echo\<close>

lemma locked_dev:
  "cons_buf (locked_state c lk s) = cons_buf s" "cons_r (locked_state c lk s) = cons_r s" "cons_w (locked_state c lk s) = cons_w s"
  "cons_e (locked_state c lk s) = cons_e s" "sys_panicked (locked_state c lk s) = sys_panicked s" "uart_room (locked_state c lk s) = uart_room s"
  "pmem (locked_state c lk s) = pmem s"
  "(locked_state c lk s)\<lparr>cons_e := x\<rparr> = locked_state c lk (s\<lparr>cons_e := x\<rparr>)"
  "(locked_state c lk s)\<lparr>cons_w := x\<rparr> = locked_state c lk (s\<lparr>cons_w := x\<rparr>)"
  "(locked_state c lk s)\<lparr>cons_buf := bs\<rparr> = locked_state c lk (s\<lparr>cons_buf := bs\<rparr>)"
  by (simp_all add: locked_state_def lock_defs)

lemma push_pop_locked:
  assumes "calm c s"
  shows "pop_off c (write_THR b (push_off c (locked_state c lk s))) = Ok (locked_state c lk (write_THR b s))"
proof -
  obtain p n a i where k: "cpus s c = \<lparr>proc = p, noff = n, intena = a, intr = i\<rparr>" by (cases "cpus s c")
  then have n: "n = 0" "a = i" using assms by (simp_all add: calm_def)
  show ?thesis
    by (simp add: locked_state_def lock_defs write_THR_def k n)
qed

text \<open>The transmitter accepts \<open>n\<close> more bytes at once, and the system has not panicked.\<close>

definition uart_ready :: "nat \<Rightarrow> 'a kdev_scheme \<Rightarrow> bool" where
  "uart_ready n s \<longleftrightarrow> \<not> sys_panicked s \<and> n \<le> uart_room s"

text \<open>At most \<open>n\<close> bytes went out; the rest of the state is as before.\<close>

definition echoed :: "nat \<Rightarrow> 'a kdev_scheme \<Rightarrow> 'a kdev_scheme \<Rightarrow> bool" where
  "echoed n s s' \<longleftrightarrow> (\<exists>out m. s' = s\<lparr>uart_out := out, uart_room := m\<rparr> \<and> uart_room s \<le> m + n)"

lemma echoedD:
  assumes "echoed n s s'"
  shows "cons_buf s' = cons_buf s" "cons_r s' = cons_r s" "cons_w s' = cons_w s" "cons_e s' = cons_e s" "procs s' = procs s"
    "uart_ready (n + m) s \<Longrightarrow> uart_ready m s'" "calm c s \<Longrightarrow> calm c s'"
  using assms by (auto simp: echoed_def uart_ready_def calm_def free_lock_def)

lemma consputc_locked:
  assumes "calm c s" and "uart_ready 3 s"
  obtains s' where "consputc c ch (locked_state c lk s) = Ok (locked_state c lk s')" "echoed 3 s s'"
proof -
  have u: "uartputc_sync c b (locked_state c lk t) = Ok (locked_state c lk (write_THR b t))" if "calm c t" "uart_ready 1 t" for b t
  proof -
    have "sys_panicked (push_off c (locked_state c lk t)) = sys_panicked t" "uart_room (push_off c (locked_state c lk t)) = uart_room t"
      by (simp_all add: locked_state_def lock_defs)
    then show ?thesis using that push_pop_locked [OF that(1)] by (simp add: uartputc_sync_def uart_ready_def Let_def)
  qed
  have w: "calm c (write_THR b t)" "uart_ready m (write_THR b t)" if "calm c t" "uart_ready (Suc m) t" for b t m
    using that by (auto simp: write_THR_def uart_ready_def intro: calm_same)
  let ?s1 = "write_THR 8 s" and ?s2 = "write_THR 32 (write_THR 8 s)"
  have c1: "calm c ?s1" "uart_ready 2 ?s1" using w [of s 2] assms by (simp_all add: numeral_3_eq_3)
  have c2: "calm c ?s2" "uart_ready 1 ?s2" using w [of ?s1 1] c1 by (simp_all add: numeral_2_eq_2)
  show thesis
  proof (cases "ch = BACKSPACE")
    case True
    have "consputc c ch (locked_state c lk s) = Ok (locked_state c lk (write_THR 8 ?s2))"
      using u [of s] u [of ?s1] u [of ?s2] assms c1 c2 True by (simp add: consputc_def uart_ready_def)
    moreover have "echoed 3 s (write_THR 8 ?s2)"
      unfolding echoed_def by (rule exI [of _ "uart_out s @ [8, 32, 8]"], rule exI [of _ "uart_room s - 3"]) (simp add: write_THR_def)
    ultimately show thesis by (rule that)
  next
    case False
    have "consputc c ch (locked_state c lk s) = Ok (locked_state c lk (write_THR (of_nat ch) s))"
      using u [of s] assms False by (simp add: consputc_def uart_ready_def)
    moreover have "echoed 3 s (write_THR (of_nat ch) s)"
      unfolding echoed_def by (rule exI [of _ "uart_out s @ [of_nat ch]"], rule exI [of _ "uart_room s - 1"]) (simp add: write_THR_def)
    ultimately show thesis by (rule that)
  qed
qed

section \<open>Line editing\<close>

definition erase_line :: "u8 list \<Rightarrow> u8 list" where
  "erase_line ed = rev (dropWhile (\<lambda>b. b \<noteq> 10) (rev ed))"

lemma erase_line_step: "ed \<noteq> [] \<Longrightarrow> erase_line ed = (if List.last ed = 10 then ed else erase_line (butlast ed))"
  by (cases ed rule: rev_cases) (simp_all add: erase_line_def)

lemma kill_line_locked:
  assumes "calm c s" and "cons_ok s" and "length (cons_edit s) < n" and "uart_ready (3 * length (cons_edit s)) s"
  shows "\<exists>s'. kill_line c n (locked_state c Lk_cons s) = Ok (locked_state c Lk_cons s') \<and> calm c s' \<and> cons_ok s' \<and>
    cons_ready s' = cons_ready s \<and> cons_edit s' = erase_line (cons_edit s)"
  using assms
proof (induction n arbitrary: s)
  case (Suc n)
  let ?L = "locked_state c Lk_cons"
  have iff: "cons_e s \<noteq> cons_w s \<longleftrightarrow> cons_edit s \<noteq> []" by (auto simp: cons_edit_def ring_bytes_empty)
  show ?case
  proof (cases "cons_edit s = [] \<or> List.last (cons_edit s) = 10")
    case True
    then have "kill_line c (Suc n) (?L s) = Ok (?L s)"
      using iff cons_unput(4) [OF Suc.prems(2), of "s\<lparr>cons_e := cons_e s - 1\<rparr>"]
      by (subst kill_line.simps) (auto simp: locked_dev)
    moreover have "erase_line (cons_edit s) = cons_edit s" using True by (cases "cons_edit s = []") (simp_all add: erase_line_step, simp add: erase_line_def)
    ultimately show ?thesis using Suc.prems by auto
  next
    case False
    define s1 where "s1 = s\<lparr>cons_e := cons_e s - 1\<rparr>"
    have un: "cons_ready s1 = cons_ready s" "cons_edit s1 = butlast (cons_edit s)" "cons_ok s1"
      "cons_buf s ! (unat (cons_e s - 1) mod INPUT_BUF) = List.last (cons_edit s)"
      using cons_unput [OF Suc.prems(2), of s1] False by (simp_all add: s1_def)
    have c1: "calm c s1" by (rule calm_same [OF Suc.prems(1)]) (simp_all add: s1_def)
    obtain m where m: "length (cons_edit s) = Suc m" using False by (cases "cons_edit s") auto
    have u1: "uart_ready (3 + 3 * m) s1" using Suc.prems(4) m by (simp add: s1_def uart_ready_def)
    obtain s2 where s2: "consputc c BACKSPACE (?L s1) = Ok (?L s2)" "echoed 3 s1 s2"
      by (rule consputc_locked [OF c1, of BACKSPACE Lk_cons]) (use u1 in \<open>simp_all add: uart_ready_def\<close>)
    note D = echoedD [OF s2(2)]
    have e2: "cons_ready s2 = cons_ready s1" "cons_edit s2 = cons_edit s1" "cons_ok s2"
      using un(3) by (simp_all add: cons_ready_def cons_edit_def cons_ok_def D)
    have "kill_line c (Suc n) (?L s) = kill_line c n (?L s2)"
      using False iff un(4) s2(1) by (subst kill_line.simps) (simp add: locked_dev s1_def)
    moreover obtain s' where "kill_line c n (?L s2) = Ok (?L s')" "calm c s'" "cons_ok s'" "cons_ready s' = cons_ready s2"
      "cons_edit s' = erase_line (cons_edit s2)"
      using Suc.IH [OF D(7) [OF c1] e2(3)] D(6) [of "3 * m"] u1 Suc.prems(3) m un(2) e2(2) by auto
    ultimately show ?thesis using e2 un False erase_line_step [of "cons_edit s"] by auto
  qed
qed simp

text \<open>What a key does to the finished input and the line being edited.\<close>

definition line_key :: "u8 \<Rightarrow> u8 list \<times> u8 list \<Rightarrow> u8 list \<times> u8 list" where
  "line_key ch q = (case q of (rd, ed) \<Rightarrow>
     if ch = 21 then (rd, erase_line ed)
     else if ch = 8 \<or> ch = 127 then (rd, butlast ed)
     else if ch \<noteq> 0 \<and> length rd + length ed < INPUT_BUF then
       let b = (if ch = 13 then 10 else ch); ed1 = ed @ [b]
       in if b = 10 \<or> b = 4 \<or> length rd + length ed1 = INPUT_BUF then (rd @ ed1, []) else (rd, ed1)
     else (rd, ed))"

lemma consoleintr_body:
  assumes "calm c s" and "body (locked_state c Lk_cons s) = Ok (locked_state c Lk_cons s')" and "calm c s'"
  shows "bindp (critical c Lk_cons (\<lambda>s1. bindr (body s1) (\<lambda>s4. Ok ((), s4))) s) (\<lambda>_ s5. Ok s5) = Ok s'"
  using critical_calm [OF assms(1,3), of "\<lambda>s1. bindr (body s1) (\<lambda>s4. Ok ((), s4))" Lk_cons "()"] assms(2) by simp

lemma cons_full_iff:
  assumes "cons_ok s"
  shows "cons_e s = cons_r s + of_nat INPUT_BUF \<longleftrightarrow> length (cons_ready s) + length (cons_edit s) = INPUT_BUF"
    "cons_e s - cons_r s < of_nat INPUT_BUF \<longleftrightarrow> length (cons_ready s) + length (cons_edit s) < INPUT_BUF"
proof -
  have "cons_e s = cons_r s + of_nat INPUT_BUF \<longleftrightarrow> cons_e s - cons_r s = of_nat INPUT_BUF" by (auto simp: algebra_simps)
  also have "\<dots> \<longleftrightarrow> unat (cons_e s - cons_r s) = INPUT_BUF" by (simp add: word_unat_eq_iff)
  finally show "cons_e s = cons_r s + of_nat INPUT_BUF \<longleftrightarrow> length (cons_ready s) + length (cons_edit s) = INPUT_BUF"
    by (simp add: cons_split(2) [OF assms])
  show "cons_e s - cons_r s < of_nat INPUT_BUF \<longleftrightarrow> length (cons_ready s) + length (cons_edit s) < INPUT_BUF"
    by (simp add: word_less_nat_alt cons_split(2) [OF assms])
qed

text \<open>A byte that is stored.\<close>

lemma store_key:
  assumes calm: "calm c s" and ok: "cons_ok s" and u: "uart_ready 3 s" and room: "length (cons_ready s) + length (cons_edit s) < INPUT_BUF"
  shows "\<exists>s'. bindr (consputc c (unat b) (locked_state c Lk_cons s)) (\<lambda>s2.
      let s3 = s2\<lparr>cons_buf := (cons_buf s2)[unat (cons_e s2) mod INPUT_BUF := b], cons_e := cons_e s2 + 1\<rparr>
      in if b = 10 \<or> b = 4 \<or> cons_e s3 = cons_r s3 + of_nat INPUT_BUF
         then wakeup c Chan_cons (s3\<lparr>cons_w := cons_e s3\<rparr>) else Ok s3) = Ok (locked_state c Lk_cons s') \<and>
    calm c s' \<and> cons_ok s' \<and> (cons_ready s', cons_edit s') =
      (if b = 10 \<or> b = 4 \<or> length (cons_ready s) + length (cons_edit s @ [b]) = INPUT_BUF
       then (cons_ready s @ cons_edit s @ [b], []) else (cons_ready s, cons_edit s @ [b]))"
proof -
  let ?L = "locked_state c Lk_cons"
  obtain s2 where s2: "consputc c (unat b) (?L s) = Ok (?L s2)" "echoed 3 s s2" by (rule consputc_locked [OF calm u])
  note D = echoedD [OF s2(2)]
  define s3 where "s3 = s2\<lparr>cons_buf := (cons_buf s2)[unat (cons_e s2) mod INPUT_BUF := b], cons_e := cons_e s2 + 1\<rparr>"
  define s4 where "s4 = s3\<lparr>cons_w := cons_e s3\<rparr>"
  have p: "cons_ready s3 = cons_ready s" "cons_edit s3 = cons_edit s @ [b]" "cons_ok s3"
    by (rule cons_put [OF ok room]; simp add: s3_def D)+
  have q: "cons_ready s4 = cons_ready s3 @ cons_edit s3" "cons_edit s4 = []" "cons_ok s4"
    by (rule cons_commit [OF p(3)]; simp add: s4_def)+
  have c: "calm c s3" "calm c s4" by (rule calm_same [OF D(7) [OF calm]]; simp add: s3_def s4_def)+
  have w: "cons_ready (woken ch t) = cons_ready t" "cons_edit (woken ch t) = cons_edit t" "cons_ok (woken ch t) = cons_ok t" for ch and t :: "'a kdev_scheme"
    by (simp_all add: cons_ready_def cons_edit_def cons_ok_def woken_def)
  have e: "cons_e s3 = cons_r s3 + of_nat INPUT_BUF \<longleftrightarrow> length (cons_ready s) + length (cons_edit s @ [b]) = INPUT_BUF"
    using cons_full_iff(1) [OF p(3)] p by simp
  show ?thesis
  proof (cases "b = 10 \<or> b = 4 \<or> cons_e s3 = cons_r s3 + of_nat INPUT_BUF")
    case True
    then show ?thesis
      using s2(1) wakeup_locked [OF c(2), of Lk_cons Chan_cons] c(2) p q e
      by (intro exI [of _ "woken Chan_cons s4"]) (auto simp: locked_dev w s3_def s4_def Let_def)
  next
    case False
    then show ?thesis
      using s2(1) c(1) p e by (intro exI [of _ s3]) (auto simp: locked_dev s3_def Let_def)
  qed
qed

section \<open>Output\<close>

text \<open>\<open>uartputc\<close> with another lock held and the output buffer full: \<open>sched\<close> finds two locks held.\<close>

lemma uartputc_full_nested:
  assumes calm: "calm c s" and full: "(uart_tx_w s + 1) mod UART_TX_BUF_SIZE = uart_tx_r s" and np: "\<not> sys_panicked s"
    and lk: "lk \<noteq> Lk_uart" "\<And>j. lk \<noteq> Lk_proc j"
  shows "uartputc c i b (locked_state c lk s) = Panic ''sched locks''"
proof -
  let ?l = "locked_state c lk s" and ?u = "locked_state c Lk_uart (locked_state c lk s)"
  have f: "uart_tx_w ?u = uart_tx_w s" "uart_tx_r ?u = uart_tx_r s" "sys_panicked ?u = sys_panicked s"
    by (simp_all add: locked_state_def lock_defs)
  have "free_lock Lk_uart ?l" using calm lk(1) by (simp add: free_lock_def locked_state_fields calm_def)
  then have a: "acquire c Lk_uart ?l = Ok ?u" by (rule acquire_free)
  have "held_by c Lk_uart ?u" "free_lock (Lk_proc i) ?u" "noff (cpus ?u c) = 2" "\<not> intr (cpus ?u c)"
    using calm lk by (auto simp: held_by_def locked_state_def lock_defs calm_def free_lock_def)
  then have "sleep_out c i Chan_uart Lk_uart ?u = Panic ''sched locks''"
    using sleep_out_correct [of Lk_uart i c ?u Chan_uart] by simp
  then show ?thesis
    using full np by (simp add: uartputc_def critical_def a f sleep_on_def)
qed

section \<open>The input ring as an instance of the queue\<close>

text \<open>Finished input: a reader takes bytes at \<open>cons_r\<close>; a writer that finishes each byte at once puts them at \<open>cons_w = cons_e\<close>.\<close>

definition cons_take :: "'a kdev_scheme \<Rightarrow> u8 \<times> 'a kdev_scheme" where
  "cons_take s = (cons_buf s ! (unat (cons_r s) mod INPUT_BUF), s\<lparr>cons_r := cons_r s + 1\<rparr>)"

definition cons_add :: "u8 \<Rightarrow> 'a kdev_scheme \<Rightarrow> 'a kdev_scheme" where
  "cons_add b s = s\<lparr>cons_buf := (cons_buf s)[unat (cons_e s) mod INPUT_BUF := b], cons_e := cons_e s + 1, cons_w := cons_e s + 1\<rparr>"

interpretation cons_ring: fifo "\<lambda>s. cons_ok s \<and> cons_edit s = []" cons_ready INPUT_BUF cons_add cons_take
proof
  fix q :: "'a kdev_scheme" and b
  assume q: "cons_ok q \<and> cons_edit q = []"
  then show "length (cons_ready q) \<le> INPUT_BUF" by (simp add: cons_ok_def)
  {
    assume l: "length (cons_ready q) < INPUT_BUF"
    define s1 where "s1 = q\<lparr>cons_buf := (cons_buf q)[unat (cons_e q) mod INPUT_BUF := b], cons_e := cons_e q + 1\<rparr>"
    have p: "cons_ready s1 = cons_ready q" "cons_edit s1 = [b]" "cons_ok s1"
      using cons_put [of q s1 b] q l by (simp_all add: s1_def)
    have a: "cons_ready (cons_add b q) = cons_ready s1 @ cons_edit s1" "cons_edit (cons_add b q) = []" "cons_ok (cons_add b q)"
      by (rule cons_commit [OF p(3)]; simp add: s1_def cons_add_def)+
    then show "cons_ready (cons_add b q) = cons_ready q @ [b]" "cons_ok (cons_add b q) \<and> cons_edit (cons_add b q) = []"
      using p by simp_all
  }
  {
    assume "cons_ready q \<noteq> []"
    then have "cons_r q \<noteq> cons_w q" by (simp add: cons_ready_def ring_bytes_empty)
    from ring_get [OF this, of "cons_buf q"] q
    show e: "cons_ready q = fst (cons_take q) # cons_ready (snd (cons_take q))"
      by (simp add: cons_take_def cons_ready_def cons_ok_def)
    have "cons_edit (snd (cons_take q)) = cons_edit q" by (simp add: cons_take_def cons_edit_def)
    then show "cons_ok (snd (cons_take q)) \<and> cons_edit (snd (cons_take q)) = []"
      using q arg_cong [OF e, of length] by (simp add: cons_ok_def) (simp add: cons_take_def)
  }
qed

lemma cons_edit_pending: "cons_e s \<noteq> cons_w s \<longleftrightarrow> cons_edit s \<noteq> []"
  by (auto simp: cons_edit_def ring_bytes_empty)

lemma intr_kill_line:
  assumes "calm c s" and "cons_ok s" and "uart_ready (3 * length (cons_edit s) + 3) s" and kill: "ch = 21"
  shows "\<exists>s'. consoleintr c ch s = Ok s' \<and> calm c s' \<and> cons_ok s' \<and>
    (cons_ready s', cons_edit s') = line_key ch (cons_ready s, cons_edit s)"
proof -
  let ?L = "locked_state c Lk_cons"
  note body = consoleintr_body [OF assms(1)] and ok = assms(2)
  have lk: "cons_e (?L s) = cons_e s" "cons_w (?L s) = cons_w s" "cons_r (?L s) = cons_r s" by (simp_all add: locked_dev)
  have "unat (cons_e s - cons_w s) = length (cons_edit s)" by (simp add: cons_edit_def)
  moreover have "uart_ready (3 * length (cons_edit s)) s" using assms(3) by (simp add: uart_ready_def)
  ultimately obtain s' where s': "kill_line c (Suc (unat (cons_e s - cons_w s))) (?L s) = Ok (?L s')" "calm c s'" "cons_ok s'"
    "cons_ready s' = cons_ready s" "cons_edit s' = erase_line (cons_edit s)"
    using kill_line_locked [OF assms(1) ok, of "Suc (unat (cons_e s - cons_w s))"] by auto
  have "consoleintr c ch s = Ok s'"
    unfolding consoleintr_def by (rule body [OF _ s'(2)]) (simp add: kill lk s'(1))
  then show ?thesis using s' kill by (simp add: line_key_def)
qed

lemma intr_erase:
  assumes "calm c s" and "cons_ok s" and u3: "uart_ready 3 s"
    and erase: "ch \<noteq> 21" "ch = 8 \<or> ch = 127" "cons_edit s \<noteq> []"
  shows "\<exists>s'. consoleintr c ch s = Ok s' \<and> calm c s' \<and> cons_ok s' \<and>
    (cons_ready s', cons_edit s') = line_key ch (cons_ready s, cons_edit s)"
proof -
  let ?L = "locked_state c Lk_cons"
  note body = consoleintr_body [OF assms(1)] and ok = assms(2)
  have lk: "cons_e (?L s) = cons_e s" "cons_w (?L s) = cons_w s" "cons_r (?L s) = cons_r s" by (simp_all add: locked_dev)
  define s1 where "s1 = s\<lparr>cons_e := cons_e s - 1\<rparr>"
  have c1: "calm c s1" "uart_ready 3 s1" using u3 by (auto simp: s1_def uart_ready_def intro: calm_same [OF assms(1)])
  obtain s2 where s2: "consputc c BACKSPACE (?L s1) = Ok (?L s2)" "echoed 3 s1 s2" by (rule consputc_locked [OF c1])
  note D = echoedD [OF s2(2)]
  have un: "cons_ready s2 = cons_ready s" "cons_edit s2 = butlast (cons_edit s)" "cons_ok s2"
    by (rule cons_unput [OF ok erase(3)]; simp add: D s1_def)+
  have "consoleintr c ch s = Ok s2"
    unfolding consoleintr_def by (rule body [OF _ D(7) [OF c1(1)]]) (use erase cons_edit_pending [of s] s2(1) in \<open>auto simp: lk locked_dev s1_def\<close>)
  then show ?thesis using D(7) [OF c1(1)] un erase by (auto simp: line_key_def)
qed

lemma intr_store:
  assumes "calm c s" and "cons_ok s" and u3: "uart_ready 3 s" and "ch \<noteq> 16"
    and stored: "ch \<noteq> 21" "\<not> (ch = 8 \<or> ch = 127)" "ch \<noteq> 0" "length (cons_ready s) + length (cons_edit s) < INPUT_BUF"
  shows "\<exists>s'. consoleintr c ch s = Ok s' \<and> calm c s' \<and> cons_ok s' \<and>
    (cons_ready s', cons_edit s') = line_key ch (cons_ready s, cons_edit s)"
proof -
  let ?L = "locked_state c Lk_cons"
  note body = consoleintr_body [OF assms(1)] and ok = assms(2)
  have lk: "cons_e (?L s) = cons_e s" "cons_w (?L s) = cons_w s" "cons_r (?L s) = cons_r s" by (simp_all add: locked_dev)
  obtain s' where s': "bindr (consputc c (unat (if ch = 13 then 10 else ch)) (?L s)) (\<lambda>s2.
    let s3 = s2\<lparr>cons_buf := (cons_buf s2)[unat (cons_e s2) mod INPUT_BUF := (if ch = 13 then 10 else ch)], cons_e := cons_e s2 + 1\<rparr>
    in if (if ch = 13 then 10 else ch) = 10 \<or> (if ch = 13 then 10 else ch) = 4 \<or> cons_e s3 = cons_r s3 + of_nat INPUT_BUF
       then wakeup c Chan_cons (s3\<lparr>cons_w := cons_e s3\<rparr>) else Ok s3) = Ok (?L s')" "calm c s'" "cons_ok s'"
    "(cons_ready s', cons_edit s') = line_key ch (cons_ready s, cons_edit s)"
    using store_key [OF assms(1) ok u3 stored(4), of "if ch = 13 then 10 else ch"] stored
    unfolding line_key_def by (auto simp: Let_def)
  have "consoleintr c ch s = Ok s'"
    unfolding consoleintr_def
    by (rule body [OF _ s'(2)]) (use stored s'(1) assms(4) cons_full_iff(2) [OF ok] in \<open>simp add: lk Let_def\<close>)
  then show ?thesis using s' by blast
qed

section \<open>Properties\<close>

text \<open>
  C31. The console input is a line editor in front of a queue of at most 128 bytes. Each key (but the one that prints the process
  table) has exactly the effect of \<open>line_key\<close>: it appends a byte, erases the last one or the line, or finishes the line,
  when the transmitter has room for the echo. The erasing loop ends, and the counters may wrap around.
\<close>

theorem consoleintr_edits_line:
  assumes "calm c s" and "cons_ok s" and "uart_ready (3 * length (cons_edit s) + 3) s" and "ch \<noteq> 16"
  shows "\<exists>s'. consoleintr c ch s = Ok s' \<and> calm c s' \<and> cons_ok s' \<and>
    (cons_ready s', cons_edit s') = line_key ch (cons_ready s, cons_edit s)"
proof -
  let ?L = "locked_state c Lk_cons"
  note body = consoleintr_body [OF assms(1)] and ok = assms(2)
  have u3: "uart_ready 3 s" using assms(3) by (simp add: uart_ready_def)
  have lk: "cons_e (?L s) = cons_e s" "cons_w (?L s) = cons_w s" "cons_r (?L s) = cons_r s" by (simp_all add: locked_dev)
  consider (kill) "ch = 21" 
    | (erase) "ch \<noteq> 21" "ch = 8 \<or> ch = 127" "cons_edit s \<noteq> []" | (nothing) "ch \<noteq> 21" "ch = 8 \<or> ch = 127" "cons_edit s = []"
    | (stored) "ch \<noteq> 21" "\<not> (ch = 8 \<or> ch = 127)" "ch \<noteq> 0" "length (cons_ready s) + length (cons_edit s) < INPUT_BUF"
    | (dropped) "ch \<noteq> 21" "\<not> (ch = 8 \<or> ch = 127)" "\<not> (ch \<noteq> 0 \<and> length (cons_ready s) + length (cons_edit s) < INPUT_BUF)"
    by blast
  then show ?thesis
  proof cases
    case kill
    then show ?thesis by (rule intr_kill_line [OF assms(1-3)])
  next
    case erase
    then show ?thesis by (rule intr_erase [OF assms(1,2) u3])
  next
    case nothing
    then show ?thesis
      using cons_edit_pending [of s] assms(1) ok by (intro exI [of _ s]) (auto simp: consoleintr_def line_key_def lk intro: body)
  next
    case stored
    then show ?thesis by (rule intr_store [OF assms(1,2) u3 assms(4)])
  next
    case dropped
    then show ?thesis
      using assms(1,4) ok cons_full_iff(2) [OF ok] by (intro exI [of _ s]) (auto simp: consoleintr_def line_key_def lk intro: body)
  qed
qed

theorem consoleintr_edits_line_witness:
  "\<exists>s. consoleintr 0 13 (pipe_boot\<lparr>uart_room := 3\<rparr>) = Ok s \<and> cons_ready s = [10] \<and> cons_edit s = []"
proof -
  let ?s = "pipe_boot\<lparr>uart_room := 3\<rparr>"
  have f: "cons_buf ?s = replicate INPUT_BUF 0" "cons_r ?s = 0" "cons_w ?s = 0" "cons_e ?s = 0" "\<not> sys_panicked ?s"
    by (simp_all add: pipe_boot_def kfs.defs kdev.defs kfile.defs)
  then have e: "cons_ready ?s = []" "cons_edit ?s = []" unfolding cons_ready_def cons_edit_def by (simp_all add: ring_bytes_empty)
  have c: "calm 0 ?s" by (rule calm_same [OF pipe_boot_calm]) simp_all
  have "cons_ok ?s" "uart_ready (3 * length (cons_edit ?s) + 3) ?s" using f e by (simp_all add: cons_ok_def uart_ready_def)
  from consoleintr_edits_line [OF c this, of 13] e show ?thesis by (auto simp: line_key_def)
qed

text \<open>
  C32. \<open>consolewrite\<close> holds \<open>cons.lock\<close> while \<open>uartputc\<close> may sleep. When the output buffer of the UART is full, the
  first byte of a write makes \<open>sched\<close> panic: the process goes to sleep with a spin-lock held.
\<close>

theorem consolewrite_panics_when_full:
  assumes "calm c s" and "(uart_tx_w s + 1) mod UART_TX_BUF_SIZE = uart_tx_r s" and "\<not> sys_panicked s"
    and "0 < n" and "either_copyin i user_src src 1 s = (0, [b])"
  shows "consolewrite c i user_src src n s = Panic ''sched locks''"
proof -
  let ?l = "locked_state c Lk_cons s"
  obtain m where m: "nat n = Suc m" using assms(4) by (cases "nat n") auto
  have "either_copyin i user_src (src + of_nat 0) 1 ?l = (0, [b])"
    using assms(5) copyin_cong [of ?l s] by (auto simp: either_copyin_def locked_dev split: if_splits)
  then have "consolewrite_loop c i user_src src 0 (Suc m) ?l = Panic ''sched locks''"
    using uartputc_full_nested [OF assms(1-3), of Lk_cons] by simp
  from critical_calm_Panic [OF assms(1), of "consolewrite_loop c i user_src src 0 (Suc m)", OF this] show ?thesis
    by (simp add: consolewrite_def m)
qed

theorem consolewrite_panics_when_full_witness:
  "consolewrite 0 0 False 0x1000 5 (pipe_boot\<lparr>uart_tx_w := 31, uart_tx_r := 0\<rparr>) = Panic ''sched locks''"
proof (rule consolewrite_panics_when_full)
  show "calm 0 (pipe_boot\<lparr>uart_tx_w := 31, uart_tx_r := 0\<rparr>)" by (rule calm_same [OF pipe_boot_calm]) simp_all
  show "either_copyin 0 False 0x1000 1 (pipe_boot\<lparr>uart_tx_w := 31, uart_tx_r := 0\<rparr>) = (0, [self_mapped 0x1000])"
    by (simp add: either_copyin_def pipe_boot_fields)
qed (simp_all add: pipe_boot_def kfs.defs kdev.defs kfile.defs)

end
