(* ===== verification/User.thy ===== *)
theory User
  imports Console
begin

text \<open>
  User programs (\<open>user/*.c\<close>) and the user library (\<open>user/ulib.c\<close>, \<open>user/printf.c\<close>). A program runs against
  a list of answers, one for each system call it makes (the stubs of \<open>user/usys.pl\<close>); it yields the
  list of its system calls, how it ended, and the answers left over. What the kernel does between the calls is in the answers, so
  a statement about all lists of answers is one about every kernel. A program that is
  still running when the answers are used up ends as \<open>UStuck\<close>, one that leaves the objects it has allocated, or does
  something else that C leaves undefined, as \<open>UCrash\<close>.

  A C string is the list of its bytes without the terminating NUL; where the code scans for the
  NUL, the list may also contain it. Addresses of buffers do not occur.
\<close>

section \<open>System calls\<close>

datatype sysreq =
    SFork | SExit int | SWait | SPipe | SRead int nat | SKill int | SExec "u8 list" "u8 list list" | SFstat int
  | SChdir "u8 list" | SDup int | SGetpid | SSbrk int | SSleep int | SUptime | SOpen "u8 list" u32
  | SWrite int "u8 list" | SMknod "u8 list" int int | SUnlink "u8 list" | SLink "u8 list" "u8 list" | SMkdir "u8 list" | SClose int

text \<open>\<open>struct stat\<close> as \<open>fstat\<close> stores it.\<close>

record ustat =
  ust_type :: int
  ust_ino :: u32
  ust_size :: u64

text \<open>An answer: the value returned, and what the call has stored in the caller's memory.\<close>

record sysans =
  ret :: int
  rbytes :: "u8 list"
  rfds :: "int \<times> int"
  rstat :: ustat

datatype 'a uout = URet 'a | UExit int | UExec | UStuck | UCrash

type_synonym 'a uprog = "sysans list \<Rightarrow> sysreq list \<times> 'a uout \<times> sysans list"

definition ureturn :: "'a \<Rightarrow> 'a uprog" where
  "ureturn x as = ([], URet x, as)"

definition ubind :: "'a uprog \<Rightarrow> ('a \<Rightarrow> 'b uprog) \<Rightarrow> 'b uprog" where
  "ubind m f as =
     (case m as of
        (t, URet x, as1) \<Rightarrow> (case f x as1 of (t2, r, as2) \<Rightarrow> (t @ t2, r, as2))
      | (t, UExit n, as1) \<Rightarrow> (t, UExit n, as1)
      | (t, UExec, as1) \<Rightarrow> (t, UExec, as1)
      | (t, UStuck, as1) \<Rightarrow> (t, UStuck, as1)
      | (t, UCrash, as1) \<Rightarrow> (t, UCrash, as1))"

definition sys :: "sysreq \<Rightarrow> sysans uprog" where
  "sys q as = (case as of [] \<Rightarrow> ([q], UStuck, []) | a # as1 \<Rightarrow> ([q], URet a, as1))"

definition sysr :: "sysreq \<Rightarrow> int uprog" where
  "sysr q = ubind (sys q) (\<lambda>a. ureturn (ret a))"

lemma ubind_sys:
  "ubind (sys q) f (a # as) = (case f a as of (t, r, as1) \<Rightarrow> (q # t, r, as1))" "ubind (sys q) f [] = ([q], UStuck, [])"
  by (simp_all add: ubind_def sys_def)

text \<open>\<open>exit\<close> does not return; nor does \<open>exec\<close> unless it fails.\<close>

definition uexit :: "int \<Rightarrow> 'a uprog" where
  "uexit n as = ([SExit n], UExit n, as)"

definition uexec :: "u8 list \<Rightarrow> u8 list list \<Rightarrow> int uprog" where
  "uexec p argv as =
     (case as of [] \<Rightarrow> ([SExec p argv], UStuck, [])
      | a # as1 \<Rightarrow> if ret a < 0 then ([SExec p argv], URet (ret a), as1) else ([SExec p argv], UExec, as1))"

text \<open>Programs use up answers; a loop that makes a system call in each round ends.\<close>

definition uses :: "nat \<Rightarrow> 'a uprog \<Rightarrow> bool" where
  "uses n m \<longleftrightarrow> (\<forall>as t x as1. m as = (t, URet x, as1) \<longrightarrow> length as1 + n \<le> length as)"

lemma uses_return [intro]: "uses 0 (ureturn x)"
  by (simp add: uses_def ureturn_def)

lemma uses_sys [intro]: "uses 1 (sys q)"
  by (auto simp: uses_def sys_def split: list.splits)

lemma ubind_Ret:
  assumes "ubind m f as = (t, URet y, as2)"
  obtains t1 x as1 t2 where "m as = (t1, URet x, as1)" "f x as1 = (t2, URet y, as2)" "t = t1 @ t2"
  using assms by (auto simp: ubind_def split: prod.splits uout.splits)

lemma uses_bind [intro]:
  assumes "uses n m" and "\<And>x. uses k (f x)"
  shows "uses (n + k) (ubind m f)"
  unfolding uses_def
proof (intro allI impI)
  fix as t y as2
  assume "ubind m f as = (t, URet y, as2)"
  then obtain t1 x as1 t2 where "m as = (t1, URet x, as1)" "f x as1 = (t2, URet y, as2)" by (rule ubind_Ret)
  then show "length as2 + (n + k) \<le> length as" using assms unfolding uses_def by fastforce
qed

lemma uses_sysr [intro]: "uses 1 (sysr q)"
  using uses_bind [OF uses_sys uses_return] by (simp add: sysr_def)

lemma ubind_cong [fundef_cong]:
  assumes "as = as'" and "m as' = m' as'" and "\<And>t x as1. m' as' = (t, URet x, as1) \<Longrightarrow> f x as1 = f' x as1"
  shows "ubind m f as = ubind m' f' as'"
  using assms by (auto simp: ubind_def split: prod.splits uout.splits)

lemma usesD: "uses n m \<Longrightarrow> m as = (t, URet x, as1) \<Longrightarrow> length as1 + n \<le> length as"
  by (auto simp: uses_def)

lemma sysr_less: "sysr q as = (t, URet x, as1) \<Longrightarrow> length as1 < length as"
  using usesD [OF uses_sysr] by fastforce

lemma sys_less: "sys q as = (t, URet x, as1) \<Longrightarrow> length as1 < length as"
  using usesD [OF uses_sys] by fastforce

section \<open>Strings and memory (user/ulib.c)\<close>

text \<open>\<open>strcpy\<close>: the bytes stored at the destination, the NUL included.\<close>

fun strcpy_u :: "u8 list \<Rightarrow> u8 list" where
  "strcpy_u [] = [0]"
| "strcpy_u (c # t) = (if c = 0 then [0] else c # strcpy_u t)"

fun strcmp_u :: "u8 list \<Rightarrow> u8 list \<Rightarrow> int" where
  "strcmp_u [] [] = 0"
| "strcmp_u [] (b # q) = - uint b"
| "strcmp_u (a # p) [] = uint a"
| "strcmp_u (a # p) (b # q) = (if a \<noteq> 0 \<and> a = b then strcmp_u p q else uint a - uint b)"

fun strlen_u :: "u8 list \<Rightarrow> nat" where
  "strlen_u [] = 0"
| "strlen_u (c # s) = (if c = 0 then 0 else Suc (strlen_u s))"

fun memset_u :: "mem \<Rightarrow> u64 \<Rightarrow> u8 \<Rightarrow> nat \<Rightarrow> mem" where
  "memset_u m dst c 0 = m"
| "memset_u m dst c (Suc n) = memset_u (m(dst := c)) (dst + 1) c n"

text \<open>\<open>strchr\<close>: the index of the byte found.\<close>

fun strchr_u :: "u8 list \<Rightarrow> u8 \<Rightarrow> nat option" where
  "strchr_u [] c = None"
| "strchr_u (a # s) c = (if a = 0 then None else if a = c then Some 0 else map_option Suc (strchr_u s c))"

fun gets_loop :: "nat \<Rightarrow> u8 list \<Rightarrow> u8 list uprog" where
  "gets_loop 0 buf = ureturn buf"
| "gets_loop (Suc n) buf =
     ubind (sys (SRead 0 1)) (\<lambda>a.
       if ret a < 1 then ureturn buf
       else let c = hd (rbytes a)
            in if c = 10 \<or> c = 13 then ureturn (buf @ [c]) else gets_loop n (buf @ [c]))"

definition gets_u :: "nat \<Rightarrow> u8 list uprog" where
  "gets_u max_n = gets_loop (max_n - 1) []"

text \<open>\<open>stat\<close> leaves the caller's structure alone when \<open>open\<close> fails.\<close>

definition stat_u :: "u8 list \<Rightarrow> ustat \<Rightarrow> (int \<times> ustat) uprog" where
  "stat_u n st =
     ubind (sysr (SOpen n 0)) (\<lambda>fd.
       if fd < 0 then ureturn (-1, st)
       else ubind (sys (SFstat fd)) (\<lambda>a. ubind (sysr (SClose fd)) (\<lambda>_. ureturn (ret a, rstat a))))"

fun atoi_loop :: "u8 list \<Rightarrow> u32 \<Rightarrow> u32" where
  "atoi_loop [] n = n"
| "atoi_loop (c # s) n = (if 48 \<le> c \<and> c \<le> 57 then atoi_loop s (n * 10 + ucast c - 48) else n)"

definition atoi_u :: "u8 list \<Rightarrow> u32" where
  "atoi_u s = atoi_loop s 0"

fun move_up :: "mem \<Rightarrow> u64 \<Rightarrow> u64 \<Rightarrow> nat \<Rightarrow> mem" where
  "move_up m dst src 0 = m"
| "move_up m dst src (Suc n) = move_up (m(dst := m src)) (dst + 1) (src + 1) n"

fun move_down :: "mem \<Rightarrow> u64 \<Rightarrow> u64 \<Rightarrow> nat \<Rightarrow> mem" where
  "move_down m dst src 0 = m"
| "move_down m dst src (Suc n) = move_down (m(dst - 1 := m (src - 1))) (dst - 1) (src - 1) n"

definition memmove_u :: "mem \<Rightarrow> u64 \<Rightarrow> u64 \<Rightarrow> int \<Rightarrow> mem" where
  "memmove_u m dst src n =
     (if src > dst then move_up m dst src (nat n)
      else move_down m (dst + word_of_int n) (src + word_of_int n) (nat n))"

fun memcmp_u :: "u8 list \<Rightarrow> u8 list \<Rightarrow> nat \<Rightarrow> int" where
  "memcmp_u (a # p) (b # q) (Suc n) = (if a \<noteq> b then uint a - uint b else memcmp_u p q n)"
| "memcmp_u p q n = 0"

definition memcpy_u :: "mem \<Rightarrow> u64 \<Rightarrow> u64 \<Rightarrow> nat \<Rightarrow> mem" where
  "memcpy_u m dst src n = memmove_u m dst src (sint (of_nat n :: u32))"

section \<open>Formatted output (user/printf.c)\<close>

fun putc_all :: "int \<Rightarrow> u8 list \<Rightarrow> unit uprog" where
  "putc_all fd [] = ureturn ()"
| "putc_all fd (b # bs) = ubind (sysr (SWrite fd [b])) (\<lambda>_. putc_all fd bs)"

definition digits_u :: "u8 list" where
  "digits_u = str ''0123456789ABCDEF''"

function int_digits_u :: "nat \<Rightarrow> nat \<Rightarrow> u8 list" where
  "int_digits_u base x =
     (if base < 2 then [] else digits_u ! (x mod base) # (if x div base = 0 then [] else int_digits_u base (x div base)))"
  by pat_completeness auto
termination
  by (relation "measure (\<lambda>(base, x). x)") (auto simp: div_eq_0_iff)

declare int_digits_u.simps [simp del]

definition printint_u :: "u32 \<Rightarrow> nat \<Rightarrow> bool \<Rightarrow> u8 list" where
  "printint_u xx base sgnd =
     (let neg = sgnd \<and> sint xx < 0;
          x = (if neg then - xx else xx)
      in rev (int_digits_u base (unat x) @ (if neg then str ''-'' else [])))"

definition printptr_u :: "u64 \<Rightarrow> u8 list" where
  "printptr_u x = str ''0x'' @ map (\<lambda>k. digits_u ! unat (drop_bit 60 (push_bit (4 * k) x))) [0..<16]"

datatype uarg = UInt u32 | ULong u64 | UStr "u8 list option"

text \<open>
  \<open>vprintf\<close>: the bytes it writes, for the rest of the format in the given state (after a \<open>%\<close> or not). Arguments that do not
  fit the format are undefined behaviour.
\<close>

fun vprintf_u :: "bool \<Rightarrow> u8 list \<Rightarrow> uarg list \<Rightarrow> u8 list option" where
  "vprintf_u pct [] ap = Some []"
| "vprintf_u False (c # fmt) ap =
     (if c = 37 then vprintf_u True fmt ap else map_option (\<lambda>out. c # out) (vprintf_u False fmt ap))"
| "vprintf_u True (c # fmt) ap =
     (if c = of_char CHR ''d'' then
        (case ap of UInt x # ap1 \<Rightarrow> map_option ((@) (printint_u x 10 True)) (vprintf_u False fmt ap1) | _ \<Rightarrow> None)
      else if c = of_char CHR ''l'' then
        (case ap of ULong x # ap1 \<Rightarrow> map_option ((@) (printint_u (ucast x) 10 False)) (vprintf_u False fmt ap1) | _ \<Rightarrow> None)
      else if c = of_char CHR ''x'' then
        (case ap of UInt x # ap1 \<Rightarrow> map_option ((@) (printint_u x 16 False)) (vprintf_u False fmt ap1) | _ \<Rightarrow> None)
      else if c = of_char CHR ''p'' then
        (case ap of ULong x # ap1 \<Rightarrow> map_option ((@) (printptr_u x)) (vprintf_u False fmt ap1) | _ \<Rightarrow> None)
      else if c = of_char CHR ''s'' then
        (case ap of UStr x # ap1 \<Rightarrow>
           map_option ((@) (case x of None \<Rightarrow> str ''(null)'' | Some s \<Rightarrow> takeWhile (\<lambda>b. b \<noteq> 0) s)) (vprintf_u False fmt ap1)
         | _ \<Rightarrow> None)
      else if c = of_char CHR ''c'' then
        (case ap of UInt x # ap1 \<Rightarrow> map_option ((@) [ucast x]) (vprintf_u False fmt ap1) | _ \<Rightarrow> None)
      else if c = 37 then map_option ((@) [c]) (vprintf_u False fmt ap)
      else map_option ((@) [37, c]) (vprintf_u False fmt ap))"

definition ucrash :: "'a uprog" where
  "ucrash as = ([], UCrash, as)"

definition fprintf_u :: "int \<Rightarrow> string \<Rightarrow> uarg list \<Rightarrow> unit uprog" where
  "fprintf_u fd fmt ap = (case vprintf_u False (str fmt) ap of Some out \<Rightarrow> putc_all fd out | None \<Rightarrow> ucrash)"

definition printf_u :: "string \<Rightarrow> uarg list \<Rightarrow> unit uprog" where
  "printf_u fmt ap = fprintf_u 1 fmt ap"

lemma uses_0: "uses n m \<Longrightarrow> uses 0 m"
  by (fastforce simp: uses_def)

lemma uses_putc_all [intro]: "uses 0 (putc_all fd bs)"
proof (induction bs)
  case (Cons b bs)
  then show ?case using uses_0 [OF uses_bind [OF uses_sysr, of 0]] by simp
qed (simp add: uses_return)

lemma uses_fprintf [intro]: "uses 0 (fprintf_u fd fmt ap)" "uses 0 (printf_u fmt ap)"
  by (auto simp: fprintf_u_def printf_u_def ucrash_def uses_def dest: usesD [OF uses_putc_all] split: option.splits)

definition sys_all :: "sysreq list \<Rightarrow> unit uprog" where
  "sys_all qs = foldr (\<lambda>q m. ubind (sysr q) (\<lambda>_. m)) qs (ureturn ())"

lemma uses_any: "(\<And>as t x as1. m as \<noteq> (t, URet x, as1)) \<Longrightarrow> uses n m"
  by (simp add: uses_def)

lemma uses_ucrash: "uses n ucrash" "uses n (uexit k)"
  by (auto intro!: uses_any simp: ucrash_def uexit_def)

lemma uses_bind_exit: "uses n (ubind m (\<lambda>x. uexit k))"
  by (auto intro!: uses_any simp: ubind_def uexit_def split: prod.splits uout.splits)

lemma uses_left: "uses n m \<Longrightarrow> (\<And>x. uses 0 (f x)) \<Longrightarrow> uses n (ubind m f)"
  using uses_bind [of n m 0 f] by simp

lemma uses_right: "uses 0 m \<Longrightarrow> (\<And>x. uses n (f x)) \<Longrightarrow> uses n (ubind m f)"
  using uses_bind [of 0 m n f] by simp

text \<open>Programs that do not come back.\<close>

definition stops :: "'a uprog \<Rightarrow> bool" where
  "stops m \<longleftrightarrow> (\<forall>as t x as1. m as \<noteq> (t, URet x, as1))"

lemma stops_bind: "(\<And>x. stops (f x)) \<Longrightarrow> stops (ubind m f)"
  by (auto simp: stops_def elim!: ubind_Ret)

lemma stops_exit: "stops (uexit n)"
  by (simp add: stops_def uexit_def)

lemma exit_after [simp]: "ubind m (\<lambda>x. uexit n) as \<noteq> (t, URet y, as1)"
  by (auto simp: ubind_def uexit_def split: prod.splits uout.splits)

end
