(* ===== verification/Grep.thy ===== *)
theory Grep
  imports User "HOL-Library.Sublist"
begin

text \<open>
  \<open>user/grep.c\<close>: the matcher of Kernighan and Pike against the language its patterns denote, and the loop
  that prints the matching lines against the lines of the input, however the reads cut it.
\<close>

section \<open>The program\<close>

function matchhere :: "u8 list \<Rightarrow> u8 list \<Rightarrow> bool"
  and matchstar :: "u8 \<Rightarrow> u8 list \<Rightarrow> u8 list \<Rightarrow> bool" where
  "matchhere re text =
     (case re of
        [] \<Rightarrow> True
      | c # re1 \<Rightarrow>
          if re1 \<noteq> [] \<and> hd re1 = 42 then matchstar c (tl re1) text
          else if c = 36 \<and> re1 = [] then text = []
          else (case text of [] \<Rightarrow> False | x # text1 \<Rightarrow> if c = 46 \<or> c = x then matchhere re1 text1 else False))"
| "matchstar c re text =
     (if matchhere re text then True
      else (case text of [] \<Rightarrow> False | x # text1 \<Rightarrow> if x = c \<or> c = 46 then matchstar c re text1 else False))"
  by pat_completeness auto
termination
  by (relation "measures [\<lambda>x. case x of Inl (re, text) \<Rightarrow> length re | Inr (c, re, text) \<Rightarrow> length re,
      \<lambda>x. case x of Inl (re, text) \<Rightarrow> length text | Inr (c, re, text) \<Rightarrow> length text,
      \<lambda>x. case x of Inl _ \<Rightarrow> 0 | Inr _ \<Rightarrow> Suc 0]")
    auto

declare matchhere.simps [simp del] matchstar.simps [simp del]

fun match_any :: "u8 list \<Rightarrow> u8 list \<Rightarrow> bool" where
  "match_any re [] = matchhere re []"
| "match_any re (x # text) = (if matchhere re (x # text) then True else match_any re text)"

definition match_re :: "u8 list \<Rightarrow> u8 list \<Rightarrow> bool" where
  "match_re re text = (if re \<noteq> [] \<and> hd re = 94 then matchhere (tl re) text else match_any re text)"

lemma strchr_u_bound: "strchr_u s c = Some q \<Longrightarrow> q < length s"
  by (induction s arbitrary: q) (auto split: if_splits)

function grep_lines :: "u8 list \<Rightarrow> u8 list \<Rightarrow> u8 list uprog" where
  "grep_lines pattern p =
     (case strchr_u p 10 of
        None \<Rightarrow> ureturn p
      | Some q \<Rightarrow>
          ubind (if match_re pattern (take q p) then ubind (sysr (SWrite 1 (take q p @ [10]))) (\<lambda>_. ureturn ()) else ureturn ())
            (\<lambda>_. grep_lines pattern (drop (Suc q) p)))"
  by pat_completeness auto
termination
  by (relation "measure (\<lambda>(pattern, p). length p)") (auto dest: strchr_u_bound)

declare grep_lines.simps [simp del]

lemma uses_grep_lines: "uses 0 (grep_lines pattern p)"
proof (induction pattern p rule: grep_lines.induct)
  case (1 pattern p)
  have w: "uses 0 (if match_re pattern (take q p) then ubind (sysr (SWrite 1 (take q p @ [10]))) (\<lambda>_. ureturn ()) else ureturn ())" for q
    by (simp add: uses_return uses_0 [OF uses_bind [OF uses_sysr uses_return]])
  show ?case
    unfolding grep_lines.simps [of pattern p]
  proof (cases "strchr_u p 10")
    case None
    then show "uses 0 (case strchr_u p 10 of None \<Rightarrow> ureturn p | Some q \<Rightarrow>
        ubind (if match_re pattern (take q p) then ubind (sysr (SWrite 1 (take q p @ [10]))) (\<lambda>_. ureturn ()) else ureturn ())
          (\<lambda>_. grep_lines pattern (drop (Suc q) p)))" by (simp add: uses_return)
  next
    case (Some q)
    then show "uses 0 (case strchr_u p 10 of None \<Rightarrow> ureturn p | Some q \<Rightarrow>
        ubind (if match_re pattern (take q p) then ubind (sysr (SWrite 1 (take q p @ [10]))) (\<lambda>_. ureturn ()) else ureturn ())
          (\<lambda>_. grep_lines pattern (drop (Suc q) p)))"
      using uses_bind [OF w [of q], of 0 "\<lambda>_. grep_lines pattern (drop (Suc q) p)"] 1 [OF Some] by simp
  qed
qed

text \<open>\<open>grep\<close> with the bytes carried over from the last read; the buffer has 1024 bytes.\<close>

function grep :: "u8 list \<Rightarrow> int \<Rightarrow> u8 list \<Rightarrow> unit uprog" where
  "grep pattern fd buf as =
     ubind (sys (SRead fd (1023 - length buf))) (\<lambda>a as1.
       if ret a > 0
       then ubind (grep_lines pattern (buf @ take (nat (ret a)) (rbytes a))) (\<lambda>p as2. grep pattern fd p as2) as1
       else ureturn () as1) as"
  by pat_completeness auto
termination
  by (relation "measure (\<lambda>(pattern, fd, buf, as). length as)") (auto dest!: sys_less dest: usesD [OF uses_grep_lines])

declare grep.simps [simp del]

fun grep_files :: "u8 list \<Rightarrow> u8 list list \<Rightarrow> unit uprog" where
  "grep_files pattern [] = uexit 0"
| "grep_files pattern (f # fs) =
     ubind (sysr (SOpen f 0)) (\<lambda>fd.
       if fd < 0 then ubind (printf_u (''grep: cannot open %s'' @ [CHR 10]) [UStr (Some f)]) (\<lambda>_. uexit 1)
       else ubind (grep pattern fd []) (\<lambda>_. ubind (sysr (SClose fd)) (\<lambda>_. grep_files pattern fs)))"

definition grep_main :: "u8 list list \<Rightarrow> unit uprog" where
  "grep_main argv =
     (if length argv \<le> 1 then ubind (fprintf_u 2 (''usage: grep pattern [file ...]'' @ [CHR 10]) []) (\<lambda>_. uexit 1)
      else if length argv \<le> 2 then ubind (grep (argv ! 1) 0 []) (\<lambda>_. uexit 0)
      else grep_files (argv ! 1) (drop 2 argv))"

section \<open>The language of a pattern\<close>

datatype item = One u8 | Star u8 | Eol

fun items :: "u8 list \<Rightarrow> item list" where
  "items [] = []"
| "items [c] = (if c = 36 then [Eol] else [One c])"
| "items (c # d # re) = (if d = 42 then Star c # items re else One c # items (d # re))"

text \<open>A dot stands for every byte.\<close>

definition stands_for :: "u8 \<Rightarrow> u8 \<Rightarrow> bool" where
  "stands_for c x \<longleftrightarrow> c = 46 \<or> c = x"

fun in_item :: "item \<Rightarrow> u8 list \<Rightarrow> bool" where
  "in_item (One c) w \<longleftrightarrow> (\<exists>x. w = [x] \<and> stands_for c x)"
| "in_item (Star c) w \<longleftrightarrow> (\<forall>x \<in> set w. stands_for c x)"
| "in_item Eol w \<longleftrightarrow> w = []"

text \<open>A prefix of the text is a sequence of words, one for each item; at the end of the line nothing is left.\<close>

definition begins_with :: "item list \<Rightarrow> u8 list \<Rightarrow> bool" where
  "begins_with its text \<longleftrightarrow>
     (\<exists>ws rest. text = concat ws @ rest \<and> list_all2 in_item its ws \<and> (Eol \<in> set its \<longrightarrow> rest = []))"

lemma begins_with_Nil: "begins_with [] text"
  by (simp add: begins_with_def)

lemma begins_with_One: "begins_with (One c # its) text \<longleftrightarrow> (\<exists>x t. text = x # t \<and> stands_for c x \<and> begins_with its t)"
proof
  assume "begins_with (One c # its) text"
  then obtain ws rest where w: "text = concat ws @ rest" "list_all2 in_item (One c # its) ws" "Eol \<in> set its \<longrightarrow> rest = []"
    by (auto simp: begins_with_def)
  then obtain x ws' where "ws = [x] # ws'" "stands_for c x" "list_all2 in_item its ws'" by (auto simp: list_all2_Cons1)
  then show "\<exists>x t. text = x # t \<and> stands_for c x \<and> begins_with its t" using w by (auto simp: begins_with_def)
next
  assume "\<exists>x t. text = x # t \<and> stands_for c x \<and> begins_with its t"
  then obtain x ws rest where "text = x # concat ws @ rest" "stands_for c x" "list_all2 in_item its ws" "Eol \<in> set its \<longrightarrow> rest = []"
    by (auto simp: begins_with_def)
  then show "begins_with (One c # its) text" unfolding begins_with_def by (intro exI [of _ "[x] # ws"] exI [of _ rest]) auto
qed

lemma begins_with_StarE:
  assumes "begins_with (Star c # its) text"
  obtains w ws rest where "text = w @ concat ws @ rest" "\<forall>x \<in> set w. stands_for c x" "list_all2 in_item its ws" "Eol \<in> set its \<longrightarrow> rest = []"
proof -
  from assms obtain vs rest where v: "text = concat vs @ rest" "list_all2 in_item (Star c # its) vs" "Eol \<in> set its \<longrightarrow> rest = []"
    by (auto simp: begins_with_def)
  then obtain w ws where "vs = w # ws" "\<forall>x \<in> set w. stands_for c x" "list_all2 in_item its ws" by (auto simp: list_all2_Cons1)
  then show thesis using v that [of w ws rest] by simp
qed

lemma begins_with_Star:
  "begins_with (Star c # its) text \<longleftrightarrow> begins_with its text \<or> (\<exists>x t. text = x # t \<and> stands_for c x \<and> begins_with (Star c # its) t)"
proof
  assume "begins_with (Star c # its) text"
  then obtain w ws rest where w: "text = w @ concat ws @ rest" "\<forall>x \<in> set w. stands_for c x" "list_all2 in_item its ws" "Eol \<in> set its \<longrightarrow> rest = []"
    by (rule begins_with_StarE)
  show "begins_with its text \<or> (\<exists>x t. text = x # t \<and> stands_for c x \<and> begins_with (Star c # its) t)"
  proof (cases w)
    case Nil
    then show ?thesis using w by (auto simp: begins_with_def)
  next
    case (Cons x w')
    then have "begins_with (Star c # its) (w' @ concat ws @ rest)"
      unfolding begins_with_def using w by (intro exI [of _ "w' # ws"] exI [of _ rest]) auto
    then show ?thesis using w Cons by auto
  qed
next
  assume "begins_with its text \<or> (\<exists>x t. text = x # t \<and> stands_for c x \<and> begins_with (Star c # its) t)"
  then show "begins_with (Star c # its) text"
  proof (elim disjE exE conjE)
    assume "begins_with its text"
    then obtain ws rest where "text = concat ws @ rest" "list_all2 in_item its ws" "Eol \<in> set its \<longrightarrow> rest = []" by (auto simp: begins_with_def)
    then show ?thesis unfolding begins_with_def by (intro exI [of _ "[] # ws"] exI [of _ rest]) auto
  next
    fix x t
    assume a: "text = x # t" "stands_for c x" "begins_with (Star c # its) t"
    from a(3) obtain w ws rest where "t = w @ concat ws @ rest" "\<forall>x \<in> set w. stands_for c x" "list_all2 in_item its ws" "Eol \<in> set its \<longrightarrow> rest = []"
      by (rule begins_with_StarE)
    then show ?thesis unfolding begins_with_def using a by (intro exI [of _ "(x # w) # ws"] exI [of _ rest]) auto
  qed
qed

lemma begins_with_Eol: "begins_with [Eol] text \<longleftrightarrow> text = []"
  by (auto simp: begins_with_def list_all2_Cons1)

lemmas begins_with_simps = begins_with_Nil begins_with_One begins_with_Eol

lemma matchhere_cases:
  "matchhere [] text"
  "matchhere [c] text \<longleftrightarrow> (if c = 36 then text = [] else \<exists>x t. text = x # t \<and> stands_for c x)"
  "matchhere (c # d # re) text \<longleftrightarrow> (if d = 42 then matchstar c re text else \<exists>x t. text = x # t \<and> stands_for c x \<and> matchhere (d # re) t)"
  by (cases "text"; simp add: matchhere.simps [of "[]"] matchhere.simps [of "[c]"] matchhere.simps [of "c # d # re"] stands_for_def)+

lemma matcher_correct:
  "matchhere re text \<longleftrightarrow> begins_with (items re) text"
  "matchstar c re text \<longleftrightarrow> begins_with (Star c # items re) text"
proof (induction re "text" and c re "text" rule: matchhere_matchstar.induct)
  case (1 re "text")
  show ?case
  proof (cases re rule: items.cases)
    case 1
    then show ?thesis by (simp add: matchhere_cases begins_with_Nil)
  next
    case (2 c)
    then show ?thesis by (auto simp: matchhere_cases begins_with_simps)
  next
    case (3 c d re1)
    then show ?thesis using "1.IH" by (auto simp: matchhere_cases begins_with_simps stands_for_def)
  qed
next
  case (2 c re "text")
  then show ?case
    unfolding matchstar.simps [of c re "text"] begins_with_Star [of c "items re" "text"]
    by (cases "text") (auto simp: stands_for_def)
qed

lemma match_any_iff: "match_any re text \<longleftrightarrow> (\<exists>pre post. text = pre @ post \<and> matchhere re post)"
proof (induction "text")
  case (Cons x "text")
  show ?case
  proof
    assume "match_any re (x # text)"
    then show "\<exists>pre post. x # text = pre @ post \<and> matchhere re post"
      using Cons.IH by (auto split: if_splits) (metis append_Cons)
  next
    assume "\<exists>pre post. x # text = pre @ post \<and> matchhere re post"
    then obtain pre post where "x # text = pre @ post" "matchhere re post" by blast
    then show "match_any re (x # text)" using Cons.IH by (cases pre) auto
  qed
qed simp

text \<open>What a pattern selects: with a leading \<open>^\<close> the lines that begin with it, otherwise those it occurs in.\<close>

definition selects :: "u8 list \<Rightarrow> u8 list \<Rightarrow> bool" where
  "selects re line \<longleftrightarrow>
     (if re \<noteq> [] \<and> hd re = 94 then begins_with (items (tl re)) line
      else \<exists>pre post. line = pre @ post \<and> begins_with (items re) post)"

text \<open>
  C33. The matcher of grep, three mutually recursive loops that try the shortest repetition first, always ends and
  answers exactly whether the pattern selects the line: its items (a byte, a dot, a starred byte, a final dollar) match
  consecutive pieces of it, from its start after a caret and from anywhere otherwise, with nothing left over at a dollar.
\<close>

theorem match_is_selection: "match_re re line \<longleftrightarrow> selects re line"
  by (simp add: match_re_def selects_def match_any_iff matcher_correct)

section \<open>The lines printed\<close>

text \<open>The complete lines of the input, and the bytes after the last newline.\<close>

fun lines :: "u8 list \<Rightarrow> u8 list \<Rightarrow> u8 list list \<times> u8 list" where
  "lines acc [] = ([], acc)"
| "lines acc (c # s) = (if c = 10 then (acc # fst (lines [] s), snd (lines [] s)) else lines (acc @ [c]) s)"

definition chosen :: "u8 list \<Rightarrow> u8 list list \<Rightarrow> u8 list" where
  "chosen pattern ls = concat (map (\<lambda>l. l @ [10]) (filter (match_re pattern) ls))"

text \<open>What a run has written to the standard output, and what its reads have returned.\<close>

fun printed :: "sysreq list \<Rightarrow> u8 list" where
  "printed [] = []"
| "printed (SWrite fd bs # t) = (if fd = 1 then bs @ printed t else printed t)"
| "printed (_ # t) = printed t"

fun received :: "sysreq list \<Rightarrow> sysans list \<Rightarrow> u8 list" where
  "received (SRead fd n # t) (a # as) = take (nat (ret a)) (rbytes a) @ received t as"
| "received (_ # t) (a # as) = received t as"
| "received _ _ = []"

lemma printed_append [simp]: "printed (t @ u) = printed t @ printed u"
  by (induction t rule: printed.induct) auto

lemma received_Nil [simp]: "received t [] = []"
  by (cases t) auto

lemma received_append: "received (t @ u) as = received t as @ received u (drop (length t) as)"
  by (induction t as rule: received.induct) auto

lemma lines_append:
  "lines acc (s @ t) = (fst (lines acc s) @ fst (lines (snd (lines acc s)) t), snd (lines (snd (lines acc s)) t))"
  by (induction acc s rule: lines.induct) auto

lemma lines_none: "10 \<notin> set s \<Longrightarrow> lines acc s = ([], acc @ s)"
  by (induction acc s rule: lines.induct) auto

lemma chosen_append [simp]: "chosen pattern (ls @ ms) = chosen pattern ls @ chosen pattern ms"
  by (simp add: chosen_def)

lemma chosen_Cons: "chosen pattern (l # ls) = (if match_re pattern l then l @ [10] else []) @ chosen pattern ls"
  by (simp add: chosen_def)

lemma chosen_Nil [simp]: "chosen pattern [] = []"
  by (simp add: chosen_def)

lemma strchr_u_Some: "strchr_u s c = Some q \<Longrightarrow> s = take q s @ c # drop (Suc q) s \<and> c \<notin> set (take q s)"
  by (induction s arbitrary: q) (auto split: if_splits)

lemma strchr_u_None: "strchr_u s c = None \<Longrightarrow> 0 \<notin> set s \<Longrightarrow> c \<notin> set s"
  by (induction s) (auto split: if_splits)

lemma lines_first:
  assumes "strchr_u p 10 = Some q"
  shows "lines [] p = (take q p # fst (lines [] (drop (Suc q) p)), snd (lines [] (drop (Suc q) p)))"
  using strchr_u_Some [OF assms] lines_append [of "[]" "take q p" "10 # drop (Suc q) p"] by (simp add: lines_none)

lemma grep_lines_effect:
  assumes "grep_lines pattern p as = (t, r, as1)" and "0 \<notin> set p"
  shows "received t as = [] \<and>
    (case r of
       URet rest \<Rightarrow> printed t = chosen pattern (fst (lines [] p)) \<and> rest = snd (lines [] p) \<and> as1 = drop (length t) as
     | _ \<Rightarrow> r = UStuck \<and> as1 = [] \<and> prefix (printed t) (chosen pattern (fst (lines [] p))))"
  using assms
proof (induction pattern p arbitrary: as t r as1 rule: grep_lines.induct)
  case (1 pattern p)
  show ?case
  proof (cases "strchr_u p 10")
    case None
    then show ?thesis
      using 1(2) lines_none [OF strchr_u_None [OF None 1(3)]] by (auto simp: grep_lines.simps [of pattern p] ureturn_def)
  next
    case (Some q)
    have z: "0 \<notin> set (drop (Suc q) p)" using 1(3) in_set_dropD by fastforce
    note ih = 1(1) [OF Some _ z]
    note eq = 1(2) [unfolded grep_lines.simps [of pattern p] Some option.case]
    consider (skip) "\<not> match_re pattern (take q p)" | (stuck) "match_re pattern (take q p)" "as = []"
      | (hit) a as' where "match_re pattern (take q p)" "as = a # as'"
      by (cases as) auto
    then show ?thesis
    proof cases
      case skip
      then have "grep_lines pattern (drop (Suc q) p) as = (t, r, as1)"
        using eq by (simp add: ubind_def ureturn_def split: prod.splits)
      from ih [OF this] skip show ?thesis by (auto simp: lines_first [OF Some] chosen_Cons split: uout.splits)
    next
      case stuck
      then show ?thesis using eq by (auto simp: ubind_def sysr_def sys_def lines_first [OF Some] chosen_Cons)
    next
      case hit
      obtain t2 where t2: "grep_lines pattern (drop (Suc q) p) as' = (t2, r, as1)" "t = SWrite 1 (take q p @ [10]) # t2"
        using eq hit by (auto simp: ubind_def sysr_def sys_def ureturn_def split: prod.splits)
      then show ?thesis using ih [OF t2(1)] hit by (auto simp: lines_first [OF Some] chosen_Cons split: uout.splits)
    qed
  qed
qed

lemma lines_rest: "10 \<notin> set acc \<Longrightarrow> 10 \<notin> set (snd (lines acc s))" "set (snd (lines acc s)) \<subseteq> set acc \<union> set s"
  by (induction acc s rule: lines.induct) auto

lemma lines_carry: "10 \<notin> set buf \<Longrightarrow> lines [] (buf @ s) = lines buf s"
  by (simp add: lines_append lines_none)

lemma grep_effect:
  assumes "grep pattern fd buf as = (t, r, as1)" and "10 \<notin> set buf" and "0 \<notin> set buf" and "0 \<notin> set (received t as)"
  shows "case r of
      URet _ \<Rightarrow> printed t = chosen pattern (fst (lines buf (received t as)))
    | _ \<Rightarrow> r = UStuck \<and> as1 = [] \<and> prefix (printed t) (chosen pattern (fst (lines buf (received t as))))"
  using assms
proof (induction pattern fd buf as arbitrary: t r as1 rule: grep.induct)
  case (1 pattern fd buf as)
  note eq = 1(2) [unfolded grep.simps [of pattern fd buf as]]
  let ?q = "SRead fd (1023 - length buf)"
  consider (stuck) "as = []" | (eof) a as' where "as = a # as'" "ret a \<le> 0"
    | (chunk) a as' t1 r1 as2 where "as = a # as'" "ret a > 0"
        "grep_lines pattern (buf @ take (nat (ret a)) (rbytes a)) as' = (t1, r1, as2)"
    by (cases as) (auto, metis linorder_not_less prod_cases3)
  then show ?case
  proof cases
    case stuck
    then show ?thesis using eq by (auto simp: ubind_def sys_def)
  next
    case eof
    then show ?thesis using eq by (auto simp: ubind_def sys_def ureturn_def)
  next
    case chunk
    let ?d = "take (nat (ret a)) (rbytes a)"
    let ?rest = "snd (lines buf ?d)"
    have d: "0 \<notin> set ?d" and tl: "\<exists>u. t = ?q # t1 @ u"
      using eq chunk 1(5) by (auto simp: ubind_def sys_def split: prod.splits uout.splits)
    have lp: "received t1 as' = [] \<and> (case r1 of URet rest \<Rightarrow> printed t1 = chosen pattern (fst (lines buf ?d)) \<and> rest = ?rest \<and> as2 = drop (length t1) as'
       | _ \<Rightarrow> r1 = UStuck \<and> as2 = [] \<and> prefix (printed t1) (chosen pattern (fst (lines buf ?d))))"
      using grep_lines_effect [OF chunk(3), unfolded lines_carry [OF 1(3)]] d 1(4) by simp
    show ?thesis
    proof (cases r1)
      case (URet rest)
      then have rest: "rest = ?rest" "printed t1 = chosen pattern (fst (lines buf ?d))" "as2 = drop (length t1) as'" using lp by auto
      obtain u where u: "grep pattern fd ?rest as2 = (u, r, as1)" "t = ?q # t1 @ u"
        using eq chunk URet rest(1) by (auto simp: ubind_def sys_def split: prod.splits)
      have rc: "received t as = ?d @ received u as2" using u(2) chunk(1) lp rest(3) by (simp add: received_append)
      have "10 \<notin> set ?rest" "0 \<notin> set ?rest" using lines_rest [of buf ?d] 1(3,4) d by auto
      moreover have "grep_lines pattern (buf @ ?d) as' = (t1, URet ?rest, as2)" using chunk(3) URet rest(1) by simp
      ultimately have "case r of URet _ \<Rightarrow> printed u = chosen pattern (fst (lines ?rest (received u as2)))
          | _ \<Rightarrow> r = UStuck \<and> as1 = [] \<and> prefix (printed u) (chosen pattern (fst (lines ?rest (received u as2))))"
        using 1(1) [of "[?q]" a as' t1 ?rest as2 u r as1] u(1) chunk(1,2) 1(5) rc by (simp add: sys_def)
      then show ?thesis using u(2) rest(2) rc by (auto simp: lines_append split: uout.splits)
    qed (use eq chunk lp tl in \<open>auto simp: ubind_def sys_def received_append lines_append split: prod.splits\<close>)
  qed
qed

text \<open>
  C34. Whatever chunks the reads return, grep prints exactly the complete lines of the bytes it has received that the
  pattern selects, each once, in order and with its newline, and then returns. If the answers end first, it is waiting for the kernel and has
  printed a prefix of that. The bytes received contain no NUL.
\<close>

theorem grep_prints_selected_lines:
  assumes "grep pattern fd [] as = (t, r, as1)" and "0 \<notin> set (received t as)"
  shows "r = URet () \<and> printed t = concat (map (\<lambda>l. l @ [10]) (filter (selects pattern) (fst (lines [] (received t as))))) \<or>
         r = UStuck \<and> as1 = [] \<and> prefix (printed t) (concat (map (\<lambda>l. l @ [10]) (filter (selects pattern) (fst (lines [] (received t as))))))"
proof -
  have "match_re pattern = selects pattern"
    by (rule ext) (simp add: match_re_def selects_def match_any_iff matcher_correct)
  then show ?thesis using grep_effect [OF assms(1) _ _ assms(2)] by (auto simp: chosen_def split: uout.splits)
qed

text \<open>The lines "xab", "zcq" and "acb", cut in the middle of the second; the pattern is \<open>a.*b$\<close>.\<close>

definition chunk :: "string \<Rightarrow> sysans" where
  "chunk s = \<lparr>ret = int (length s), rbytes = str s, rfds = (0, 0), rstat = \<lparr>ust_type = 0, ust_ino = 0, ust_size = 0\<rparr>\<rparr>"

definition grep_answers :: "sysans list" where
  "grep_answers = [chunk (''xab'' @ [CHR 10] @ ''zc''), chunk [], chunk (''q'' @ [CHR 10] @ ''acb'' @ [CHR 10]), chunk [], chunk []]"

definition grep_run :: "sysreq list \<times> unit uout \<times> sysans list" where
  "grep_run = grep (str ''a.*b$'') 0 [] grep_answers"

lemma grep_run_facts:
  "fst (snd grep_run) = URet ()" "0 \<notin> set (received (fst grep_run) grep_answers)"
  "printed (fst grep_run) = str (''xab'' @ [CHR 10] @ ''acb'' @ [CHR 10])"
  by code_simp+

theorem grep_prints_selected_lines_witness:
  "fst (snd grep_run) = URet () \<and> printed (fst grep_run) = str (''xab'' @ [CHR 10] @ ''acb'' @ [CHR 10]) \<and>
   printed (fst grep_run) =
     concat (map (\<lambda>l. l @ [10]) (filter (selects (str ''a.*b$'')) (fst (lines [] (received (fst grep_run) grep_answers)))))"
  using grep_prints_selected_lines [of "str ''a.*b$''" 0 grep_answers "fst grep_run" "fst (snd grep_run)" "snd (snd grep_run)"] grep_run_facts
  by (simp add: grep_run_def)

end
