(* ===== verification/Sh.thy ===== *)
theory Sh
  imports User Sysfile
begin

text \<open>
  The shell, \<open>user/sh.c\<close>: the tokenizer and the recursive descent parser over positions in the command line, the
  in-place NUL termination of its words, and the interpreter as a program against the answers of the kernel. The nodes that
  \<open>malloc\<close> returns are values of the type \<open>cmd\<close>; the \<open>sbrk\<close> that \<open>malloc\<close> may call is not part of the trace, and
  running out of memory is not modelled.
\<close>

section \<open>Commands\<close>

text \<open>A word is the pair of its start and its end (\<open>argv[i]\<close> and \<open>eargv[i]\<close>) in the line.\<close>

datatype cmd =
    EXEC "(nat \<times> nat) list"
  | REDIR cmd nat nat u32 int
  | PIPE cmd cmd
  | LIST cmd cmd
  | BACK cmd

text \<open>The constructor functions; \<open>malloc\<close> and \<open>memset\<close> give a node with the given fields.\<close>

abbreviation execcmd :: cmd where "execcmd \<equiv> EXEC []"
abbreviation redircmd :: "cmd \<Rightarrow> nat \<Rightarrow> nat \<Rightarrow> u32 \<Rightarrow> int \<Rightarrow> cmd" where "redircmd subcmd q eq mode fd \<equiv> REDIR subcmd q eq mode fd"
abbreviation pipecmd :: "cmd \<Rightarrow> cmd \<Rightarrow> cmd" where "pipecmd left right \<equiv> PIPE left right"
abbreviation listcmd :: "cmd \<Rightarrow> cmd \<Rightarrow> cmd" where "listcmd left right \<equiv> LIST left right"
abbreviation backcmd :: "cmd \<Rightarrow> cmd" where "backcmd subcmd \<equiv> BACK subcmd"

definition MAXARGS :: nat where
  "MAXARGS = 10"

definition whitespace :: "u8 list" where
  "whitespace = [32, 9, 13, 10, 11]"

definition symbols :: "u8 list" where
  "symbols = str ''<|>&;()''"

section \<open>Tokens\<close>

text \<open>The line ends with a NUL at \<open>es\<close>, its length.\<close>

definition byte_at :: "u8 list \<Rightarrow> nat \<Rightarrow> u8" where
  "byte_at buf s = (if s < length buf then buf ! s else 0)"

function skip :: "(u8 \<Rightarrow> bool) \<Rightarrow> u8 list \<Rightarrow> nat \<Rightarrow> nat" where
  "skip P buf s = (if s < length buf \<and> P (byte_at buf s) then skip P buf (Suc s) else s)"
  by pat_completeness auto
termination
  by (relation "measure (\<lambda>(P, buf, s). length buf - s)") auto

declare skip.simps [simp del]

definition is_ws :: "u8 \<Rightarrow> bool" where
  "is_ws c \<longleftrightarrow> strchr_u whitespace c \<noteq> None"

definition is_word :: "u8 \<Rightarrow> bool" where
  "is_word c \<longleftrightarrow> strchr_u whitespace c = None \<and> strchr_u symbols c = None"

text \<open>\<open>gettoken\<close>: the kind of the token, its start and end, and the position after it and the space that follows.\<close>

definition gettoken :: "u8 list \<Rightarrow> nat \<Rightarrow> u8 \<times> nat \<times> nat \<times> nat" where
  "gettoken buf s =
     (let q = skip is_ws buf s;
          c = byte_at buf q;
          (tok, eq) =
            (if c = 0 then (0, q)
             else if c \<in> set (str ''|();&<'') then (c, Suc q)
             else if c = of_char CHR ''>'' then
               (if byte_at buf (Suc q) = of_char CHR ''>'' then (of_char CHR ''+'', Suc (Suc q)) else (c, Suc q))
             else (of_char CHR ''a'', skip is_word buf q))
      in (tok, q, eq, skip is_ws buf eq))"

definition peek :: "u8 list \<Rightarrow> nat \<Rightarrow> u8 list \<Rightarrow> bool \<times> nat" where
  "peek buf s toks =
     (let s1 = skip is_ws buf s
      in (byte_at buf s1 \<noteq> 0 \<and> strchr_u toks (byte_at buf s1) \<noteq> None, s1))"

lemma skip_ge: "s \<le> skip P buf s"
  by (induction P buf s rule: skip.induct) (subst skip.simps, auto)

lemma byte_at_bound: "byte_at buf s \<noteq> 0 \<Longrightarrow> s < length buf"
  by (auto simp: byte_at_def split: if_splits)

lemma peek_next: "peek buf s toks = (b, s1) \<Longrightarrow> s1 = skip is_ws buf s \<and> s \<le> s1 \<and> (b \<longrightarrow> byte_at buf s1 \<noteq> 0 \<and> s1 < length buf)"
  using skip_ge byte_at_bound by (auto simp: peek_def Let_def)

lemma skip_idem: "skip P buf (skip P buf s) = skip P buf s"
proof (induction P buf s rule: skip.induct)
  case (1 P buf s)
  then show ?case by (cases "s < length buf \<and> P (byte_at buf s)") (auto simp: skip.simps [of P buf s])
qed

lemma is_word_cases:
  assumes "c \<noteq> 0" and "\<not> is_ws c" and "c \<notin> set (str ''|();&<'')" and "c \<noteq> of_char CHR ''>''"
  shows "is_word c"
  using assms by (auto simp: is_word_def is_ws_def symbols_def str_def split: if_splits)

lemma skip_stops: "skip P buf s < length buf \<Longrightarrow> \<not> P (byte_at buf (skip P buf s))"
proof (induction P buf s rule: skip.induct)
  case (1 P buf s)
  then show ?case by (cases "s < length buf \<and> P (byte_at buf s)") (auto simp: skip.simps [of P buf s])
qed

lemma gettoken_bounds:
  assumes "gettoken buf s = (tok, q, eq, s1)"
  shows "s \<le> q" "q \<le> eq" "eq \<le> s1" "tok \<noteq> 0 \<Longrightarrow> q < eq \<and> q < length buf"
proof -
  have w: "byte_at buf (skip is_ws buf s) \<noteq> 0 \<Longrightarrow> is_word (byte_at buf (skip is_ws buf s)) \<Longrightarrow> skip is_ws buf s < skip is_word buf (skip is_ws buf s)"
    using skip_ge [of "Suc (skip is_ws buf s)" is_word buf] byte_at_bound [of buf] by (subst skip.simps) simp
  show "s \<le> q" "q \<le> eq" "eq \<le> s1" "tok \<noteq> 0 \<Longrightarrow> q < eq \<and> q < length buf"
    using assms skip_ge w is_word_cases skip_stops [of is_ws buf s] byte_at_bound
    by (auto simp: gettoken_def Let_def split: prod.splits if_splits intro: le_SucI)
qed

lemma gettoken_peek:
  assumes "peek buf s toks = (True, s1)" and "gettoken buf s1 = (tok, q, eq, s2)"
  shows "s < s2"
proof -
  from assms(1) have s1: "s1 = skip is_ws buf s" "s \<le> s1" "byte_at buf s1 \<noteq> 0" by (auto dest: peek_next)
  then have "tok \<noteq> 0" using assms(2) skip_idem [of is_ws buf s] by (auto simp: gettoken_def Let_def str_def split: if_splits)
  then show ?thesis using gettoken_bounds [OF assms(2)] s1(2) by simp
qed

section \<open>The parser\<close>

text \<open>A parser returns a command and the position after it, or panics; \<open>Deep\<close> is a recursion deeper than allowed for.\<close>

datatype 'a pres = Done 'a | Fail string | Deep

fun pbind :: "'a pres \<Rightarrow> ('a \<Rightarrow> 'b pres) \<Rightarrow> 'b pres" where
  "pbind (Done x) f = f x"
| "pbind (Fail e) f = Fail e"
| "pbind Deep f = Deep"

lemma pbind_cong [fundef_cong]: "m = m' \<Longrightarrow> (\<And>x. m' = Done x \<Longrightarrow> f x = f' x) \<Longrightarrow> pbind m f = pbind m' f'"
  by (cases m') auto

lemma pbind_Done: "pbind m f = Done y \<longleftrightarrow> (\<exists>x. m = Done x \<and> f x = Done y)"
  by (cases m) auto

lemma token_less:
  assumes "peek buf s toks = (True, s1)" and "gettoken buf s1 = (tok, q, eq, s2)"
  shows "length buf - s2 < length buf - s"
  using gettoken_peek [OF assms] peek_next [OF assms(1)] diff_less_mono2 [of s s2 "length buf"] by auto

lemma redir_less:
  assumes "peek buf s toks = (True, s1)" and "gettoken buf s1 = (tok, q, eq, s2)" and "gettoken buf s2 = (tok2, q2, eq2, s3)"
  shows "length buf - s3 < length buf - s"
  using token_less [OF assms(1,2)] gettoken_bounds(1,2,3) [OF assms(3)] by simp

definition add_redir :: "u8 \<Rightarrow> cmd \<Rightarrow> nat \<Rightarrow> nat \<Rightarrow> cmd" where
  "add_redir tok cmd q eq =
     (if tok = of_char CHR ''<'' then redircmd cmd q eq (word_of_int O_RDONLY) 0
      else if tok = of_char CHR ''>'' then redircmd cmd q eq (O_WRONLY OR O_CREATE OR O_TRUNC) 1
      else if tok = of_char CHR ''+'' then redircmd cmd q eq (O_WRONLY OR O_CREATE) 1
      else cmd)"

function parseredirs :: "u8 list \<Rightarrow> cmd \<Rightarrow> nat \<Rightarrow> (cmd \<times> nat) pres" where
  "parseredirs buf cmd s =
     (case peek buf s (str ''<>'') of (b, s1) \<Rightarrow>
        if \<not> b then Done (cmd, s1)
        else case gettoken buf s1 of (tok, _, _, s2) \<Rightarrow>
          case gettoken buf s2 of (tok2, q, eq, s3) \<Rightarrow>
            if tok2 \<noteq> of_char CHR ''a'' then Fail ''missing file for redirection''
            else parseredirs buf (add_redir tok cmd q eq) s3)"
  by pat_completeness auto
termination
  by (relation "measure (\<lambda>(buf, cmd, s). length buf - s)") (auto dest: redir_less [OF sym sym sym])

declare parseredirs.simps [simp del]

text \<open>The word goes into the \<open>execcmd\<close> inside of the redirections around it.\<close>

fun add_arg :: "cmd \<Rightarrow> nat \<times> nat \<Rightarrow> cmd" where
  "add_arg (EXEC args) a = EXEC (args @ [a])"
| "add_arg (REDIR cmd q eq mode fd) a = REDIR (add_arg cmd a) q eq mode fd"
| "add_arg cmd a = cmd"

function exec_words :: "u8 list \<Rightarrow> cmd \<Rightarrow> nat \<Rightarrow> nat \<Rightarrow> (cmd \<times> nat) pres" where
  "exec_words buf cmd argc s =
     (case peek buf s (str ''|)&;'') of (b, s1) \<Rightarrow>
        if b then Done (cmd, s1)
        else case gettoken buf s1 of (tok, q, eq, s2) \<Rightarrow>
          if tok = 0 then Done (cmd, s2)
          else if tok \<noteq> of_char CHR ''a'' then Fail ''syntax''
          else if argc + 1 \<ge> MAXARGS then Fail ''too many args''
          else pbind (parseredirs buf (add_arg cmd (q, eq)) s2) (\<lambda>(cmd2, s3). exec_words buf cmd2 (argc + 1) s3))"
  by pat_completeness auto
termination
  by (relation "measure (\<lambda>(buf, cmd, argc, s). MAXARGS - argc)") auto

declare exec_words.simps [simp del]

function parse_amps :: "u8 list \<Rightarrow> cmd \<Rightarrow> nat \<Rightarrow> cmd \<times> nat" where
  "parse_amps buf cmd s =
     (case peek buf s (str ''&'') of (b, s1) \<Rightarrow>
        if b then (case gettoken buf s1 of (tok, q, eq, s2) \<Rightarrow> parse_amps buf (backcmd cmd) s2) else (cmd, s1))"
  by pat_completeness auto
termination
  by (relation "measure (\<lambda>(buf, cmd, s). length buf - s)") (auto dest: token_less [OF sym sym])

declare parse_amps.simps [simp del]

fun parseline :: "nat \<Rightarrow> u8 list \<Rightarrow> nat \<Rightarrow> (cmd \<times> nat) pres"
  and parsepipe :: "nat \<Rightarrow> u8 list \<Rightarrow> nat \<Rightarrow> (cmd \<times> nat) pres"
  and parseexec :: "nat \<Rightarrow> u8 list \<Rightarrow> nat \<Rightarrow> (cmd \<times> nat) pres"
  and parseblock :: "nat \<Rightarrow> u8 list \<Rightarrow> nat \<Rightarrow> (cmd \<times> nat) pres" where
  "parseline 0 buf s = Deep"
| "parseline (Suc n) buf s =
     pbind (parsepipe n buf s) (\<lambda>(cmd, s1).
       case parse_amps buf cmd s1 of (cmd1, s2) \<Rightarrow>
         case peek buf s2 (str '';'') of (b, s3) \<Rightarrow>
           if b then (case gettoken buf s3 of (tok, q, eq, s4) \<Rightarrow>
             pbind (parseline n buf s4) (\<lambda>(right, s5). Done (listcmd cmd1 right, s5)))
           else Done (cmd1, s3))"
| "parsepipe 0 buf s = Deep"
| "parsepipe (Suc n) buf s =
     pbind (parseexec n buf s) (\<lambda>(cmd, s1).
       case peek buf s1 (str ''|'') of (b, s2) \<Rightarrow>
         if b then (case gettoken buf s2 of (tok, q, eq, s3) \<Rightarrow>
           pbind (parsepipe n buf s3) (\<lambda>(right, s4). Done (pipecmd cmd right, s4)))
         else Done (cmd, s2))"
| "parseexec 0 buf s = Deep"
| "parseexec (Suc n) buf s =
     (case peek buf s (str ''('') of (b, s1) \<Rightarrow>
        if b then parseblock n buf s1
        else pbind (parseredirs buf execcmd s1) (\<lambda>(cmd, s2). exec_words buf cmd 0 s2))"
| "parseblock 0 buf s = Deep"
| "parseblock (Suc n) buf s =
     (case peek buf s (str ''('') of (b, s1) \<Rightarrow>
        if \<not> b then Fail ''parseblock''
        else case gettoken buf s1 of (tok, q, eq, s2) \<Rightarrow>
          pbind (parseline n buf s2) (\<lambda>(cmd, s3).
            case peek buf s3 (str '')'') of (b2, s4) \<Rightarrow>
              if \<not> b2 then Fail ''syntax - missing )''
              else case gettoken buf s4 of (tok2, q2, eq2, s5) \<Rightarrow> parseredirs buf cmd s5))"

text \<open>\<open>nulterminate\<close> on the bytes of the line and its NUL.\<close>

fun nulterminate :: "cmd \<Rightarrow> u8 list \<Rightarrow> u8 list" where
  "nulterminate (EXEC args) buf = foldl (\<lambda>b (q, eq). b[eq := 0]) buf args"
| "nulterminate (REDIR cmd q eq mode fd) buf = (nulterminate cmd buf)[eq := 0]"
| "nulterminate (PIPE l r) buf = nulterminate r (nulterminate l buf)"
| "nulterminate (LIST l r) buf = nulterminate r (nulterminate l buf)"
| "nulterminate (BACK cmd) buf = nulterminate cmd buf"

definition sh_panic :: "string \<Rightarrow> 'a uprog" where
  "sh_panic s = ubind (fprintf_u 2 (''%s'' @ [CHR 10]) [UStr (Some (str s))]) (\<lambda>_. uexit 1)"

text \<open>Each level of the grammar takes one level of recursion; an open parenthesis, a bar or a semicolon leads to the next byte.\<close>

definition depth_bound :: "u8 list \<Rightarrow> nat" where
  "depth_bound buf = 4 * length buf + 4"

definition parsecmd :: "u8 list \<Rightarrow> (cmd \<times> u8 list) uprog" where
  "parsecmd s =
     (let es = strlen_u s;
          buf = take es s
      in case parseline (depth_bound buf) buf 0 of
           Deep \<Rightarrow> ucrash
         | Fail e \<Rightarrow> sh_panic e
         | Done (cmd, s1) \<Rightarrow>
             (case peek buf s1 [] of (b, s2) \<Rightarrow>
                if s2 \<noteq> es
                then ubind (fprintf_u 2 (''leftovers: %s'' @ [CHR 10]) [UStr (Some (drop s2 buf))]) (\<lambda>_. sh_panic ''syntax'')
                else ureturn (cmd, nulterminate cmd (buf @ [0]))))"

section \<open>The interpreter\<close>

definition cstr_at :: "u8 list \<Rightarrow> nat \<Rightarrow> u8 list" where
  "cstr_at buf q = takeWhile (\<lambda>b. b \<noteq> 0) (drop q buf)"

definition fork1 :: "int uprog" where
  "fork1 = ubind (sysr SFork) (\<lambda>pid. if pid = -1 then sh_panic ''fork'' else ureturn pid)"

text \<open>\<open>runcmd\<close> in the process that calls it: where \<open>fork\<close> answers 0 the trace is that of the child.\<close>

primrec runcmd :: "u8 list \<Rightarrow> cmd \<Rightarrow> unit uprog" where
  "runcmd buf (EXEC args) =
     (if args = [] then uexit 1
      else ubind (uexec (cstr_at buf (fst (hd args))) (map (\<lambda>a. cstr_at buf (fst a)) args)) (\<lambda>_.
        ubind (fprintf_u 2 (''exec %s failed'' @ [CHR 10]) [UStr (Some (cstr_at buf (fst (hd args))))]) (\<lambda>_. uexit 0)))"
| "runcmd buf (REDIR cmd q eq mode fd) =
     ubind (sysr (SClose fd)) (\<lambda>_.
       ubind (sysr (SOpen (cstr_at buf q) mode)) (\<lambda>r.
         if r < 0 then ubind (fprintf_u 2 (''open %s failed'' @ [CHR 10]) [UStr (Some (cstr_at buf q))]) (\<lambda>_. uexit 1)
         else ubind (runcmd buf cmd) (\<lambda>_. uexit 0)))"
| "runcmd buf (PIPE l r) =
     ubind (sys SPipe) (\<lambda>a.
       if ret a < 0 then sh_panic ''pipe''
       else case rfds a of (p0, p1) \<Rightarrow>
         ubind fork1 (\<lambda>pid.
           ubind (if pid = 0 then ubind (sys_all [SClose 1, SDup p1, SClose p0, SClose p1]) (\<lambda>_. runcmd buf l) else ureturn ()) (\<lambda>_.
             ubind fork1 (\<lambda>pid2.
               ubind (if pid2 = 0 then ubind (sys_all [SClose 0, SDup p0, SClose p0, SClose p1]) (\<lambda>_. runcmd buf r) else ureturn ()) (\<lambda>_.
                 ubind (sys_all [SClose p0, SClose p1, SWait, SWait]) (\<lambda>_. uexit 0))))))"
| "runcmd buf (LIST l r) =
     ubind fork1 (\<lambda>pid.
       ubind (if pid = 0 then runcmd buf l else ureturn ()) (\<lambda>_.
         ubind (sysr SWait) (\<lambda>_. ubind (runcmd buf r) (\<lambda>_. uexit 0))))"
| "runcmd buf (BACK cmd) =
     ubind fork1 (\<lambda>pid. ubind (if pid = 0 then runcmd buf cmd else ureturn ()) (\<lambda>_. uexit 0))"

definition getcmd :: "nat \<Rightarrow> (int \<times> u8 list) uprog" where
  "getcmd nbuf =
     ubind (fprintf_u 2 ''$ '' []) (\<lambda>_.
       ubind (gets_u nbuf) (\<lambda>buf. ureturn (if byte_at buf 0 = 0 then (-1, buf) else (0, buf))))"

function sh_open :: "unit uprog" where
  "sh_open as =
     ubind (sysr (SOpen (str ''console'') O_RDWR)) (\<lambda>fd as1.
       if fd < 0 then ureturn () as1
       else if fd \<ge> 3 then ubind (sysr (SClose fd)) (\<lambda>_. ureturn ()) as1
       else sh_open as1) as"
  by pat_completeness auto
termination
  by (relation "measure length") (auto dest: sysr_less)

declare sh_open.simps [simp del]

definition sh_cd :: "u8 list \<Rightarrow> unit uprog" where
  "sh_cd buf =
     (let dir = drop 3 (take (strlen_u buf - 1) buf)
      in ubind (sysr (SChdir dir)) (\<lambda>r.
           if r < 0 then fprintf_u 2 (''cannot cd %s'' @ [CHR 10]) [UStr (Some dir)] else ureturn ()))"

definition sh_run :: "u8 list \<Rightarrow> unit uprog" where
  "sh_run buf =
     ubind fork1 (\<lambda>pid.
       ubind (if pid = 0 then ubind (parsecmd buf) (\<lambda>(cmd, b). runcmd b cmd) else ureturn ()) (\<lambda>_.
         ubind (sysr SWait) (\<lambda>_. ureturn ())))"

definition is_cd :: "u8 list \<Rightarrow> bool" where
  "is_cd buf \<longleftrightarrow> byte_at buf 0 = of_char CHR ''c'' \<and> byte_at buf 1 = of_char CHR ''d'' \<and> byte_at buf 2 = 32"

lemma uses_sh_panic: "uses n (sh_panic s)"
  unfolding sh_panic_def by (rule uses_bind_exit)

lemma uses_fork1: "uses 0 fork1"
  unfolding fork1_def
  by (rule uses_right [OF uses_0 [OF uses_sysr]]) (simp add: uses_sh_panic uses_return)

text \<open>A process that has reached \<open>runcmd\<close> does not come back.\<close>

lemma stops_panic: "stops (sh_panic s)"
  unfolding sh_panic_def by (intro stops_bind stops_exit)

lemmas stops_intros = stops_bind stops_exit stops_panic

lemma stops_runcmd: "stops (runcmd buf cmd)"
  by (cases cmd) (auto intro!: stops_intros split: prod.splits)

lemma uses_runcmd: "uses n (runcmd buf cmd)"
  using stops_runcmd by (auto simp: uses_def stops_def)

lemma uses_parsecmd: "uses 0 (parsecmd s)"
  by (simp add: parsecmd_def Let_def uses_ucrash uses_sh_panic uses_return uses_left [OF uses_fprintf(1) uses_sh_panic]
      split: pres.split prod.split)

lemma uses_sh_run: "uses 0 (sh_run buf)"
proof -
  have "uses 0 (if pid = 0 then ubind (parsecmd buf) (\<lambda>(cmd, b). runcmd b cmd) else ureturn ())" for pid :: int
    using uses_left [OF uses_parsecmd, of "\<lambda>(cmd, b). runcmd b cmd"] by (auto simp: uses_runcmd uses_return split: prod.splits)
  then show ?thesis
    unfolding sh_run_def by (intro uses_left [OF uses_fork1] uses_left [OF _ uses_left [OF uses_0 [OF uses_sysr] uses_return]])
qed

lemma uses_sh_cd: "uses 0 (sh_cd buf)"
  unfolding sh_cd_def Let_def
  by (rule uses_left [OF uses_0 [OF uses_sysr]]) (simp add: uses_fprintf(1) uses_return)

lemma uses_gets_loop: "uses 0 (gets_loop n buf)"
proof (induction n arbitrary: buf)
  case (Suc n)
  show ?case unfolding gets_loop.simps by (rule uses_left [OF uses_0 [OF uses_sys]]) (simp add: Suc uses_return Let_def)
qed (simp add: uses_return)

lemma uses_getcmd: "1 < n \<Longrightarrow> uses 1 (getcmd n)"
proof -
  assume "1 < n"
  then obtain k where "n - 1 = Suc k" by (cases "n - 1") auto
  moreover have "uses 1 (gets_loop (Suc k) [])"
    unfolding gets_loop.simps by (rule uses_left [OF uses_sys]) (simp add: uses_return uses_gets_loop Let_def)
  ultimately have "uses 1 (gets_u n)" by (simp add: gets_u_def)
  then show ?thesis unfolding getcmd_def by (intro uses_right [OF uses_fprintf(1)] uses_left) (auto intro: uses_return)
qed

function sh_loop :: "unit uprog" where
  "sh_loop as =
     ubind (getcmd 100) (\<lambda>rb as1.
       if fst rb < 0 then uexit 0 as1
       else ubind (if is_cd (snd rb) then sh_cd (snd rb) else sh_run (snd rb)) (\<lambda>_ as2. sh_loop as2) as1) as"
  by pat_completeness auto
termination
proof (relation "measure length", simp)
  fix as rb as1 u as2 t1 t2
  assume "getcmd 100 as = (t1, URet rb, as1)" and "\<not> fst rb < 0"
    and m: "(if is_cd (snd rb) then sh_cd (snd rb) else sh_run (snd rb)) as1 = (t2, URet u, as2)"
  then have "length as1 + 1 \<le> length as" using usesD [OF uses_getcmd [of 100], of as t1 rb as1] by simp
  moreover have u: "uses 0 (if is_cd (snd rb) then sh_cd (snd rb) else sh_run (snd rb))" by (simp add: uses_sh_cd uses_sh_run)
  have "length as2 + 0 \<le> length as1" by (rule usesD [OF u m])
  ultimately show "(as2, as) \<in> measure length" by simp
qed

declare sh_loop.simps [simp del]

definition sh_main :: "unit uprog" where
  "sh_main = ubind sh_open (\<lambda>_. sh_loop)"

end
