(* ===== verification/Sh_Parse.thy ===== *)
theory Sh_Parse
  imports Sh
begin

text \<open>
  The parser of the shell: it ends on every line, and the words of a parsed command survive the NUL termination that is done in
  place.
\<close>

section \<open>Positions\<close>

lemma skip_takeWhile: "s \<le> length buf \<Longrightarrow> skip P buf s = s + length (takeWhile P (drop s buf))"
proof (induction P buf s rule: skip.induct)
  case (1 P buf s)
  then show ?case
    by (cases "s < length buf"; subst skip.simps) (auto simp: byte_at_def Cons_nth_drop_Suc [symmetric])
qed

lemma peek_mono: "peek buf s toks = (b, s1) \<Longrightarrow> s \<le> s1"
  by (auto dest: peek_next)

lemma gettoken_mono: "gettoken buf s = (tok, q, eq, s1) \<Longrightarrow> s \<le> s1"
  using gettoken_bounds(1,2,3) by fastforce

lemma parseredirs_stop: "peek buf s (str ''<>'') = (False, s1) \<Longrightarrow> parseredirs buf cmd s = Done (cmd, s1)"
  by (subst parseredirs.simps) simp

lemma parseredirs_step:
  assumes "peek buf s (str ''<>'') = (True, s1)" and "gettoken buf s1 = (tok, q1, eq1, s2)" and "gettoken buf s2 = (tok2, q, eq, s3)"
  shows "parseredirs buf cmd s = (if tok2 \<noteq> of_char CHR ''a'' then Fail ''missing file for redirection'' else parseredirs buf (add_redir tok cmd q eq) s3)"
  by (subst parseredirs.simps) (simp add: assms)

text \<open>A property of the redirections parsed so far, from the loop's own induction.\<close>

lemma parseredirs_induct:
  assumes stop: "\<And>cmd s s1. peek buf s (str ''<>'') = (False, s1) \<Longrightarrow> P cmd s (Done (cmd, s1))"
    and fail: "\<And>cmd s e. P cmd s (Fail e)"
    and step: "\<And>cmd s s1 tok q1 eq1 s2 q eq s3 r. peek buf s (str ''<>'') = (True, s1) \<Longrightarrow> gettoken buf s1 = (tok, q1, eq1, s2) \<Longrightarrow>
      gettoken buf s2 = (of_char CHR ''a'', q, eq, s3) \<Longrightarrow> P (add_redir tok cmd q eq) s3 r \<Longrightarrow> P cmd s r"
  shows "P cmd s (parseredirs buf cmd s)"
proof (induction "length buf - s" arbitrary: cmd s rule: less_induct)
  case less
  obtain b s1 where pk: "peek buf s (str ''<>'') = (b, s1)" by force
  obtain tok q1 eq1 s2 where t1: "gettoken buf s1 = (tok, q1, eq1, s2)" by (metis prod_cases4)
  obtain tok2 q eq s3 where t2: "gettoken buf s2 = (tok2, q, eq, s3)" by (metis prod_cases4)
  show ?case
  proof (cases b)
    case True
    show ?thesis
    proof (cases "tok2 = of_char CHR ''a''")
      case word: True
      have pk': "peek buf s (str ''<>'') = (True, s1)" using pk True by simp
      show ?thesis
        using step [OF pk' t1 t2 [unfolded word] less [OF redir_less [OF pk' t1 t2]]] parseredirs_step [OF pk' t1 t2] word by simp
    qed (use parseredirs_step [OF _ t1 t2] pk True fail in simp)
  qed (use parseredirs_stop stop pk in simp)
qed

section \<open>Words\<close>

primrec words :: "cmd \<Rightarrow> (nat \<times> nat) list" where
  "words (EXEC args) = args"
| "words (REDIR cmd q eq mode fd) = words cmd @ [(q, eq)]"
| "words (PIPE l r) = words l @ words r"
| "words (LIST l r) = words l @ words r"
| "words (BACK cmd) = words cmd"

text \<open>A word is a maximal run of bytes that are neither white space nor symbols.\<close>

definition word_ok :: "u8 list \<Rightarrow> nat \<times> nat \<Rightarrow> bool" where
  "word_ok buf w \<longleftrightarrow> fst w < snd w \<and> snd w \<le> length buf \<and> (\<forall>i. fst w \<le> i \<and> i < snd w \<longrightarrow> is_word (buf ! i)) \<and>
     (snd w < length buf \<longrightarrow> \<not> is_word (buf ! snd w))"

definition words_ok :: "u8 list \<Rightarrow> cmd \<Rightarrow> bool" where
  "words_ok buf cmd \<longleftrightarrow> (\<forall>w \<in> set (words cmd). word_ok buf w)"

text \<open>What the parsers promise: they advance, and the command they return consists of words of the line.\<close>

definition parsed :: "u8 list \<Rightarrow> nat \<Rightarrow> (cmd \<times> nat) pres \<Rightarrow> bool" where
  "parsed buf s r \<longleftrightarrow> (case r of Done (cmd, s1) \<Rightarrow> s \<le> s1 \<and> words_ok buf cmd | Fail e \<Rightarrow> True | Deep \<Rightarrow> False)"

lemma words_ok_simps [simp]:
  "words_ok buf (EXEC [])" "words_ok buf (BACK cmd) = words_ok buf cmd"
  "words_ok buf (PIPE l r) \<longleftrightarrow> words_ok buf l \<and> words_ok buf r" "words_ok buf (LIST l r) \<longleftrightarrow> words_ok buf l \<and> words_ok buf r"
  by (auto simp: words_ok_def)

lemma skip_run:
  assumes "s \<le> i" and "i < skip P buf s"
  shows "i < length buf \<and> P (buf ! i)"
proof -
  have "s < length buf" using assms by (subst (asm) skip.simps) (auto split: if_splits)
  then have j: "i - s < length (takeWhile P (drop s buf))" using assms skip_takeWhile [of s buf P] by simp
  then have "P (takeWhile P (drop s buf) ! (i - s))" using nth_mem set_takeWhileD by metis
  then show ?thesis using j assms(1) length_takeWhile_le [of P "drop s buf"] by (simp add: takeWhile_nth)
qed

lemma gettoken_word:
  assumes "gettoken buf s = (of_char CHR ''a'', q, eq, s1)"
  shows "word_ok buf (q, eq)"
proof -
  have q: "q < eq" "q < length buf" using gettoken_bounds [OF assms] by auto
  have eq: "eq = skip is_word buf q"
    using assms by (auto simp: gettoken_def Let_def str_def split: if_splits)
  have "eq \<le> length buf" using q eq by (metis length_takeWhile_le le_diff_conv2 length_drop less_imp_le nat_add_left_cancel_le skip_takeWhile le_add_diff_inverse)
  then show ?thesis using q eq skip_run [of q _ is_word buf] skip_stops [of is_word buf q] by (auto simp: word_ok_def byte_at_def)
qed

lemma words_ok_redir: "words_ok buf cmd \<Longrightarrow> word_ok buf (q, eq) \<Longrightarrow> words_ok buf (add_redir tok cmd q eq)"
  by (auto simp: words_ok_def add_redir_def)

lemma words_add_arg: "set (words (add_arg cmd a)) \<subseteq> insert a (set (words cmd))"
  by (induction cmd a rule: add_arg.induct) auto

lemma words_ok_arg: "words_ok buf cmd \<Longrightarrow> word_ok buf a \<Longrightarrow> words_ok buf (add_arg cmd a)"
  using words_add_arg by (fastforce simp: words_ok_def)

lemma parsed_from: "s \<le> s1 \<Longrightarrow> parsed buf s1 r \<Longrightarrow> parsed buf s r"
  by (auto simp: parsed_def split: pres.splits)

lemma parsed_pbind:
  assumes "parsed buf s m" and "\<And>cmd s1. m = Done (cmd, s1) \<Longrightarrow> s \<le> s1 \<Longrightarrow> words_ok buf cmd \<Longrightarrow> parsed buf s1 (f (cmd, s1))"
  shows "parsed buf s (pbind m f)"
proof (cases m)
  case (Done x)
  then show ?thesis using assms(1) parsed_from [OF _ assms(2)] by (cases x) (auto simp: parsed_def)
qed (use assms(1) in \<open>auto simp: parsed_def\<close>)

lemma parsed_redirs:
  assumes "words_ok buf cmd"
  shows "parsed buf s (parseredirs buf cmd s)"
proof -
  have "words_ok buf cmd \<longrightarrow> parsed buf s (parseredirs buf cmd s)"
  proof (rule parseredirs_induct [of buf "\<lambda>cmd s r. words_ok buf cmd \<longrightarrow> parsed buf s r"])
    fix cmd s s1 tok q1 eq1 s2 q eq s3 r
    assume "peek buf s (str ''<>'') = (True, s1)" and "gettoken buf s1 = (tok, q1, eq1, s2)"
      and t2: "gettoken buf s2 = (of_char CHR ''a'', q, eq, s3)" and ih: "words_ok buf (add_redir tok cmd q eq) \<longrightarrow> parsed buf s3 r"
    then have "s \<le> s1" "s1 \<le> s2" "s2 \<le> s3" using peek_mono gettoken_mono by blast+
    then show "words_ok buf cmd \<longrightarrow> parsed buf s r"
      using ih words_ok_redir [OF _ gettoken_word [OF t2]] parsed_from [of s s3 buf r] by auto
  qed (auto simp: parsed_def dest: peek_mono)
  then show ?thesis using assms by blast
qed

lemma parsed_words: "words_ok buf cmd \<Longrightarrow> parsed buf s (exec_words buf cmd argc s)"
proof (induction buf cmd argc s rule: exec_words.induct)
  case (1 buf cmd argc s)
  obtain b s1 where pk: "peek buf s (str ''|)&;'') = (b, s1)" by force
  obtain tok q eq s2 where tk: "gettoken buf s1 = (tok, q, eq, s2)" by (metis prod_cases4)
  have s2: "s \<le> s1" "s \<le> s2" using peek_mono [OF pk] gettoken_mono [OF tk] by auto
  have "parsed buf s2 (pbind (parseredirs buf (add_arg cmd (q, eq)) s2) (\<lambda>(cmd2, s3). exec_words buf cmd2 (argc + 1) s3))"
    if w: "\<not> b" "tok \<noteq> 0" "tok = of_char CHR ''a''" "\<not> argc + 1 \<ge> MAXARGS"
  proof (rule parsed_pbind [OF parsed_redirs])
    show "words_ok buf (add_arg cmd (q, eq))" using words_ok_arg [OF 1(2) gettoken_word] tk w(3) by simp
  next
    fix cmd2 s3
    assume "parseredirs buf (add_arg cmd (q, eq)) s2 = Done (cmd2, s3)" "words_ok buf cmd2"
    then show "parsed buf s3 (case (cmd2, s3) of (cmd2, s3) \<Rightarrow> exec_words buf cmd2 (argc + 1) s3)"
      using 1(1) [OF pk [symmetric] w(1) tk [symmetric] refl refl w(2) _ w(4)] w(3) by simp
  qed
  note step = parsed_from [OF s2(2) this]
  show ?case
    unfolding exec_words.simps [of buf cmd argc s] pk prod.case tk using 1(2) s2 step
    by (cases "b \<or> tok = 0 \<or> tok \<noteq> of_char CHR ''a'' \<or> argc + 1 \<ge> MAXARGS") (auto simp: parsed_def [of buf s "Done _"] parsed_def [of buf s "Fail _"])
qed

lemma parsed_amps: "words_ok buf cmd \<Longrightarrow> parse_amps buf cmd s = (cmd1, s1) \<Longrightarrow> s \<le> s1 \<and> words_ok buf cmd1"
proof (induction "length buf - s" arbitrary: cmd s rule: less_induct)
  case less
  obtain b s2 where pk: "peek buf s (str ''&'') = (b, s2)" by force
  obtain tok q eq s3 where tk: "gettoken buf s2 = (tok, q, eq, s3)" by (metis prod_cases4)
  show ?case
  proof (cases b)
    case True
    then have "length buf - s3 < length buf - s" "s \<le> s3" using token_less gettoken_mono [OF tk] peek_mono [OF pk] pk tk by auto
    moreover have "parse_amps buf (BACK cmd) s3 = (cmd1, s1)"
      using less(3) True by (subst (asm) parse_amps.simps) (simp add: pk tk)
    ultimately show ?thesis using less(1) [of s3 "BACK cmd"] less(2) by simp
  next
    case False
    then have "(cmd1, s1) = (cmd, s2)" using less(3) pk by (subst (asm) parse_amps.simps) simp
    then show ?thesis using less(2) peek_mono [OF pk] by simp
  qed
qed

text \<open>One level of the grammar, given what the next level does here and this level does later on.\<close>

lemma parsed_line:
  assumes "parsed buf s (parsepipe n buf s)" and later: "\<And>s'. length buf - s' < length buf - s \<Longrightarrow> parsed buf s' (parseline n buf s')"
  shows "parsed buf s (parseline (Suc n) buf s)"
  unfolding parseline.simps
proof (rule parsed_pbind [OF assms(1)])
  fix cmd s1
  assume s1: "s \<le> s1" and ok: "words_ok buf cmd"
  obtain cmd1 s2 where am: "parse_amps buf cmd s1 = (cmd1, s2)" by force
  obtain b s3 where pk: "peek buf s2 (str '';'') = (b, s3)" by force
  obtain tok q eq s4 where tk: "gettoken buf s3 = (tok, q, eq, s4)" by (metis prod_cases4)
  have s2: "s1 \<le> s2" "words_ok buf cmd1" "s2 \<le> s3" "s3 \<le> s4"
    using parsed_amps [OF ok am] peek_mono [OF pk] gettoken_mono [OF tk] by auto
  have "parsed buf s4 (pbind (parseline n buf s4) (\<lambda>(right, s5). Done (LIST cmd1 right, s5)))" if b
  proof (rule parsed_pbind [OF later])
    show "length buf - s4 < length buf - s" using token_less [OF _ tk, of s2] pk that s1 s2(1) by fastforce
  qed (simp add: parsed_def s2(2))
  then show "parsed buf s1 (case (cmd, s1) of (cmd, s1) \<Rightarrow> case parse_amps buf cmd s1 of (cmd1, s2) \<Rightarrow> case peek buf s2 (str '';'') of (b, s3) \<Rightarrow>
      if b then case gettoken buf s3 of (tok, q, eq, s4) \<Rightarrow> pbind (parseline n buf s4) (\<lambda>(right, s5). Done (LIST cmd1 right, s5)) else Done (cmd1, s3))"
    using s2 parsed_from [of s1 s4] by (cases b) (simp_all add: am pk tk, simp add: parsed_def)
qed

lemma parsed_pipe:
  assumes "parsed buf s (parseexec n buf s)" and later: "\<And>s'. length buf - s' < length buf - s \<Longrightarrow> parsed buf s' (parsepipe n buf s')"
  shows "parsed buf s (parsepipe (Suc n) buf s)"
  unfolding parsepipe.simps
proof (rule parsed_pbind [OF assms(1)])
  fix cmd s1
  assume s1: "s \<le> s1" and ok: "words_ok buf cmd"
  obtain b s2 where pk: "peek buf s1 (str ''|'') = (b, s2)" by force
  obtain tok q eq s3 where tk: "gettoken buf s2 = (tok, q, eq, s3)" by (metis prod_cases4)
  have s2: "s1 \<le> s2" "s2 \<le> s3" using peek_mono [OF pk] gettoken_mono [OF tk] by auto
  have "parsed buf s3 (pbind (parsepipe n buf s3) (\<lambda>(right, s4). Done (PIPE cmd right, s4)))" if b
  proof (rule parsed_pbind [OF later])
    show "length buf - s3 < length buf - s" using token_less [OF _ tk, of s1] pk that s1 by fastforce
  qed (simp add: parsed_def ok)
  then show "parsed buf s1 (case (cmd, s1) of (cmd, s1) \<Rightarrow> case peek buf s1 (str ''|'') of (b, s2) \<Rightarrow>
      if b then case gettoken buf s2 of (tok, q, eq, s3) \<Rightarrow> pbind (parsepipe n buf s3) (\<lambda>(right, s4). Done (PIPE cmd right, s4)) else Done (cmd, s2))"
    using s2 ok parsed_from [of s1 s3] by (cases b) (simp_all add: pk tk, simp add: parsed_def)
qed

lemma parsed_exec:
  assumes "\<And>s'. s \<le> s' \<Longrightarrow> parsed buf s' (parseblock n buf s')"
  shows "parsed buf s (parseexec (Suc n) buf s)"
proof -
  obtain b s1 where pk: "peek buf s (str ''('') = (b, s1)" by force
  have "parsed buf s1 (pbind (parseredirs buf (EXEC []) s1) (\<lambda>(cmd, s2). exec_words buf cmd 0 s2))"
    by (rule parsed_pbind) (auto intro: parsed_redirs parsed_words)
  then show ?thesis using parsed_from [OF peek_mono [OF pk]] assms peek_mono [OF pk] by (simp add: pk)
qed

lemma parsed_block:
  assumes "\<And>s'. length buf - s' < length buf - s \<Longrightarrow> parsed buf s' (parseline n buf s')"
  shows "parsed buf s (parseblock (Suc n) buf s)"
proof -
  obtain b s1 where pk: "peek buf s (str ''('') = (b, s1)" by force
  obtain tok q eq s2 where tk: "gettoken buf s1 = (tok, q, eq, s2)" by (metis prod_cases4)
  have s2: "s \<le> s2" using peek_mono [OF pk] gettoken_mono [OF tk] by simp
  have "parsed buf s2 (pbind (parseline n buf s2) (\<lambda>(cmd, s3). case peek buf s3 (str '')'') of (b2, s4) \<Rightarrow>
      if \<not> b2 then Fail ''syntax - missing )'' else case gettoken buf s4 of (tok2, q2, eq2, s5) \<Rightarrow> parseredirs buf cmd s5))" if b
  proof (rule parsed_pbind [OF assms])
    show "length buf - s2 < length buf - s" using token_less [OF _ tk, of s] pk that by simp
  next
    fix cmd s3
    assume ok: "words_ok buf cmd"
    obtain b2 s4 where pk2: "peek buf s3 (str '')'') = (b2, s4)" by force
    obtain tok2 q2 eq2 s5 where tk2: "gettoken buf s4 = (tok2, q2, eq2, s5)" by (metis prod_cases4)
    have "s3 \<le> s5" using peek_mono [OF pk2] gettoken_mono [OF tk2] by simp
    then show "parsed buf s3 (case (cmd, s3) of (cmd, s3) \<Rightarrow> case peek buf s3 (str '')'') of (b2, s4) \<Rightarrow>
        if \<not> b2 then Fail ''syntax - missing )'' else case gettoken buf s4 of (tok2, q2, eq2, s5) \<Rightarrow> parseredirs buf cmd s5)"
      using parsed_from [OF _ parsed_redirs [OF ok]] by (cases b2) (simp_all add: pk2 tk2, simp add: parsed_def)
  qed
  then show ?thesis using parsed_from [OF s2] by (cases b) (simp_all add: pk tk, simp add: parsed_def)
qed

text \<open>With the depth that \<open>depth_bound\<close> allows for, every parser returns; each level of the grammar costs one.\<close>

lemma parsers_parsed:
  "(4 * (length buf - s) + 4 \<le> n \<longrightarrow> parsed buf s (parseline n buf s)) \<and>
   (4 * (length buf - s) + 3 \<le> n \<longrightarrow> parsed buf s (parsepipe n buf s)) \<and>
   (4 * (length buf - s) + 2 \<le> n \<longrightarrow> parsed buf s (parseexec n buf s)) \<and>
   (4 * (length buf - s) + 1 \<le> n \<longrightarrow> parsed buf s (parseblock n buf s))"
proof (induction n arbitrary: s)
  case (Suc n)
  show ?case
    by (intro conjI impI parsed_line parsed_pipe parsed_exec parsed_block) (use Suc in \<open>auto intro: le_trans\<close>)
qed simp

text \<open>More depth does not change a result.\<close>

lemma pbind_deeper:
  assumes "pbind m f \<noteq> Deep" and "m \<noteq> Deep \<Longrightarrow> m' = m" and "\<And>x. m = Done x \<Longrightarrow> f x \<noteq> Deep \<Longrightarrow> f' x = f x"
  shows "pbind m' f' = pbind m f"
  using assms by (cases m) auto

lemma parsers_deeper:
  "(parseline n buf s \<noteq> Deep \<longrightarrow> parseline (Suc n) buf s = parseline n buf s) \<and>
   (parsepipe n buf s \<noteq> Deep \<longrightarrow> parsepipe (Suc n) buf s = parsepipe n buf s) \<and>
   (parseexec n buf s \<noteq> Deep \<longrightarrow> parseexec (Suc n) buf s = parseexec n buf s) \<and>
   (parseblock n buf s \<noteq> Deep \<longrightarrow> parseblock (Suc n) buf s = parseblock n buf s)"
proof (induction n arbitrary: s)
  case (Suc n)
  note [simp del] = parseline.simps parsepipe.simps parseexec.simps parseblock.simps
  note ih = Suc [THEN conjunct1, THEN mp] Suc [THEN conjunct2, THEN conjunct1, THEN mp]
    Suc [THEN conjunct2, THEN conjunct2, THEN conjunct1, THEN mp] Suc [THEN conjunct2, THEN conjunct2, THEN conjunct2, THEN mp]
  have line: "parseline (Suc (Suc n)) buf s = parseline (Suc n) buf s" if "parseline (Suc n) buf s \<noteq> Deep"
    using that unfolding parseline.simps(2) [of "Suc n" buf s] parseline.simps(2) [of n buf s]
    by (rule pbind_deeper) (auto split: prod.split if_split_asm intro!: ih pbind_deeper)
  have pipe: "parsepipe (Suc (Suc n)) buf s = parsepipe (Suc n) buf s" if "parsepipe (Suc n) buf s \<noteq> Deep"
    using that unfolding parsepipe.simps(2) [of "Suc n" buf s] parsepipe.simps(2) [of n buf s]
    by (rule pbind_deeper) (auto split: prod.split if_split_asm intro!: ih pbind_deeper)
  have exec: "parseexec (Suc (Suc n)) buf s = parseexec (Suc n) buf s" if "parseexec (Suc n) buf s \<noteq> Deep"
    using that unfolding parseexec.simps(2) [of "Suc n" buf s] parseexec.simps(2) [of n buf s] by (auto split: prod.split if_split_asm intro!: ih)
  have block: "parseblock (Suc (Suc n)) buf s = parseblock (Suc n) buf s" if "parseblock (Suc n) buf s \<noteq> Deep"
    using that unfolding parseblock.simps(2) [of "Suc n" buf s] parseblock.simps(2) [of n buf s] by (auto split: prod.split if_split_asm intro!: ih pbind_deeper)
  show ?case using line pipe exec block by blast
qed simp

lemma parseline_parsed: "parsed buf 0 (parseline (depth_bound buf) buf 0)"
  using parsers_parsed [of buf 0 "depth_bound buf"] by (simp add: depth_bound_def)

lemma parsed_not_Deep: "parsed buf s r \<Longrightarrow> r \<noteq> Deep"
  by (auto simp: parsed_def)

lemma parseline_depth: "parseline (depth_bound buf + k) buf 0 = parseline (depth_bound buf) buf 0"
proof (induction k)
  case (Suc k)
  then show ?case using parsers_deeper [of "depth_bound buf + k" buf 0] parsed_not_Deep [OF parseline_parsed] by simp
qed simp

text \<open>
  C37. The recursive descent of the shell's parser ends on every command line: with the depth that the length of the line allows for, it
  returns a command or panics, and a greater depth gives the same result.
\<close>

theorem shell_parser_terminates:
  "parseline (depth_bound buf) buf 0 \<noteq> Deep \<and> parseline (depth_bound buf + k) buf 0 = parseline (depth_bound buf) buf 0"
  by (simp add: parseline_depth parsed_not_Deep [OF parseline_parsed])

section \<open>NUL termination\<close>

lemma nul_args:
  "length (foldl (\<lambda>b (q, eq). b[eq := 0]) buf args) = length buf"
  "i < length buf \<Longrightarrow> foldl (\<lambda>b (q, eq). b[eq := (0 :: u8)]) buf args ! i = (if i \<in> snd ` set args then 0 else buf ! i)"
  by (induction args arbitrary: buf) (simp_all add: nth_list_update split_beta)

lemma nulterminate_length [simp]: "length (nulterminate cmd buf) = length buf"
  by (induction cmd arbitrary: buf) (auto simp: nul_args)

lemma nth_upd: "i < length xs \<Longrightarrow> xs[j := x] ! i = (if j = i then x else xs ! i)"
  by auto

lemma nulterminate_nth: "i < length buf \<Longrightarrow> nulterminate cmd buf ! i = (if i \<in> snd ` set (words cmd) then 0 else buf ! i)"
  by (induction cmd arbitrary: buf) (simp_all add: nul_args nth_upd image_Un)

lemma take_strlen: "take (strlen_u s) s = takeWhile (\<lambda>b. b \<noteq> 0) s"
  by (induction s) auto

lemma cstr_at_nth:
  assumes "q \<le> e" and "e < length b" and "b ! e = 0" and "\<And>i. q \<le> i \<Longrightarrow> i < e \<Longrightarrow> b ! i \<noteq> 0"
  shows "cstr_at b q = take (e - q) (drop q b)"
proof -
  have "drop q b = take (e - q) (drop q b) @ b ! e # drop (Suc e) b"
    using assms(1,2) by (metis Cons_nth_drop_Suc append_take_drop_id drop_drop le_add_diff_inverse2)
  moreover have "\<forall>c \<in> set (take (e - q) (drop q b)). c \<noteq> 0" using assms by (auto simp: in_set_conv_nth)
  ultimately show ?thesis unfolding cstr_at_def using assms(3) by (metis (mono_tags, lifting) takeWhile_eq_all_conv takeWhile_tail)
qed

text \<open>No end of a word lies within another: there is no word byte there.\<close>

lemma word_kept:
  assumes ok: "words_ok buf cmd" and w: "(q, e) \<in> set (words cmd)" and z: "0 \<notin> set buf"
  shows "cstr_at (nulterminate cmd (buf @ [0])) q = take (e - q) (drop q buf)"
proof -
  have q: "q < e" "e \<le> length buf" "\<And>i. q \<le> i \<Longrightarrow> i < e \<Longrightarrow> is_word (buf ! i)" using ok w by (auto simp: words_ok_def word_ok_def)
  have out: "i \<notin> snd ` set (words cmd)" if "q \<le> i" "i < e" for i
    using ok q(2,3) that by (fastforce simp: words_ok_def word_ok_def)
  let ?b = "nulterminate cmd (buf @ [0])"
  have b: "?b ! i = buf ! i" if "q \<le> i" "i < e" for i using out [OF that] that q(2) by (simp add: nulterminate_nth nth_append)
  have "cstr_at ?b q = take (e - q) (drop q ?b)"
  proof (rule cstr_at_nth)
    show "?b ! e = 0" using w q(2) by (force simp: nulterminate_nth)
    show "?b ! i \<noteq> 0" if "q \<le> i" "i < e" for i using b [OF that] that q(2) z by (metis less_le_trans nth_mem)
  qed (use q in auto)
  also have "\<dots> = take (e - q) (drop q buf)" by (rule nth_equalityI) (use q b in auto)
  finally show ?thesis .
qed

lemma parsecmd_Ret:
  assumes "parsecmd s as = (t, URet (cmd, b), as1)"
  obtains s1 where "parseline (depth_bound (take (strlen_u s) s)) (take (strlen_u s) s) 0 = Done (cmd, s1)"
    "b = nulterminate cmd (take (strlen_u s) s @ [0])" "t = []" "as1 = as"
proof -
  have "stops (sh_panic m :: (cmd \<times> u8 list) uprog)" "stops (ubind (fprintf_u 2 fmt args) (\<lambda>_. sh_panic m) :: (cmd \<times> u8 list) uprog)" for m fmt args
    by (intro stops_intros)+
  then show thesis
    using assms that by (auto simp: parsecmd_def Let_def ucrash_def ureturn_def stops_def split: pres.splits prod.splits if_splits)
qed

text \<open>
  C36. After \<open>parsecmd\<close> every word of the command, argument or file name, is exactly the text between the ends the tokenizer
  found: the NULs that are written into the line in place never cut another word. A word is not empty and contains
  neither white space nor symbols.
\<close>

theorem shell_words_intact:
  assumes "parsecmd s as = (t, URet (cmd, b), as1)" and "(q, e) \<in> set (words cmd)"
  shows "cstr_at b q = take (e - q) (drop q s) \<and> cstr_at b q \<noteq> [] \<and> (\<forall>c \<in> set (cstr_at b q). is_word c)"
proof -
  let ?buf = "take (strlen_u s) s"
  obtain s1 where p: "parseline (depth_bound ?buf) ?buf 0 = Done (cmd, s1)" "b = nulterminate cmd (?buf @ [0])"
    using assms(1) by (rule parsecmd_Ret)
  have ok: "words_ok ?buf cmd" using parseline_parsed [of ?buf] p(1) by (simp add: parsed_def)
  have z: "0 \<notin> set ?buf" unfolding take_strlen by (auto dest: set_takeWhileD)
  have q: "q < e" "e \<le> length ?buf" "\<forall>i. q \<le> i \<and> i < e \<longrightarrow> is_word (?buf ! i)" using ok assms(2) by (auto simp: words_ok_def word_ok_def)
  have c: "cstr_at b q = take (e - q) (drop q ?buf)" using word_kept [OF ok assms(2) z] p(2) by simp
  moreover have "take (e - q) (drop q ?buf) = take (e - q) (drop q s)" using q(1,2) by (simp add: drop_take min_absorb1 diff_le_mono)
  moreover have "\<forall>c \<in> set (take (e - q) (drop q ?buf)). is_word c" using q by (auto simp: in_set_conv_nth)
  moreover have "take (e - q) (drop q ?buf) \<noteq> []" using q(1,2) by (auto simp: min_def)
  ultimately show ?thesis by simp
qed

text \<open>The line \<open>cat <in|(wc;ls)>out&\<close>.\<close>

definition sample_line :: "u8 list" where
  "sample_line = str (''cat <in|(wc;ls)>out&'' @ [CHR 10])"

definition sample_cmd :: cmd where
  "sample_cmd = BACK (PIPE (REDIR (EXEC [(0, 3)]) 5 7 0 0) (REDIR (LIST (EXEC [(9, 11)]) (EXEC [(12, 14)])) 16 19 (O_WRONLY OR O_CREATE OR O_TRUNC) 1))"

lemma sample_parsed: "parsecmd sample_line [] = ([], URet (sample_cmd, nulterminate sample_cmd (sample_line @ [0])), [])"
  by code_simp

theorem shell_words_intact_witness:
  "(5, 7) \<in> set (words sample_cmd) \<and> cstr_at (nulterminate sample_cmd (sample_line @ [0])) 5 = take (7 - 5) (drop 5 sample_line) \<and>
   take (7 - 5) (drop 5 sample_line) = str ''in''"
  using shell_words_intact [OF sample_parsed, of 5 7] by (simp add: sample_cmd_def sample_line_def str_def)

end
