(* ===== verification/Sh_Roundtrip.thy ===== *)
theory Sh_Roundtrip
  imports Sh_Parse
begin

text \<open>
  Every command of the shell, whatever the nesting of its lists, pipes, redirections and background parts, can be written as a line that
  \<open>parsecmd\<close> parses back into it.
\<close>

section \<open>Commands and their text\<close>

datatype redirection = RIn | ROut | RApp

datatype shell =
    Run "u8 list list"
  | Redirect shell redirection "u8 list"
  | Piped shell shell
  | Seq shell shell
  | Background shell

primrec redir_op :: "redirection \<Rightarrow> u8 list" where
  "redir_op RIn = [60]"
| "redir_op ROut = [62]"
| "redir_op RApp = [62, 62]"

primrec redir_mode :: "redirection \<Rightarrow> u32" where
  "redir_mode RIn = 0"
| "redir_mode ROut = O_WRONLY OR O_CREATE OR O_TRUNC"
| "redir_mode RApp = O_WRONLY OR O_CREATE"

primrec redir_fd :: "redirection \<Rightarrow> int" where
  "redir_fd RIn = 0"
| "redir_fd ROut = 1"
| "redir_fd RApp = 1"

primrec render :: "shell \<Rightarrow> u8 list" where
  "render (Run ws) = concat (map (\<lambda>w. w @ [32]) ws)"
| "render (Redirect c k w) = [40] @ render c @ [41] @ redir_op k @ w @ [32]"
| "render (Piped l r) = [40] @ render l @ [41, 124, 40] @ render r @ [41]"
| "render (Seq l r) = [40] @ render l @ [41, 59, 40] @ render r @ [41]"
| "render (Background c) = [40] @ render c @ [41, 38]"

definition good_word :: "u8 list \<Rightarrow> bool" where
  "good_word w \<longleftrightarrow> w \<noteq> [] \<and> (\<forall>b \<in> set w. is_word b \<and> b \<noteq> 0)"

primrec writable_cmd :: "shell \<Rightarrow> bool" where
  "writable_cmd (Run ws) \<longleftrightarrow> length ws < MAXARGS \<and> (\<forall>w \<in> set ws. good_word w)"
| "writable_cmd (Redirect c k w) \<longleftrightarrow> writable_cmd c \<and> good_word w"
| "writable_cmd (Piped l r) \<longleftrightarrow> writable_cmd l \<and> writable_cmd r"
| "writable_cmd (Seq l r) \<longleftrightarrow> writable_cmd l \<and> writable_cmd r"
| "writable_cmd (Background c) \<longleftrightarrow> writable_cmd c"

text \<open>A parsed command means a command when its words, as \<open>f\<close> reads them, are those of the command.\<close>

fun means :: "(nat \<times> nat \<Rightarrow> u8 list) \<Rightarrow> cmd \<Rightarrow> shell \<Rightarrow> bool" where
  "means f (EXEC args) (Run ws) \<longleftrightarrow> map f args = ws"
| "means f (REDIR cmd q eq mode fd) (Redirect c k w) \<longleftrightarrow> means f cmd c \<and> f (q, eq) = w \<and> mode = redir_mode k \<and> fd = redir_fd k"
| "means f (PIPE l r) (Piped c d) \<longleftrightarrow> means f l c \<and> means f r d"
| "means f (LIST l r) (Seq c d) \<longleftrightarrow> means f l c \<and> means f r d"
| "means f (BACK cmd) (Background c) \<longleftrightarrow> means f cmd c"
| "means f _ _ \<longleftrightarrow> False"

lemma means_cong: "means f cmd c \<Longrightarrow> (\<And>w. w \<in> set (words cmd) \<Longrightarrow> g w = f w) \<Longrightarrow> means g cmd c"
  by (induction f cmd c rule: means.induct) auto

section \<open>Tokens at a position\<close>

definition tight :: "u8 list \<Rightarrow> bool" where
  "tight post \<longleftrightarrow> post = [] \<or> \<not> is_ws (hd post) \<and> hd post \<noteq> 0"

lemma skip_at: "skip P (pre @ post) (length pre) = length pre + length (takeWhile P post)"
  by (simp add: skip_takeWhile)

lemma skip_tight: "tight post \<Longrightarrow> skip is_ws (pre @ post) (length pre) = length pre"
  using skip_at [of is_ws pre post] by (cases post) (auto simp: tight_def)

lemma byte_at_append: "byte_at (pre @ post) (length pre) = (if post = [] then 0 else hd post)"
  by (cases post) (auto simp: byte_at_def nth_append)

lemma peek_at: "tight post \<Longrightarrow> peek (pre @ post) (length pre) toks = (post \<noteq> [] \<and> strchr_u toks (hd post) \<noteq> None, length pre)"
  by (auto simp: peek_def Let_def skip_tight byte_at_append tight_def)

lemma gettoken_end: "gettoken pre (length pre) = (0, length pre, length pre, length pre)"
  using skip_tight [of "[]" pre] byte_at_append [of pre "[]"] by (simp add: gettoken_def Let_def tight_def)

lemma gettoken_symbol:
  assumes "c \<in> set (str ''|();&<'')" and "tight post"
  shows "gettoken (pre @ c # post) (length pre) = (c, length pre, Suc (length pre), Suc (length pre))"
proof -
  have "tight (c # post)" using assms(1) by (auto simp: tight_def is_ws_def whitespace_def str_def)
  moreover have "c \<noteq> 0" using assms(1) by (auto simp: str_def)
  ultimately show ?thesis
    using assms skip_tight [of "c # post" pre] skip_tight [of post "pre @ [c]"] by (simp add: gettoken_def Let_def byte_at_append)
qed

lemma gettoken_to:
  assumes "tight post" and "post \<noteq> []" and "hd post \<noteq> 62"
  shows "gettoken (pre @ 62 # post) (length pre) = (62, length pre, Suc (length pre), Suc (length pre))"
proof -
  have "tight (62 # post)" by (auto simp: tight_def is_ws_def whitespace_def)
  then show ?thesis
    using assms skip_tight [of "62 # post" pre] skip_tight [of post "pre @ [62]"] byte_at_append [of "pre @ [62]" post]
    by (simp add: gettoken_def Let_def byte_at_append str_def)
qed

lemma gettoken_append:
  assumes "tight post"
  shows "gettoken (pre @ 62 # 62 # post) (length pre) = (43, length pre, Suc (Suc (length pre)), Suc (Suc (length pre)))"
proof -
  have "tight (62 # 62 # post)" by (auto simp: tight_def is_ws_def whitespace_def)
  then show ?thesis
    using assms skip_tight [of "62 # 62 # post" pre] skip_tight [of post "pre @ [62, 62]"] byte_at_append [of "pre @ [62]" "62 # post"]
    by (simp add: gettoken_def Let_def byte_at_append str_def)
qed

lemma good_word_head:
  assumes "good_word w"
  shows "tight (w @ post)" "hd w \<notin> set (str ''|();&<>'')" "hd w \<noteq> 0"
  using assms by (cases w; auto simp: good_word_def tight_def is_word_def is_ws_def symbols_def str_def split: if_splits)+

lemma gettoken_text:
  assumes "good_word w" and "tight post"
  shows "gettoken (pre @ w @ 32 # post) (length pre) = (97, length pre, length pre + length w, Suc (length pre + length w))"
proof -
  have w: "takeWhile is_word (w @ 32 # post) = w"
    using assms(1) by (auto simp: good_word_def takeWhile_append is_word_def whitespace_def)
  have "takeWhile is_ws (32 # post) = [32]" using assms(2) by (cases post) (auto simp: tight_def is_ws_def whitespace_def)
  then have "skip is_ws (pre @ w @ 32 # post) (length pre + length w) = Suc (length pre + length w)"
    using skip_at [of is_ws "pre @ w" "32 # post"] by simp
  moreover have "w \<noteq> []" using assms(1) by (simp add: good_word_def)
  ultimately show ?thesis
    using good_word_head [OF assms(1)] skip_tight [OF good_word_head(1) [OF assms(1)], of pre] skip_at [of is_word pre "w @ 32 # post"] w
    by (simp add: gettoken_def Let_def byte_at_append str_def)
qed

section \<open>Parsing the text of a command\<close>

text \<open>What follows a command: the end of the line or a closing parenthesis.\<close>

definition closed :: "u8 list \<Rightarrow> bool" where
  "closed post \<longleftrightarrow> post = [] \<or> hd post = 41"

lemma closed_tight: "closed post \<Longrightarrow> tight post"
  by (auto simp: closed_def tight_def is_ws_def whitespace_def)

lemma tight_symbol: "tight (40 # post)" "tight (41 # post)" "tight (124 # post)" "tight (59 # post)" "tight (38 # post)" "tight (60 # post)" "tight (62 # post)"
  by (auto simp: tight_def is_ws_def whitespace_def)

lemma tight_render: "writable_cmd c \<Longrightarrow> closed post \<Longrightarrow> tight (render c @ post)"
proof (cases c)
  case (Run ws)
  assume "writable_cmd c" "closed post"
  then show ?thesis using Run good_word_head(1) closed_tight by (cases ws) auto
qed (auto simp: tight_symbol)

lemma parseredirs_none:
  assumes "tight post" and "post = [] \<or> hd post \<noteq> 60 \<and> hd post \<noteq> 62"
  shows "parseredirs (pre @ post) cmd (length pre) = Done (cmd, length pre)"
  using assms by (intro parseredirs_stop) (auto simp: peek_at str_def)

fun spans :: "nat \<Rightarrow> u8 list list \<Rightarrow> (nat \<times> nat) list" where
  "spans k [] = []"
| "spans k (w # ws) = (k, k + length w) # spans (Suc (k + length w)) ws"

definition slice :: "u8 list \<Rightarrow> nat \<times> nat \<Rightarrow> u8 list" where
  "slice buf w = take (snd w - fst w) (drop (fst w) buf)"

lemma slice_spans: "map (slice (pre @ render (Run ws) @ post)) (spans (length pre) ws) = ws"
proof (induction ws arbitrary: pre)
  case (Cons w ws)
  then show ?case using Cons [of "pre @ w @ [32]"] by (simp add: slice_def)
qed simp

lemma exec_words_run:
  assumes "\<forall>w \<in> set ws. good_word w" and "argc + length ws < MAXARGS" and "closed post"
  shows "exec_words (pre @ render (Run ws) @ post) (EXEC args) argc (length pre) =
    Done (EXEC (args @ spans (length pre) ws), length (pre @ render (Run ws)))"
  using assms
proof (induction ws arbitrary: pre argc args)
  case Nil
  then show ?case
    using peek_at [OF closed_tight [OF Nil(3)], of pre "str ''|)&;''"] gettoken_end [of pre]
    by (subst exec_words.simps) (cases post, auto simp: closed_def str_def)
next
  case (Cons w ws)
  let ?rest = "render (Run ws) @ post"
  have w: "good_word w" and t: "tight ?rest" using Cons.prems tight_render [of "Run ws" post] by auto
  have pk: "peek (pre @ w @ 32 # ?rest) (length pre) (str ''|)&;'') = (False, length pre)"
    using peek_at [OF good_word_head(1) [OF w], of pre "32 # ?rest"] good_word_head(2) [OF w] w by (auto simp: good_word_def str_def)
  have h: "?rest = [] \<or> hd ?rest \<noteq> 60 \<and> hd ?rest \<noteq> 62"
    using Cons.prems good_word_head(2) by (cases ws) (auto simp: closed_def good_word_def str_def hd_append)
  have rd: "parseredirs (pre @ w @ 32 # ?rest) (EXEC (args @ [(length pre, length pre + length w)])) (Suc (length pre + length w)) =
      Done (EXEC (args @ [(length pre, length pre + length w)]), Suc (length pre + length w))"
    using parseredirs_none [OF t h, of "pre @ w @ [32]"] by simp
  show ?case
    using Cons.IH [of "Suc argc" "pre @ w @ [32]"] Cons.prems pk rd gettoken_text [OF w t, of pre]
    by (subst exec_words.simps) simp
qed

lemma parse_run:
  assumes "writable_cmd (Run ws)" and "closed post"
  shows "parseexec (Suc n) (pre @ render (Run ws) @ post) (length pre) = Done (EXEC (spans (length pre) ws), length (pre @ render (Run ws)))"
proof -
  let ?rest = "render (Run ws) @ post"
  have t: "tight ?rest" using tight_render [OF assms] .
  have h: "?rest = [] \<or> hd ?rest \<noteq> 60 \<and> hd ?rest \<noteq> 62 \<and> hd ?rest \<noteq> 40"
    using assms good_word_head(2) by (cases ws) (auto simp: closed_def good_word_def str_def hd_append)
  have "peek (pre @ ?rest) (length pre) (str ''('') = (False, length pre)" using peek_at [OF t] h by (auto simp: str_def)
  then show ?thesis
    using parseredirs_none [OF t, of pre "EXEC []"] h exec_words_run [of ws 0 post pre "[]"] assms by auto
qed

lemma parse_block:
  assumes buf: "buf = pre @ 40 # txt @ 41 # rest" and "tight (txt @ 41 # rest)" and "tight rest"
    and line: "parseline n buf (Suc (length pre)) = Done (cmd, Suc (length pre + length txt))"
  shows "parseexec (Suc (Suc n)) buf (length pre) = parseredirs buf cmd (length pre + length txt + 2)"
proof -
  have o: "peek buf (length pre) (str ''('') = (True, length pre)"
    using peek_at [OF tight_symbol(1), of pre "txt @ 41 # rest" "str ''(''"] by (simp add: buf str_def)
  have g: "gettoken buf (length pre) = (40, length pre, Suc (length pre), Suc (length pre))"
    using gettoken_symbol [OF _ assms(2), of 40 pre] by (simp add: buf str_def)
  have c: "peek buf (Suc (length pre + length txt)) (str '')'') = (True, Suc (length pre + length txt))"
    using peek_at [OF tight_symbol(2), of "pre @ 40 # txt" rest "str '')''"] by (simp add: buf str_def)
  have d: "gettoken buf (Suc (length pre + length txt)) = (41, Suc (length pre + length txt), length pre + length txt + 2, length pre + length txt + 2)"
    using gettoken_symbol [OF _ assms(3), of 41 "pre @ 40 # txt"] by (simp add: buf str_def)
  show ?thesis by (simp add: o g line c d)
qed

lemma parsepipe_end:
  assumes "parseexec n (pre @ post) s = Done (cmd, length pre)" and "tight post" and "post = [] \<or> hd post \<noteq> 124"
  shows "parsepipe (Suc n) (pre @ post) s = Done (cmd, length pre)"
  using assms by (auto simp: peek_at str_def)

lemma amps_none:
  assumes "tight post" and "post = [] \<or> hd post \<noteq> 38"
  shows "parse_amps (pre @ post) cmd (length pre) = (cmd, length pre)"
  using assms by (subst parse_amps.simps) (auto simp: peek_at str_def)

lemma amps_one:
  assumes "closed post"
  shows "parse_amps (pre @ 38 # post) cmd (length pre) = (BACK cmd, Suc (length pre))"
  using assms closed_tight [OF assms] amps_none [of post "pre @ [38]" "BACK cmd"] gettoken_symbol [of 38 post pre]
  by (subst parse_amps.simps) (auto simp: peek_at tight_symbol str_def closed_def)

lemma parseline_end:
  assumes "parsepipe n (pre @ post) s = Done (cmd, length pre)" and "closed post"
  shows "parseline (Suc n) (pre @ post) s = Done (cmd, length pre)"
  using assms closed_tight [OF assms(2)] amps_none [of post pre cmd] peek_at [OF closed_tight [OF assms(2)], of pre "str '';''"]
  by (auto simp: str_def closed_def)

text \<open>A command in parentheses, up to what follows it.\<close>

lemma parse_paren:
  assumes line: "parseline n (pre @ 40 # txt @ 41 # rest) (Suc (length pre)) = Done (cmd, Suc (length pre + length txt))"
    and "tight (txt @ 41 # rest)" and "tight rest" and "rest = [] \<or> hd rest \<noteq> 60 \<and> hd rest \<noteq> 62"
  shows "parseexec (Suc (Suc n)) (pre @ 40 # txt @ 41 # rest) (length pre) = Done (cmd, length (pre @ 40 # txt @ [41]))"
  using parse_block [OF refl assms(2,3) line] parseredirs_none [OF assms(3,4), of "pre @ 40 # txt @ [41]" cmd] by simp

primrec levels :: "shell \<Rightarrow> nat" where
  "levels (Run ws) = 3"
| "levels (Redirect c k w) = levels c + 4"
| "levels (Piped l r) = max (levels l) (levels r + 1) + 4"
| "levels (Seq l r) = max (levels l) (levels r + 1) + 4"
| "levels (Background c) = levels c + 4"

definition reads_back :: "nat \<Rightarrow> u8 list \<Rightarrow> shell \<Rightarrow> u8 list \<Rightarrow> bool" where
  "reads_back n pre c post \<longleftrightarrow>
     (\<exists>cmd. parseline n (pre @ render c @ post) (length pre) = Done (cmd, length (pre @ render c)) \<and> means (slice (pre @ render c @ post)) cmd c)"

lemma reads_back_paren:
  assumes "reads_back n (pre @ [40]) c (41 # rest)" and "writable_cmd c" and "tight rest" and "rest = [] \<or> hd rest \<noteq> 60 \<and> hd rest \<noteq> 62"
  obtains cmd where "parseexec (Suc (Suc n)) (pre @ 40 # render c @ 41 # rest) (length pre) = Done (cmd, length (pre @ 40 # render c @ [41]))"
    "means (slice (pre @ 40 # render c @ 41 # rest)) cmd c"
proof -
  from assms(1) obtain cmd where
    "parseline n (pre @ 40 # render c @ 41 # rest) (Suc (length pre)) = Done (cmd, Suc (length pre + length (render c)))"
    "means (slice (pre @ 40 # render c @ 41 # rest)) cmd c"
    by (auto simp: reads_back_def)
  moreover have "tight (render c @ 41 # rest)" using tight_render [OF assms(2)] by (simp add: closed_def)
  ultimately show thesis using that parse_paren assms(3,4) by blast
qed

lemma slice_word: "slice (pre @ w @ post) (length pre, length pre + length w) = w"
  by (simp add: slice_def)

lemma redir_step:
  assumes "good_word w" and "closed post"
  shows "parseredirs (pre @ redir_op k @ w @ 32 # post) cmd (length pre) =
    Done (REDIR cmd (length (pre @ redir_op k)) (length (pre @ redir_op k) + length w) (redir_mode k) (redir_fd k), length (pre @ redir_op k @ w @ [32]))"
proof -
  let ?p = "pre @ redir_op k"
  have t: "tight (w @ 32 # post)" "w \<noteq> []" "hd w \<noteq> 62" using good_word_head [OF assms(1)] assms(1) by (auto simp: good_word_def str_def)
  have p: "peek (pre @ redir_op k @ w @ 32 # post) (length pre) (str ''<>'') = (True, length pre)"
    using peek_at [of "redir_op k @ w @ 32 # post" pre] by (cases k) (auto simp: str_def tight_symbol)
  have g: "\<exists>tok. gettoken (pre @ redir_op k @ w @ 32 # post) (length pre) = (tok, length pre, length ?p, length ?p) \<and>
      add_redir tok cmd (length ?p) (length ?p + length w) = REDIR cmd (length ?p) (length ?p + length w) (redir_mode k) (redir_fd k)"
    using gettoken_symbol [OF _ t(1), of 60 pre] gettoken_to [OF t(1), of pre] gettoken_append [OF t(1), of pre] t(2,3)
    by (cases k) (auto simp: str_def add_redir_def)
  have n: "parseredirs (pre @ redir_op k @ w @ 32 # post) c (Suc (length ?p + length w)) = Done (c, Suc (length ?p + length w))" for c
    using parseredirs_none [OF closed_tight [OF assms(2)], of "?p @ w @ [32]" c] assms(2) by (auto simp: closed_def add.assoc)
  show ?thesis
    using g parseredirs_step [OF p _ gettoken_text [OF assms(1) closed_tight [OF assms(2)], of ?p, simplified]] n by auto
qed

lemma rendered_Redirect:
  assumes "reads_back n (pre @ [40]) c (41 # redir_op k @ w @ 32 # post)" and "writable_cmd (Redirect c k w)" and "closed post"
  shows "reads_back (Suc (Suc (Suc (Suc n)))) pre (Redirect c k w) post"
proof -
  let ?buf = "pre @ 40 # render c @ 41 # redir_op k @ w @ 32 # post"
  let ?p = "pre @ 40 # render c @ [41]"
  from assms(1) obtain cmd where cmd:
    "parseline n ?buf (Suc (length pre)) = Done (cmd, Suc (length pre + length (render c)))" "means (slice ?buf) cmd c"
    by (auto simp: reads_back_def)
  have t: "tight (redir_op k @ w @ 32 # post)" by (cases k) (auto simp: tight_symbol)
  have t2: "tight (render c @ 41 # redir_op k @ w @ 32 # post)" using tight_render [of c] assms(2) by (simp add: closed_def)
  let ?q = "length (?p @ redir_op k)"
  let ?cmd = "REDIR cmd ?q (?q + length w) (redir_mode k) (redir_fd k)"
  have e: "parseexec (Suc (Suc n)) ((?p @ redir_op k @ w @ [32]) @ post) (length pre) = Done (?cmd, length (?p @ redir_op k @ w @ [32]))"
    using parse_block [OF refl t2 t cmd(1)] redir_step [of w post ?p k cmd] assms(2,3) by simp
  have "parseline (Suc (Suc (Suc (Suc n)))) ?buf (length pre) = Done (?cmd, length (?p @ redir_op k @ w @ [32]))"
    using parseline_end [OF parsepipe_end [OF e closed_tight [OF assms(3)]] assms(3)] assms(3) by (auto simp: closed_def)
  moreover have "slice ?buf (?q, ?q + length w) = w" using slice_word [of "?p @ redir_op k" w "32 # post"] by simp
  ultimately show ?thesis using cmd(2) by (auto simp: reads_back_def intro!: exI [of _ ?cmd])
qed

declare parseline.simps [simp del] parsepipe.simps [simp del] parseexec.simps [simp del] parseblock.simps [simp del]

lemma rendered_Background:
  assumes "reads_back n (pre @ [40]) c (41 # 38 # post)" and "writable_cmd c" and "closed post"
  shows "reads_back (Suc (Suc (Suc (Suc n)))) pre (Background c) post"
proof -
  let ?p = "pre @ 40 # render c @ [41]"
  obtain cmd where cmd: "parseexec (Suc (Suc n)) (?p @ 38 # post) (length pre) = Done (cmd, length ?p)"
      "means (slice (pre @ 40 # render c @ 41 # 38 # post)) cmd c"
    using reads_back_paren [OF assms(1,2) tight_symbol(5)] by auto
  have "parsepipe (Suc (Suc (Suc n))) (?p @ 38 # post) (length pre) = Done (cmd, length ?p)"
    by (rule parsepipe_end [OF cmd(1)]) (auto simp: tight_symbol)
  moreover have "peek ((?p @ [38]) @ post) (length (?p @ [38])) (str '';'') = (False, length (?p @ [38]))"
    using peek_at [OF closed_tight [OF assms(3)], of "?p @ [38]"] assms(3) by (auto simp: str_def closed_def)
  ultimately have "parseline (Suc (Suc (Suc (Suc n)))) (?p @ 38 # post) (length pre) = Done (BACK cmd, length (?p @ [38]))"
    using amps_one [OF assms(3), of ?p cmd] by (simp add: parseline.simps)
  then show ?thesis using cmd(2) by (auto simp: reads_back_def intro!: exI [of _ "BACK cmd"])
qed

lemma rendered_Piped:
  assumes l: "reads_back (Suc n) (pre @ [40]) l (41 # 124 # 40 # render r @ 41 # post)" and "writable_cmd l"
    and r: "reads_back n ((pre @ 40 # render l @ [41, 124]) @ [40]) r (41 # post)" and "writable_cmd r" and post: "closed post"
  shows "reads_back (Suc (Suc (Suc (Suc (Suc n))))) pre (Piped l r) post"
proof -
  let ?p = "pre @ 40 # render l @ [41]" and ?q = "pre @ 40 # render l @ [41, 124]"
  let ?buf = "pre @ 40 # render l @ 41 # 124 # 40 # render r @ 41 # post"
  obtain lc where lc: "parseexec (Suc (Suc (Suc n))) ?buf (length pre) = Done (lc, length ?p)" "means (slice ?buf) lc l"
    using reads_back_paren [OF l assms(2) tight_symbol(3)] by auto
  have h: "post = [] \<or> hd post \<noteq> 60 \<and> hd post \<noteq> 62" using post by (auto simp: closed_def)
  obtain rc where rc: "parseexec (Suc (Suc n)) (?q @ 40 # render r @ 41 # post) (length ?q) = Done (rc, length (?q @ 40 # render r @ [41]))"
      "means (slice ?buf) rc r"
    using reads_back_paren [OF r assms(4) closed_tight [OF post] h] by auto
  have "parsepipe (Suc (Suc (Suc n))) ((?q @ 40 # render r @ [41]) @ post) (length ?q) = Done (rc, length (?q @ 40 # render r @ [41]))"
    by (rule parsepipe_end [OF _ closed_tight [OF post]]) (use rc(1) post in \<open>auto simp: closed_def\<close>)
  moreover have "peek (?p @ 124 # 40 # render r @ 41 # post) (length ?p) (str ''|'') = (True, length ?p)"
    using peek_at [OF tight_symbol(3), of ?p] by (simp add: str_def)
  moreover have "gettoken (?p @ 124 # 40 # render r @ 41 # post) (length ?p) = (124, length ?p, length ?q, length ?q)"
    using gettoken_symbol [OF _ tight_symbol(1), of 124 ?p] by (simp add: str_def)
  ultimately have "parsepipe (Suc (Suc (Suc (Suc n)))) ((?q @ 40 # render r @ [41]) @ post) (length pre) = Done (PIPE lc rc, length (?q @ 40 # render r @ [41]))"
    using lc(1) by (simp add: parsepipe.simps)
  from parseline_end [OF this post] show ?thesis using lc(2) rc(2) by (auto simp: reads_back_def intro!: exI [of _ "PIPE lc rc"])
qed

lemma rendered_Seq:
  assumes l: "reads_back (Suc n) (pre @ [40]) l (41 # 59 # 40 # render r @ 41 # post)" and "writable_cmd l"
    and r: "reads_back n ((pre @ 40 # render l @ [41, 59]) @ [40]) r (41 # post)" and "writable_cmd r" and post: "closed post"
  shows "reads_back (Suc (Suc (Suc (Suc (Suc n))))) pre (Seq l r) post"
proof -
  let ?p = "pre @ 40 # render l @ [41]" and ?q = "pre @ 40 # render l @ [41, 59]"
  let ?buf = "pre @ 40 # render l @ 41 # 59 # 40 # render r @ 41 # post"
  obtain lc where lc: "parseexec (Suc (Suc (Suc n))) (?p @ 59 # 40 # render r @ 41 # post) (length pre) = Done (lc, length ?p)" "means (slice ?buf) lc l"
    using reads_back_paren [OF l assms(2) tight_symbol(4)] by auto
  have h: "post = [] \<or> hd post \<noteq> 60 \<and> hd post \<noteq> 62" using post by (auto simp: closed_def)
  obtain rc where rc: "parseexec (Suc (Suc n)) (?q @ 40 # render r @ 41 # post) (length ?q) = Done (rc, length (?q @ 40 # render r @ [41]))"
      "means (slice ?buf) rc r"
    using reads_back_paren [OF r assms(4) closed_tight [OF post] h] by auto
  have "parsepipe (Suc (Suc (Suc n))) ((?q @ 40 # render r @ [41]) @ post) (length ?q) = Done (rc, length (?q @ 40 # render r @ [41]))"
    by (rule parsepipe_end [OF _ closed_tight [OF post]]) (use rc(1) post in \<open>auto simp: closed_def\<close>)
  from parseline_end [OF this post]
  have "parseline (Suc (Suc (Suc (Suc n)))) ?buf (length ?q) = Done (rc, length (?q @ 40 # render r @ [41]))" by simp
  moreover have "parsepipe (Suc (Suc (Suc (Suc n)))) (?p @ 59 # 40 # render r @ 41 # post) (length pre) = Done (lc, length ?p)"
    by (rule parsepipe_end [OF lc(1)]) (auto simp: tight_symbol)
  moreover have "parse_amps (?p @ 59 # 40 # render r @ 41 # post) lc (length ?p) = (lc, length ?p)"
    by (rule amps_none) (auto simp: tight_symbol)
  moreover have "peek (?p @ 59 # 40 # render r @ 41 # post) (length ?p) (str '';'') = (True, length ?p)"
    using peek_at [OF tight_symbol(4), of ?p] by (simp add: str_def)
  moreover have "gettoken (?p @ 59 # 40 # render r @ 41 # post) (length ?p) = (59, length ?p, length ?q, length ?q)"
    using gettoken_symbol [OF _ tight_symbol(1), of 59 ?p] by (simp add: str_def)
  ultimately have "parseline (Suc (Suc (Suc (Suc (Suc n))))) ?buf (length pre) = Done (LIST lc rc, length (?q @ 40 # render r @ [41]))"
    by (simp add: parseline.simps)
  then show ?thesis using lc(2) rc(2) by (auto simp: reads_back_def intro!: exI [of _ "LIST lc rc"])
qed

lemma rendered_Run:
  assumes "writable_cmd (Run ws)" and "closed post"
  shows "reads_back (Suc (Suc (Suc n))) pre (Run ws) post"
proof -
  let ?p = "pre @ render (Run ws)"
  have "parseexec (Suc n) (?p @ post) (length pre) = Done (EXEC (spans (length pre) ws), length ?p)" using parse_run [OF assms, of n pre] by simp
  from parseline_end [OF parsepipe_end [OF this closed_tight [OF assms(2)]] assms(2)] show ?thesis
    using assms(2) slice_spans [of pre ws post] by (auto simp: reads_back_def closed_def intro!: exI [of _ "EXEC (spans (length pre) ws)"])
qed

lemma levels_of_one: "a + 4 \<le> (n :: nat) \<Longrightarrow> \<exists>m. n = Suc (Suc (Suc (Suc m))) \<and> a \<le> m"
  by (rule exI [of _ "n - 4"]) auto

lemma levels_of_two: "max a (b + 1) + 4 \<le> (n :: nat) \<Longrightarrow> \<exists>m. n = Suc (Suc (Suc (Suc (Suc m)))) \<and> a \<le> Suc m \<and> b \<le> m"
  by (rule exI [of _ "n - 5"]) auto

lemma rendered_reads_back:
  assumes "writable_cmd c" and "closed post" and "levels c \<le> n"
  shows "reads_back n pre c post"
  using assms
proof (induction c arbitrary: n pre post)
  case (Run ws)
  then have "n = Suc (Suc (Suc (n - 3)))" by simp
  then show ?case using rendered_Run [of ws post "n - 3" pre] Run.prems by simp
next
  case (Redirect c k w)
  have "levels c + 4 \<le> n" using Redirect.prems(3) by simp
  from levels_of_one [OF this] obtain m where m: "n = Suc (Suc (Suc (Suc m)))" "levels c \<le> m" by blast
  have "reads_back m (pre @ [40]) c (41 # redir_op k @ w @ 32 # post)" using Redirect m by (intro Redirect.IH) (auto simp: closed_def)
  then show ?case unfolding m(1) using Redirect.prems by (intro rendered_Redirect)
next
  case (Piped l r)
  have "max (levels l) (levels r + 1) + 4 \<le> n" using Piped.prems(3) by simp
  from levels_of_two [OF this] obtain m where m: "n = Suc (Suc (Suc (Suc (Suc m))))" "levels l \<le> Suc m" "levels r \<le> m" by blast
  have "reads_back (Suc m) (pre @ [40]) l (41 # 124 # 40 # render r @ 41 # post)" using Piped m by (intro Piped.IH) (auto simp: closed_def)
  moreover have "reads_back m ((pre @ 40 # render l @ [41, 124]) @ [40]) r (41 # post)" using Piped m by (intro Piped.IH) (auto simp: closed_def)
  ultimately show ?case unfolding m(1) using Piped.prems by (intro rendered_Piped) auto
next
  case (Seq l r)
  have "max (levels l) (levels r + 1) + 4 \<le> n" using Seq.prems(3) by simp
  from levels_of_two [OF this] obtain m where m: "n = Suc (Suc (Suc (Suc (Suc m))))" "levels l \<le> Suc m" "levels r \<le> m" by blast
  have "reads_back (Suc m) (pre @ [40]) l (41 # 59 # 40 # render r @ 41 # post)" using Seq m by (intro Seq.IH) (auto simp: closed_def)
  moreover have "reads_back m ((pre @ 40 # render l @ [41, 59]) @ [40]) r (41 # post)" using Seq m by (intro Seq.IH) (auto simp: closed_def)
  ultimately show ?case unfolding m(1) using Seq.prems by (intro rendered_Seq) auto
next
  case (Background c)
  have "levels c + 4 \<le> n" using Background.prems(3) by simp
  from levels_of_one [OF this] obtain m where m: "n = Suc (Suc (Suc (Suc m)))" "levels c \<le> m" by blast
  have "reads_back m (pre @ [40]) c (41 # 38 # post)" using Background m by (intro Background.IH) (auto simp: closed_def)
  then show ?case unfolding m(1) using Background.prems by (intro rendered_Background) auto
qed

lemma strlen_all: "0 \<notin> set s \<Longrightarrow> strlen_u s = length s"
  by (induction s) auto

lemma render_bytes: "writable_cmd c \<Longrightarrow> 0 \<notin> set (render c)"
proof (induction c)
  case (Redirect c k w)
  then show ?case by (cases k) (auto simp: good_word_def)
qed (auto simp: good_word_def)

text \<open>
  C35. The shell's parser gets every command back from its text: whatever lists, pipes, redirections and background parts it is nested
  from, \<open>parsecmd\<close> of the written line returns the tree of the command, with nothing printed and no request but those of \<open>malloc\<close> for the nodes, which the model leaves out, and the words in the NUL-terminated line are
  its words.
\<close>

theorem shell_parse_round_trip:
  assumes "writable_cmd c"
  shows "\<exists>cmd b. parsecmd (render c) as = ([], URet (cmd, b), as) \<and> means (\<lambda>w. cstr_at b (fst w)) cmd c"
proof -
  let ?buf = "render c"
  have z: "0 \<notin> set ?buf" using render_bytes [OF assms] .
  then have es: "strlen_u ?buf = length ?buf" by (rule strlen_all)
  obtain cmd where cmd: "parseline (depth_bound ?buf + levels c) ?buf 0 = Done (cmd, length ?buf)" "means (slice ?buf) cmd c"
    using rendered_reads_back [OF assms, of "[]" "depth_bound ?buf + levels c" "[]"] by (auto simp: reads_back_def closed_def)
  then have p: "parseline (depth_bound ?buf) ?buf 0 = Done (cmd, length ?buf)" by (simp add: parseline_depth)
  then have ok: "words_ok ?buf cmd" using parseline_parsed [of ?buf] by (simp add: parsed_def)
  have "peek ?buf (length ?buf) [] = (False, length ?buf)" using peek_at [of "[]" ?buf] by (simp add: tight_def)
  then have "parsecmd ?buf as = ([], URet (cmd, nulterminate cmd (?buf @ [0])), as)" by (simp add: parsecmd_def es p ureturn_def)
  moreover have "means (\<lambda>w. cstr_at (nulterminate cmd (?buf @ [0])) (fst w)) cmd c"
    by (rule means_cong [OF cmd(2)]) (use word_kept [OF ok _ z] in \<open>auto simp: slice_def\<close>)
  ultimately show ?thesis by blast
qed

text \<open>\<open>(cat a )<in |(wc );((ls )>>log )&\<close>, with every part in parentheses.\<close>

definition sample_shell :: shell where
  "sample_shell = Background (Seq (Piped (Redirect (Run [str ''cat'', str ''a'']) RIn (str ''in'')) (Run [str ''wc'']))
     (Redirect (Run [str ''ls'']) RApp (str ''log'')))"

lemma sample_writable: "writable_cmd sample_shell"
  by code_simp

theorem shell_parse_round_trip_witness:
  "writable_cmd sample_shell \<and> (\<exists>cmd b. parsecmd (render sample_shell) [] = ([], URet (cmd, b), []) \<and> means (\<lambda>w. cstr_at b (fst w)) cmd sample_shell)"
  using sample_writable shell_parse_round_trip [OF sample_writable, of "[]"] by blast

end
