(* ===== verification/Utilities.thy ===== *)
theory Utilities
  imports User Sysfile
begin

text \<open>
  The small programs under \<open>user/\<close>, one definition for each function: \<open>echo\<close>, \<open>cat\<close>, \<open>wc\<close>, \<open>kill\<close>, \<open>ln\<close>, \<open>mkdir\<close>, \<open>rm\<close>,
  \<open>sleep\<close>, \<open>zombie\<close>, \<open>init\<close>, \<open>pingpong\<close>, \<open>forktest\<close>, \<open>stressfs\<close> and \<open>ls\<close>. The arguments \<open>argv\<close> of a program are the list of
  its strings. A loop around a system call ends because each round uses up an answer.
\<close>

definition nl :: string where
  "nl = [CHR 10]"

section \<open>echo, kill, ln, mkdir, rm, sleep, zombie\<close>

fun echo_args :: "u8 list list \<Rightarrow> unit uprog" where
  "echo_args [] = uexit 0"
| "echo_args (a # args) =
     ubind (sysr (SWrite 1 (take (strlen_u a) a))) (\<lambda>_.
       ubind (sysr (SWrite 1 (if args \<noteq> [] then [32] else [10]))) (\<lambda>_. echo_args args))"

definition echo_main :: "u8 list list \<Rightarrow> unit uprog" where
  "echo_main argv = echo_args (drop 1 argv)"

fun kill_args :: "u8 list list \<Rightarrow> unit uprog" where
  "kill_args [] = uexit 0"
| "kill_args (a # args) = ubind (sysr (SKill (sint (atoi_u a)))) (\<lambda>_. kill_args args)"

definition kill_main :: "u8 list list \<Rightarrow> unit uprog" where
  "kill_main argv =
     (if length argv < 2 then ubind (fprintf_u 2 (''usage: kill pid...'' @ nl) []) (\<lambda>_. uexit 1)
      else kill_args (drop 1 argv))"

definition ln_main :: "u8 list list \<Rightarrow> unit uprog" where
  "ln_main argv =
     (if length argv \<noteq> 3 then ubind (fprintf_u 2 (''Usage: ln old new'' @ nl) []) (\<lambda>_. uexit 1)
      else ubind (sysr (SLink (argv ! 1) (argv ! 2))) (\<lambda>r.
        ubind (if r < 0 then fprintf_u 2 (''link %s %s: failed'' @ nl) [UStr (Some (argv ! 1)), UStr (Some (argv ! 2))] else ureturn ()) (\<lambda>_.
          uexit 0)))"

fun mkdir_args :: "u8 list list \<Rightarrow> unit uprog" where
  "mkdir_args [] = uexit 0"
| "mkdir_args (a # args) =
     ubind (sysr (SMkdir a)) (\<lambda>r.
       if r < 0 then ubind (fprintf_u 2 (''mkdir: %s failed to create'' @ nl) [UStr (Some a)]) (\<lambda>_. uexit 0)
       else mkdir_args args)"

definition mkdir_main :: "u8 list list \<Rightarrow> unit uprog" where
  "mkdir_main argv =
     (if length argv < 2 then ubind (fprintf_u 2 (''Usage: mkdir files...'' @ nl) []) (\<lambda>_. uexit 1)
      else mkdir_args (drop 1 argv))"

fun rm_args :: "u8 list list \<Rightarrow> unit uprog" where
  "rm_args [] = uexit 0"
| "rm_args (a # args) =
     ubind (sysr (SUnlink a)) (\<lambda>r.
       if r < 0 then ubind (fprintf_u 2 (''rm: %s failed to delete'' @ nl) [UStr (Some a)]) (\<lambda>_. uexit 0)
       else rm_args args)"

definition rm_main :: "u8 list list \<Rightarrow> unit uprog" where
  "rm_main argv =
     (if length argv < 2 then ubind (fprintf_u 2 (''Usage: rm files...'' @ nl) []) (\<lambda>_. uexit 1)
      else rm_args (drop 1 argv))"

definition sleep_main :: "u8 list list \<Rightarrow> unit uprog" where
  "sleep_main argv =
     ubind (sysr (if length argv > 1 then SSleep (sint (atoi_u (argv ! 1))) else SWrite 1 (str (''error'' @ nl)))) (\<lambda>_. uexit 0)"

definition zombie_main :: "unit uprog" where
  "zombie_main = ubind (sysr SFork) (\<lambda>pid. ubind (if pid > 0 then sysr (SSleep 5) else ureturn 0) (\<lambda>_. uexit 0))"

section \<open>cat\<close>

function cat :: "int \<Rightarrow> unit uprog" where
  "cat fd as =
     ubind (sys (SRead fd 512)) (\<lambda>a as1.
       if ret a > 0 then
         ubind (sysr (SWrite 1 (take (nat (ret a)) (rbytes a)))) (\<lambda>w as2.
           if w \<noteq> ret a then ubind (fprintf_u 2 (''cat: write error'' @ nl) []) (\<lambda>_. uexit 1) as2 else cat fd as2) as1
       else if ret a < 0 then ubind (fprintf_u 2 (''cat: read error'' @ nl) []) (\<lambda>_. uexit 1) as1
       else ureturn () as1) as"
  by pat_completeness auto
termination
  by (relation "measure (\<lambda>(fd, as). length as)") (auto dest!: sys_less sysr_less)

declare cat.simps [simp del]

fun cat_files :: "u8 list list \<Rightarrow> unit uprog" where
  "cat_files [] = uexit 0"
| "cat_files (f # fs) =
     ubind (sysr (SOpen f 0)) (\<lambda>fd.
       if fd < 0 then ubind (fprintf_u 2 (''cat: cannot open %s'' @ nl) [UStr (Some f)]) (\<lambda>_. uexit 1)
       else ubind (cat fd) (\<lambda>_. ubind (sysr (SClose fd)) (\<lambda>_. cat_files fs)))"

definition cat_main :: "u8 list list \<Rightarrow> unit uprog" where
  "cat_main argv = (if length argv \<le> 1 then ubind (cat 0) (\<lambda>_. uexit 0) else cat_files (drop 1 argv))"

section \<open>wc\<close>

record wcount =
  wl :: u32
  ww :: u32
  wch :: u32
  inword :: bool

definition wc_byte :: "u8 \<Rightarrow> wcount \<Rightarrow> wcount" where
  "wc_byte b s =
     (let s1 = s\<lparr>wch := wch s + 1\<rparr>;
          s2 = (if b = 10 then s1\<lparr>wl := wl s1 + 1\<rparr> else s1)
      in if strchr_u [32, 13, 9, 10, 11] b \<noteq> None then s2\<lparr>inword := False\<rparr>
         else if \<not> inword s2 then s2\<lparr>ww := ww s2 + 1, inword := True\<rparr> else s2)"

function wc_read :: "int \<Rightarrow> wcount \<Rightarrow> wcount uprog" where
  "wc_read fd s as =
     ubind (sys (SRead fd 512)) (\<lambda>a as1.
       if ret a > 0 then wc_read fd (fold wc_byte (take (nat (ret a)) (rbytes a)) s) as1
       else if ret a < 0 then ubind (printf_u (''wc: read error'' @ nl) []) (\<lambda>_. uexit 1) as1
       else ureturn s as1) as"
  by pat_completeness auto
termination
  by (relation "measure (\<lambda>(fd, s, as). length as)") (auto dest!: sys_less)

declare wc_read.simps [simp del]

definition wc :: "int \<Rightarrow> u8 list \<Rightarrow> unit uprog" where
  "wc fd name =
     ubind (wc_read fd \<lparr>wl = 0, ww = 0, wch = 0, inword = False\<rparr>) (\<lambda>s.
       printf_u (''%d %d %d %s'' @ nl) [UInt (wl s), UInt (ww s), UInt (wch s), UStr (Some name)])"

fun wc_files :: "u8 list list \<Rightarrow> unit uprog" where
  "wc_files [] = uexit 0"
| "wc_files (f # fs) =
     ubind (sysr (SOpen f 0)) (\<lambda>fd.
       if fd < 0 then ubind (printf_u (''wc: cannot open %s'' @ nl) [UStr (Some f)]) (\<lambda>_. uexit 1)
       else ubind (wc fd f) (\<lambda>_. ubind (sysr (SClose fd)) (\<lambda>_. wc_files fs)))"

definition wc_main :: "u8 list list \<Rightarrow> unit uprog" where
  "wc_main argv = (if length argv \<le> 1 then ubind (wc 0 []) (\<lambda>_. uexit 0) else wc_files (drop 1 argv))"

section \<open>init\<close>

function init_wait :: "int \<Rightarrow> unit uprog" where
  "init_wait child as =
     ubind (sysr SWait) (\<lambda>wpid as1.
       if wpid = child then ureturn () as1
       else if wpid < 0 then ubind (printf_u (''init: wait returned an error'' @ nl) []) (\<lambda>_. uexit 1) as1
       else init_wait child as1) as"
  by pat_completeness auto
termination
  by (relation "measure (\<lambda>(child, as). length as)") (auto dest!: sysr_less)

declare init_wait.simps [simp del]

lemma uses_init_wait: "uses 0 (init_wait child)"
proof -
  have "init_wait child as = (t, URet x, as1) \<Longrightarrow> length as1 \<le> length as" for as t x as1
  proof (induction "length as" arbitrary: as t rule: less_induct)
    case less
    from less(2) obtain t1 wpid as2 t2 where r: "sysr SWait as = (t1, URet wpid, as2)"
        "(if wpid = child then ureturn () as2 else if wpid < 0 then ubind (printf_u (''init: wait returned an error'' @ nl) []) (\<lambda>_. uexit 1) as2
          else init_wait child as2) = (t2, URet x, as1)"
      by (subst (asm) init_wait.simps) (erule ubind_Ret)
    have "length as2 < length as" using sysr_less [OF r(1)] .
    then show ?case using r(2) less(1) [of as2 t2] by (auto simp: ureturn_def split: if_splits)
  qed
  then show ?thesis by (simp add: uses_def)
qed

function init_loop :: "unit uprog" where
  "init_loop as =
     ubind (printf_u (''init: starting sh'' @ nl) []) (\<lambda>_ as0.
       ubind (sysr SFork) (\<lambda>pid as1.
         if pid < 0 then ubind (printf_u (''init: fork failed'' @ nl) []) (\<lambda>_. uexit 1) as1
         else if pid = 0 then
           ubind (uexec (str ''sh'') [str ''sh'']) (\<lambda>_. ubind (printf_u (''init: exec sh failed'' @ nl) []) (\<lambda>_. uexit 1)) as1
         else ubind (init_wait pid) (\<lambda>_ as2. init_loop as2) as1) as0) as"
  by pat_completeness auto
termination
  by (relation "measure length") (auto dest!: sysr_less usesD [OF uses_fprintf(2)] usesD [OF uses_init_wait])

declare init_loop.simps [simp del]

definition init_main :: "unit uprog" where
  "init_main =
     ubind (sysr (SOpen (str ''console'') O_RDWR)) (\<lambda>fd.
       ubind (if fd < 0 then sys_all [SMknod (str ''console'') (int CONSOLE) 0, SOpen (str ''console'') O_RDWR] else ureturn ()) (\<lambda>_.
         ubind (sys_all [SDup 0, SDup 0]) (\<lambda>_. init_loop)))"

section \<open>pingpong\<close>

definition print_pid :: "string \<Rightarrow> unit uprog" where
  "print_pid msg = ubind (sysr SGetpid) (\<lambda>pid. printf_u (''<%d>:received '' @ msg @ nl) [UInt (word_of_int pid)])"

definition pingpong_main :: "unit uprog" where
  "pingpong_main =
     ubind (sys SPipe) (\<lambda>a.
       ubind (sys SPipe) (\<lambda>b.
         ubind (sysr SFork) (\<lambda>pid.
           ubind (if pid \<noteq> 0
                  then ubind (sys_all [SWrite (snd (rfds a)) [32], SRead (fst (rfds b)) 1]) (\<lambda>_. print_pid ''pong'')
                  else ubind (sys_all [SRead (fst (rfds a)) 1]) (\<lambda>_. ubind (print_pid ''ping'') (\<lambda>_. sys_all [SWrite (snd (rfds b)) [32]]))) (\<lambda>_.
             uexit 0))))"

section \<open>forktest and stressfs\<close>

definition forktest_print :: "string \<Rightarrow> unit uprog" where
  "forktest_print s = sys_all [SWrite 1 (str s)]"

text \<open>The forks of \<open>forktest\<close>: how many have succeeded, out of those still to be made.\<close>

fun forktest_forks :: "nat \<Rightarrow> nat \<Rightarrow> nat uprog" where
  "forktest_forks 0 n = ureturn n"
| "forktest_forks (Suc k) n =
     ubind (sysr SFork) (\<lambda>pid. if pid < 0 then ureturn n else if pid = 0 then uexit 0 else forktest_forks k (Suc n))"

fun forktest_waits :: "nat \<Rightarrow> unit uprog" where
  "forktest_waits 0 = ureturn ()"
| "forktest_waits (Suc n) =
     ubind (sysr SWait) (\<lambda>r.
       if r < 0 then ubind (forktest_print (''wait stopped early'' @ nl)) (\<lambda>_. uexit 1) else forktest_waits n)"

definition forktest :: "unit uprog" where
  "forktest =
     ubind (forktest_print (''fork test'' @ nl)) (\<lambda>_.
       ubind (forktest_forks 1000 0) (\<lambda>n.
         if n = 1000 then ubind (forktest_print (''fork claimed to work N times!'' @ nl)) (\<lambda>_. uexit 1)
         else ubind (forktest_waits n) (\<lambda>_.
           ubind (sysr SWait) (\<lambda>r.
             if r \<noteq> -1 then ubind (forktest_print (''wait got too many'' @ nl)) (\<lambda>_. uexit 1)
             else forktest_print (''fork test OK'' @ nl)))))"

definition forktest_main :: "unit uprog" where
  "forktest_main = ubind forktest (\<lambda>_. uexit 0)"

fun stressfs_forks :: "nat \<Rightarrow> nat \<Rightarrow> nat uprog" where
  "stressfs_forks 0 i = ureturn i"
| "stressfs_forks (Suc k) i = ubind (sysr SFork) (\<lambda>pid. if pid > 0 then ureturn i else stressfs_forks k (Suc i))"

definition stressfs_main :: "unit uprog" where
  "stressfs_main =
     ubind (printf_u (''stressfs starting'' @ nl) []) (\<lambda>_.
       ubind (stressfs_forks 4 0) (\<lambda>i.
         let path = str ''stressfs'' @ [48 + of_nat i] in
         ubind (printf_u (''write %d'' @ nl) [UInt (of_nat i)]) (\<lambda>_.
           ubind (sysr (SOpen path (O_CREATE OR O_RDWR))) (\<lambda>fd.
             ubind (sys_all (replicate 20 (SWrite fd (replicate 512 97)) @ [SClose fd])) (\<lambda>_.
               ubind (printf_u (''read'' @ nl) []) (\<lambda>_.
                 ubind (sysr (SOpen path (word_of_int O_RDONLY))) (\<lambda>fd2.
                   ubind (sys_all (replicate 20 (SRead fd2 512) @ [SClose fd2, SWait])) (\<lambda>_. uexit 0))))))))"

end
