(* ===== verification/Ls_Find.thy ===== *)
theory Ls_Find
  imports Utilities
begin

text \<open>
  \<open>user/ls.c\<close> and \<open>user/find.c\<close>: listing a directory, and the search through the directories below it. The search recurses once for each
  directory and loops over the entries; both use up an answer each time, so that a depth above the number of answers is never reached.
\<close>

section \<open>Names and entries\<close>

definition after_slash :: "u8 list \<Rightarrow> u8 list" where
  "after_slash path = rev (takeWhile (\<lambda>c. c \<noteq> 47) (rev path))"

definition ls_fmtname :: "u8 list \<Rightarrow> u8 list" where
  "ls_fmtname path =
     (let p = after_slash path in if length p \<ge> DIRSIZ then p else p @ replicate (DIRSIZ - length p) 32)"

text \<open>In \<open>find.c\<close> the name is padded with NULs.\<close>

definition find_fmtname :: "u8 list \<Rightarrow> u8 list" where
  "find_fmtname path =
     (let p = after_slash path in if length p \<ge> DIRSIZ then p else takeWhile (\<lambda>c. c \<noteq> 0) (p @ replicate (DIRSIZ - length p) 0))"

definition de_inum :: "u8 list \<Rightarrow> u16" where
  "de_inum bs = bytes_word (take 2 bs)"

definition de_path :: "u8 list \<Rightarrow> u8 list \<Rightarrow> u8 list" where
  "de_path path bs = path @ [47] @ takeWhile (\<lambda>c. c \<noteq> 0) (take DIRSIZ (drop 2 bs))"

definition print_stat :: "u8 list \<Rightarrow> ustat \<Rightarrow> unit uprog" where
  "print_stat name st =
     printf_u (''%s %d %d %l'' @ nl) [UStr (Some name), UInt (word_of_int (ust_type st)), UInt (ust_ino st), ULong (ust_size st)]"

text \<open>Before the \<open>switch\<close> both programs do the same.\<close>

definition open_stat :: "u8 list \<Rightarrow> (int \<Rightarrow> ustat \<Rightarrow> unit uprog) \<Rightarrow> unit uprog" where
  "open_stat path body =
     ubind (sysr (SOpen path 0)) (\<lambda>fd.
       if fd < 0 then fprintf_u 2 (''ls: cannot open %s'' @ nl) [UStr (Some path)]
       else ubind (sys (SFstat fd)) (\<lambda>a.
         if ret a < 0 then ubind (fprintf_u 2 (''ls: cannot stat %s'' @ nl) [UStr (Some path)]) (\<lambda>_. ubind (sysr (SClose fd)) (\<lambda>_. ureturn ()))
         else ubind (body fd (rstat a)) (\<lambda>_. ubind (sysr (SClose fd)) (\<lambda>_. ureturn ()))))"

section \<open>ls\<close>

definition ls_entry :: "u8 list \<Rightarrow> ustat \<Rightarrow> unit uprog" where
  "ls_entry buf st =
     ubind (stat_u buf st) (\<lambda>(r, st1).
       if r < 0 then printf_u (''ls: cannot stat %s'' @ nl) [UStr (Some buf)]
       else printf_u (''%s %d %d %d'' @ nl)
         [UStr (Some (ls_fmtname buf)), UInt (word_of_int (ust_type st1)), UInt (ust_ino st1), UInt (ucast (ust_size st1))])"

lemma uses_stat_u: "uses 0 (stat_u n st)"
  unfolding stat_u_def
  by (rule uses_left [OF uses_0 [OF uses_sysr]])
    (simp add: uses_return uses_left [OF uses_0 [OF uses_sys] uses_left [OF uses_0 [OF uses_sysr] uses_return]])

lemma uses_ls_entry: "uses 0 (ls_entry buf st)"
  unfolding ls_entry_def by (rule uses_left [OF uses_stat_u]) (simp add: uses_fprintf(2) split: prod.split)

function ls_dir :: "int \<Rightarrow> u8 list \<Rightarrow> ustat \<Rightarrow> unit uprog" where
  "ls_dir fd path st as =
     ubind (sys (SRead fd 16)) (\<lambda>a as1.
       if ret a \<noteq> 16 then ureturn () as1
       else if de_inum (rbytes a) = 0 then ls_dir fd path st as1
       else ubind (ls_entry (de_path path (rbytes a)) st) (\<lambda>_ as2. ls_dir fd path st as2) as1) as"
  by pat_completeness auto
termination
  by (relation "measure (\<lambda>(fd, path, st, as). length as)") (auto dest!: sys_less usesD [OF uses_ls_entry])

declare ls_dir.simps [simp del]

definition ls :: "u8 list \<Rightarrow> unit uprog" where
  "ls path =
     open_stat path (\<lambda>fd st.
       if ust_type st = uint T_FILE then print_stat (ls_fmtname path) st
       else if ust_type st = uint T_DIR then
         (if length path + 1 + DIRSIZ + 1 > 512 then printf_u (''ls: path too long'' @ nl) [] else ls_dir fd path st)
       else ureturn ())"

fun ls_args :: "u8 list list \<Rightarrow> unit uprog" where
  "ls_args [] = uexit 0"
| "ls_args (a # args) = ubind (ls a) (\<lambda>_. ls_args args)"

definition ls_main :: "u8 list list \<Rightarrow> unit uprog" where
  "ls_main argv = (if length argv < 2 then ubind (ls (str ''.'')) (\<lambda>_. uexit 0) else ls_args (drop 1 argv))"

section \<open>find\<close>

definition find_print :: "u8 list \<Rightarrow> u8 list \<Rightarrow> ustat \<Rightarrow> unit uprog" where
  "find_print buf target st =
     (if strcmp_u (find_fmtname buf) target = 0 then
        (if ust_type st = uint T_FILE then printf_u (''file:%s'' @ nl) [UStr (Some buf)]
         else if ust_type st = uint T_DIR then printf_u (''dir :%s'' @ nl) [UStr (Some buf)]
         else ureturn ())
      else ureturn ())"

definition find_enters :: "u8 list \<Rightarrow> ustat \<Rightarrow> bool" where
  "find_enters buf st \<longleftrightarrow>
     strcmp_u (find_fmtname buf) (str ''..'') \<noteq> 0 \<and> strcmp_u (find_fmtname buf) (str ''.'') \<noteq> 0 \<and> ust_type st = uint T_DIR"

text \<open>One round of the loop, with the recursive call \<open>go\<close> and the further rounds \<open>dir\<close>.\<close>

definition find_entry ::
  "(u8 list \<Rightarrow> unit uprog) \<Rightarrow> (ustat \<Rightarrow> unit uprog) \<Rightarrow> int \<Rightarrow> u8 list \<Rightarrow> u8 list \<Rightarrow> ustat \<Rightarrow> unit uprog" where
  "find_entry go dir fd path target st =
     ubind (sys (SRead fd 16)) (\<lambda>a.
       if ret a \<noteq> 16 then ureturn ()
       else if de_inum (rbytes a) = 0 then dir st
       else let buf = de_path path (rbytes a) in
         ubind (stat_u buf st) (\<lambda>(r, st1).
           if r < 0 then ubind (printf_u (''ls: cannot stat %s'' @ nl) [UStr (Some buf)]) (\<lambda>_. dir st1)
           else ubind (find_print buf target st1) (\<lambda>_.
             ubind (if find_enters buf st1 then go buf else ureturn ()) (\<lambda>_. dir st1))))"

fun find_go :: "nat \<Rightarrow> u8 list \<Rightarrow> u8 list \<Rightarrow> unit uprog"
  and find_dir :: "nat \<Rightarrow> int \<Rightarrow> u8 list \<Rightarrow> u8 list \<Rightarrow> ustat \<Rightarrow> unit uprog" where
  "find_go 0 path target = ucrash"
| "find_go (Suc n) path target =
     open_stat path (\<lambda>fd st.
       if ust_type st = uint T_FILE then print_stat (find_fmtname path) st
       else if ust_type st = uint T_DIR then
         (if length path + 1 + DIRSIZ + 1 > 512 then printf_u (''ls: path too long'' @ nl) [] else find_dir n fd path target st)
       else ureturn ())"
| "find_dir 0 fd path target st = ucrash"
| "find_dir (Suc n) fd path target st =
     find_entry (\<lambda>p. find_go n p target) (\<lambda>s. find_dir n fd path target s) fd path target st"

definition find_u :: "u8 list \<Rightarrow> u8 list \<Rightarrow> unit uprog" where
  "find_u path target as = find_go (Suc (length as)) path target as"

fun find_args :: "u8 list list \<Rightarrow> unit uprog" where
  "find_args [] = uexit 0"
| "find_args (a # args) = ubind (find_u a []) (\<lambda>_. find_args args)"

definition find_main :: "u8 list list \<Rightarrow> unit uprog" where
  "find_main argv = (if length argv < 2 then ubind (find_u (str ''.'') (str ''a'')) (\<lambda>_. uexit 0) else find_args (drop 1 argv))"

text \<open>The depth never runs out: a greater one gives the same run.\<close>

lemma uses_open_stat: "(\<And>fd st. uses 0 (body fd st)) \<Longrightarrow> uses 0 (open_stat path body)"
  unfolding open_stat_def
  by (rule uses_left [OF uses_0 [OF uses_sysr]])
    (simp add: uses_fprintf(1) uses_left [OF uses_0 [OF uses_sys]] uses_left [OF uses_fprintf(1) uses_left [OF uses_0 [OF uses_sysr] uses_return]]
      uses_left [OF _ uses_left [OF uses_0 [OF uses_sysr] uses_return]])

lemma uses_find_print: "uses 0 (find_print buf target st)"
  by (simp add: find_print_def uses_fprintf(2) uses_return)

lemma uses_find_entry: "(\<And>p. uses 0 (go p)) \<Longrightarrow> (\<And>s. uses 0 (dir s)) \<Longrightarrow> uses 0 (find_entry go dir fd path target st)"
  unfolding find_entry_def Let_def
  by (rule uses_left [OF uses_0 [OF uses_sys]])
    (auto simp: uses_return split: prod.split
      intro!: uses_left [OF uses_stat_u] uses_left [OF uses_fprintf(2)] uses_left [OF uses_find_print] uses_left)

lemma uses_find: "uses 0 (find_go n path target) \<and> uses 0 (find_dir n fd path target st)"
proof (induction n arbitrary: path fd st)
  case (Suc n)
  then show ?case by (auto simp: uses_fprintf(2) print_stat_def uses_return intro!: uses_open_stat uses_find_entry)
qed (simp add: uses_ucrash)

lemma open_stat_cong:
  assumes "\<And>fd st as1. length as1 + 2 \<le> length as \<Longrightarrow> body fd st as1 = body' fd st as1"
  shows "open_stat path body as = open_stat path body' as"
proof -
  have "body fd st as2 = body' fd st as2" if "sysr q as = (t1, URet fd, as1)" "sys q1 as1 = (t2, URet a, as2)" for fd st q q1 a t1 t2 as1 as2
    using assms [of as2 fd st] sysr_less [OF that(1)] sys_less [OF that(2)] by simp
  then show ?thesis unfolding open_stat_def by (intro ubind_cong refl) (auto intro!: ubind_cong)
qed

lemma find_entry_cong:
  assumes go: "\<And>path as1. length as1 < length as \<Longrightarrow> go path as1 = go' path as1"
    and dir: "\<And>st as1. length as1 < length as \<Longrightarrow> dir st as1 = dir' st as1" and "\<And>path. uses 0 (go' path)"
  shows "find_entry go dir fd path target st as = find_entry go' dir' fd path target st as"
proof -
  have d: "ubind m (\<lambda>_. dir st) as1 = ubind m (\<lambda>_. dir' st) as1" if "length as1 < length as" "uses 0 m" for as1 st and m :: "unit uprog"
    by (intro ubind_cong refl dir) (use usesD [OF that(2)] that(1) in fastforce)
  have g: "ubind (if b then go p else ureturn ()) k as1 = ubind (if b then go' p else ureturn ()) k as1" if "length as1 < length as" for b p as1 and k :: "unit \<Rightarrow> unit uprog"
    using go [OF that] by (simp add: ubind_def)
  have e: "ubind m (\<lambda>_. ubind (if b then go p else ureturn ()) (\<lambda>_. dir st)) as1 = ubind m (\<lambda>_. ubind (if b then go' p else ureturn ()) (\<lambda>_. dir' st)) as1"
    if "length as1 < length as" "uses 0 m" for as1 st b p and m :: "unit uprog"
  proof (rule ubind_cong [OF refl refl])
    fix t x as2
    assume "m as1 = (t, URet x, as2)"
    from usesD [OF that(2) this] have l: "length as2 < length as" using that(1) by simp
    have u: "uses 0 (if b then go' p else ureturn ())" using assms(3) by (simp add: uses_return)
    show "ubind (if b then go p else ureturn ()) (\<lambda>_. dir st) as2 = ubind (if b then go' p else ureturn ()) (\<lambda>_. dir' st) as2"
      by (rule trans [OF g [OF l] d [OF l u]])
  qed
  have s: "length as2 < length as" if "sys q as = (t, URet a, as1)" "stat_u buf st as1 = (t2, URet x, as2)" for q t a as1 buf st t2 x as2
    using sys_less [OF that(1)] usesD [OF uses_stat_u that(2)] by simp
  show ?thesis
    unfolding find_entry_def Let_def
  proof (rule ubind_cong [OF refl refl])
    fix t a as1
    assume a: "sys (SRead fd 16) as = (t, URet a, as1)"
    let ?buf = "de_path path (rbytes a)"
    have "ubind (stat_u ?buf st) (\<lambda>(r, st1). if r < 0 then ubind (printf_u (''ls: cannot stat %s'' @ nl) [UStr (Some ?buf)]) (\<lambda>_. dir st1)
          else ubind (find_print ?buf target st1) (\<lambda>_. ubind (if find_enters ?buf st1 then go ?buf else ureturn ()) (\<lambda>_. dir st1))) as1 =
        ubind (stat_u ?buf st) (\<lambda>(r, st1). if r < 0 then ubind (printf_u (''ls: cannot stat %s'' @ nl) [UStr (Some ?buf)]) (\<lambda>_. dir' st1)
          else ubind (find_print ?buf target st1) (\<lambda>_. ubind (if find_enters ?buf st1 then go' ?buf else ureturn ()) (\<lambda>_. dir' st1))) as1"
      by (intro ubind_cong refl) (use d [OF s [OF a] uses_fprintf(2)] e [OF s [OF a] uses_find_print] in \<open>simp split: prod.split\<close>)
    then show "(if ret a \<noteq> 16 then ureturn () else if de_inum (rbytes a) = 0 then dir st
        else ubind (stat_u ?buf st) (\<lambda>(r, st1). if r < 0 then ubind (printf_u (''ls: cannot stat %s'' @ nl) [UStr (Some ?buf)]) (\<lambda>_. dir st1)
          else ubind (find_print ?buf target st1) (\<lambda>_. ubind (if find_enters ?buf st1 then go ?buf else ureturn ()) (\<lambda>_. dir st1)))) as1 =
      (if ret a \<noteq> 16 then ureturn () else if de_inum (rbytes a) = 0 then dir' st
        else ubind (stat_u ?buf st) (\<lambda>(r, st1). if r < 0 then ubind (printf_u (''ls: cannot stat %s'' @ nl) [UStr (Some ?buf)]) (\<lambda>_. dir' st1)
          else ubind (find_print ?buf target st1) (\<lambda>_. ubind (if find_enters ?buf st1 then go' ?buf else ureturn ()) (\<lambda>_. dir' st1)))) as1"
      using dir [OF sys_less [OF a]] by simp
  qed
qed

lemma find_deep:
  "(length as < n \<longrightarrow> find_go (Suc n) path target as = find_go n path target as) \<and>
   (length as < n \<longrightarrow> find_dir (Suc n) fd path target st as = find_dir n fd path target st as)"
proof (induction n arbitrary: path fd st as)
  case (Suc n)
  have d: "find_dir (Suc n) fd path target st as' = find_dir n fd path target st as'" "find_go (Suc n) path target as' = find_go n path target as'"
    if "length as' < n" for path fd st as' using Suc that by blast+
  have "find_go (Suc (Suc n)) path target as = find_go (Suc n) path target as" if "length as < Suc n"
    unfolding find_go.simps(2) [of "Suc n"] find_go.simps(2) [of n]
    by (rule open_stat_cong) (use that in \<open>simp add: d del: find_dir.simps\<close>)
  moreover have "find_dir (Suc (Suc n)) fd path target st as = find_dir (Suc n) fd path target st as" if "length as < Suc n"
    unfolding find_dir.simps(2) [of "Suc n"] find_dir.simps(2) [of n fd path target st]
    by (rule find_entry_cong) (use that d uses_find in \<open>auto simp del: find_dir.simps find_go.simps\<close>)
  ultimately show ?case by blast
qed simp

end
