(* ===== verification/Xargs.thy ===== *)
theory Xargs
  imports Utilities
begin

text \<open>
  \<open>user/xargs.c\<close>: words are collected from single bytes in a block of 512 bytes from \<open>malloc\<close> and handed to a command. The index into
  the block is never reset, which bounds the input the program can take.
\<close>

section \<open>The program\<close>

text \<open>\<open>Cmd\<close>: the array of arguments, up to its null pointer.\<close>

definition Cmd_max_arg_cnt :: nat where
  "Cmd_max_arg_cnt = 10"

definition Cmd_make :: "u8 list list \<Rightarrow> u8 list list" where
  "Cmd_make args = take Cmd_max_arg_cnt args"

definition Cmd_append_make :: "u8 list list \<Rightarrow> u8 list list \<Rightarrow> u8 list list" where
  "Cmd_append_make cmd args = cmd @ take (Cmd_max_arg_cnt - length cmd) args"

definition Cmd_append_one_make :: "u8 list list \<Rightarrow> u8 list \<Rightarrow> u8 list list" where
  "Cmd_append_one_make cmd arg = Cmd_append_make cmd [arg]"

fun Cmd_print_args :: "u8 list list \<Rightarrow> unit uprog" where
  "Cmd_print_args [] = ureturn ()"
| "Cmd_print_args (a # args) = ubind (printf_u ''%s '' [UStr (Some a)]) (\<lambda>_. Cmd_print_args args)"

definition Cmd_print :: "u8 list list \<Rightarrow> unit uprog" where
  "Cmd_print cmd =
     ubind (printf_u (''----------------'' @ nl @ ''cmd arg cnt %d'' @ nl) [UInt (of_nat (length cmd))]) (\<lambda>_.
       ubind (Cmd_print_args cmd) (\<lambda>_. printf_u (nl @ ''----------------'' @ nl) []))"

definition Cmd_exec_in_child_process :: "u8 list list \<Rightarrow> int uprog" where
  "Cmd_exec_in_child_process cmd =
     (if cmd = [] then ubind (printf_u (''invalid cmd'' @ nl) []) (\<lambda>_. ureturn 0)
      else ubind (sysr SFork) (\<lambda>child.
        ubind (if child = 0 then ubind (uexec (hd cmd) cmd) (\<lambda>_. uexit 0) else ureturn ()) (\<lambda>_.
          ubind (sysr SWait) (\<lambda>_. ureturn 1))))"

datatype xmode = Mode_OneShot | Mode_EachLine

text \<open>The state of the loop: the bytes stored so far (as many as \<open>vc_i\<close> counts) and the start of the word being read.\<close>

record xstate =
  xcmd :: "u8 list list"
  xcmd1 :: "u8 list list"
  buff :: "u8 list"
  begin_at :: nat

definition word_at :: "xstate \<Rightarrow> u8 list" where
  "word_at s = takeWhile (\<lambda>c. c \<noteq> 0) (drop (begin_at s) (buff s))"

definition xargs_byte :: "xmode \<Rightarrow> u8 \<Rightarrow> xstate \<Rightarrow> xstate uprog" where
  "xargs_byte mode b s =
     (if length (buff s) \<ge> 512 then ucrash
      else if b = 10 \<or> b = 42 \<or> b = 32 then
        let s1 = s\<lparr>buff := buff s @ [0]\<rparr>;
            next_word = (\<lambda>s. s\<lparr>begin_at := length (buff s)\<rparr>)
        in case mode of
             Mode_EachLine \<Rightarrow>
               if b = 10 \<or> b = 42 then
                 ubind (Cmd_exec_in_child_process (Cmd_append_one_make (xcmd1 s1) (word_at s1))) (\<lambda>_. ureturn (next_word (s1\<lparr>xcmd1 := xcmd s1\<rparr>)))
               else ureturn (next_word (if length (buff s1) - begin_at s1 > 1 then s1\<lparr>xcmd1 := Cmd_append_one_make (xcmd1 s1) (word_at s1)\<rparr> else s1))
           | Mode_OneShot \<Rightarrow> ureturn (next_word (s1\<lparr>xcmd := Cmd_append_one_make (xcmd s1) (word_at s1)\<rparr>))
      else ureturn (s\<lparr>buff := buff s @ [b]\<rparr>))"

text \<open>Between the reads: no reads, no crash, one answer for each system call.\<close>

definition quiet :: "'a uprog \<Rightarrow> bool" where
  "quiet m \<longleftrightarrow> (\<forall>as t r as1. m as = (t, r, as1) \<longrightarrow>
     r \<noteq> UCrash \<and> (\<forall>q \<in> set t. \<forall>fd n. q \<noteq> SRead fd n) \<and> ((\<exists>x. r = URet x) \<longrightarrow> as1 = drop (length t) as \<and> length t \<le> length as))"

lemma quiet_return: "quiet (ureturn x)"
  by (auto simp: quiet_def ureturn_def)

lemma quiet_exit: "quiet (uexit n)"
  by (auto simp: quiet_def uexit_def)

lemma quiet_sys: "(\<And>fd n. q \<noteq> SRead fd n) \<Longrightarrow> quiet (sys q)"
  by (auto simp: quiet_def sys_def split: list.splits)

lemma quiet_bind:
  assumes "quiet m" and "\<And>x. quiet (f x)"
  shows "quiet (ubind m f)"
  unfolding quiet_def
proof (intro allI impI)
  fix as t r as1
  assume e: "ubind m f as = (t, r, as1)"
  obtain t0 r0 as0 where m: "m as = (t0, r0, as0)" by (metis prod_cases3)
  have q0: "r0 \<noteq> UCrash" "\<forall>q \<in> set t0. \<forall>fd n. q \<noteq> SRead fd n" "\<And>x. r0 = URet x \<Longrightarrow> as0 = drop (length t0) as \<and> length t0 \<le> length as"
    using assms(1) m by (auto simp: quiet_def)
  show "r \<noteq> UCrash \<and> (\<forall>q \<in> set t. \<forall>fd n. q \<noteq> SRead fd n) \<and> ((\<exists>x. r = URet x) \<longrightarrow> as1 = drop (length t) as \<and> length t \<le> length as)"
  proof (cases r0)
    case (URet x)
    obtain t1 r1 as2 where f: "f x as0 = (t1, r1, as2)" by (metis prod_cases3)
    have "t = t0 @ t1" "r = r1" "as1 = as2" using e m f URet by (auto simp: ubind_def)
    moreover have "r1 \<noteq> UCrash" "\<forall>q \<in> set t1. \<forall>fd n. q \<noteq> SRead fd n" "\<And>x. r1 = URet x \<Longrightarrow> as2 = drop (length t1) as0 \<and> length t1 \<le> length as0"
      using assms(2) f by (auto simp: quiet_def)
    ultimately show ?thesis using q0 URet by (auto simp: add.commute)
  qed (use e m q0 in \<open>auto simp: ubind_def\<close>)
qed

lemma quiet_sysr: "(\<And>fd n. q \<noteq> SRead fd n) \<Longrightarrow> quiet (sysr q)"
  unfolding sysr_def by (intro quiet_bind quiet_sys quiet_return)

lemma quiet_uexec: "quiet (uexec p argv)"
  by (auto simp: quiet_def uexec_def split: list.splits if_splits)

lemma quiet_putc_all: "quiet (putc_all fd bs)"
  by (induction bs) (auto intro!: quiet_return quiet_bind quiet_sysr)

lemma quiet_printf: "vprintf_u False (str fmt) ap \<noteq> None \<Longrightarrow> quiet (fprintf_u fd fmt ap)" "vprintf_u False (str fmt) ap \<noteq> None \<Longrightarrow> quiet (printf_u fmt ap)"
  by (auto simp: fprintf_u_def printf_u_def quiet_putc_all)

lemmas quiet_intros = quiet_return quiet_exit quiet_bind quiet_sysr quiet_uexec quiet_printf

lemma quiet_child: "quiet (Cmd_exec_in_child_process cmd)"
  unfolding Cmd_exec_in_child_process_def by (auto intro!: quiet_intros simp: str_def nl_def)

lemma quiet_byte: "length (buff s) < 512 \<Longrightarrow> quiet (xargs_byte mode b s)"
  unfolding xargs_byte_def Let_def by (cases mode) (auto intro!: quiet_intros quiet_child)

lemma quiet_uses: "quiet m \<Longrightarrow> uses 0 m"
  by (fastforce simp: quiet_def uses_def)

lemma uses_byte: "uses 0 (xargs_byte mode b s)"
proof (cases "length (buff s) < 512")
  case True
  then show ?thesis by (rule quiet_uses [OF quiet_byte])
qed (simp add: xargs_byte_def uses_ucrash)

function xargs_loop :: "xmode \<Rightarrow> int \<Rightarrow> xstate \<Rightarrow> xstate uprog" where
  "xargs_loop mode fd s as =
     ubind (sys (SRead fd 1)) (\<lambda>a as1.
       if ret a > 0 then ubind (xargs_byte mode (hd (rbytes a)) s) (\<lambda>s1 as2. xargs_loop mode fd s1 as2) as1
       else if ret a < 0 then ubind (printf_u (''wc: read error'' @ nl) []) (\<lambda>_. uexit 1) as1
       else ureturn s as1) as"
  by pat_completeness auto
termination
  by (relation "measure (\<lambda>(mode, fd, s, as). length as)") (auto dest!: sys_less usesD [OF uses_byte])

declare xargs_loop.simps [simp del]

definition xargs :: "u8 list list \<Rightarrow> xmode \<Rightarrow> int \<Rightarrow> unit uprog" where
  "xargs cmd mode fd =
     ubind (xargs_loop mode fd \<lparr>xcmd = cmd, xcmd1 = cmd, buff = [], begin_at = 0\<rparr>) (\<lambda>s.
       case mode of
         Mode_OneShot \<Rightarrow> ubind (Cmd_exec_in_child_process (xcmd s)) (\<lambda>_. ureturn ())
       | Mode_EachLine \<Rightarrow> ureturn ())"

definition xargs_main :: "u8 list list \<Rightarrow> unit uprog" where
  "xargs_main argv = ubind (xargs (Cmd_make (drop 1 argv)) Mode_OneShot 0) (\<lambda>_. uexit 0)"

section \<open>The bound on the input\<close>

text \<open>The bytes that the reads of a run have returned.\<close>

fun bytes_in :: "sysreq list \<Rightarrow> sysans list \<Rightarrow> nat" where
  "bytes_in (SRead fd n # t) (a # as) = (if ret a > 0 then 1 else 0) + bytes_in t as"
| "bytes_in (_ # t) (a # as) = bytes_in t as"
| "bytes_in _ _ = 0"

lemma bytes_in_Nil [simp]: "bytes_in t [] = 0"
  by (cases t) auto

lemma bytes_in_append: "bytes_in (t @ u) as = bytes_in t as + bytes_in u (drop (length t) as)"
  by (induction t as rule: bytes_in.induct) auto

lemma bytes_in_none: "\<forall>q \<in> set t. \<forall>fd n. q \<noteq> SRead fd n \<Longrightarrow> bytes_in t as = 0"
  by (induction t as rule: bytes_in.induct) auto

lemma byte_stored:
  assumes "xargs_byte mode b s as = (t, URet s1, as1)"
  shows "length (buff s) < 512 \<and> length (buff s1) = Suc (length (buff s))"
  using assms
  by (auto simp: xargs_byte_def ucrash_def Let_def ureturn_def split: if_splits xmode.splits elim!: ubind_Ret)

lemma xargs_loop_bound:
  assumes "xargs_loop mode fd s as = (t, r, as1)" and "length (buff s) \<le> 512"
  shows "(r = UCrash \<longleftrightarrow> 512 < length (buff s) + bytes_in t as) \<and> ((\<exists>x. r = URet x) \<longrightarrow> as1 = drop (length t) as)"
  using assms
proof (induction mode fd s as arbitrary: t r as1 rule: xargs_loop.induct)
  case (1 mode fd s as)
  note eq = 1(2) [unfolded xargs_loop.simps [of mode fd s as]]
  consider (stuck) "as = []" | (last) a as' where "as = a # as'" "ret a \<le> 0"
    | (byte) a as' t1 r1 as2 where "as = a # as'" "ret a > 0" "xargs_byte mode (hd (rbytes a)) s as' = (t1, r1, as2)"
    by (cases as) (auto, metis linorder_not_less prod_cases3)
  then show ?case
  proof cases
    case stuck
    then show ?thesis using eq 1(3) by (auto simp: ubind_def sys_def)
  next
    case last
    have q: "quiet (ubind (printf_u (''wc: read error'' @ nl) []) (\<lambda>_. uexit 1 :: xstate uprog))"
      by (intro quiet_intros) (simp add: str_def nl_def)
    obtain u where u: "t = SRead fd 1 # u" "(if ret a < 0 then ubind (printf_u (''wc: read error'' @ nl) []) (\<lambda>_. uexit 1) else ureturn s) as' = (u, r, as1)"
      using eq last by (auto simp: ubind_sys split: prod.splits if_splits)
    have "quiet (if ret a < 0 then ubind (printf_u (''wc: read error'' @ nl) []) (\<lambda>_. uexit 1) else ureturn s)"
      using q by (simp add: quiet_return)
    then have "r \<noteq> UCrash \<and> (\<forall>q \<in> set u. \<forall>fd n. q \<noteq> SRead fd n) \<and> ((\<exists>x. r = URet x) \<longrightarrow> as1 = drop (length u) as')"
      using u(2) unfolding quiet_def by blast
    then show ?thesis using u(1) last 1(3) bytes_in_none [of u as'] by auto
  next
    case byte
    show ?thesis
    proof (cases "length (buff s) < 512")
      case True
      note q = quiet_byte [OF True, of mode "hd (rbytes a)", unfolded quiet_def, rule_format, OF byte(3)]
      show ?thesis
      proof (cases r1)
        case (URet s1)
        obtain u where u: "t = SRead fd 1 # t1 @ u" "xargs_loop mode fd s1 as2 = (u, r, as1)"
          using eq byte URet by (auto simp: ubind_def sys_def split: prod.splits)
        have "length (buff s1) = Suc (length (buff s))" using byte_stored byte(3) URet by blast
        moreover have "as2 = drop (length t1) as'" using q URet by blast
        moreover have "bytes_in t1 as' = 0" using q by (intro bytes_in_none) blast
        ultimately show ?thesis
          using 1(1) [of "[SRead fd 1]" a as' t1 s1 as2 u r as1] byte URet u True
          by (auto simp: sys_def bytes_in_append add.commute)
      qed (use eq byte q True bytes_in_none [of t1 as'] in \<open>auto simp: ubind_def sys_def\<close>)
    next
      case False
      then show ?thesis using eq byte 1(3) by (auto simp: ubind_def sys_def xargs_byte_def ucrash_def)
    qed
  qed
qed

text \<open>
  C40. xargs writes beyond its 512-byte block exactly when its input has more than 512 bytes: the index into the block is never reset,
  whatever the words, the lines and the mode. Up to that size no store leaves the block.
\<close>

theorem xargs_overflows_at_513:
  assumes "xargs cmd mode fd as = (t, r, as1)"
  shows "r = UCrash \<longleftrightarrow> 512 < bytes_in t as"
proof -
  let ?s = "\<lparr>xcmd = cmd, xcmd1 = cmd, buff = [], begin_at = 0\<rparr>"
  obtain t1 r1 as2 where l: "xargs_loop mode fd ?s as = (t1, r1, as2)" by (metis prod_cases3)
  have b: "(r1 = UCrash \<longleftrightarrow> 512 < bytes_in t1 as) \<and> ((\<exists>x. r1 = URet x) \<longrightarrow> as2 = drop (length t1) as)"
    using xargs_loop_bound [OF l] by simp
  show ?thesis
  proof (cases r1)
    case (URet s)
    let ?last = "case mode of Mode_OneShot \<Rightarrow> ubind (Cmd_exec_in_child_process (xcmd s)) (\<lambda>_. ureturn ()) | Mode_EachLine \<Rightarrow> ureturn ()"
    obtain u where u: "?last as2 = (u, r, as1)" "t = t1 @ u"
      using assms l URet by (auto simp: xargs_def ubind_def [of "xargs_loop mode fd ?s"] split: prod.splits)
    have "quiet ?last" by (cases mode) (auto intro!: quiet_intros quiet_child)
    then have "r \<noteq> UCrash" "\<forall>q \<in> set u. \<forall>fd n. q \<noteq> SRead fd n" using u(1) unfolding quiet_def by blast+
    then show ?thesis using b URet u(2) bytes_in_none [of u as2] by (simp add: bytes_in_append)
  qed (use assms l b in \<open>auto simp: xargs_def ubind_def\<close>)
qed

text \<open>513 bytes without a newline, one at a time.\<close>

definition letter_a :: sysans where
  "letter_a = \<lparr>ret = 1, rbytes = [97], rfds = (0, 0), rstat = \<lparr>ust_type = 0, ust_ino = 0, ust_size = 0\<rparr>\<rparr>"

lemma letters_loop:
  "length (buff s) + n = 512 \<Longrightarrow> xargs_loop mode fd s (replicate (Suc n) letter_a) = (replicate (Suc n) (SRead fd 1), UCrash, [])"
proof (induction n arbitrary: s)
  case 0
  then show ?case by (simp add: xargs_loop.simps [of mode fd s] sys_def letter_a_def xargs_byte_def ucrash_def ubind_def)
next
  case (Suc n)
  let ?s = "s\<lparr>buff := buff s @ [97]\<rparr>"
  have "xargs_byte mode 97 s as = ([], URet ?s, as)" for as using Suc.prems by (simp add: xargs_byte_def ureturn_def)
  moreover have "xargs_loop mode fd ?s (replicate (Suc n) letter_a) = (replicate (Suc n) (SRead fd 1), UCrash, [])"
    using Suc.prems by (intro Suc.IH) simp
  ultimately show ?case
    unfolding xargs_loop.simps [of mode fd s] replicate_Suc [of "Suc n"] ubind_sys by (simp add: letter_a_def ubind_def)
qed

lemma bytes_in_letters: "bytes_in (replicate n (SRead fd 1)) (replicate n letter_a) = n"
  by (induction n) (auto simp: letter_a_def)

theorem xargs_overflows_at_513_witness:
  "xargs [str ''echo''] Mode_OneShot 0 (replicate 513 letter_a) = (replicate 513 (SRead 0 1), UCrash, []) \<and>
   512 < bytes_in (replicate 513 (SRead 0 1)) (replicate 513 letter_a)"
proof -
  have "xargs [str ''echo''] Mode_OneShot 0 (replicate 513 letter_a) = (replicate 513 (SRead 0 1), UCrash, [])"
    using letters_loop [of "\<lparr>xcmd = [str ''echo''], xcmd1 = [str ''echo''], buff = [], begin_at = 0\<rparr>" 512 Mode_OneShot 0]
    by (simp add: xargs_def ubind_def)
  with xargs_overflows_at_513 [OF this] show ?thesis by blast
qed

end
