(* ===== verification/Primes.thy ===== *)
theory Primes
  imports Utilities
begin

text \<open>
  \<open>user/primes.c\<close>: the sieve as a chain of processes, each with one pipe to the next. A definition follows one process; where \<open>fork\<close> answers
  0 it is the next process of the chain. A variable that \<open>read\<close> leaves alone keeps its value; \<open>junk tag\<close> are the values of \<open>elem\<close> and \<open>elem2\<close>
  before they are set, in the frame with that \<open>tag\<close>.
\<close>

definition recv_int :: "u32 \<Rightarrow> sysans \<Rightarrow> u32" where
  "recv_int old a = (let n = nat (ret a) in bytes_word (take n (rbytes a) @ drop n (word_bytes 4 old)))"

definition send_int :: "int \<Rightarrow> u32 \<Rightarrow> unit uprog" where
  "send_int fd x = sys_all [SWrite fd (word_bytes 4 x)]"

text \<open>The remainder of \<open>int\<close>s; a zero divisor gives the dividend.\<close>

definition rem_nonzero :: "u32 \<Rightarrow> u32 \<Rightarrow> bool" where
  "rem_nonzero a b \<longleftrightarrow> (if sint b = 0 then sint a \<noteq> 0 else sint a mod sint b \<noteq> 0)"

fun recur :: "nat \<Rightarrow> unit uprog" where
  "recur 0 = ureturn ()"
| "recur (Suc n) = ubind (printf_u (''%d'' @ nl) [UInt (of_nat (Suc n))]) (\<lambda>_. recur n)"

function block_close :: "int \<Rightarrow> unit uprog" where
  "block_close fd as = ubind (sysr (SClose fd)) (\<lambda>r as1. if r = -1 then block_close fd as1 else ureturn () as1) as"
  by pat_completeness auto
termination
  by (relation "measure (\<lambda>(fd, as). length as)") (auto dest!: sysr_less)

declare block_close.simps [simp del]

lemma uses_sys_all: "uses 0 (sys_all qs)"
  by (induction qs) (auto simp: sys_all_def uses_return intro!: uses_left [OF uses_0 [OF uses_sysr]])

lemma uses_block_close: "uses 0 (block_close fd)"
proof -
  have "block_close fd as = (t, URet x, as1) \<Longrightarrow> length as1 \<le> length as" for as t x as1
  proof (induction "length as" arbitrary: as t rule: less_induct)
    case less
    from less(2) obtain t1 r as2 t2 where r: "sysr (SClose fd) as = (t1, URet r, as2)"
        "(if r = -1 then block_close fd as2 else ureturn () as2) = (t2, URet x, as1)"
      by (subst (asm) block_close.simps) (erule ubind_Ret)
    have "length as2 < length as" using sysr_less [OF r(1)] .
    then show ?case using r(2) less(1) [of as2 t2] by (auto simp: ureturn_def split: if_splits)
  qed
  then show ?thesis by (simp add: uses_def)
qed

text \<open>The part of \<open>concurrent_prime_recur\<close> from the label \<open>__read\<close> on.\<close>

definition pump_step :: "int \<Rightarrow> u32 \<Rightarrow> u32 \<Rightarrow> unit uprog" where
  "pump_step wfd elem elem2 = (if rem_nonzero elem2 elem then send_int wfd elem2 else ureturn ())"

lemma uses_pump_step: "uses 0 (pump_step wfd elem elem2)"
  by (simp add: pump_step_def send_int_def uses_sys_all uses_return)

function pump :: "int \<Rightarrow> int \<Rightarrow> u32 \<Rightarrow> u32 \<Rightarrow> int \<Rightarrow> unit uprog" where
  "pump rfd wfd elem elem2 tag as =
     ubind (sysr (SSleep 1)) (\<lambda>_ as1.
       ubind (sys (SRead rfd 4)) (\<lambda>a as2.
         if recv_int elem2 a = -1 then
           ubind (send_int wfd (recv_int elem2 a)) (\<lambda>_.
             ubind (block_close rfd) (\<lambda>_. ubind (block_close wfd) (\<lambda>_. sys_all [SSleep tag]))) as2
         else ubind (pump_step wfd elem (recv_int elem2 a)) (\<lambda>_ as3. pump rfd wfd elem (recv_int elem2 a) tag as3) as2) as1) as"
  by pat_completeness auto
termination
  by (relation "measure (\<lambda>(rfd, wfd, elem, elem2, tag, as). length as)") (auto dest!: sysr_less sys_less usesD [OF uses_pump_step])

declare pump.simps [simp del]

function make_pipe :: "(int \<times> int) uprog" where
  "make_pipe as =
     ubind (sys SPipe) (\<lambda>a as1.
       if ret a = 0 then ureturn (rfds a) as1
       else ubind (printf_u (''failed to create'' @ nl) []) (\<lambda>_ as2. ubind (sysr (SSleep 10)) (\<lambda>_ as3. make_pipe as3) as2) as1) as"
  by pat_completeness auto
termination
  by (relation "measure length") (auto dest!: sys_less sysr_less usesD [OF uses_fprintf(2)])

declare make_pipe.simps [simp del]

lemma uses_make_pipe: "uses 0 make_pipe"
proof -
  have "make_pipe as = (t, URet x, as1) \<Longrightarrow> length as1 \<le> length as" for as t x as1
  proof (induction "length as" arbitrary: as t rule: less_induct)
    case less
    from less(2) obtain t1 a as2 t2 where r: "sys SPipe as = (t1, URet a, as2)"
        "(if ret a = 0 then ureturn (rfds a) as2
          else ubind (printf_u (''failed to create'' @ nl) []) (\<lambda>_ as2. ubind (sysr (SSleep 10)) (\<lambda>_ as3. make_pipe as3) as2) as2) = (t2, URet x, as1)"
      by (subst (asm) make_pipe.simps) (erule ubind_Ret)
    have l: "length as2 < length as" using sys_less [OF r(1)] .
    show ?case
    proof (cases "ret a = 0")
      case False
      then obtain u1 u2 u3 x1 x2 as3 as4 where "printf_u (''failed to create'' @ nl) [] as2 = (u1, URet x1, as3)"
          "sysr (SSleep 10) as3 = (u2, URet x2, as4)" "make_pipe as4 = (u3, URet x, as1)"
        using r(2) by (auto elim!: ubind_Ret)
      then show ?thesis using less(1) [of as4 u3] l usesD [OF uses_fprintf(2)] sysr_less by fastforce
    qed (use r(2) l in \<open>auto simp: ureturn_def\<close>)
  qed
  then show ?thesis by (simp add: uses_def)
qed

text \<open>\<open>concurrent_prime_recur\<close>; only the child of the \<open>fork\<close> calls it again.\<close>

function concurrent_prime_recur :: "(int \<Rightarrow> u32 \<times> u32) \<Rightarrow> int \<Rightarrow> int \<Rightarrow> unit uprog" where
  "concurrent_prime_recur junk rfd tag as =
     ubind (sys (SRead rfd 4)) (\<lambda>a as1.
       if recv_int (fst (junk tag)) a = -1 then ubind (sysr (SSleep tag)) (\<lambda>_. block_close rfd) as1
       else ubind (printf_u (''prime %d'' @ nl) [UInt (recv_int (fst (junk tag)) a)]) (\<lambda>_ as2.
         ubind (sysr (SSleep 1)) (\<lambda>_ as3.
           ubind (sys (SRead rfd 4)) (\<lambda>b as4.
             if recv_int (snd (junk tag)) b = -1 then ubind (sysr (SSleep tag)) (\<lambda>_. block_close rfd) as4
             else ubind make_pipe (\<lambda>p as5.
               ubind (sysr SFork) (\<lambda>child as6.
                 if child = 0 then ubind (block_close (snd p)) (\<lambda>_ as7. concurrent_prime_recur junk (fst p) (tag + 1) as7) as6
                 else ubind (block_close (fst p)) (\<lambda>_.
                   ubind (send_int (snd p) (recv_int (snd (junk tag)) b)) (\<lambda>_. pump rfd (snd p) (recv_int (fst (junk tag)) a) (recv_int (snd (junk tag)) b) tag)) as6) as5) as4) as3) as2) as1) as"
  by pat_completeness auto
termination
  by (relation "measure (\<lambda>(junk, rfd, tag, as). length as)")
    (auto dest!: sysr_less sys_less usesD [OF uses_fprintf(2)] usesD [OF uses_make_pipe] usesD [OF uses_block_close])

declare concurrent_prime_recur.simps [simp del]

fun send_candidates :: "int \<Rightarrow> nat \<Rightarrow> nat \<Rightarrow> unit uprog" where
  "send_candidates wfd 0 i = ureturn ()"
| "send_candidates wfd (Suc k) i =
     ubind (if i mod 2 \<noteq> 0 then send_int wfd (of_nat i) else ureturn ()) (\<lambda>_.
       ubind (sysr (SSleep 1)) (\<lambda>_. send_candidates wfd k (Suc i)))"

definition concurrent_prime :: "(int \<Rightarrow> u32 \<times> u32) \<Rightarrow> int \<Rightarrow> unit uprog" where
  "concurrent_prime junk num =
     ubind (sys SPipe) (\<lambda>a.
       ubind (sysr SFork) (\<lambda>child.
         if child = 0 then ubind (block_close (snd (rfds a))) (\<lambda>_. concurrent_prime_recur junk (fst (rfds a)) 1)
         else ubind (block_close (fst (rfds a))) (\<lambda>_.
           ubind (printf_u (''prime %d'' @ nl) [UInt 2]) (\<lambda>_.
             ubind (send_candidates (snd (rfds a)) (nat (num - 2)) 3) (\<lambda>_.
               ubind (send_int (snd (rfds a)) (-1)) (\<lambda>_. block_close (snd (rfds a))))))))"

definition primes_main :: "(int \<Rightarrow> u32 \<times> u32) \<Rightarrow> u8 list list \<Rightarrow> unit uprog" where
  "primes_main junk argv =
     ubind (if length argv > 1 then
              let num = atoi_u (argv ! 1) in
              ubind (printf_u (''num is %d'' @ nl) [UInt num]) (\<lambda>_.
                if num \<noteq> -1 then concurrent_prime junk (if sint num > 35 then 35 else sint num) else ureturn ())
            else ureturn ()) (\<lambda>_. uexit 0)"

end
