(* ===== verification/Umalloc.thy ===== *)
theory Umalloc
  imports User
begin

text \<open>
  \<open>user/umalloc.c\<close>, the allocator of Kernighan and Ritchie: a circular list of free blocks in the order of their addresses, in the headers of the
  blocks themselves. A loop over the list that does not end is \<open>None\<close> (theory \<open>Umalloc_Blocks\<close> proves that they end).
\<close>

section \<open>The program\<close>

text \<open>
  The fields \<open>s.ptr\<close> and \<open>s.size\<close> of the header at an address; \<open>hbase\<close> is the address of \<open>base\<close>. A header is 16 bytes, the unit of
  sizes and of pointer arithmetic.
\<close>

record uheap =
  hptr :: "u64 \<Rightarrow> u64"
  hsize :: "u64 \<Rightarrow> u32"
  freep :: u64
  hbase :: u64

definition hadd :: "u64 \<Rightarrow> u32 \<Rightarrow> u64" where
  "hadd p n = p + 16 * ucast n"

partial_function (option) free_scan :: "uheap \<Rightarrow> u64 \<Rightarrow> u64 \<Rightarrow> u64 option" where
  "free_scan h bp p =
     (if bp > p \<and> bp < hptr h p then Some p
      else if p \<ge> hptr h p \<and> (bp > p \<or> bp < hptr h p) then Some p
      else free_scan h bp (hptr h p))"

definition set_ptr :: "u64 \<Rightarrow> u64 \<Rightarrow> uheap \<Rightarrow> uheap" where
  "set_ptr p q h = h\<lparr>hptr := (hptr h)(p := q)\<rparr>"

definition set_size :: "u64 \<Rightarrow> u32 \<Rightarrow> uheap \<Rightarrow> uheap" where
  "set_size p n h = h\<lparr>hsize := (hsize h)(p := n)\<rparr>"

definition free_at :: "u64 \<Rightarrow> u64 \<Rightarrow> uheap \<Rightarrow> uheap" where
  "free_at bp p h =
     (let h1 = (if hadd bp (hsize h bp) = hptr h p
                then set_ptr bp (hptr h (hptr h p)) (set_size bp (hsize h bp + hsize h (hptr h p)) h)
                else set_ptr bp (hptr h p) h);
          h2 = (if hadd p (hsize h1 p) = bp
                then set_ptr p (hptr h1 bp) (set_size p (hsize h1 p + hsize h1 bp) h1)
                else set_ptr p bp h1)
      in h2\<lparr>freep := p\<rparr>)"

definition free_um :: "u64 \<Rightarrow> uheap \<Rightarrow> uheap option" where
  "free_um ap h = (let bp = ap - 16 in map_option (\<lambda>p. free_at bp p h) (free_scan h bp (freep h)))"

text \<open>A loop that does not end.\<close>

definition uloop :: "'a uprog" where
  "uloop as = ([], UStuck, as)"

definition morecore :: "u32 \<Rightarrow> uheap \<Rightarrow> (u64 \<times> uheap) uprog" where
  "morecore nu h =
     (let nu1 = (if nu < 4096 then 4096 else nu)
      in ubind (sysr (SSbrk (sint (ucast (ucast nu1 * 16 :: u64) :: u32)))) (\<lambda>r.
           if r = -1 then ureturn (0, h)
           else let hp = word_of_int r in
             (case free_um (hp + 16) (set_size hp nu1 h) of None \<Rightarrow> uloop | Some h1 \<Rightarrow> ureturn (freep h1, h1))))"

text \<open>The loop of \<open>malloc\<close> up to a block that is large enough or the end of a round.\<close>

partial_function (option) malloc_scan :: "uheap \<Rightarrow> u32 \<Rightarrow> u64 \<Rightarrow> u64 \<Rightarrow> (bool \<times> u64 \<times> u64) option" where
  "malloc_scan h nunits prevp p =
     (if hsize h p \<ge> nunits then Some (True, prevp, p)
      else if p = freep h then Some (False, prevp, p)
      else malloc_scan h nunits p (hptr h p))"

definition take_block :: "u32 \<Rightarrow> u64 \<Rightarrow> u64 \<Rightarrow> uheap \<Rightarrow> u64 \<times> uheap" where
  "take_block nunits prevp p h =
     (if hsize h p = nunits then (p + 16, (set_ptr prevp (hptr h p) h)\<lparr>freep := prevp\<rparr>)
      else let p1 = hadd p (hsize h p - nunits)
           in (p1 + 16, (set_size p1 nunits (set_size p (hsize h p - nunits) h))\<lparr>freep := prevp\<rparr>))"

lemma uses_morecore: "uses 1 (morecore nu h)"
proof -
  have "uses 0 (uloop :: (u64 \<times> uheap) uprog)" by (simp add: uses_def uloop_def)
  then show ?thesis
    unfolding morecore_def Let_def by (intro uses_left [OF uses_sysr]) (simp add: uses_return split: option.split)
qed

function malloc_loop :: "u32 \<Rightarrow> u64 \<Rightarrow> u64 \<Rightarrow> uheap \<Rightarrow> (u64 \<times> uheap) uprog" where
  "malloc_loop nunits prevp p h as =
     (case malloc_scan h nunits prevp p of
        None \<Rightarrow> uloop as
      | Some (found, prevp1, p1) \<Rightarrow>
          if found then ureturn (take_block nunits prevp1 p1 h) as
          else ubind (morecore nunits h) (\<lambda>qh as1.
            if fst qh = 0 then ureturn (0, snd qh) as1
            else malloc_loop nunits (fst qh) (hptr (snd qh) (fst qh)) (snd qh) as1) as)"
  by pat_completeness auto
termination
  by (relation "measure (\<lambda>(nunits, prevp, p, h, as). length as)") (auto dest!: usesD [OF uses_morecore])

declare malloc_loop.simps [simp del]

definition units :: "u32 \<Rightarrow> u32" where
  "units nbytes = ucast ((ucast nbytes + 16 - 1) div 16 + 1 :: u64)"

text \<open>The list of the first call: \<open>base\<close> alone.\<close>

definition malloc_init :: "uheap \<Rightarrow> uheap" where
  "malloc_init h = (if freep h = 0 then (set_size (hbase h) 0 (set_ptr (hbase h) (hbase h) h))\<lparr>freep := hbase h\<rparr> else h)"

definition malloc_um :: "u32 \<Rightarrow> uheap \<Rightarrow> (u64 \<times> uheap) uprog" where
  "malloc_um nbytes h =
     (let h1 = malloc_init h
      in malloc_loop (units nbytes) (freep h1) (hptr h1 (freep h1)) h1)"

end
