(* ===== verification/Umalloc_Blocks.thy ===== *)
theory Umalloc_Blocks
  imports Umalloc
begin

text \<open>
  The allocator of \<open>user/umalloc.c\<close> against the set of the bytes of its free blocks. The list is circular in the order of the addresses:
  \<open>linked\<close>, \<open>sized\<close> and \<open>heap_ok\<close> are its invariant. \<open>free\<close> adds exactly the bytes of the block, whichever neighbours it is merged with, and \<open>malloc\<close> takes a block
  out of them, after it has added what \<open>sbrk\<close> gave it.
\<close>

section \<open>Circular order\<close>

text \<open>The next address of a set, and the least one after the greatest.\<close>

definition succ_in :: "u64 set \<Rightarrow> u64 \<Rightarrow> u64" where
  "succ_in F a = (if \<exists>x \<in> F. a < x then Min {x \<in> F. a < x} else Min F)"

text \<open>\<open>p\<close> is the last address of the set before \<open>b\<close>.\<close>

definition before :: "u64 set \<Rightarrow> u64 \<Rightarrow> u64 \<Rightarrow> bool" where
  "before F p b \<longleftrightarrow> p \<in> F \<and> p < b \<and> (\<forall>x \<in> F. x < b \<longrightarrow> x \<le> p)"

lemma succ_in_mem: "finite F \<Longrightarrow> F \<noteq> {} \<Longrightarrow> succ_in F a \<in> F"
  unfolding succ_in_def using Min_in [of F] Min_in [of "{x \<in> F. a < x}"] by auto

lemma succ_in_up:
  assumes "finite F" and "x \<in> F" and "a < x"
  shows "a < succ_in F a" "succ_in F a \<le> x"
proof -
  have "Min {x \<in> F. a < x} \<in> {x \<in> F. a < x}" using assms by (intro Min_in) auto
  moreover have "Min {x \<in> F. a < x} \<le> x" using assms by (intro Min_le) auto
  ultimately show "a < succ_in F a" "succ_in F a \<le> x" using assms by (auto simp: succ_in_def)
qed

lemma succ_in_top: "\<forall>x \<in> F. x \<le> a \<Longrightarrow> succ_in F a = Min F"
  by (auto simp: succ_in_def)

lemma before_ex: "finite F \<Longrightarrow> a \<in> F \<Longrightarrow> a < b \<Longrightarrow> \<exists>p. before F p b"
proof -
  assume a: "finite F" "a \<in> F" "a < b"
  have "Max {x \<in> F. x < b} \<in> {x \<in> F. x < b}" using a by (intro Max_in) auto
  then show ?thesis unfolding before_def using a by (intro exI [of _ "Max {x \<in> F. x < b}"]) auto
qed

lemma Min_set_eq: "finite A \<Longrightarrow> finite B \<Longrightarrow> A \<noteq> {} \<Longrightarrow> B \<noteq> {} \<Longrightarrow> (\<And>x. x \<in> A \<Longrightarrow> \<exists>y \<in> B. y \<le> x) \<Longrightarrow> (\<And>y. y \<in> B \<Longrightarrow> \<exists>x \<in> A. x \<le> y) \<Longrightarrow>
    Min A = (Min B :: 'a :: linorder)"
  by (meson Min_in Min_le order_antisym order_trans)

lemma succ_insert:
  assumes F: "finite F" "b \<notin> F" and p: "before F p b"
  shows "succ_in (insert b F) b = succ_in F p" "succ_in (insert b F) p = b"
    "x \<in> F \<Longrightarrow> x \<noteq> p \<Longrightarrow> succ_in (insert b F) x = succ_in F x"
proof -
  have pb: "p \<in> F" "p < b" and last: "\<And>x. x \<in> F \<Longrightarrow> x < b \<Longrightarrow> x \<le> p" using p by (auto simp: before_def)
  have m: "Min (insert b F) = Min F" using F(1) pb by (intro Min_set_eq) (auto intro: less_imp_le)
  have "{x \<in> insert b F. b < x} = {x \<in> F. p < x}" using pb last F(2) by (auto, metis linorder_neqE not_less)
  moreover have "(\<exists>x \<in> insert b F. b < x) \<longleftrightarrow> (\<exists>x \<in> F. p < x)" using calculation by auto
  ultimately show "succ_in (insert b F) b = succ_in F p" unfolding succ_in_def m by simp
  have "Min {x \<in> insert b F. p < x} = b" using F pb last by (intro Min_eqI) (auto, metis linorder_not_less)
  then show "succ_in (insert b F) p = b" using pb by (auto simp: succ_in_def)
  assume x: "x \<in> F" "x \<noteq> p"
  have e: "(\<exists>y \<in> insert b F. x < y) \<longleftrightarrow> (\<exists>y \<in> F. x < y)" using pb last x by (metis insert_iff less_trans order_le_less)
  moreover have "Min {y \<in> insert b F. x < y} = Min {y \<in> F. x < y}" if "\<exists>y \<in> F. x < y"
    using F(1) pb last x that by (intro Min_set_eq) (auto, metis less_imp_le order_le_less)
  ultimately show "succ_in (insert b F) x = succ_in F x" unfolding succ_in_def m by simp
qed

lemma before_succ:
  assumes "finite F" and "x \<in> F" and "x < succ_in F x"
  shows "before (F - {succ_in F x}) x (succ_in F x)"
  using assms succ_in_up(2) [of F _ x] unfolding before_def by (auto, metis linorder_not_less order_antisym)

lemma succ_remove:
  assumes F: "finite F" "x \<in> F" and q: "q = succ_in F x" "x < q"
  shows "succ_in (F - {q}) x = succ_in F q" "y \<in> F \<Longrightarrow> y \<noteq> q \<Longrightarrow> y \<noteq> x \<Longrightarrow> succ_in (F - {q}) y = succ_in F y"
proof -
  have "q \<in> F" using succ_in_mem F q(1) by auto
  then have i: "insert q (F - {q}) = F" by auto
  have b: "before (F - {q}) x q" using before_succ [OF F] q by simp
  show "succ_in (F - {q}) x = succ_in F q" "y \<in> F \<Longrightarrow> y \<noteq> q \<Longrightarrow> y \<noteq> x \<Longrightarrow> succ_in (F - {q}) y = succ_in F y"
    using succ_insert [OF _ _ b] F i by auto
qed

text \<open>The distance from one address to another along the circle.\<close>

definition hops :: "u64 set \<Rightarrow> u64 \<Rightarrow> u64 \<Rightarrow> nat" where
  "hops F a b = (if a \<le> b then card {x \<in> F. a < x \<and> x \<le> b} else card {x \<in> F. a < x} + card {x \<in> F. x \<le> b})"

lemma hops_succ:
  assumes F: "finite F" "a \<in> F" "b \<in> F" and "a \<noteq> b"
  shows "hops F (succ_in F a) b < hops F a b"
proof (cases "\<exists>x \<in> F. a < x")
  case True
  then obtain x where x: "x \<in> F" "a < x" by blast
  let ?s = "succ_in F a"
  have s: "a < ?s" "?s \<in> F" using succ_in_up(1) [OF F(1) x] succ_in_mem F(1,2) by auto
  show ?thesis
  proof (cases "a < b")
    case lt: True
    then have "?s \<le> b" using succ_in_up(2) F by blast
    then have "{x \<in> F. ?s < x \<and> x \<le> b} \<subset> {x \<in> F. a < x \<and> x \<le> b}" using s by auto
    then show ?thesis using psubset_card_mono [of "{x \<in> F. a < x \<and> x \<le> b}"] F(1) lt \<open>?s \<le> b\<close> by (simp add: hops_def)
  next
    case False
    then have ba: "b < a" using assms(4) by simp
    have "{x \<in> F. ?s < x} \<subset> {x \<in> F. a < x}" using s by auto
    then have "card {x \<in> F. ?s < x} < card {x \<in> F. a < x}" by (rule psubset_card_mono [rotated]) (simp add: F(1))
    moreover have "\<not> ?s \<le> b" "\<not> a \<le> b" using ba s(1) by auto
    ultimately show ?thesis by (simp add: hops_def)
  qed
next
  case False
  then have top: "\<forall>x \<in> F. x \<le> a" by auto
  have ba: "b < a" using F(3) top assms(4) by (metis order_le_less)
  have "Min F \<in> F" using F by (intro Min_in) auto
  then have m: "succ_in F a = Min F" "Min F \<in> F" "Min F \<le> b" using succ_in_top [OF top] F by auto
  have "{x \<in> F. Min F < x \<and> x \<le> b} \<subset> {x \<in> F. x \<le> b}" using m by auto
  then have "card {x \<in> F. Min F < x \<and> x \<le> b} < card {x \<in> F. x \<le> b}" by (rule psubset_card_mono [rotated]) (simp add: F(1))
  then show ?thesis using m ba by (simp add: hops_def)
qed

section \<open>The free list\<close>

text \<open>
  The headers of the free list are the addresses \<open>F\<close>, linked in circular order from \<open>base\<close>, which has no bytes. The blocks do not
  overlap, and end below \<open>2 ^ 36\<close>, so that the number of units of any of them fits in 32 bits.
\<close>

definition heap_limit :: nat where
  "heap_limit = 2 ^ 36"

definition end_of :: "u64 \<Rightarrow> u32 \<Rightarrow> nat" where
  "end_of x n = unat x + 16 * unat n"

definition linked :: "u64 set \<Rightarrow> uheap \<Rightarrow> bool" where
  "linked F h \<longleftrightarrow> finite F \<and> hbase h \<in> F \<and> (\<forall>x \<in> F. hbase h \<le> x) \<and> (\<forall>x \<in> F. hptr h x = succ_in F x)"

definition sized :: "u64 set \<Rightarrow> uheap \<Rightarrow> bool" where
  "sized F h \<longleftrightarrow> hsize h (hbase h) = 0 \<and> (\<forall>x \<in> F. x \<noteq> hbase h \<longrightarrow> hsize h x \<noteq> 0) \<and> (\<forall>x \<in> F. end_of x (hsize h x) \<le> heap_limit) \<and>
     (\<forall>x \<in> F. \<forall>y \<in> F. x < y \<longrightarrow> end_of x (hsize h x) \<le> unat y)"

definition heap_ok :: "u64 set \<Rightarrow> uheap \<Rightarrow> bool" where
  "heap_ok F h \<longleftrightarrow> linked F h \<and> sized F h \<and> freep h \<in> F \<and> hbase h \<noteq> 0"

definition block_bytes :: "u64 \<Rightarrow> u32 \<Rightarrow> nat set" where
  "block_bytes x n = {unat x ..< end_of x n}"

definition free_bytes :: "u64 set \<Rightarrow> uheap \<Rightarrow> nat set" where
  "free_bytes F h = (\<Union>x \<in> F. block_bytes x (hsize h x))"

lemma free_bytes_split: "x \<in> F \<Longrightarrow> free_bytes F h = block_bytes x (hsize h x) \<union> free_bytes (F - {x}) h"
  by (auto simp: free_bytes_def)

lemma free_bytes_cong: "(\<And>x. x \<in> F \<Longrightarrow> hsize h x = hsize h' x) \<Longrightarrow> free_bytes F h = free_bytes F h'"
  by (simp add: free_bytes_def)

lemma freep_irrelevant [simp]: "linked F (h\<lparr>freep := q\<rparr>) = linked F h" "sized F (h\<lparr>freep := q\<rparr>) = sized F h"
  by (simp_all add: linked_def sized_def)

lemma linkedD:
  assumes "linked F h"
  shows "finite F" "hbase h \<in> F" "x \<in> F \<Longrightarrow> hbase h \<le> x" "x \<in> F \<Longrightarrow> hptr h x = succ_in F x" "x \<in> F \<Longrightarrow> hptr h x \<in> F" "Min F = hbase h"
  using assms succ_in_mem [of F] by (auto simp: linked_def intro: Min_eqI)

lemma hadd_end: "end_of x n < 2 ^ 64 \<Longrightarrow> unat (hadd x n) = end_of x n"
proof -
  have n: "unat (ucast n :: u64) = unat n"
    using unat_less_u32 [of n] by (simp add: unsigned_ucast_eq take_bit_nat_eq_self)
  assume "end_of x n < 2 ^ 64"
  then show ?thesis unfolding hadd_def end_of_def using n by (simp add: unat_word_ariths)
qed

lemma free_scan_before:
  assumes l: "linked F h" and b: "b \<notin> F" and p: "before F p b" and "x \<in> F"
  shows "free_scan h b x = Some p"
  using assms(4)
proof (induction "hops F x p" arbitrary: x rule: less_induct)
  case less
  note L = linkedD [OF l]
  have P: "p \<in> F" "p < b" and last: "\<And>y. y \<in> F \<Longrightarrow> y < b \<Longrightarrow> y \<le> p" using p by (auto simp: before_def)
  have nx: "hptr h x = succ_in F x" using L(4) less(2) .
  show ?case
  proof (cases "x = p")
    case True
    show ?thesis
    proof (cases "\<exists>y \<in> F. p < y")
      case up: True
      then have "p < succ_in F p" using succ_in_up(1) [OF L(1)] by blast
      moreover have s: "succ_in F p \<in> F" using succ_in_mem [OF L(1)] P(1) by blast
      moreover have "succ_in F p \<noteq> b" using s b by metis
      ultimately have "b < succ_in F p" using last [OF s] by (metis linorder_neqE leD)
      then show ?thesis using True P nx by (subst free_scan.simps) simp
    next
      case False
      then have "\<forall>y \<in> F. y \<le> p" by (meson not_le)
      then have "succ_in F p = hbase h" using succ_in_top [of F p] L(6) by simp
      then show ?thesis using True P nx L(3) [OF P(1)] by (subst free_scan.simps) simp
    qed
  next
    case False
    have "\<not> (b > x \<and> b < succ_in F x)"
    proof
      assume a: "b > x \<and> b < succ_in F x"
      then have "x < p" using last [OF less(2)] False by auto
      then show False using succ_in_up(2) [OF L(1) P(1)] a P(2) by fastforce
    qed
    moreover have "\<not> (x \<ge> succ_in F x \<and> (b > x \<or> b < succ_in F x))"
    proof
      assume a: "x \<ge> succ_in F x \<and> (b > x \<or> b < succ_in F x)"
      then have top: "\<forall>y \<in> F. y \<le> x" using succ_in_up(1) [OF L(1)] by (meson not_le)
      then have "succ_in F x = hbase h" using succ_in_top [OF top] L(6) by simp
      then have "b > x" using a P L(3) [OF P(1)] by auto
      then show False using last [OF less(2)] top P(1) False by (auto dest: order_antisym)
    qed
    moreover have "free_scan h b (succ_in F x) = Some p"
      by (rule less(1)) (use hops_succ [OF L(1) less(2) P(1) False] succ_in_mem [OF L(1)] L(2) in auto)
    ultimately show ?thesis using nx by (subst free_scan.simps) auto
  qed
qed

section \<open>Linking and merging\<close>

text \<open>\<open>free\<close> in two kinds of steps: a block is linked behind \<open>p\<close>, and a block takes in the next one.\<close>

definition link :: "u64 \<Rightarrow> u64 \<Rightarrow> uheap \<Rightarrow> uheap" where
  "link b p h = set_ptr p b (set_ptr b (hptr h p) h)"

definition absorb :: "u64 \<Rightarrow> uheap \<Rightarrow> uheap" where
  "absorb x h = set_ptr x (hptr h (hptr h x)) (set_size x (hsize h x + hsize h (hptr h x)) h)"

definition merge :: "u64 \<Rightarrow> uheap \<Rightarrow> uheap" where
  "merge x h = (if hadd x (hsize h x) = hptr h x then absorb x h else h)"

lemmas heap_defs = set_ptr_def set_size_def link_def absorb_def

lemma free_at_steps:
  assumes "p \<noteq> b" and "hadd b (hsize h b) = hptr h p \<Longrightarrow> hptr h p \<noteq> p \<and> hptr h p \<noteq> b"
  shows "free_at b p h = (merge p (merge b (link b p h)))\<lparr>freep := p\<rparr>"
  using assms by (auto simp: free_at_def merge_def heap_defs Let_def fun_upd_twist)

lemma link_linked:
  assumes l: "linked F h" and "b \<notin> F" and p: "before F p b"
  shows "linked (insert b F) (link b p h)"
proof -
  note L = linkedD [OF l]
  have P: "p \<in> F" "p < b" using p by (auto simp: before_def)
  then have "hbase h \<le> b" "p \<noteq> b" using L(3) [OF P(1)] by auto
  then show ?thesis using L P succ_insert [OF L(1) assms(2) p] assms(2) unfolding linked_def by (auto simp: heap_defs)
qed

lemma unlink_linked:
  assumes l: "linked F h" and x: "x \<in> F" "x < hptr h x"
  shows "linked (F - {hptr h x}) (set_ptr x (hptr h (hptr h x)) h)"
proof -
  note L = linkedD [OF l]
  have q: "hptr h x = succ_in F x" "hptr h x \<in> F" using L(4,5) x(1) by auto
  have "hbase h \<noteq> hptr h x" using L(3) [OF x(1)] x(2) by auto
  then show ?thesis using L succ_remove [OF L(1) x(1) q(1) x(2)] x q unfolding linked_def by (auto simp: heap_defs)
qed

lemma end_of_pos: "n \<noteq> 0 \<Longrightarrow> unat x < end_of x n"
  by (simp add: end_of_def unat_gt_0)

lemma limit_small: "end_of x n \<le> heap_limit \<Longrightarrow> end_of x n < 2 ^ 64"
  by (simp add: heap_limit_def)

lemma end_of_add:
  assumes "end_of x n = unat q" and "end_of q m \<le> heap_limit" and "0 < unat x"
  shows "end_of x (n + m) = end_of q m"
proof -
  have "16 * (unat n + unat m) < 2 ^ 36" using assms by (simp add: end_of_def heap_limit_def)
  then have "unat (n + m) = unat n + unat m" by (simp add: unat_word_ariths)
  then show ?thesis using assms(1) by (simp add: end_of_def)
qed

lemma absorb_ok:
  assumes l: "linked F h" and s: "sized F h" and x: "x \<in> F" "x \<noteq> hbase h" and adj: "hadd x (hsize h x) = hptr h x"
  shows absorb_bytes: "block_bytes x (hsize (absorb x h) x) = block_bytes x (hsize h x) \<union> block_bytes (hptr h x) (hsize h (hptr h x))"
    and "linked (F - {hptr h x}) (absorb x h)" "sized (F - {hptr h x}) (absorb x h)" "free_bytes (F - {hptr h x}) (absorb x h) = free_bytes F h"
    "x < hptr h x"
proof -
  note L = linkedD [OF l]
  define q where "q = hptr h x"
  have n: "hsize h x \<noteq> 0" "end_of x (hsize h x) \<le> heap_limit" using s x by (auto simp: sized_def)
  have e: "end_of x (hsize h x) = unat q" using hadd_end [OF limit_small [OF n(2)]] adj by (simp add: q_def)
  then have xq: "x < q" using end_of_pos [OF n(1), of x] by (simp add: word_less_nat_alt)
  then show "x < hptr h x" by (simp add: q_def)
  have q: "q \<in> F" "q = succ_in F x" using L(4,5) x(1) by (auto simp: q_def)
  have x0: "0 < unat x" using L(3) [OF x(1)] x(2) by (metis less_le_trans order_le_less unat_gt_0 word_gt_0 word_zero_le)
  have eq: "end_of q (hsize h q) \<le> heap_limit" using s q by (auto simp: sized_def)
  note a = end_of_add [OF e eq x0]
  have nz: "hsize h x + hsize h q \<noteq> 0" using end_of_pos [OF n(1), of x] a e by (auto simp: end_of_def)
  show "linked (F - {hptr h x}) (absorb x h)"
    using unlink_linked [OF l x(1)] xq unfolding linked_def q_def absorb_def by (auto simp: heap_defs)
  have after: "q < y" if "y \<in> F" "x < y" "y \<noteq> q" for y using succ_in_up(2) [OF L(1) that(1,2)] q(2) that(3) by auto
  show "sized (F - {hptr h x}) (absorb x h)"
    unfolding sized_def q_def [symmetric]
  proof (intro conjI ballI impI)
    show "end_of y (hsize (absorb x h) y) \<le> unat z" if "y \<in> F - {q}" "z \<in> F - {q}" "y < z" for y z
      using s that after [of z] a q(1) by (auto simp: sized_def heap_defs q_def [symmetric])
  qed (use s x nz a eq in \<open>auto simp: sized_def heap_defs q_def [symmetric]\<close>)
  have u: "block_bytes x (hsize h x + hsize h q) = block_bytes x (hsize h x) \<union> block_bytes q (hsize h q)"
    unfolding block_bytes_def a using e end_of_pos [OF n(1), of x] by (auto simp: end_of_def)
  then show "block_bytes x (hsize (absorb x h) x) = block_bytes x (hsize h x) \<union> block_bytes (hptr h x) (hsize h (hptr h x))"
    by (simp add: heap_defs q_def)
  note u
  moreover have "free_bytes (F - {q} - {x}) (absorb x h) = free_bytes (F - {q} - {x}) h"
    by (rule free_bytes_cong) (simp add: heap_defs)
  moreover have "hsize (absorb x h) x = hsize h x + hsize h q" by (simp add: heap_defs q_def)
  moreover have "free_bytes (F - {q}) (absorb x h) = block_bytes x (hsize (absorb x h) x) \<union> free_bytes (F - {q} - {x}) (absorb x h)"
    by (rule free_bytes_split) (use x(1) xq in auto)
  moreover have "free_bytes F h = block_bytes q (hsize h q) \<union> free_bytes (F - {q}) h" by (rule free_bytes_split [OF q(1)])
  moreover have "free_bytes (F - {q}) h = block_bytes x (hsize h x) \<union> free_bytes (F - {q} - {x}) h"
    by (rule free_bytes_split) (use x(1) xq in auto)
  ultimately show "free_bytes (F - {hptr h x}) (absorb x h) = free_bytes F h" unfolding q_def [symmetric] by auto
qed

text \<open>What one merge does to the free list; every block is part of one afterwards.\<close>

definition covers :: "u64 set \<Rightarrow> uheap \<Rightarrow> u64 set \<Rightarrow> uheap \<Rightarrow> bool" where
  "covers F h F' h' \<longleftrightarrow> (\<forall>y \<in> F. \<exists>x \<in> F'. block_bytes y (hsize h y) \<subseteq> block_bytes x (hsize h' x))"

lemma covers_refl: "covers F h F h"
  by (auto simp: covers_def)

lemma covers_trans: "covers F h F' h' \<Longrightarrow> covers F' h' F'' h'' \<Longrightarrow> covers F h F'' h''"
  unfolding covers_def by (meson subset_trans)

definition merged :: "u64 set \<Rightarrow> uheap \<Rightarrow> u64 set \<Rightarrow> uheap \<Rightarrow> bool" where
  "merged F h F' h' \<longleftrightarrow> F' \<subseteq> F \<and> linked F' h' \<and> sized F' h' \<and> free_bytes F' h' = free_bytes F h \<and> covers F h F' h' \<and>
     hbase h' = hbase h \<and> (\<forall>y. y \<notin> F \<longrightarrow> hsize h' y = hsize h y)"

lemma merge_merged:
  assumes l: "linked F h" and s: "sized F h" and x: "x \<in> F" and b: "x = hbase h \<Longrightarrow> hptr h x \<noteq> x"
  shows "\<exists>F'. merged F h F' (merge x h) \<and> (\<forall>y \<in> F. y \<le> x \<longrightarrow> y \<in> F')"
proof (cases "hadd x (hsize h x) = hptr h x")
  case False
  then show ?thesis using l s by (auto simp: merged_def merge_def covers_refl)
next
  case True
  have "x \<noteq> hbase h" using True b s by (auto simp: sized_def hadd_def)
  note a = absorb_ok(2,3,4,5) [OF l s x this True]
  have q: "hptr h x \<in> F" using linkedD(5) [OF l x] .
  have e: "block_bytes y (hsize h y) \<subseteq> block_bytes x (hsize (absorb x h) x)" if "y = x \<or> y = hptr h x" for y
    using absorb_bytes [OF l s x \<open>x \<noteq> hbase h\<close> True] that by auto
  have "covers F h (F - {hptr h x}) (absorb x h)"
    unfolding covers_def
  proof
    fix y assume y: "y \<in> F"
    show "\<exists>z \<in> F - {hptr h x}. block_bytes y (hsize h y) \<subseteq> block_bytes z (hsize (absorb x h) z)"
    proof (cases "y = x \<or> y = hptr h x")
      case True
      then show ?thesis using e x a(4) by (intro bexI [of _ x]) auto
    next
      case False
      then show ?thesis using y by (intro bexI [of _ y]) (auto simp: heap_defs)
    qed
  qed
  moreover have "hbase (absorb x h) = hbase h" "\<forall>y. y \<notin> F \<longrightarrow> hsize (absorb x h) y = hsize h y" using x by (auto simp: heap_defs)
  ultimately show ?thesis using a True by (intro exI [of _ "F - {hptr h x}"]) (auto simp: merged_def merge_def)
qed

section \<open>free\<close>

text \<open>A block that may be freed: it lies above \<open>base\<close> and apart from the free blocks.\<close>

definition block_ok :: "u64 set \<Rightarrow> uheap \<Rightarrow> u64 \<Rightarrow> bool" where
  "block_ok F h b \<longleftrightarrow> hbase h < b \<and> hsize h b \<noteq> 0 \<and> end_of b (hsize h b) \<le> heap_limit \<and> block_bytes b (hsize h b) \<inter> free_bytes F h = {}"

lemma block_start: "n \<noteq> 0 \<Longrightarrow> unat x \<in> block_bytes x n"
  using end_of_pos [of n x] by (simp add: block_bytes_def)

lemma block_apart:
  assumes l: "linked F h" and s: "sized F h" and b: "block_ok F h b"
  shows "b \<notin> F" "x \<in> F \<Longrightarrow> x < b \<Longrightarrow> end_of x (hsize h x) \<le> unat b" "x \<in> F \<Longrightarrow> b < x \<Longrightarrow> end_of b (hsize h b) \<le> unat x"
proof -
  have n: "hsize h b \<noteq> 0" "hbase h < b" and d: "\<And>y. y \<in> block_bytes b (hsize h b) \<Longrightarrow> y \<notin> free_bytes F h" using b by (auto simp: block_ok_def)
  have x0: "hsize h x \<noteq> 0" if "x \<in> F" "x \<noteq> hbase h" for x using s that by (auto simp: sized_def)
  show "b \<notin> F" using d [OF block_start [OF n(1)]] block_start [OF n(1), of b] by (auto simp: free_bytes_def)
  show "end_of x (hsize h x) \<le> unat b" if "x \<in> F" "x < b"
    using d [OF block_start [OF n(1)]] that by (auto simp: free_bytes_def block_bytes_def word_less_nat_alt not_le)
  show "end_of b (hsize h b) \<le> unat x" if x: "x \<in> F" "b < x"
  proof -
    have "unat x \<in> free_bytes F h" using x block_start [OF x0 [OF x(1)], of x] n(2) by (force simp: free_bytes_def)
    then have "unat x \<notin> block_bytes b (hsize h b)" using d by blast
    then show ?thesis using x(2) by (simp add: block_bytes_def word_less_nat_alt)
  qed
qed

lemma link_sized:
  assumes l: "linked F h" and s: "sized F h" and b: "block_ok F h b"
  shows "sized (insert b F) (link b p h)"
  unfolding sized_def using s b block_apart [OF l s b] by (auto simp: sized_def block_ok_def heap_defs)

lemma free_correct:
  assumes ok: "heap_ok F h" and b: "block_ok F h b"
  shows "\<exists>F' h'. free_um (b + 16) h = Some h' \<and> heap_ok F' h' \<and> free_bytes F' h' = free_bytes F h \<union> block_bytes b (hsize h b) \<and>
    covers (insert b F) h F' h' \<and> F' \<subseteq> insert b F \<and> hbase h' = hbase h \<and> (\<forall>y. y \<notin> insert b F \<longrightarrow> hsize h' y = hsize h y)"
proof -
  have l: "linked F h" and s: "sized F h" and fp: "freep h \<in> F" "hbase h \<noteq> 0" using ok by (auto simp: heap_ok_def)
  note L = linkedD [OF l] and A = block_apart [OF l s b]
  have hb: "hbase h < b" "hsize h b \<noteq> 0" "end_of b (hsize h b) \<le> heap_limit" using b by (auto simp: block_ok_def)
  obtain p where p: "before F p b" using before_ex [OF L(1,2) hb(1)] by blast
  then have P: "p \<in> F" "p < b" by (auto simp: before_def)
  let ?h = "link b p h" and ?F = "insert b F"
  have lk: "linked ?F ?h" "sized ?F ?h" using link_linked [OF l A(1) p] link_sized [OF l s b] by auto
  have eb: "b < hptr h p \<and> hptr h p \<noteq> p" if "hadd b (hsize h b) = hptr h p"
  proof -
    have "unat (hptr h p) = end_of b (hsize h b)" using hadd_end [OF limit_small [OF hb(3)]] that by simp
    then have "b < hptr h p" using end_of_pos [OF hb(2), of b] by (simp add: word_less_nat_alt)
    then show ?thesis using P(2) by auto
  qed
  obtain F1 where F1: "merged ?F ?h F1 (merge b ?h)" "\<forall>y \<in> ?F. y \<le> b \<longrightarrow> y \<in> F1"
    using merge_merged [OF lk, of b] hb(1) by (auto simp: heap_defs)
  have p1: "p \<in> F1" "linked F1 (merge b ?h)" "sized F1 (merge b ?h)" using F1 P by (auto simp: merged_def)
  have ptr: "hptr (merge b ?h) p \<noteq> p" using P(2) by (auto simp: merge_def heap_defs)
  obtain F2 where F2: "merged F1 (merge b ?h) F2 (merge p (merge b ?h))" "\<forall>y \<in> F1. y \<le> p \<longrightarrow> y \<in> F2"
    using merge_merged [OF p1(2,3,1)] ptr by blast
  let ?h2 = "(merge p (merge b ?h))\<lparr>freep := p\<rparr>"
  have "free_at b p h = ?h2" by (rule free_at_steps) (use P(2) eb in auto)
  then have "free_um (b + 16) h = Some ?h2" using free_scan_before [OF l A(1) p fp(1)] by (simp add: free_um_def)
  moreover have "heap_ok F2 ?h2" using F2 F1 p1(1) fp(2) by (auto simp: heap_ok_def merged_def linked_def sized_def heap_defs)
  moreover have "free_bytes ?F ?h = free_bytes F h \<union> block_bytes b (hsize h b)"
    using free_bytes_split [of b ?F ?h] A(1) free_bytes_cong [of F ?h h] by (auto simp: heap_defs)
  then have "free_bytes F2 ?h2 = free_bytes F h \<union> block_bytes b (hsize h b)" using F1(1) F2(1) by (simp add: merged_def free_bytes_def)
  moreover have "covers ?F h F2 ?h2"
    using covers_trans [of ?F ?h F1 "merge b ?h" F2 "merge p (merge b ?h)"] F1(1) F2(1) by (simp add: merged_def covers_def heap_defs)
  moreover have "F2 \<subseteq> ?F" "hbase ?h2 = hbase h" "\<forall>y. y \<notin> ?F \<longrightarrow> hsize ?h2 y = hsize h y"
    using F1(1) F2(1) by (auto simp: merged_def heap_defs)
  ultimately show ?thesis by blast
qed

section \<open>malloc\<close>

lemma circle_closed:
  assumes l: "linked F h" and S: "S \<subseteq> F" "a \<in> S" and c: "\<And>y. y \<in> S \<Longrightarrow> hptr h y \<in> S"
  shows "S = F"
proof -
  note L = linkedD [OF l]
  have "y \<in> S" if "x \<in> S" "y \<in> F" for x y
    using that(1)
  proof (induction "hops F x y" arbitrary: x rule: less_induct)
    case less
    show ?case
    proof (cases "x = y")
      case False
      have "x \<in> F" using less(2) S(1) by blast
      then have "hops F (hptr h x) y < hops F x y" using hops_succ [OF L(1) _ that(2) False] L(4) by simp
      then show ?thesis using less(1) c [OF less(2)] by blast
    qed (use less in simp)
  qed
  then show ?thesis using S by blast
qed

text \<open>The scan ends, with a block that is large enough, or after a round in which none was.\<close>

lemma malloc_scan_ends:
  assumes l: "linked F h" and f: "freep h \<in> F" and "prevp \<in> F"
  shows "(\<exists>q. malloc_scan h n prevp (hptr h prevp) = Some (True, q, hptr h q) \<and> q \<in> F \<and> n \<le> hsize h (hptr h q)) \<or>
    (\<exists>q r S. malloc_scan h n prevp (hptr h prevp) = Some (False, q, r) \<and> S \<subseteq> F \<and> hptr h prevp \<in> S \<and>
      (\<forall>y \<in> S. hsize h y < n \<and> (y \<noteq> freep h \<longrightarrow> hptr h y \<in> S)))"
  using assms(3)
proof (induction "hops F (hptr h prevp) (freep h)" arbitrary: prevp rule: less_induct)
  case less
  note L = linkedD [OF l]
  let ?p = "hptr h prevp"
  have p: "?p \<in> F" using L(5) [OF less(2)] .
  consider (big) "n \<le> hsize h ?p" | (round) "hsize h ?p < n" "?p = freep h" | (next_block) "hsize h ?p < n" "?p \<noteq> freep h" by force
  then show ?case
  proof cases
    case big
    then show ?thesis using less(2) by (subst (1 2) malloc_scan.simps) auto
  next
    case round
    then show ?thesis using p by (intro disjI2 exI [of _ prevp] exI [of _ ?p] exI [of _ "{?p}"]) (subst malloc_scan.simps, auto)
  next
    case next_block
    have "hops F (hptr h ?p) (freep h) < hops F ?p (freep h)" using hops_succ [OF L(1) p f next_block(2)] L(4) [OF p] by simp
    from less(1) [OF this p] show ?thesis
    proof
      assume "\<exists>q. malloc_scan h n ?p (hptr h ?p) = Some (True, q, hptr h q) \<and> q \<in> F \<and> n \<le> hsize h (hptr h q)"
      then show ?thesis using next_block by (subst (1 2) malloc_scan.simps) auto
    next
      assume "\<exists>q r S. malloc_scan h n ?p (hptr h ?p) = Some (False, q, r) \<and> S \<subseteq> F \<and> hptr h ?p \<in> S \<and>
        (\<forall>y \<in> S. hsize h y < n \<and> (y \<noteq> freep h \<longrightarrow> hptr h y \<in> S))"
      then obtain q r S where S: "malloc_scan h n ?p (hptr h ?p) = Some (False, q, r)" "S \<subseteq> F" "hptr h ?p \<in> S"
        "\<forall>y \<in> S. hsize h y < n \<and> (y \<noteq> freep h \<longrightarrow> hptr h y \<in> S)" by blast
      then show ?thesis using next_block p by (intro disjI2 exI [of _ q] exI [of _ r] exI [of _ "insert ?p S"]) (subst malloc_scan.simps, auto)
    qed
  qed
qed

text \<open>The block \<open>b\<close> of \<open>n\<close> units has been taken out of the bytes \<open>A\<close> that were free.\<close>

definition taken :: "nat set \<Rightarrow> u64 \<Rightarrow> u32 \<Rightarrow> u64 \<Rightarrow> u64 set \<Rightarrow> uheap \<Rightarrow> bool" where
  "taken A base n b F' h' \<longleftrightarrow> heap_ok F' h' \<and> hsize h' b = n \<and> block_bytes b n \<subseteq> A \<and> free_bytes F' h' = A - block_bytes b n \<and>
     base < b \<and> hbase h' = base \<and> end_of b n \<le> heap_limit"

lemma blocks_disjoint:
  assumes "sized F h" and "x \<in> F" and "y \<in> F" and "x \<noteq> y"
  shows "block_bytes x (hsize h x) \<inter> block_bytes y (hsize h y) = {}"
proof -
  have "end_of x (hsize h x) \<le> unat y \<or> end_of y (hsize h y) \<le> unat x" using assms unfolding sized_def by (metis linorder_neqE)
  then show ?thesis by (auto simp: block_bytes_def)
qed

lemma free_bytes_rest:
  assumes "sized F h" and "x \<in> F"
  shows "free_bytes (F - {x}) h = free_bytes F h - block_bytes x (hsize h x)"
  using free_bytes_split [OF assms(2), of h] blocks_disjoint [OF assms] by (fastforce simp: free_bytes_def)

lemma take_whole:
  assumes ok: "heap_ok F h" and q: "q \<in> F" and n: "hsize h (hptr h q) = n" "n \<noteq> 0"
  shows "taken (free_bytes F h) (hbase h) n (hptr h q) (F - {hptr h q}) ((set_ptr q (hptr h (hptr h q)) h)\<lparr>freep := q\<rparr>)"
proof -
  have l: "linked F h" and s: "sized F h" using ok by (auto simp: heap_ok_def)
  note L = linkedD [OF l]
  let ?p = "hptr h q"
  have p: "?p \<in> F" "?p \<noteq> hbase h" using L(5) [OF q] n s by (auto simp: sized_def)
  have "?p \<noteq> Min F" using p(2) L(6) by simp
  then have "\<exists>x \<in> F. q < x" using succ_in_top [of F q] L(4) [OF q] by (metis not_le)
  then have up: "q < ?p" using succ_in_up(1) [OF L(1)] L(4) [OF q] by auto
  have "linked (F - {?p}) (set_ptr q (hptr h ?p) h)" by (rule unlink_linked [OF l q up])
  moreover have "sized (F - {?p}) (set_ptr q (hptr h ?p) h)" using s by (auto simp: sized_def set_ptr_def)
  ultimately have "heap_ok (F - {?p}) ((set_ptr q (hptr h ?p) h)\<lparr>freep := q\<rparr>)"
    using ok q up by (auto simp: heap_ok_def) (auto simp: set_ptr_def)
  moreover have "free_bytes (F - {?p}) ((set_ptr q (hptr h ?p) h)\<lparr>freep := q\<rparr>) = free_bytes F h - block_bytes ?p n"
    using free_bytes_rest [OF s p(1)] n free_bytes_cong [of "F - {?p}" "(set_ptr q (hptr h ?p) h)\<lparr>freep := q\<rparr>" h] by (simp add: heap_defs)
  moreover have "block_bytes ?p n \<subseteq> free_bytes F h" using p(1) n(1) by (auto simp: free_bytes_def)
  moreover have "hbase h < ?p" using L(3) [OF p(1)] p(2) by simp
  moreover have "end_of ?p n \<le> heap_limit" using s p(1) n(1) by (auto simp: sized_def)
  ultimately show ?thesis using n by (simp add: taken_def heap_defs)
qed

lemma take_tail:
  assumes ok: "heap_ok F h" and q: "q \<in> F" "p \<in> F" and n: "n < hsize h p" "n \<noteq> 0" and b: "b = hadd p (hsize h p - n)"
  shows "taken (free_bytes F h) (hbase h) n b F ((set_size b n (set_size p (hsize h p - n) h))\<lparr>freep := q\<rparr>)"
proof -
  have l: "linked F h" and s: "sized F h" using ok by (auto simp: heap_ok_def)
  note L = linkedD [OF l]
  have lim: "end_of p (hsize h p) \<le> heap_limit" "hbase h \<le> p" "p \<noteq> hbase h" using s q(2) n L(3) by (auto simp: sized_def)
  have sub: "unat (hsize h p - n) = unat (hsize h p) - unat n" "unat n < unat (hsize h p)"
    using unat_sub [OF less_imp_le [OF n(1)]] n(1) by (simp_all add: word_less_nat_alt)
  moreover have "0 < unat n" using n(2) by (simp add: unat_gt_0)
  ultimately have e0: "end_of p (hsize h p - n) < end_of p (hsize h p)" by (simp add: end_of_def)
  have ub: "unat b = end_of p (hsize h p - n)" unfolding b by (rule hadd_end) (use limit_small [OF lim(1)] e0 in simp)
  have eb: "end_of b n = end_of p (hsize h p)" using ub sub by (simp add: end_of_def)
  have pb: "unat p < unat b" using ub sub by (simp add: end_of_def)
  have bF: "b \<notin> F"
  proof
    assume "b \<in> F"
    then have "end_of p (hsize h p) \<le> unat b" using s q(2) pb by (auto simp: sized_def word_less_nat_alt)
    then show False using ub e0 by simp
  qed
  let ?h = "(set_size b n (set_size p (hsize h p - n) h))\<lparr>freep := q\<rparr>"
  have hs: "hsize ?h x = (if x = p then hsize h p - n else hsize h x)" if "x \<in> F" for x using that bF by (auto simp: heap_defs)
  have hb: "hsize ?h b = n" "hbase ?h = hbase h" "hptr ?h = hptr h" "freep ?h = q" by (auto simp: heap_defs)
  have bp: "block_bytes b n \<subseteq> block_bytes p (hsize h p)" using eb pb by (auto simp: block_bytes_def)
  have lk: "linked F ?h" using l by (simp add: linked_def hb)
  have sz: "sized F ?h"
    unfolding sized_def hb(2)
  proof (intro conjI ballI impI)
    have nz: "hsize h p - n \<noteq> 0" using n(1) by auto
    have le: "end_of x (hsize ?h x) \<le> end_of x (hsize h x)" if "x \<in> F" for x using hs [OF that] e0 by simp
    show "hsize ?h (hbase h) = 0" using hs [OF L(2)] lim(3) s by (simp add: sized_def)
    show "hsize ?h x \<noteq> 0" if "x \<in> F" "x \<noteq> hbase h" for x using hs [OF that(1)] nz s that by (simp add: sized_def)
    show "end_of x (hsize ?h x) \<le> heap_limit" if "x \<in> F" for x using le [OF that] s that unfolding sized_def by (meson le_trans)
    show "end_of x (hsize ?h x) \<le> unat y" if "x \<in> F" "y \<in> F" "x < y" for x y using le [OF that(1)] s that unfolding sized_def by (meson le_trans)
  qed
  have fb: "free_bytes F ?h = free_bytes F h - block_bytes b n"
  proof -
    have f: "free_bytes (F - {p}) ?h = free_bytes (F - {p}) h" by (rule free_bytes_cong) (use bF in \<open>auto simp: heap_defs\<close>)
    have "hsize ?h p = hsize h p - n" using hs [OF q(2)] by simp
    then have P: "block_bytes p (hsize ?h p) = block_bytes p (hsize h p) - block_bytes b n"
      using ub eb e0 pb by (auto simp: block_bytes_def)
    have "block_bytes b n \<inter> free_bytes (F - {p}) h = {}" using free_bytes_rest [OF s q(2)] bp by auto
    then have "block_bytes p (hsize h p) - block_bytes b n \<union> free_bytes (F - {p}) h = block_bytes p (hsize h p) \<union> free_bytes (F - {p}) h - block_bytes b n"
      by blast
    then show ?thesis unfolding free_bytes_split [OF q(2), of h] free_bytes_split [OF q(2), of ?h] f P .
  qed
  have sub_b: "block_bytes b n \<subseteq> free_bytes F h" using bp q(2) by (auto simp: free_bytes_def)
  have lt: "hbase h < b" using lim(2) pb by (simp add: word_less_nat_alt word_le_nat_alt)
  have "heap_ok F ?h" unfolding heap_ok_def hb using lk sz q(1) ok by (simp only: heap_ok_def simp_thms)
  moreover have "end_of b n \<le> heap_limit" using eb lim(1) by simp
  ultimately show ?thesis unfolding taken_def hb using fb sub_b lt by blast
qed

lemma take_block_correct:
  assumes ok: "heap_ok F h" and q: "q \<in> F" and n: "n \<le> hsize h (hptr h q)" "n \<noteq> 0"
  shows "\<exists>b h' F'. take_block n q (hptr h q) h = (b + 16, h') \<and> taken (free_bytes F h) (hbase h) n b F' h'"
proof (cases "hsize h (hptr h q) = n")
  case True
  then show ?thesis using take_whole [OF ok q True n(2)] by (auto simp: take_block_def)
next
  case False
  have "hptr h q \<in> F" using ok linkedD(5) q by (auto simp: heap_ok_def)
  moreover have "n < hsize h (hptr h q)" using False n(1) by simp
  ultimately show ?thesis using take_tail [OF ok q _ _ n(2) refl] False by (auto simp: take_block_def Let_def)
qed

lemma word_block_bytes:
  assumes "n \<noteq> 0" and "block_bytes b n \<subseteq> block_bytes x m"
  shows "n \<le> m"
proof -
  have "card (block_bytes b n) \<le> card (block_bytes x m)" using assms(2) by (intro card_mono) (auto simp: block_bytes_def)
  then show ?thesis by (simp add: block_bytes_def end_of_def word_le_nat_alt)
qed

text \<open>
  What \<open>morecore\<close> relies on: \<open>sbrk\<close> fails, or gives memory for \<open>n\<close> units that is above \<open>base\<close> and not in use.
\<close>

definition sbrk_ok :: "u64 set \<Rightarrow> uheap \<Rightarrow> u32 \<Rightarrow> sysans \<Rightarrow> bool" where
  "sbrk_ok F h n a \<longleftrightarrow> ret a = -1 \<or>
     hbase h < word_of_int (ret a) \<and> end_of (word_of_int (ret a)) n \<le> heap_limit \<and> block_bytes (word_of_int (ret a)) n \<inter> free_bytes F h = {}"

definition core_units :: "u32 \<Rightarrow> u32" where
  "core_units n = (if n < 4096 then 4096 else n)"

lemma new_block_ok:
  assumes ok: "heap_ok F h" and n: "n \<noteq> 0" and b: "hbase h < b" "end_of b n \<le> heap_limit" "block_bytes b n \<inter> free_bytes F h = {}"
  shows "b \<notin> F" "heap_ok F (set_size b n h)" "block_ok F (set_size b n h) b" "free_bytes F (set_size b n h) = free_bytes F h"
proof -
  have s: "sized F h" using ok by (simp add: heap_ok_def)
  show bF: "b \<notin> F"
  proof
    assume "b \<in> F"
    then have "hsize h b \<noteq> 0" using s b(1) by (auto simp: sized_def)
    then show False using block_start [of "hsize h b" b] block_start [OF n, of b] \<open>b \<in> F\<close> b(3) by (auto simp: free_bytes_def)
  qed
  have "linked F (set_size b n h)" "freep (set_size b n h) = freep h" "hbase (set_size b n h) = hbase h" using ok by (auto simp: heap_ok_def linked_def set_size_def)
  moreover have "sized F (set_size b n h)" using s bF b(1) unfolding sized_def set_size_def by auto
  ultimately show "heap_ok F (set_size b n h)" using ok by (simp add: heap_ok_def)
  show f: "free_bytes F (set_size b n h) = free_bytes F h" by (rule free_bytes_cong) (use bF in \<open>auto simp: set_size_def\<close>)
  show "block_ok F (set_size b n h) b" using b n f by (simp add: block_ok_def) (simp add: set_size_def)
qed

lemma morecore_correct:
  assumes ok: "heap_ok F h" and a: "sbrk_ok F h (core_units n) a" "ret a \<noteq> -1"
    and b: "b = word_of_int (ret a)" and q: "q = SSbrk (sint (ucast (ucast (core_units n) * 16 :: u64) :: u32))"
  shows "\<exists>F1 h1. morecore n h (a # as) = ([q], URet (freep h1, h1), as) \<and> heap_ok F1 h1 \<and> hbase h1 = hbase h \<and>
    free_bytes F1 h1 = free_bytes F h \<union> block_bytes b (core_units n) \<and> (\<exists>x \<in> F1. core_units n \<le> hsize h1 x)"
proof -
  let ?m = "core_units n"
  have m: "?m \<noteq> 0" by (cases "n = 0") (auto simp: core_units_def)
  have "hbase h < b" "end_of b ?m \<le> heap_limit" "block_bytes b ?m \<inter> free_bytes F h = {}" using a b by (auto simp: sbrk_ok_def)
  note N = new_block_ok [OF ok m this]
  obtain F1 h1 where F1: "free_um (b + 16) (set_size b ?m h) = Some h1" "heap_ok F1 h1" "hbase h1 = hbase (set_size b ?m h)"
      "free_bytes F1 h1 = free_bytes F (set_size b ?m h) \<union> block_bytes b (hsize (set_size b ?m h) b)" "covers (insert b F) (set_size b ?m h) F1 h1"
    using free_correct [OF N(2,3)] by blast
  have hs: "hsize (set_size b ?m h) b = ?m" "hbase (set_size b ?m h) = hbase h" by (simp_all add: set_size_def)
  obtain x where x: "x \<in> F1" "block_bytes b ?m \<subseteq> block_bytes x (hsize h1 x)" using F1(5) hs(1) unfolding covers_def by fastforce
  have "?m \<le> hsize h1 x" by (rule word_block_bytes [OF m x(2)])
  moreover have "morecore n h (a # as) = ([q], URet (freep h1, h1), as)"
    unfolding morecore_def core_units_def [symmetric] Let_def using F1(1) a(2) b q by (simp add: sysr_def ubind_def sys_def ureturn_def)
  ultimately show ?thesis using F1 N(4) hs x(1) by auto
qed

lemma morecore_fails: "ret a = -1 \<Longrightarrow> morecore n h (a # as) = ([SSbrk (sint (ucast (ucast (core_units n) * 16 :: u64) :: u32))], URet (0, h), as)"
  unfolding morecore_def core_units_def [symmetric] Let_def by (simp add: sysr_def ubind_def sys_def ureturn_def)

lemma malloc_scan_full:
  assumes ok: "heap_ok F h" and "\<forall>x \<in> F. hsize h x < n"
  shows "\<exists>q r. malloc_scan h n (freep h) (hptr h (freep h)) = Some (False, q, r)"
proof -
  have l: "linked F h" "freep h \<in> F" using ok by (auto simp: heap_ok_def)
  have "\<not> n \<le> hsize h (hptr h q)" if "q \<in> F" for q using assms(2) linkedD(5) [OF l(1) that] by (meson leD)
  then show ?thesis using malloc_scan_ends [OF l l(2), of n] by blast
qed

lemma malloc_loop_fit:
  assumes ok: "heap_ok F h" and n: "n \<noteq> 0" and x: "x \<in> F" "n \<le> hsize h x"
  shows "\<exists>b h' F'. malloc_loop n (freep h) (hptr h (freep h)) h as = ([], URet (b + 16, h'), as) \<and> taken (free_bytes F h) (hbase h) n b F' h'"
proof -
  have l: "linked F h" "freep h \<in> F" using ok by (auto simp: heap_ok_def)
  have "S = F" if "S \<subseteq> F" "hptr h (freep h) \<in> S" "\<forall>y \<in> S. hsize h y < n \<and> (y \<noteq> freep h \<longrightarrow> hptr h y \<in> S)" for S
    using circle_closed [OF l(1) that(1,2)] that by metis
  then have "\<not> (S \<subseteq> F \<and> hptr h (freep h) \<in> S \<and> (\<forall>y \<in> S. hsize h y < n \<and> (y \<noteq> freep h \<longrightarrow> hptr h y \<in> S)))" for S
    using x leD by blast
  then obtain q where q: "malloc_scan h n (freep h) (hptr h (freep h)) = Some (True, q, hptr h q)" "q \<in> F" "n \<le> hsize h (hptr h q)"
    using malloc_scan_ends [OF l l(2), of n] by blast
  show ?thesis using take_block_correct [OF ok q(2,3) n] q(1) by (subst malloc_loop.simps) (auto simp: ureturn_def)
qed

lemma unat_units: "unat (units nbytes) = (unat nbytes + 15) div 16 + 1"
proof -
  have n: "unat (ucast nbytes :: u64) = unat nbytes"
    using unat_less_u32 [of nbytes] by (simp add: unsigned_ucast_eq take_bit_nat_eq_self)
  have "unat (ucast nbytes + 16 - 1 :: u64) = unat nbytes + 15" using n unat_less_u32 [of nbytes] by (simp add: unat_word_ariths)
  then have "unat ((ucast nbytes + 16 - 1) div 16 + 1 :: u64) = (unat nbytes + 15) div 16 + 1"
    using unat_less_u32 [of nbytes] by (simp add: unat_word_ariths unat_div)
  then show ?thesis using unat_less_u32 [of nbytes] by (simp add: units_def unsigned_ucast_eq take_bit_nat_eq_self)
qed

lemma core_units_facts:
  assumes "unat nbytes < 2 ^ 31 - 32"
  shows "units nbytes \<noteq> 0" "units nbytes \<le> core_units (units nbytes)"
    "sint (ucast (ucast (core_units (units nbytes)) * 16 :: u64) :: u32) = 16 * int (unat (core_units (units nbytes)))"
proof -
  let ?m = "core_units (units nbytes)"
  show "units nbytes \<noteq> 0" using unat_units [of nbytes] by auto
  show "units nbytes \<le> ?m" by (auto simp: core_units_def)
  have m: "16 * unat ?m < 2 ^ 31" using assms by (auto simp: core_units_def unat_units)
  have "unat (ucast ?m :: u64) = unat ?m" using unat_less_u32 [of ?m] by (simp add: unsigned_ucast_eq take_bit_nat_eq_self)
  then have "unat (ucast ?m * 16 :: u64) = 16 * unat ?m" using m by (simp add: unat_word_ariths)
  then have "unat (ucast (ucast ?m * 16 :: u64) :: u32) = unat (of_nat (16 * unat ?m) :: u32)"
    using m by (simp add: unsigned_ucast_eq take_bit_nat_eq_self unat_word_ariths)
  then have "(ucast (ucast ?m * 16 :: u64) :: u32) = of_nat (16 * unat ?m)" by (rule unsigned_word_eqI)
  then show "sint (ucast (ucast ?m * 16 :: u64) :: u32) = 16 * int (unat ?m)" using sint_of_nat_u32 [OF m] by simp
qed

lemma malloc_init_ok: "freep h = 0 \<Longrightarrow> hbase h \<noteq> 0 \<Longrightarrow> unat (hbase h) \<le> heap_limit \<Longrightarrow> heap_ok {hbase h} (malloc_init h)"
  by (simp add: heap_ok_def linked_def sized_def malloc_init_def heap_defs succ_in_def end_of_def)

text \<open>
  C39. \<open>free\<close> of a block ends, and the free blocks afterwards have exactly the bytes of the block in addition, whichever
  of its neighbours it has been merged with. The list is again circular and in the order of the addresses, without overlaps, and no header outside of it and the block has
  changed its size.
\<close>

theorem free_returns_block:
  assumes "heap_ok F h" and "block_ok F h b"
  shows "\<exists>F' h'. free_um (b + 16) h = Some h' \<and> heap_ok F' h' \<and> free_bytes F' h' = free_bytes F h \<union> block_bytes b (hsize h b) \<and>
    F' \<subseteq> insert b F \<and> (\<forall>y. y \<notin> insert b F \<longrightarrow> hsize h' y = hsize h y)"
  using free_correct [OF assms] by blast

text \<open>
  C38. \<open>malloc\<close> returns a block with room for the bytes asked for, taken out of the free ones, without a system call when a free block is large
  enough. Otherwise it asks \<open>sbrk\<close> once, for at least 4096 units, and takes the block out of the free bytes and the new
  ones, or returns 0 with the list as it was when there are none. The rest of the free bytes stays free, and the list stays in order.
\<close>

theorem malloc_gives_block:
  assumes ok: "heap_ok F (malloc_init h)" and small: "unat nbytes < 2 ^ 31 - 32" and a: "sbrk_ok F (malloc_init h) (core_units (units nbytes)) a"
  shows "unat nbytes + 16 \<le> 16 * unat (units nbytes) \<and>
    (if \<exists>x \<in> F. units nbytes \<le> hsize (malloc_init h) x
     then \<exists>b h' F'. malloc_um nbytes h (a # as) = ([], URet (b + 16, h'), a # as) \<and>
       taken (free_bytes F (malloc_init h)) (hbase h) (units nbytes) b F' h'
     else if ret a = -1
     then malloc_um nbytes h (a # as) = ([SSbrk (16 * int (unat (core_units (units nbytes))))], URet (0, malloc_init h), as)
     else \<exists>b h' F'. malloc_um nbytes h (a # as) = ([SSbrk (16 * int (unat (core_units (units nbytes))))], URet (b + 16, h'), as) \<and>
       taken (free_bytes F (malloc_init h) \<union> block_bytes (word_of_int (ret a)) (core_units (units nbytes))) (hbase h) (units nbytes) b F' h')"
proof -
  let ?n = "units nbytes" and ?h = "malloc_init h"
  note N = core_units_facts [OF small]
  have hb: "hbase ?h = hbase h" by (simp add: malloc_init_def heap_defs)
  have m: "malloc_um nbytes h = malloc_loop ?n (freep ?h) (hptr ?h (freep ?h)) ?h" by (simp add: malloc_um_def Let_def)
  have room: "unat nbytes + 16 \<le> 16 * unat ?n" unfolding unat_units by simp
  consider (fit) x where "x \<in> F" "?n \<le> hsize ?h x" | (full) "\<forall>x \<in> F. hsize ?h x < ?n" by (meson not_le)
  then show ?thesis
  proof cases
    case fit
    then show ?thesis using malloc_loop_fit [OF ok N(1) fit, of "a # as"] room unfolding m hb by auto
  next
    case full
    obtain q r where s: "malloc_scan ?h ?n (freep ?h) (hptr ?h (freep ?h)) = Some (False, q, r)" using malloc_scan_full [OF ok full] by blast
    have no: "\<not> (\<exists>x \<in> F. ?n \<le> hsize ?h x)" using full by (meson leD)
    show ?thesis
    proof (cases "ret a = -1")
      case True
      have "malloc_um nbytes h (a # as) = ([SSbrk (16 * int (unat (core_units ?n)))], URet (0, ?h), as)"
        unfolding m using morecore_fails [OF True, of ?n ?h as] N(3) s by (subst malloc_loop.simps) (simp add: ubind_def ureturn_def)
      then show ?thesis using True room no by simp
    next
      case False
      obtain F1 h1 where mc: "morecore ?n ?h (a # as) = ([SSbrk (16 * int (unat (core_units ?n)))], URet (freep h1, h1), as)" "heap_ok F1 h1"
          "hbase h1 = hbase h" "free_bytes F1 h1 = free_bytes F ?h \<union> block_bytes (word_of_int (ret a)) (core_units ?n)" "\<exists>x \<in> F1. core_units ?n \<le> hsize h1 x"
        using morecore_correct [OF ok a False refl refl, of as] N(3) hb by auto
      obtain x where x: "x \<in> F1" "?n \<le> hsize h1 x" using mc(5) N(2) by (meson order_trans)
      obtain b h' F' where f: "malloc_loop ?n (freep h1) (hptr h1 (freep h1)) h1 as = ([], URet (b + 16, h'), as)"
          "taken (free_bytes F1 h1) (hbase h1) ?n b F' h'" using malloc_loop_fit [OF mc(2) N(1) x, of as] by blast
      have "freep h1 \<noteq> 0" using mc(2) linkedD(3) by (fastforce simp: heap_ok_def)
      then have "malloc_um nbytes h (a # as) = ([SSbrk (16 * int (unat (core_units ?n)))], URet (b + 16, h'), as)"
        unfolding m using mc(1) f(1) s by (subst malloc_loop.simps) (simp add: ubind_def)
      then show ?thesis using f(2) mc(3,4) False room no by auto
    qed
  qed
qed

section \<open>A first allocation\<close>

text \<open>A program before its first call of \<open>malloc\<close>, with \<open>base\<close> at \<open>0x1000\<close>; \<open>sbrk\<close> gives it memory at \<open>0x4000\<close>.\<close>

definition new_heap :: uheap where
  "new_heap = \<lparr>hptr = (\<lambda>_. 0), hsize = (\<lambda>_. 0), freep = 0, hbase = 0x1000\<rparr>"

definition sbrk_answer :: sysans where
  "sbrk_answer = \<lparr>ret = 0x4000, rbytes = [], rfds = (0, 0), rstat = \<lparr>ust_type = 0, ust_ino = 0, ust_size = 0\<rparr>\<rparr>"

lemma new_heap_ok: "heap_ok {0x1000} (malloc_init new_heap)"
  using malloc_init_ok [of new_heap] by (simp add: new_heap_def heap_limit_def)

lemma new_heap_size: "hsize (malloc_init new_heap) 0x1000 = 0"
  by (simp add: malloc_init_def new_heap_def heap_defs)

lemma new_heap_bytes: "free_bytes {0x1000} (malloc_init new_heap) = {}"
  by (simp add: free_bytes_def new_heap_size block_bytes_def end_of_def)

lemma units_100: "units 100 = 8" "core_units 8 = 4096"
  by (simp_all add: units_def core_units_def)

lemma new_heap_sbrk: "sbrk_ok {0x1000} (malloc_init new_heap) (core_units (units 100)) sbrk_answer"
  unfolding sbrk_ok_def new_heap_bytes by (simp add: units_100 sbrk_answer_def end_of_def heap_limit_def malloc_init_def new_heap_def heap_defs)

theorem malloc_gives_block_witness:
  "\<exists>b h' F'. malloc_um 100 new_heap [sbrk_answer] = ([SSbrk 65536], URet (b + 16, h'), []) \<and> taken (block_bytes 0x4000 4096) 0x1000 8 b F' h'"
proof -
  have "\<not> (\<exists>x \<in> {0x1000}. units 100 \<le> hsize (malloc_init new_heap) x)" by (simp add: new_heap_size units_100)
  moreover have "ret sbrk_answer \<noteq> -1" "word_of_int (ret sbrk_answer) = (0x4000 :: u64)" by (simp_all add: sbrk_answer_def)
  moreover have "hbase new_heap = 0x1000" by (simp add: new_heap_def)
  ultimately show ?thesis
    using malloc_gives_block [OF new_heap_ok _ new_heap_sbrk, of "[]"] by (simp add: new_heap_bytes units_100 del: bex_simps)
qed

text \<open>A block of four units at \<open>0x4000\<close>, to be freed with only \<open>base\<close> in the list.\<close>

definition one_block :: uheap where
  "one_block = set_size 0x4000 4 (malloc_init new_heap)"

lemma one_block_ok: "heap_ok {0x1000} one_block" "block_ok {0x1000} one_block 0x4000" "free_bytes {0x1000} one_block = {}" "hsize one_block 0x4000 = 4"
proof -
  have "hbase (malloc_init new_heap) < 0x4000" by (simp add: malloc_init_def new_heap_def heap_defs)
  note N = new_block_ok [OF new_heap_ok _ this, of 4, unfolded new_heap_bytes, folded one_block_def]
  show "heap_ok {0x1000} one_block" "block_ok {0x1000} one_block 0x4000" "free_bytes {0x1000} one_block = {}"
    using N(2,3,4) by (simp_all add: end_of_def heap_limit_def)
  show "hsize one_block 0x4000 = 4" by (simp add: one_block_def set_size_def)
qed

theorem free_returns_block_witness:
  "\<exists>F' h'. free_um (0x4000 + 16) one_block = Some h' \<and> heap_ok F' h' \<and> free_bytes F' h' = block_bytes 0x4000 4"
  using free_returns_block [OF one_block_ok(1,2)] unfolding one_block_ok(3,4) by blast

end
