(* ===== verification/Spec2Isabelle.thy ===== *)
theory Spec2Isabelle
  imports Usercopy Sleep_Wakeup Fs_Properties Virtio_Disk Trap Console_Line Grep Sh_Roundtrip Ls_Find Xargs Primes Umalloc_Blocks
begin

text \<open>
  A model of the xv6 operating system in \<open>src/lab1\<close> (the RISC-V kernel and its user programs) with the theorems that make
  it correct.

  \<^bold>\<open>The program.\<close> The kernel manages physical pages (\<open>kalloc.c\<close>), page tables (\<open>vm.c\<close>), processes (\<open>proc.c\<close>) with spin-locks
  and sleep-locks, a buffer cache (\<open>bio.c\<close>) over a disk driver (\<open>virtio_disk.c\<close>), a write-ahead log (\<open>log.c\<close>), a file system on it
  (\<open>fs.c\<close>), open files and pipes (\<open>file.c\<close>, \<open>pipe.c\<close>), the console (\<open>console.c\<close>, \<open>uart.c\<close>), and the system calls over all of these
  (\<open>sysfile.c\<close>, \<open>sysproc.c\<close>, \<open>exec.c\<close>), entered from \<open>trap.c\<close>. User programs reach it through the stubs of \<open>usys.pl\<close>.

  \<^bold>\<open>How kernel code is modelled.\<close> A C function is a HOL function of the same name from the state to an outcome: \<open>Ok\<close>, \<open>Panic\<close> with
  the message, \<open>Sleep\<close> on a channel, \<open>Spin\<close> on a spin-lock held elsewhere, or \<open>Nofuel\<close>. The state is a record that each component extends
  with its globals: \<open>kmem\<close>, \<open>kvm\<close>, \<open>machine\<close> (CPUs and locks), \<open>kproc\<close>, \<open>kbio\<close>, \<open>klog\<close>, \<open>kfs\<close>, \<open>kdev\<close>, \<open>kfile\<close>, \<open>kvirtio\<close>, \<open>kos\<close>; a function
  is typed for every extension of the record it needs. Most functions take the CPU \<open>c\<close> they run on and the index \<open>i\<close> of the current
  process. Machine integers are words of their width. Structures in memory or on the disk are bytes at their offsets; pointers into kernel
  tables are indices, and addresses of objects to sleep on are the constructors of \<open>chan\<close>. A function that calls \<open>swtch\<close> in the middle is split
  there (\<open>sleep_out\<close> and \<open>sleep_in\<close>, \<open>virtio_disk_submit\<close> and \<open>virtio_disk_wait\<close>). The functions of \<open>kalloc.c\<close> are atomic: the model leaves out
  the acquire and release of \<open>kmem.lock\<close> around each of them. The buffer cache calls \<open>disk_rw\<close>, the specification of the disk driver, which
  \<open>Virtio_Disk\<close> proves of the driver itself.

  \<^bold>\<open>How user programs are modelled.\<close> A program is a function from a list of answers, one for each system call, to the list
  of its system calls and how it ended: it has returned, exited, called \<open>exec\<close>, is waiting for an answer (\<open>UStuck\<close>), or has left what C
  defines (\<open>UCrash\<close>). What other processes and the kernel do is in the answers, so a theorem for all answers is one for every kernel; a \<open>fork\<close> that
  answers 0 continues as the child. Every loop around a system call ends because it uses up answers.

  \<^bold>\<open>The theories.\<close>
  \<^item> \<open>Prelude\<close>: machine words, outcomes, bytes of words, fields in blocks.
  \<^item> \<open>Memory\<close> (\<open>kernel/string.c\<close>): each routine as a loop, with its closed form. \<open>memmove\<close> on overlapping ranges, \<open>strncmp\<close>, \<open>safestrcpy\<close>.
  \<^item> \<open>Kalloc\<close> (\<open>kernel/kalloc.c\<close>): the free list threaded through the free pages. \<open>kinit\<close> frees every page once, \<open>kalloc\<close> is exclusive.
    The locale \<open>page_allocator\<close> is what the page tables rely on.
  \<^item> \<open>Vm\<close>, \<open>Pagetable\<close>, \<open>Uvm\<close>, \<open>Usercopy\<close>, \<open>Vm_Frame\<close> (\<open>kernel/vm.c\<close>): page tables in memory, their abstraction to a partial map of pages,
    \<open>mappages\<close> as an extension of the map, \<open>copyin\<close> and \<open>copyout\<close> against the translation, and what the operations leave alone.
  \<^item> \<open>Spinlock\<close> (\<open>kernel/spinlock.c\<close>): the functions, an interleaved step relation of all CPUs, mutual exclusion by invariant, and the
    functions as runs of the steps. \<open>Sleeplock\<close> (\<open>kernel/sleeplock.c\<close>): sleep-locks through accessors, and the locale \<open>sleeplock_at\<close> that buffers and
    inodes interpret.
  \<^item> \<open>Proc\<close>, \<open>Proc_Sched\<close>, \<open>Sleep_Wakeup\<close>, \<open>Process\<close> (\<open>kernel/proc.c\<close>): the process table; \<open>wakeup\<close>, \<open>kill\<close>, \<open>sleep\<close>, unique process ids; the
    interleaving of a sleeper and a waker, without lost wakeups; \<open>fork\<close>, \<open>exit\<close> and the rest that needs files.
  \<^item> \<open>Bio\<close>, \<open>Bio_Cache\<close> (\<open>kernel/bio.c\<close>): the doubly linked list, the current content of a block (\<open>bview\<close>), \<open>bread\<close> and \<open>brelse\<close> against it, the
    least recently used order.
  \<^item> \<open>Log\<close>, \<open>Log_Rounds\<close>, \<open>Log_Commit\<close>, \<open>Log_Crash\<close>, \<open>Log_Properties\<close> (\<open>kernel/log.c\<close>): the log with the history of disk writes; the writes of a
    commit; recovery from every prefix of them, repeated crashes included; \<open>log_write\<close>.
  \<^item> \<open>Fs\<close>, \<open>Fs_Ops\<close>, \<open>Fs_Blocks\<close>, \<open>Fs_Inodes\<close>, \<open>Fs_Files\<close>, \<open>Fs_Properties\<close> (\<open>kernel/fs.c\<close>): all functions; inside a transaction (\<open>tx\<close>) each is a
    change of the current contents: the bitmap, the inode cache with one entry for each inode, inodes on the disk and back, and the bytes of files through direct and
    indirect blocks, moved between the file and user memory, kernel memory or a local variable of the caller (\<open>kdst\<close>, \<open>ksrc\<close>). A write is atomic across
    crashes in terms of the file that the disk alone describes, size included (\<open>disk_file\<close>).
  \<^item> \<open>File\<close>, \<open>Ring\<close>, \<open>Pipe_Queue\<close> (\<open>kernel/file.c\<close>, \<open>kernel/pipe.c\<close>): pipes refine bounded queues; the locale \<open>fifo\<close> for circular
    buffers is interpreted on the pipe and on the console.
  \<^item> \<open>Console\<close>, \<open>Console_Line\<close> (\<open>kernel/uart.c\<close>, \<open>kernel/console.c\<close>, \<open>kernel/printf.c\<close>): the input ring as a line editor, and the panic when the transmitter is full.
  \<^item> \<open>Virtio\<close>, \<open>Virtio_Disk\<close> (\<open>kernel/virtio_disk.c\<close>): the driver, the device as a parameter that keeps to the virtio specification
    (\<open>virtio_device\<close>), and a whole \<open>virtio_disk_rw\<close>, through its sleep and the interrupt, as an implementation of \<open>disk_rw\<close>.
  \<^item> \<open>Exec\<close> (\<open>kernel/exec.c\<close>, argument fetching of \<open>kernel/syscall.c\<close>), \<open>Sysfile\<close> (\<open>kernel/sysfile.c\<close>,
    \<open>kernel/sysproc.c\<close>), \<open>Trap\<close> (\<open>kernel/syscall.c\<close>, \<open>kernel/trap.c\<close>, \<open>kernel/plic.c\<close>, \<open>kernel/main.c\<close>): definitions of every function.
  \<^item> \<open>User\<close> (\<open>user/ulib.c\<close>, \<open>user/printf.c\<close>), \<open>Utilities\<close>, \<open>Ls_Find\<close>, \<open>Primes\<close>: the library and the small programs.
  \<^item> \<open>Grep\<close> (\<open>user/grep.c\<close>): the matcher decides the language of the pattern; the lines printed do not depend on how the reads cut the input.
  \<^item> \<open>Sh\<close>, \<open>Sh_Parse\<close>, \<open>Sh_Roundtrip\<close> (\<open>user/sh.c\<close>): the parser ends, keeps words intact under NUL termination in place, and returns every
    command from its text; the interpreter as a program.
  \<^item> \<open>Umalloc\<close>, \<open>Umalloc_Blocks\<close> (\<open>user/umalloc.c\<close>): the circular list of free blocks in the order of their addresses; \<open>free\<close> with its merges
    and \<open>malloc\<close> against the set of free bytes.
  \<^item> \<open>Xargs\<close> (\<open>user/xargs.c\<close>): the exact bound on the input that stays within its buffer.

  \<^bold>\<open>Bounds.\<close> \<open>scan\<close> of the buffer list has as much fuel as there are buffers and the sentinel, and \<open>Bio\<close> proves that it reaches its end. \<open>freewalk\<close> takes
  a bound on the levels of a table; the kernel calls it with three. Chains of disk descriptors are followed for at most as many steps as there
  are descriptors, and the interrupt handlers take at most the number of pending bytes or requests that is given. The parser of the shell has depth four times the
  length of the line plus four, which the termination theorem shows to be enough; the recursion of \<open>find\<close> has depth above the number of answers, which the lemma \<open>find_deep\<close> of
  \<open>Ls_Find\<close> shows not to matter. The loops of the user allocator over its list are partial functions, which \<open>Umalloc_Blocks\<close> shows to end.

  \<^bold>\<open>Hypotheses.\<close> Theorems about a kernel function that takes locks assume \<open>calm\<close>: this CPU holds no lock and no lock is held by another
  CPU, so that the function runs from a point where it is not delayed; interleavings are the subject of \<open>Spinlock\<close> and \<open>Sleep_Wakeup\<close>. Theorems about blocks
  assume one device, a cache with a spare buffer, and for file contents that the blocks written are allocated already.

  \<^bold>\<open>Not modelled.\<close> Assembly (\<open>entry.S\<close>, \<open>swtch.S\<close>, \<open>trampoline.S\<close>, \<open>kernelvec.S\<close>, \<open>initcode.S\<close>) and the machine-mode set-up of \<open>start.c\<close>, which
  consist of accesses to registers that the state does not have; the accessors of those registers in \<open>riscv.h\<close>; the device configuration registers of the UART and the disk; the sending of bytes by the UART while a function runs; the
  printing of \<open>panic\<close>; \<open>ramdisk.c\<close>, which is not built; the callers of \<open>malloc\<close> have values in place of its blocks and no shortage of memory; the test drivers
  \<open>usertests.c\<close> and \<open>grind.c\<close>, which only make system calls and compare the results.
\<close>

end
